(* ===== verification/Prelude.thy ===== *)
theory Prelude
  imports Main "HOL-Library.Word"
begin

text \<open>
  What every component shares.
  \<^item> Outcomes of C code: a run either yields a value or stops with a \<open>cerror\<close> (a failed
    \<open>assert\<close>, an access outside a block, a read of an indeterminate byte, a null pointer, a
    string used after it was freed). \<open>rbind\<close> sequences such runs.
  \<^item> The C character set: \<open>char\<close> is signed and has eight bits, \<open>int\<close> has 32 bits,
    \<open>size_t\<close> has 64; \<open>isspace\<close> is the one of the "C" locale.
  \<^item> Blocks of memory: a list of bytes, a byte being \<open>None\<close> while it is indeterminate (as
    \<open>realloc\<close> leaves it). Every access is checked against the block.
  \<^item> Lemmas on lists, words and outcomes that the component proofs use.
\<close>

section \<open>Outcomes\<close>

datatype cerror = Assert_Fail | Out_Of_Bounds | Uninitialised | Null_Deref | Use_After_Free

type_synonym 'a res = "cerror + 'a"

definition rbind :: "'a res \<Rightarrow> ('a \<Rightarrow> 'b res) \<Rightarrow> 'b res" where
  "rbind m f = (case m of Inl e \<Rightarrow> Inl e | Inr x \<Rightarrow> f x)"

definition assert_c :: "bool \<Rightarrow> unit res" where
  "assert_c p = (if p then Inr () else Inl Assert_Fail)"

named_theorems res_iff "when a composed run succeeds"

lemma rbind_simps [simp]:
  "rbind (Inl e) f = Inl e"
  "rbind (Inr x) f = f x"
  by (simp_all add: rbind_def)

lemma rbind_cong [fundef_cong]:
  "m = m' \<Longrightarrow> (\<And>x. m' = Inr x \<Longrightarrow> f x = f' x) \<Longrightarrow> rbind m f = rbind m' f'"
  by (cases m') auto

lemma rbind_Inr_iff [res_iff]: "rbind m f = Inr y \<longleftrightarrow> (\<exists>x. m = Inr x \<and> f x = Inr y)"
  by (cases m) auto

lemma rbind_assoc: "rbind (rbind m f) g = rbind m (\<lambda>x. rbind (f x) g)"
  by (cases m) auto

lemma assert_c_simps [simp]: "assert_c True = Inr ()" "assert_c False = Inl Assert_Fail"
  by (simp_all add: assert_c_def)

lemma assert_c_Inr_iff [res_iff]: "assert_c p = Inr u \<longleftrightarrow> p"
  by (simp add: assert_c_def)

text \<open>\<open>rok m P\<close>: the run \<open>m\<close> does not fail, and its value satisfies \<open>P\<close>.\<close>

definition rok :: "'a res \<Rightarrow> ('a \<Rightarrow> bool) \<Rightarrow> bool" where
  "rok m P \<longleftrightarrow> (\<exists>x. m = Inr x \<and> P x)"

lemma rok_simps [simp]: "rok (Inr x) P \<longleftrightarrow> P x" "\<not> rok (Inl e) P"
  by (simp_all add: rok_def)

lemma rok_rbind: "rok (rbind m f) P \<longleftrightarrow> rok m (\<lambda>x. rok (f x) P)"
  by (cases m) auto

lemma rok_mono: "rok m P \<Longrightarrow> (\<And>x. P x \<Longrightarrow> Q x) \<Longrightarrow> rok m Q"
  by (auto simp: rok_def)

lemma rok_mono_prod:
  "rok m (\<lambda>(x, y). P x y) \<Longrightarrow> (\<And>x y. P x y \<Longrightarrow> Q x y) \<Longrightarrow> rok m (\<lambda>(x, y). Q x y)"
  by (auto simp: rok_def)

lemma rok_rbindI: "rok m P \<Longrightarrow> (\<And>x. P x \<Longrightarrow> rok (f x) Q) \<Longrightarrow> rok (rbind m f) Q"
  by (auto simp: rok_rbind elim: rok_mono)

lemma rokE: "rok m P \<Longrightarrow> (\<And>x. m = Inr x \<Longrightarrow> P x \<Longrightarrow> thesis) \<Longrightarrow> thesis"
  by (auto simp: rok_def)

lemma rok_InrD: "rok m P \<Longrightarrow> m = Inr x \<Longrightarrow> P x"
  by (auto simp: rok_def)

lemma rok_assert [simp]: "rok (assert_c p) P \<longleftrightarrow> p \<and> P ()"
  by (simp add: assert_c_def)

section \<open>Machine integers and characters\<close>

type_synonym size_t = "64 word"
type_synonym c_int = "32 word"

abbreviation INT_MAX :: int where "INT_MAX \<equiv> 2147483647"

abbreviation NUL :: char where "NUL \<equiv> CHR 0x00"

text \<open>The value of a signed \<open>char\<close> promoted to \<open>int\<close>, and the conversion back.\<close>

definition schar :: "char \<Rightarrow> int" where
  "schar c = (let n = of_char c :: int in if n < 128 then n else n - 256)"

definition char_of_int :: "int \<Rightarrow> char" where
  "char_of_int i = char_of (nat (i mod 256))"

definition EOF :: int where "EOF = -1"

definition isspace :: "int \<Rightarrow> bool" where
  "isspace i \<longleftrightarrow> i = 32 \<or> 9 \<le> i \<and> i \<le> 13"

lemma of_char_int_bounds: "0 \<le> (of_char c :: int)" "(of_char c :: int) < 256"
proof -
  have "(of_char c :: int) mod 256 = of_char c" by (rule of_char_mod_256)
  then show "0 \<le> (of_char c :: int)" "(of_char c :: int) < 256" by presburger+
qed

lemma schar_bounds: "-128 \<le> schar c" "schar c < 128"
  using of_char_int_bounds [of c] by (auto simp: schar_def Let_def)

lemma char_of_int_schar [simp]: "char_of_int (schar c) = c"
proof -
  have "schar c mod 256 = of_char c"
  proof (cases "(of_char c :: int) < 128")
    case True
    then show ?thesis using of_char_int_bounds [of c] by (simp add: schar_def)
  next
    case False
    then have "schar c = of_char c + (-1) * 256" by (simp add: schar_def)
    then have "schar c mod 256 = (of_char c :: int) mod 256" by (metis mod_mult_self1)
    then show ?thesis using of_char_int_bounds [of c] by simp
  qed
  then show ?thesis by (simp add: char_of_int_def)
qed

lemma schar_inj [simp]: "schar c = schar d \<longleftrightarrow> c = d"
  by (metis char_of_int_schar)

lemma schar_ascii [simp]:
  "\<not> schar (Char b0 b1 b2 b3 b4 b5 b6 False) < 0" "schar (Char b0 b1 b2 b3 b4 b5 b6 False) \<noteq> -1"
  "schar (Char b0 b1 b2 b3 b4 b5 b6 False) \<noteq> EOF" "EOF \<noteq> schar (Char b0 b1 b2 b3 b4 b5 b6 False)"
  "schar (Char b0 b1 b2 b3 b4 b5 b6 True) < 0"
  unfolding EOF_def by (cases b0; cases b1; cases b2; cases b3; cases b4; cases b5; cases b6; simp add: schar_def)+

lemma schar_NUL [simp]: "schar NUL = 0"
  by (simp add: schar_def)

section \<open>Blocks of memory\<close>

type_synonym block = "char option list"

definition mem_get :: "block \<Rightarrow> nat \<Rightarrow> char res" where
  "mem_get m i = (if i < length m then (case m ! i of None \<Rightarrow> Inl Uninitialised | Some c \<Rightarrow> Inr c)
     else Inl Out_Of_Bounds)"

definition mem_set :: "block \<Rightarrow> nat \<Rightarrow> char \<Rightarrow> block res" where
  "mem_set m i c = (if i < length m then Inr (m[i := Some c]) else Inl Out_Of_Bounds)"

text \<open>\<open>memcpy\<close> of \<open>n\<close> bytes from another object to offset \<open>off\<close> of the block.\<close>

definition memcpy :: "block \<Rightarrow> nat \<Rightarrow> char list \<Rightarrow> nat \<Rightarrow> block res" where
  "memcpy m off data n =
     (if n \<le> length data \<and> off + n \<le> length m
      then Inr (take off m @ map Some (take n data) @ drop (off + n) m) else Inl Out_Of_Bounds)"

text \<open>\<open>memmove\<close> of \<open>n\<close> bytes within the block.\<close>

definition memmove :: "block \<Rightarrow> nat \<Rightarrow> nat \<Rightarrow> nat \<Rightarrow> block res" where
  "memmove m dst from n =
     (if from + n \<le> length m \<and> dst + n \<le> length m
      then Inr (take dst m @ take n (drop from m) @ drop (dst + n) m) else Inl Out_Of_Bounds)"

definition realloc :: "block \<Rightarrow> size_t \<Rightarrow> block" where
  "realloc m n = take (unat n) m @ replicate (unat n - length m) None"

text \<open>\<open>strlen\<close> of a C string, given as the characters before its terminator.\<close>

definition strlen :: "string \<Rightarrow> size_t" where
  "strlen s = of_nat (length s)"

text \<open>The C string that starts at the head of a byte sequence: what precedes the first null.\<close>

definition cstr :: "char list \<Rightarrow> string" where
  "cstr cs = takeWhile (\<lambda>c. c \<noteq> NUL) cs"

lemma cstr_id [simp]: "NUL \<notin> set s \<Longrightarrow> cstr s = s"
  by (auto simp: cstr_def intro: takeWhile_eq_all_conv [THEN iffD2])

lemma cstr_append_NUL [simp]: "cstr (s @ NUL # t) = cstr s"
  unfolding cstr_def by (induction s) auto

lemma NUL_notin_cstr [simp]: "NUL \<notin> set (cstr s)"
  unfolding cstr_def by (auto dest: set_takeWhileD)

lemma rok_mem_set [simp]: "rok (mem_set m i c) P \<longleftrightarrow> i < length m \<and> P (m[i := Some c])"
  by (simp add: mem_set_def)

lemma rok_mem_get [simp]:
  "rok (mem_get m i) P \<longleftrightarrow> i < length m \<and> m ! i \<noteq> None \<and> P (the (m ! i))"
  by (auto simp: mem_get_def split: option.splits)

lemma rok_memcpy [simp]:
  "rok (memcpy m off d n) P \<longleftrightarrow> n \<le> length d \<and> off + n \<le> length m \<and>
     P (take off m @ map Some (take n d) @ drop (off + n) m)"
  by (auto simp: memcpy_def)

lemma rok_memmove [simp]:
  "rok (memmove m dst from n) P \<longleftrightarrow> from + n \<le> length m \<and> dst + n \<le> length m \<and>
     P (take dst m @ take n (drop from m) @ drop (dst + n) m)"
  by (auto simp: memmove_def)

lemma length_realloc [simp]: "length (realloc m n) = unat n"
  by (simp add: realloc_def)

lemma take_realloc: "k \<le> length m \<Longrightarrow> k \<le> unat n \<Longrightarrow> take k (realloc m n) = take k m"
  by (simp add: realloc_def)

text \<open>\<open>strdup\<close> of the string at the start of a block.\<close>

fun strdup_block :: "block \<Rightarrow> string res" where
  "strdup_block [] = Inl Out_Of_Bounds"
| "strdup_block (None # m) = Inl Uninitialised"
| "strdup_block (Some c # m) = (if c = NUL then Inr [] else rbind (strdup_block m) (\<lambda>s. Inr (c # s)))"

lemma strdup_block_Some: "strdup_block (map Some s @ Some NUL # m) = Inr (cstr s)"
  by (induction s) (auto simp: cstr_def)

section \<open>Words\<close>

lemma unat_add_size_t:
  fixes a b :: size_t
  assumes "unat a + unat b < 2 ^ 64"
  shows "unat (a + b) = unat a + unat b"
  using assms by (simp add: unat_word_ariths)

lemma unat_of_nat_size_t: "n < 2 ^ 64 \<Longrightarrow> unat (of_nat n :: size_t) = n"
  by (simp add: unat_of_nat)

lemma size_t_less: "a < b \<longleftrightarrow> unat a < unat b" for a b :: size_t
  by (rule word_less_nat_alt)

lemma size_t_le: "a \<le> b \<longleftrightarrow> unat a \<le> unat b" for a b :: size_t
  by (rule word_le_nat_alt)

lemma unat_lt_size_t: "unat (a :: size_t) < 2 ^ 64"
  using unsigned_less [of a, where ?'a = nat] by simp

lemma unat_sub_size_t: "b \<le> a \<Longrightarrow> unat (a - b) = unat a - unat b" for a b :: size_t
  by (rule unat_sub)

lemma unat_eq_0_size_t: "unat a = 0 \<longleftrightarrow> a = 0" for a :: size_t
  by (rule unat_eq_zero)

lemma strlen_unat: "length s < 2 ^ 64 \<Longrightarrow> unat (strlen s) = length s"
  by (simp add: strlen_def unat_of_nat_size_t)

lemmas size_t_simps = size_t_less size_t_le unat_sub_size_t

section \<open>Lists\<close>

lemma take_min_length [simp]: "take (min (length xs) n) xs = take n xs"
  by (simp add: min_def)

lemma drop_list_update_same: "i < length xs \<Longrightarrow> drop i (xs[i := x]) = x # drop (Suc i) xs"
  by (simp add: drop_update_swap flip: Cons_nth_drop_Suc)

lemma all_SomeD: "None \<notin> set xs \<Longrightarrow> map Some (map the xs) = xs"
  by (induction xs) (auto simp: image_iff)

end
