(* ===== verification/Buf.thy ===== *)
theory Buf
  imports Prelude
begin

text \<open>
  The growable string buffer, \<open>src/buf.c\<close> and \<open>src/buf.h\<close>.

  A \<open>buf_t\<close> holds the block it points to, the three \<open>size_t\<close> counters of the C structure
  and nothing else. While \<open>alloc\<close> is zero the block is the static one-byte \<open>buf_initial\<close>.
  Every load and store goes through the bounds-checked block operations of the prelude and every
  \<open>assert\<close> is an error branch, so "the operation returns \<open>Inr\<close>" says that the C function
  neither aborts nor leaves its block. Arithmetic on the counters is 64-bit and wraps.
  Allocation itself is taken to succeed.

  \<open>wf_buf\<close> is the invariant, \<open>content\<close> the text a buffer holds, \<open>fits\<close> the only size
  condition the operations need. The locale \<open>text_buffer\<close> at the end is the interface the
  parser, the values and the composer are verified against.
\<close>

section \<open>State and operations\<close>

record buf_t =
  bf_mem :: block
  bf_alloc :: size_t
  bf_len :: size_t
  bf_pos :: size_t

definition buf_initial :: block where
  "buf_initial = [Some NUL]"

definition GROW_N :: "size_t \<Rightarrow> size_t" where
  "GROW_N n = (n + 16) * 3 div 2"

definition GROW :: "block \<Rightarrow> size_t \<Rightarrow> size_t \<Rightarrow> block \<times> size_t" where
  "GROW p want cur =
     (if want > cur
      then (let cur' = (if GROW_N cur < want then want else GROW_N cur) in (realloc p cur', cur'))
      else (p, cur))"

definition buf_grow :: "buf_t \<Rightarrow> size_t \<Rightarrow> buf_t res" where
  "buf_grow b extra =
     (let new_buf = (bf_alloc b = 0);
          p = (if new_buf then [] else bf_mem b);
          (p', cur) = GROW p (bf_len b + extra + 1) (bf_alloc b)
      in if new_buf
         then rbind (mem_set p' 0 NUL) (\<lambda>p''. Inr (b\<lparr>bf_mem := p'', bf_alloc := cur\<rparr>))
         else Inr (b\<lparr>bf_mem := p', bf_alloc := cur\<rparr>))"

definition buf_empty :: buf_t where
  "buf_empty = \<lparr>bf_mem = buf_initial, bf_alloc = 0, bf_len = 0, bf_pos = 0\<rparr>"

definition buf_init :: "size_t \<Rightarrow> buf_t res" where
  "buf_init hint = (if hint \<noteq> 0 then buf_grow buf_empty hint else Inr buf_empty)"

definition buf_release :: "buf_t \<Rightarrow> buf_t res" where
  "buf_release b = (if bf_alloc b \<noteq> 0 then buf_init 0 else Inr b)"

text \<open>\<open>buf_detach\<close> hands out the block and its length and leaves an empty buffer.\<close>

definition buf_detach :: "buf_t \<Rightarrow> (block \<times> size_t \<times> buf_t) res" where
  "buf_detach b =
     rbind (buf_grow b 0) (\<lambda>b1.
     rbind (buf_init 0) (\<lambda>b2.
     Inr (bf_mem b1, bf_len b1, b2)))"

definition buf_setlen :: "buf_t \<Rightarrow> size_t \<Rightarrow> buf_t res" where
  "buf_setlen b n =
     rbind (assert_c (if bf_alloc b \<noteq> 0 then n < bf_alloc b else n = 0)) (\<lambda>_.
     rbind (mem_set (bf_mem b) (unat n) NUL) (\<lambda>m.
     Inr (b\<lparr>bf_mem := m, bf_len := n, bf_pos := (if bf_pos b > n then n else bf_pos b)\<rparr>)))"

definition buf_avail :: "buf_t \<Rightarrow> size_t" where
  "buf_avail b = (if bf_alloc b \<noteq> 0 then bf_alloc b - bf_len b - 1 else 0)"

definition buf_addch :: "buf_t \<Rightarrow> int \<Rightarrow> buf_t res" where
  "buf_addch b c =
     rbind (buf_grow b 1) (\<lambda>b1.
     rbind (mem_set (bf_mem b1) (unat (bf_len b1)) (char_of_int c)) (\<lambda>m1.
     rbind (mem_set m1 (unat (bf_len b1 + 1)) NUL) (\<lambda>m2.
     Inr (b1\<lparr>bf_mem := m2, bf_len := bf_len b1 + 1\<rparr>))))"

text \<open>The data of \<open>buf_add\<close> is the object it points to, \<open>None\<close> for a null pointer.\<close>

definition buf_add :: "buf_t \<Rightarrow> char list option \<Rightarrow> size_t \<Rightarrow> buf_t res" where
  "buf_add b data n =
     (case data of
        None \<Rightarrow> Inr b
      | Some d \<Rightarrow>
          rbind (buf_grow b n) (\<lambda>b1.
          rbind (memcpy (bf_mem b1) (unat (bf_len b1)) d (unat n)) (\<lambda>m.
          buf_setlen (b1\<lparr>bf_mem := m\<rparr>) (bf_len b1 + n))))"

definition buf_addstr :: "buf_t \<Rightarrow> string \<Rightarrow> buf_t res" where
  "buf_addstr b s = buf_add b (Some s) (strlen s)"

text \<open>
  \<open>vsnprintf\<close> of a format whose expansion is \<open>s\<close>: it stores at most \<open>sz - 1\<close> characters
  and a null, and returns the length of \<open>s\<close>, or a negative number when an \<open>int\<close> cannot
  hold it.
\<close>

definition vsnprintf :: "block \<Rightarrow> nat \<Rightarrow> size_t \<Rightarrow> string \<Rightarrow> (block \<times> int) res" where
  "vsnprintf m off sz s =
     rbind (if sz = 0 then Inr m
            else (let out = take (unat sz - 1) s @ [NUL] in memcpy m off out (length out)))
       (\<lambda>m'. Inr (m', if int (length s) \<le> INT_MAX then int (length s) else -1))"

definition buf_vaddf :: "buf_t \<Rightarrow> string \<Rightarrow> buf_t res" where
  "buf_vaddf b s =
     rbind (if buf_avail b = 0 then buf_grow b 64 else Inr b) (\<lambda>b1.
     rbind (vsnprintf (bf_mem b1) (unat (bf_len b1)) (bf_alloc b1 - bf_len b1) s) (\<lambda>(m1, n1).
     rbind (assert_c (n1 \<ge> 0)) (\<lambda>_.
     let b2 = b1\<lparr>bf_mem := m1\<rparr> in
     rbind (if (of_int n1 :: size_t) > buf_avail b2
            then rbind (buf_grow b2 (of_int n1)) (\<lambda>b3.
                 rbind (vsnprintf (bf_mem b3) (unat (bf_len b3)) (bf_alloc b3 - bf_len b3) s)
                   (\<lambda>(m3, n3).
                 rbind (assert_c ((of_int n3 :: size_t) \<le> buf_avail b3)) (\<lambda>_.
                 Inr (b3\<lparr>bf_mem := m3\<rparr>, n3))))
            else Inr (b2, n1)) (\<lambda>(b4, n).
     buf_setlen b4 (bf_len b4 + of_int n)))))"

definition buf_addf :: "buf_t \<Rightarrow> string \<Rightarrow> buf_t res" where
  "buf_addf b s = buf_vaddf b s"

text \<open>A stream is the bytes still to be read from it; a short count means end of file or an error.\<close>

definition buf_fread :: "buf_t \<Rightarrow> size_t \<Rightarrow> char list \<Rightarrow> (size_t \<times> char list \<times> buf_t) res" where
  "buf_fread b sz f =
     (let oldalloc = bf_alloc b; data = take (unat sz) f;
          n = of_nat (length data) :: size_t; f' = drop (unat sz) f in
     rbind (buf_grow b sz) (\<lambda>b1.
     rbind (memcpy (bf_mem b1) (unat (bf_len b1)) data (length data)) (\<lambda>m.
     let b2 = b1\<lparr>bf_mem := m\<rparr> in
     if n > 0 then rbind (buf_setlen b2 (bf_len b2 + n)) (\<lambda>b3. Inr (n, f', b3))
     else if oldalloc = 0 then rbind (buf_release b2) (\<lambda>b3. Inr (n, f', b3))
     else Inr (n, f', b2))))"

subsection \<open>Reading a file descriptor\<close>

text \<open>
  What \<open>read(2)\<close> will do on a descriptor: each item is bytes that are ready or an error number;
  a call takes at most \<open>count\<close> of the ready bytes, and no item left means end of file.
\<close>

datatype read_item = Read_Data "char list" | Read_Error int

definition EAGAIN :: int where "EAGAIN = 11"

definition EINTR :: int where "EINTR = 4"

datatype read_result = Got "char list" | Failed int

fun read_c :: "read_item list \<Rightarrow> size_t \<Rightarrow> read_item list \<times> read_result" where
  "read_c [] count = ([], Got [])"
| "read_c (Read_Data d # fd) count =
     (if unat count < length d then (Read_Data (drop (unat count) d) # fd, Got (take (unat count) d))
      else (fd, Got d))"
| "read_c (Read_Error e # fd) count = (fd, Failed e)"

fun try_read :: "read_item list \<Rightarrow> size_t \<Rightarrow> read_item list \<times> read_result" where
  "try_read [] count = ([], Got [])"
| "try_read (Read_Data d # fd) count = read_c (Read_Data d # fd) count"
| "try_read (Read_Error e # fd) count =
     (if e = EAGAIN \<or> e = EINTR then try_read fd count else (fd, Failed e))"

text \<open>How much a descriptor can still deliver; every successful read lowers it.\<close>

fun fd_size :: "read_item list \<Rightarrow> nat" where
  "fd_size [] = 0"
| "fd_size (Read_Data d # fd) = Suc (length d + fd_size fd)"
| "fd_size (Read_Error e # fd) = Suc (fd_size fd)"

lemma try_read_decreases:
  "try_read fd count = (fd', Got d) \<Longrightarrow> d \<noteq> [] \<Longrightarrow> fd_size fd' < fd_size fd"
  by (induction fd count rule: try_read.induct) (auto split: if_splits)

text \<open>The loop of \<open>buf_read\<close>: \<open>Inr\<close> of the error number of a failed read, or \<open>None\<close>.\<close>

function buf_read_loop :: "buf_t \<Rightarrow> read_item list \<Rightarrow> (int option \<times> buf_t) res" where
  "buf_read_loop b fd =
     (case try_read fd (buf_avail b) of
        (fd', Failed e) \<Rightarrow> Inr (Some e, b)
      | (fd', Got d) \<Rightarrow>
          if d = [] then Inr (None, b)
          else rbind (memcpy (bf_mem b) (unat (bf_len b)) d (length d)) (\<lambda>m.
               rbind (buf_grow (b\<lparr>bf_mem := m, bf_len := bf_len b + of_nat (length d)\<rparr>) 8192) (\<lambda>b'.
               buf_read_loop b' fd')))"
  by pat_completeness auto
termination
  by (relation "measure (\<lambda>(b, fd). fd_size fd)") (auto intro: try_read_decreases [OF sym])

declare buf_read_loop.simps [simp del]

text \<open>
  The result is the C return value together with the error number the failed read left behind;
  the count of bytes is cut to an \<open>int\<close>.
\<close>

definition buf_read :: "buf_t \<Rightarrow> read_item list \<Rightarrow> size_t \<Rightarrow> (c_int \<times> int option \<times> buf_t) res" where
  "buf_read b fd hint =
     (let oldalloc = bf_alloc b; oldlen = bf_len b in
     rbind (buf_grow b (if hint \<noteq> 0 then hint else 8192)) (\<lambda>b1.
     rbind (buf_read_loop b1 fd) (\<lambda>(err, b2).
     case err of
       Some e \<Rightarrow>
         rbind (if oldalloc \<noteq> 0 then buf_setlen b2 oldlen else buf_release b2) (\<lambda>b3.
         Inr (-1, Some e, b3))
     | None \<Rightarrow>
         rbind (mem_set (bf_mem b2) (unat (bf_len b2)) NUL) (\<lambda>m.
         Inr (ucast (bf_len b2 - oldlen), None, b2\<lparr>bf_mem := m\<rparr>)))))"

text \<open>
  A file as the system calls see it: \<open>open\<close> fails with an error number or gives a descriptor,
  and \<open>close\<close> may fail with an error number.
\<close>

record file_c =
  fl_open :: "int + read_item list"
  fl_close :: "int option"

definition buf_read_file :: "buf_t \<Rightarrow> file_c \<Rightarrow> size_t \<Rightarrow> (c_int \<times> int option \<times> buf_t) res" where
  "buf_read_file b file hint =
     (case fl_open file of
        Inl e \<Rightarrow> Inr (-1, Some e, b)
      | Inr fd \<Rightarrow>
          rbind (buf_read b fd hint) (\<lambda>(n, err, b').
          case fl_close file of
            Some e \<Rightarrow> Inr (-1, Some e, b')
          | None \<Rightarrow> Inr (n, err, b')))"

subsection \<open>Editing\<close>

text \<open>The scan of \<open>buf_ltrim\<close> from index \<open>i\<close>, and that of \<open>buf_rtrim\<close> down from \<open>n\<close>.\<close>

function ltrim_scan :: "block \<Rightarrow> nat \<Rightarrow> nat \<Rightarrow> nat res" where
  "ltrim_scan m i n =
     (if i < n then rbind (mem_get m i) (\<lambda>c. if isspace (schar c) then ltrim_scan m (Suc i) n else Inr i)
      else Inr i)"
  by pat_completeness auto
termination
  by (relation "measure (\<lambda>(m, i, n). n - i)") auto

fun rtrim_scan :: "block \<Rightarrow> nat \<Rightarrow> nat res" where
  "rtrim_scan m 0 = Inr 0"
| "rtrim_scan m (Suc n) =
     rbind (mem_get m n) (\<lambda>c. if isspace (schar c) then rtrim_scan m n else Inr (Suc n))"

declare ltrim_scan.simps [simp del]

definition buf_ltrim :: "buf_t \<Rightarrow> buf_t res" where
  "buf_ltrim b =
     rbind (ltrim_scan (bf_mem b) 0 (unat (bf_len b))) (\<lambda>k.
     let b1 = b\<lparr>bf_pos := (if bf_pos b < of_nat k then 0 else bf_pos b - of_nat k)\<rparr> in
     rbind (memmove (bf_mem b1) 0 k (unat (bf_len b1) - k)) (\<lambda>m.
     buf_setlen (b1\<lparr>bf_mem := m\<rparr>) (bf_len b1 - of_nat k)))"

definition buf_rtrim :: "buf_t \<Rightarrow> buf_t res" where
  "buf_rtrim b = rbind (rtrim_scan (bf_mem b) (unat (bf_len b))) (\<lambda>n. buf_setlen b (of_nat n))"

text \<open>
  \<open>buf_splice\<close>: \<open>delta\<close> and \<open>off\<close> are \<open>int\<close>s, so the differences of \<open>size_t\<close>s are cut to
  32 bits; comparisons of \<open>off\<close> with a \<open>size_t\<close> extend its sign.
\<close>

definition buf_splice :: "buf_t \<Rightarrow> c_int \<Rightarrow> size_t \<Rightarrow> char list option \<Rightarrow> size_t \<Rightarrow> buf_t res" where
  "buf_splice b off0 n data data_len =
     (let delta = (ucast (data_len - n) :: c_int);
          off = (if sint off0 < 0 then ucast (bf_len b + scast off0) else off0);
          at = (scast off :: size_t) in
     rbind (assert_c (sint off \<ge> 0 \<and> at \<le> bf_len b)) (\<lambda>_.
     rbind (assert_c (at + n \<le> bf_len b)) (\<lambda>_.
     rbind (assert_c (data_len = 0 \<or> data \<noteq> None)) (\<lambda>_.
     rbind (if sint delta > 0 then buf_grow b (scast delta) else Inr b) (\<lambda>b1.
     rbind (if delta \<noteq> 0
            then memmove (bf_mem b1) (unat (at + data_len)) (unat (at + n)) (unat (bf_len b1 - at - n))
            else Inr (bf_mem b1)) (\<lambda>m1.
     rbind (if data_len \<noteq> 0 then memcpy m1 (unat at) (the data) (unat data_len) else Inr m1) (\<lambda>m2.
     buf_setlen (b1\<lparr>bf_mem := m2\<rparr>) (bf_len b1 + scast delta))))))))"

definition buf_splicestr :: "buf_t \<Rightarrow> c_int \<Rightarrow> size_t \<Rightarrow> string option \<Rightarrow> buf_t res" where
  "buf_splicestr b off n s = buf_splice b off n s (case s of None \<Rightarrow> 0 | Some t \<Rightarrow> strlen t)"

subsection \<open>Reading a buffer character by character\<close>

definition buf_fgetc :: "buf_t \<Rightarrow> (int \<times> buf_t) res" where
  "buf_fgetc b =
     (if bf_pos b < bf_len b
      then rbind (mem_get (bf_mem b) (unat (bf_pos b))) (\<lambda>c. Inr (schar c, b\<lparr>bf_pos := bf_pos b + 1\<rparr>))
      else Inr (EOF, b))"

definition buf_ungetc :: "buf_t \<Rightarrow> int \<Rightarrow> (int \<times> buf_t) res" where
  "buf_ungetc b c =
     (if bf_pos b > 0
      then rbind (mem_set (bf_mem b) (unat (bf_pos b - 1)) (char_of_int c)) (\<lambda>m.
           Inr (schar (char_of_int c), b\<lparr>bf_mem := m, bf_pos := bf_pos b - 1\<rparr>))
      else Inr (EOF, b))"

definition buf_ftell :: "buf_t \<Rightarrow> size_t" where
  "buf_ftell b = bf_pos b"

definition buf_rewind :: "buf_t \<Rightarrow> buf_t" where
  "buf_rewind b = b\<lparr>bf_pos := 0\<rparr>"

section \<open>Invariant and abstraction\<close>

text \<open>
  \<open>raw_buf\<close> is what holds while the terminator has still to be written, \<open>wf_buf\<close> what holds
  between operations.
\<close>

definition raw_buf :: "buf_t \<Rightarrow> bool" where
  "raw_buf b \<longleftrightarrow>
     (if bf_alloc b = 0 then bf_mem b = buf_initial else length (bf_mem b) = unat (bf_alloc b)) \<and>
     unat (bf_len b) < length (bf_mem b) \<and> bf_pos b \<le> bf_len b \<and>
     None \<notin> set (take (unat (bf_len b)) (bf_mem b))"

definition wf_buf :: "buf_t \<Rightarrow> bool" where
  "wf_buf b \<longleftrightarrow> raw_buf b \<and> bf_mem b ! unat (bf_len b) = Some NUL"

definition content :: "buf_t \<Rightarrow> char list" where
  "content b = map the (take (unat (bf_len b)) (bf_mem b))"

definition fits :: "buf_t \<Rightarrow> nat \<Rightarrow> bool" where
  "fits b n \<longleftrightarrow> unat (bf_len b) + n + 1 < 2 ^ 64"

lemma raw_bufD:
  assumes "raw_buf b"
  shows "unat (bf_len b) < length (bf_mem b)" "bf_pos b \<le> bf_len b"
    "None \<notin> set (take (unat (bf_len b)) (bf_mem b))"
  using assms by (auto simp: raw_buf_def)

lemma wf_raw [intro, dest]: "wf_buf b \<Longrightarrow> raw_buf b"
  by (simp add: wf_buf_def)

lemma length_content: "raw_buf b \<Longrightarrow> length (content b) = unat (bf_len b)"
  by (auto simp: content_def dest: raw_bufD)

lemma wf_buf_empty [simp]: "wf_buf buf_empty"
  by (simp add: wf_buf_def raw_buf_def buf_empty_def buf_initial_def)

lemma content_buf_empty [simp]: "content buf_empty = []"
  by (simp add: content_def buf_empty_def)

lemma bf_pos_buf_empty [simp]: "bf_pos buf_empty = 0"
  by (simp add: buf_empty_def)

subsection \<open>Growing\<close>

text \<open>
  Whatever \<open>GROW_N\<close> wraps to, the capacity that \<open>GROW\<close> settles on covers what was asked for.
\<close>

lemma GROW_capacity: "snd (GROW p want cur) \<ge> want" "snd (GROW p want cur) \<ge> cur"
  by (auto simp: GROW_def Let_def)

lemma GROW_block:
  assumes "length p = unat cur"
  shows "length (fst (GROW p want cur)) = unat (snd (GROW p want cur))"
    and "take (unat cur) (fst (GROW p want cur)) = p"
proof -
  have "unat cur \<le> unat (snd (GROW p want cur))"
    using GROW_capacity(2) by (simp add: size_t_le)
  then show "length (fst (GROW p want cur)) = unat (snd (GROW p want cur))"
    and "take (unat cur) (fst (GROW p want cur)) = p"
    using assms by (auto simp: GROW_def Let_def take_realloc)
qed

text \<open>The state after a growth: a fresh block and capacity, the rest as before.\<close>

definition grown :: "buf_t \<Rightarrow> nat \<Rightarrow> buf_t \<Rightarrow> bool" where
  "grown b n b' \<longleftrightarrow> raw_buf b' \<and> bf_len b' = bf_len b \<and> bf_pos b' = bf_pos b \<and>
     bf_alloc b' \<noteq> 0 \<and> length (bf_mem b') = unat (bf_alloc b') \<and>
     unat (bf_len b) + n < unat (bf_alloc b') \<and>
     take (Suc (unat (bf_len b))) (bf_mem b') = take (Suc (unat (bf_len b))) (bf_mem b)"

lemma grown_content: "grown b n b' \<Longrightarrow> content b' = content b"
proof -
  let ?l = "unat (bf_len b)"
  assume g: "grown b n b'"
  then have "take ?l (take (Suc ?l) (bf_mem b')) = take ?l (take (Suc ?l) (bf_mem b))"
    by (simp only: grown_def)
  then show ?thesis using g by (simp add: content_def grown_def)
qed

lemma grown_wf: assumes "grown b n b'" "wf_buf b" shows "wf_buf b'"
proof -
  let ?l = "unat (bf_len b)"
  have "bf_mem b' ! ?l = take (Suc ?l) (bf_mem b') ! ?l" by simp
  also have "\<dots> = bf_mem b ! ?l" using assms(1) by (simp add: grown_def)
  finally show ?thesis using assms by (simp add: wf_buf_def grown_def)
qed

lemma unat_want:
  assumes "fits b (unat extra)"
  shows "unat (bf_len b + extra + 1) = unat (bf_len b) + unat extra + 1"
proof -
  have "unat (bf_len b + extra) = unat (bf_len b) + unat extra"
    using assms by (intro unat_add_size_t) (simp add: fits_def)
  then show ?thesis using assms by (subst unat_add_size_t) (simp_all add: fits_def)
qed

lemma buf_grow_ok:
  assumes raw: "raw_buf b" and fit: "fits b (unat extra)"
  shows "rok (buf_grow b extra) (grown b (unat extra))"
proof -
  let ?l = "unat (bf_len b)" and ?want = "bf_len b + extra + 1"
  define p where "p = (if bf_alloc b = 0 then [] else bf_mem b)"
  define q where "q = fst (GROW p ?want (bf_alloc b))"
  define a where "a = snd (GROW p ?want (bf_alloc b))"
  have p: "length p = unat (bf_alloc b)"
    using raw by (auto simp: p_def raw_buf_def)
  have a: "?l + unat extra < unat a"
    using GROW_capacity(1) [of ?want p "bf_alloc b"] unat_want [OF fit] by (simp add: a_def size_t_le)
  have q: "length q = unat a" "take (unat (bf_alloc b)) q = p"
    using GROW_block [OF p] by (simp_all add: q_def a_def)
  have a0: "a \<noteq> 0" using a by auto
  show ?thesis
  proof (cases "bf_alloc b = 0")
    case True
    then have m: "bf_mem b = buf_initial" and l: "bf_len b = 0" "bf_pos b = 0"
      using raw by (auto simp: raw_buf_def buf_initial_def unat_eq_0_size_t)
    have "take 1 (q[0 := Some NUL]) = [Some NUL]"
      using a q(1) by (cases q) auto
    then have "grown b (unat extra) (b\<lparr>bf_mem := q[0 := Some NUL], bf_alloc := a\<rparr>)"
      using a a0 q(1) l m by (simp add: grown_def raw_buf_def buf_initial_def)
    then show ?thesis
      using True a q(1) l unfolding buf_grow_def
      by (simp add: rok_rbind split_beta p_def q_def a_def)
  next
    case False
    then have "Suc ?l \<le> unat (bf_alloc b)" using raw by (auto simp: raw_buf_def)
    then have t: "take (Suc ?l) q = take (Suc ?l) (bf_mem b)"
      using q(2) False by (metis min.absorb1 p_def take_take)
    then have "take ?l q = take ?l (bf_mem b)"
      by (metis Suc_n_not_le_n nat_le_linear min.absorb1 take_take)
    then have "grown b (unat extra) (b\<lparr>bf_mem := q, bf_alloc := a\<rparr>)"
      using a a0 q(1) t raw False by (simp add: grown_def raw_buf_def)
    then show ?thesis
      using False unfolding buf_grow_def
      by (simp add: split_beta Let_def p_def q_def a_def)
  qed
qed

subsection \<open>Releasing, detaching, setting the length\<close>

lemma buf_init_ok:
  assumes "unat hint + 1 < 2 ^ 64"
  shows "rok (buf_init hint) (\<lambda>b. wf_buf b \<and> content b = [] \<and> bf_pos b = 0 \<and>
    (unat hint = 0 \<or> unat hint < unat (bf_alloc b)))"
proof (cases "hint = 0")
  case True
  then show ?thesis by (simp add: buf_init_def)
next
  case False
  have "rok (buf_grow buf_empty hint) (grown buf_empty (unat hint))"
    using assms by (intro buf_grow_ok wf_raw) (auto simp: fits_def, simp add: buf_empty_def)
  then have "rok (buf_grow buf_empty hint) (\<lambda>b. wf_buf b \<and> content b = [] \<and> bf_pos b = 0 \<and>
    (unat hint = 0 \<or> unat hint < unat (bf_alloc b)))"
    by (rule rok_mono)
      (use grown_wf grown_content in \<open>force simp: grown_def\<close>)
  with False show ?thesis by (simp add: buf_init_def)
qed

lemma buf_release_ok:
  "wf_buf b \<Longrightarrow> rok (buf_release b) (\<lambda>b'. b' = buf_empty)"
  by (cases b) (auto simp: buf_release_def buf_init_def wf_buf_def raw_buf_def buf_empty_def
      buf_initial_def unat_eq_0_size_t)

text \<open>All that \<open>buf_setlen\<close> needs: a block of the recorded capacity, initialised up to the new end.\<close>

definition sized :: "buf_t \<Rightarrow> bool" where
  "sized b \<longleftrightarrow> length (bf_mem b) = (if bf_alloc b = 0 then 1 else unat (bf_alloc b))"

lemma raw_sized [intro]: "raw_buf b \<Longrightarrow> sized b"
  by (auto simp: raw_buf_def sized_def buf_initial_def)

lemma buf_setlen_ok:
  assumes "sized b" and "unat n < length (bf_mem b)"
    and "None \<notin> set (take (unat n) (bf_mem b))"
  shows "rok (buf_setlen b n) (\<lambda>b'. wf_buf b' \<and>
     content b' = map the (take (unat n) (bf_mem b)) \<and> bf_len b' = n \<and>
     bf_pos b' = min (bf_pos b) n \<and> bf_alloc b' = bf_alloc b)"
proof -
  have "bf_alloc b = 0 \<Longrightarrow> n = 0" "bf_alloc b \<noteq> 0 \<Longrightarrow> n < bf_alloc b"
    using assms by (auto simp: sized_def size_t_less unat_eq_0_size_t)
  moreover have "(if bf_pos b > n then n else bf_pos b) = min (bf_pos b) n"
    by (auto simp: min_def not_less dest: leD)
  moreover have "(bf_mem b)[0 := Some NUL] = buf_initial" if "bf_alloc b = 0"
    using that assms by (cases "bf_mem b") (auto simp: sized_def buf_initial_def)
  ultimately show ?thesis
    using assms
    by (auto simp: buf_setlen_def rok_rbind wf_buf_def raw_buf_def content_def sized_def)
qed

text \<open>A detached block is a C string block: the text, its terminator, and the spare room.\<close>

lemma buf_detach_ok:
  assumes "wf_buf b" and "fits b 0"
  shows "rok (buf_detach b) (\<lambda>(s, n, b'). b' = buf_empty \<and> unat n = length (content b) \<and>
     take (Suc (unat n)) s = map Some (content b) @ [Some NUL])"
proof -
  let ?l = "unat (bf_len b)"
  have "rok (buf_grow b 0) (grown b (unat (0 :: size_t)))"
    using assms by (intro buf_grow_ok) (auto simp: fits_def)
  then show ?thesis unfolding buf_detach_def
  proof (rule rok_rbindI)
    fix b1 assume g: "grown b (unat (0 :: size_t)) b1"
    have "take (Suc ?l) (bf_mem b1) = take (Suc ?l) (bf_mem b)" using g by (simp add: grown_def)
    also have "\<dots> = take ?l (bf_mem b) @ [Some NUL]"
      using assms(1) by (simp add: take_Suc_conv_app_nth wf_buf_def raw_buf_def)
    also have "take ?l (bf_mem b) = map Some (content b)"
      using all_SomeD [of "take ?l (bf_mem b)"] assms(1) by (auto simp: content_def wf_buf_def raw_buf_def)
    finally show "rok (rbind (buf_init 0) (\<lambda>b2. Inr (bf_mem b1, bf_len b1, b2)))
      (\<lambda>(s, n, b'). b' = buf_empty \<and> unat n = length (content b) \<and>
        take (Suc (unat n)) s = map Some (content b) @ [Some NUL])"
      using g length_content [of b] assms(1) by (auto simp: buf_init_def grown_def)
  qed
qed

subsection \<open>Appending\<close>

lemma buf_addch_ok:
  assumes "wf_buf b" and "fits b 1"
  shows "rok (buf_addch b c) (\<lambda>b'. wf_buf b' \<and> content b' = content b @ [char_of_int c] \<and>
     bf_pos b' = bf_pos b)"
  unfolding buf_addch_def
proof (rule rok_rbindI [OF buf_grow_ok])
  let ?l = "unat (bf_len b)"
  fix b1 assume g: "grown b (unat (1 :: size_t)) b1"
  have l: "unat (bf_len b + 1) = Suc ?l"
    using assms(2) by (subst unat_add_size_t) (auto simp: fits_def)
  have n: "None \<notin> set (take ?l (bf_mem b1))" "Suc ?l < length (bf_mem b1)"
    using g by (auto simp: grown_def raw_buf_def)
  have t: "take (Suc ?l) ((bf_mem b1)[?l := Some (char_of_int c)]) =
      take ?l (bf_mem b1) @ [Some (char_of_int c)]"
    using n(2) by (simp add: take_Suc_conv_app_nth)
  have "bf_pos b \<le> bf_len b + 1"
    using assms(1) l by (auto simp: size_t_le dest!: wf_raw raw_bufD(2))
  then show "rok (rbind (mem_set (bf_mem b1) (unat (bf_len b1)) (char_of_int c)) (\<lambda>m1.
     rbind (mem_set m1 (unat (bf_len b1 + 1)) NUL) (\<lambda>m2.
     Inr (b1\<lparr>bf_mem := m2, bf_len := bf_len b1 + 1\<rparr>))))
     (\<lambda>b'. wf_buf b' \<and> content b' = content b @ [char_of_int c] \<and> bf_pos b' = bf_pos b)"
    using g n t l grown_content [OF g]
    by (auto simp: rok_rbind grown_def wf_buf_def raw_buf_def content_def)
qed (use assms in auto)

text \<open>The last step of an append: the text is in place behind the old end, the length moves.\<close>

lemma buf_setlen_append:
  assumes raw: "raw_buf b1" and same: "bf_len b1 = bf_len b" "bf_pos b1 = bf_pos b"
    "length m = length (bf_mem b1)" "bf_alloc b1 \<noteq> 0"
    and room: "unat (bf_len b) + length s < length (bf_mem b1)"
    and t: "take (unat (bf_len b) + length s) m = map Some (content b) @ map Some s"
    and wf: "wf_buf b"
  shows "rok (buf_setlen (b1\<lparr>bf_mem := m\<rparr>) (bf_len b + of_nat (length s)))
     (\<lambda>b'. wf_buf b' \<and> content b' = content b @ s \<and> bf_pos b' = bf_pos b)"
proof -
  let ?l = "unat (bf_len b)" and ?b = "b1\<lparr>bf_mem := m\<rparr>" and ?n = "bf_len b + of_nat (length s)"
  have "length (bf_mem b1) < 2 ^ 64"
    using raw same unat_lt_size_t [of "bf_alloc b1"] by (simp add: raw_buf_def)
  then have n: "unat ?n = ?l + length s"
    using room by (subst unat_add_size_t) (simp_all add: unat_of_nat_size_t)
  have l: "length (content b) = ?l" using wf by (auto intro: length_content)
  have "take ?l m = take ?l (take (?l + length s) m)" by simp
  also have "\<dots> = map Some (content b)" unfolding t using l by simp
  finally have "raw_buf ?b" using raw same l by (simp add: raw_buf_def)
  then have "rok (buf_setlen ?b ?n) (\<lambda>b'. wf_buf b' \<and>
      content b' = map the (take (unat ?n) (bf_mem ?b)) \<and> bf_len b' = ?n \<and>
      bf_pos b' = min (bf_pos ?b) ?n \<and> bf_alloc b' = bf_alloc ?b)"
    using room same t by (intro buf_setlen_ok) (auto simp: n)
  then show ?thesis
  proof (rule rok_mono)
    have "min (bf_pos b) ?n = bf_pos b"
      using wf n by (auto simp: min_def size_t_le dest!: wf_raw raw_bufD(2))
    then show "wf_buf b' \<and> content b' = content b @ s \<and> bf_pos b' = bf_pos b"
      if "wf_buf b' \<and> content b' = map the (take (unat ?n) (bf_mem ?b)) \<and> bf_len b' = ?n \<and>
        bf_pos b' = min (bf_pos ?b) ?n \<and> bf_alloc b' = bf_alloc ?b" for b'
      using that by (simp add: n t same o_def)
  qed
qed

lemma content_Some: "raw_buf b \<Longrightarrow> take (unat (bf_len b)) (bf_mem b) = map Some (content b)"
  using all_SomeD [of "take (unat (bf_len b)) (bf_mem b)"] by (auto simp: content_def raw_buf_def)

lemma strdup_block_ok: assumes "wf_buf b" shows "strdup_block (bf_mem b) = Inr (cstr (content b))"
proof -
  let ?l = "unat (bf_len b)"
  have "bf_mem b = take ?l (bf_mem b) @ bf_mem b ! ?l # drop (Suc ?l) (bf_mem b)"
    using assms by (intro id_take_nth_drop) (auto simp: wf_buf_def raw_buf_def)
  also have "\<dots> = map Some (content b) @ Some NUL # drop (Suc ?l) (bf_mem b)"
    using assms by (simp add: content_Some wf_raw) (simp add: wf_buf_def)
  finally show ?thesis using strdup_block_Some by metis
qed

text \<open>The string in a detached block.\<close>

lemma strdup_detached:
  assumes "take (Suc n) m = map Some s @ [Some NUL]"
  shows "strdup_block m = Inr (cstr s)"
proof -
  have "m = map Some s @ Some NUL # drop (Suc n) m"
    using assms append_take_drop_id [of "Suc n" m] by simp
  then show ?thesis using strdup_block_Some by metis
qed

lemma contentI: "take (unat (bf_len b)) (bf_mem b) = map Some s \<Longrightarrow> content b = s"
  by (simp add: content_def o_def)

lemma buf_add_ok:
  assumes wf: "wf_buf b" and fit: "fits b (unat n)" and d: "unat n \<le> length d"
  shows "rok (buf_add b (Some d) n) (\<lambda>b'. wf_buf b' \<and> content b' = content b @ take (unat n) d \<and>
     bf_pos b' = bf_pos b)"
proof -
  let ?l = "unat (bf_len b)"
  have "rok (buf_grow b n) (grown b (unat n))"
    using wf fit by (intro buf_grow_ok) auto
  then have "rok (rbind (buf_grow b n) (\<lambda>b1.
      rbind (memcpy (bf_mem b1) (unat (bf_len b1)) d (unat n)) (\<lambda>m.
      buf_setlen (b1\<lparr>bf_mem := m\<rparr>) (bf_len b1 + n))))
    (\<lambda>b'. wf_buf b' \<and> content b' = content b @ take (unat n) d \<and> bf_pos b' = bf_pos b)"
  proof (rule rok_rbindI)
    fix b1 assume g: "grown b (unat n) b1"
    let ?m = "take ?l (bf_mem b1) @ map Some (take (unat n) d) @ drop (?l + unat n) (bf_mem b1)"
    have c: "take ?l (bf_mem b1) = map Some (content b)"
      using content_Some [of b1] grown_content [OF g] g by (simp add: grown_def)
    have "rok (buf_setlen (b1\<lparr>bf_mem := ?m\<rparr>) (bf_len b + of_nat (length (take (unat n) d))))
      (\<lambda>b'. wf_buf b' \<and> content b' = content b @ take (unat n) d \<and> bf_pos b' = bf_pos b)"
      using g wf d length_content [OF wf_raw [OF wf]]
      by (intro buf_setlen_append) (auto simp: grown_def c)
    then show "rok (rbind (memcpy (bf_mem b1) (unat (bf_len b1)) d (unat n)) (\<lambda>m.
      buf_setlen (b1\<lparr>bf_mem := m\<rparr>) (bf_len b1 + n)))
      (\<lambda>b'. wf_buf b' \<and> content b' = content b @ take (unat n) d \<and> bf_pos b' = bf_pos b)"
      using g d by (simp add: rok_rbind grown_def)
  qed
  then show ?thesis by (simp add: buf_add_def)
qed

lemma buf_addstr_ok:
  assumes "wf_buf b" and "fits b (length s)"
  shows "rok (buf_addstr b s) (\<lambda>b'. wf_buf b' \<and> content b' = content b @ s \<and> bf_pos b' = bf_pos b)"
proof -
  have "unat (strlen s) = length s" using assms(2) by (intro strlen_unat) (simp add: fits_def)
  then show ?thesis using buf_add_ok [of b "strlen s" s] assms by (simp add: buf_addstr_def)
qed

subsection \<open>Formatted output\<close>

lemma vsnprintf_ok:
  assumes "int (length s) \<le> INT_MAX" and "off + unat sz \<le> length m" and "sz \<noteq> 0"
  shows "rok (vsnprintf m off sz s) (\<lambda>(m', n). n = int (length s) \<and> length m' = length m \<and>
     take off m' = take off m \<and>
     (length s < unat sz \<longrightarrow> take (off + length s) m' = take off m @ map Some s))"
proof -
  have "0 < unat sz" using assms(3) by (simp add: unat_gt_0)
  moreover have "Suc (min (length s) (unat sz - 1)) \<le> unat sz" using calculation by simp
  ultimately show ?thesis
    using assms by (auto simp: vsnprintf_def rok_rbind Let_def min_def)
qed

lemma unat_of_int_length:
  "int (length s) \<le> INT_MAX \<Longrightarrow> unat (of_int (int (length s)) :: size_t) = length s"
  by (simp add: unat_of_nat_size_t)

lemma buf_avail_unat:
  assumes "raw_buf b" "bf_alloc b \<noteq> 0"
  shows "unat (bf_len b) + unat (buf_avail b) + 1 = unat (bf_alloc b)"
proof -
  have l: "unat (bf_len b) < unat (bf_alloc b)" using assms by (simp add: raw_buf_def)
  then have d: "unat (bf_alloc b - bf_len b) = unat (bf_alloc b) - unat (bf_len b)"
    by (simp add: unat_sub_size_t size_t_le)
  with l have "1 \<le> bf_alloc b - bf_len b" by (simp add: size_t_le)
  then have "unat (bf_alloc b - bf_len b - 1) = unat (bf_alloc b) - unat (bf_len b) - 1"
    by (simp add: unat_sub_size_t d)
  with l assms(2) show ?thesis by (simp add: buf_avail_def)
qed

text \<open>One pass of \<open>vsnprintf\<close> behind the text, with room for all of it.\<close>

lemma vsnprintf_append:
  assumes raw: "raw_buf b1" and same: "bf_len b1 = bf_len b" "bf_pos b1 = bf_pos b"
    "content b1 = content b" "bf_alloc b1 \<noteq> 0"
    and s: "int (length s) \<le> INT_MAX" and wf: "wf_buf b"
  shows "rok (vsnprintf (bf_mem b1) (unat (bf_len b1)) (bf_alloc b1 - bf_len b1) s) (\<lambda>(m, n).
     n = int (length s) \<and> raw_buf (b1\<lparr>bf_mem := m\<rparr>) \<and> content (b1\<lparr>bf_mem := m\<rparr>) = content b \<and>
     length m = length (bf_mem b1) \<and>
     (length s \<le> unat (buf_avail b1) \<longrightarrow>
      rok (buf_setlen (b1\<lparr>bf_mem := m\<rparr>) (bf_len b + of_nat (length s)))
        (\<lambda>b'. wf_buf b' \<and> content b' = content b @ s \<and> bf_pos b' = bf_pos b)))"
proof -
  let ?l = "unat (bf_len b)"
  have len: "length (bf_mem b1) = unat (bf_alloc b1)" "?l < unat (bf_alloc b1)"
    using raw same by (auto simp: raw_buf_def)
  have sz: "unat (bf_alloc b1 - bf_len b1) = unat (bf_alloc b1) - ?l"
    using len same by (simp add: unat_sub_size_t size_t_le)
  then have "bf_alloc b1 - bf_len b1 \<noteq> 0" using len by auto
  then have "rok (vsnprintf (bf_mem b1) ?l (bf_alloc b1 - bf_len b1) s) (\<lambda>(m', n).
     n = int (length s) \<and> length m' = length (bf_mem b1) \<and> take ?l m' = take ?l (bf_mem b1) \<and>
     (length s < unat (bf_alloc b1 - bf_len b1) \<longrightarrow>
       take (?l + length s) m' = take ?l (bf_mem b1) @ map Some s))"
    using s len sz by (intro vsnprintf_ok) auto
  then show ?thesis unfolding same(1)
  proof (rule rok_mono_prod)
    fix m n
    assume a: "n = int (length s) \<and> length m = length (bf_mem b1) \<and> take ?l m = take ?l (bf_mem b1) \<and>
     (length s < unat (bf_alloc b1 - bf_len b) \<longrightarrow>
       take (?l + length s) m = take ?l (bf_mem b1) @ map Some s)"
    note m = a [THEN conjunct2, THEN conjunct1] a [THEN conjunct2, THEN conjunct2, THEN conjunct1]
    have c: "take ?l (bf_mem b1) = map Some (content b)"
      using content_Some [OF raw] same by simp
    have r: "raw_buf (b1\<lparr>bf_mem := m\<rparr>)" "content (b1\<lparr>bf_mem := m\<rparr>) = content b"
      using raw m same c by (auto simp: raw_buf_def content_def)
    have "unat (buf_avail b1) + 1 = unat (bf_alloc b1 - bf_len b1)"
      using buf_avail_unat [OF raw same(4)] sz same len by simp
    then have "rok (buf_setlen (b1\<lparr>bf_mem := m\<rparr>) (bf_len b + of_nat (length s)))
        (\<lambda>b'. wf_buf b' \<and> content b' = content b @ s \<and> bf_pos b' = bf_pos b)"
      if "length s \<le> unat (buf_avail b1)"
      using that raw same a wf c sz len by (intro buf_setlen_append) auto
    with r a show "n = int (length s) \<and> raw_buf (b1\<lparr>bf_mem := m\<rparr>) \<and>
       content (b1\<lparr>bf_mem := m\<rparr>) = content b \<and> length m = length (bf_mem b1) \<and>
       (length s \<le> unat (buf_avail b1) \<longrightarrow>
        rok (buf_setlen (b1\<lparr>bf_mem := m\<rparr>) (bf_len b + of_nat (length s)))
          (\<lambda>b'. wf_buf b' \<and> content b' = content b @ s \<and> bf_pos b' = bf_pos b))"
      by blast
  qed
qed

text \<open>Where the formatted text fits at once, and where the buffer is grown and it is printed again.\<close>

lemma vaddf_retry_ok:
  assumes raw: "raw_buf b2" and same: "bf_len b2 = bf_len b" "bf_pos b2 = bf_pos b" "content b2 = content b"
    and s: "int (length s) \<le> INT_MAX" and wf: "wf_buf b" and fit: "fits b (length s)"
  shows "rok (buf_grow b2 (of_int (int (length s)))) (\<lambda>b3.
      rok (vsnprintf (bf_mem b3) (unat (bf_len b3)) (bf_alloc b3 - bf_len b3) s) (\<lambda>(m3, n3).
      (of_int n3 :: size_t) \<le> buf_avail b3 \<and>
      rok (buf_setlen (b3\<lparr>bf_mem := m3\<rparr>) (bf_len b3 + of_int n3))
        (\<lambda>b'. wf_buf b' \<and> content b' = content b @ s \<and> bf_pos b' = bf_pos b)))"
proof -
  let ?n = "of_int (int (length s)) :: size_t"
  have n: "unat ?n = length s" by (rule unat_of_int_length [OF s])
  have "rok (buf_grow b2 ?n) (grown b2 (unat ?n))"
    using raw fit n same by (intro buf_grow_ok) (auto simp: fits_def)
  then show ?thesis
  proof (rule rok_mono)
    fix b3 assume g: "grown b2 (unat ?n) b3"
    then have r3: "raw_buf b3" "bf_alloc b3 \<noteq> 0" "bf_len b3 = bf_len b" "bf_pos b3 = bf_pos b"
      "content b3 = content b"
      using grown_content [OF g] same by (auto simp: grown_def)
    have "length s \<le> unat (buf_avail b3)"
      using buf_avail_unat [OF r3(1,2)] g n r3(3) by (simp add: grown_def same)
    then show "rok (vsnprintf (bf_mem b3) (unat (bf_len b3)) (bf_alloc b3 - bf_len b3) s) (\<lambda>(m3, n3).
      (of_int n3 :: size_t) \<le> buf_avail b3 \<and>
      rok (buf_setlen (b3\<lparr>bf_mem := m3\<rparr>) (bf_len b3 + of_int n3))
        (\<lambda>b'. wf_buf b' \<and> content b' = content b @ s \<and> bf_pos b' = bf_pos b))"
      using vsnprintf_append [OF r3(1,3,4,5,2) s wf] n r3(3)
      by (elim rok_mono_prod) (auto simp: size_t_le)
  qed
qed

lemma buf_addf_ok:
  assumes wf: "wf_buf b" and s: "int (length s) \<le> INT_MAX" and fit: "fits b (length s + 64)"
  shows "rok (buf_addf b s) (\<lambda>b'. wf_buf b' \<and> content b' = content b @ s \<and> bf_pos b' = bf_pos b)"
proof -
  let ?first = "if buf_avail b = 0 then buf_grow b 64 else Inr b"
  let ?post = "\<lambda>b'. wf_buf b' \<and> content b' = content b @ s \<and> bf_pos b' = bf_pos b"
  have n: "unat (of_int (int (length s)) :: size_t) = length s" by (rule unat_of_int_length [OF s])
  have "rok (buf_grow b 64) (grown b (unat (64 :: size_t)))"
    using wf fit by (intro buf_grow_ok) (auto simp: fits_def)
  then have first: "rok ?first (\<lambda>b1. raw_buf b1 \<and> bf_alloc b1 \<noteq> 0 \<and> bf_len b1 = bf_len b \<and>
     bf_pos b1 = bf_pos b \<and> content b1 = content b)"
    using wf grown_content by (auto simp: grown_def buf_avail_def elim!: rok_mono)
  have "rok (buf_vaddf b s) ?post" unfolding buf_vaddf_def rok_rbind
  proof (rule rok_mono [OF first], goal_cases)
    case (1 b1)
    have one: "rok (vsnprintf (bf_mem b1) (unat (bf_len b1)) (bf_alloc b1 - bf_len b1) s) (\<lambda>(m, n).
      n = int (length s) \<and> raw_buf (b1\<lparr>bf_mem := m\<rparr>) \<and> content (b1\<lparr>bf_mem := m\<rparr>) = content b \<and>
      length m = length (bf_mem b1) \<and>
      (length s \<le> unat (buf_avail b1) \<longrightarrow>
       rok (buf_setlen (b1\<lparr>bf_mem := m\<rparr>) (bf_len b + of_nat (length s))) ?post))"
      using 1 s wf by (intro vsnprintf_append) auto
    have two: "rok (buf_grow (b1\<lparr>bf_mem := m\<rparr>) (of_int (int (length s)))) (\<lambda>b3.
      rok (vsnprintf (bf_mem b3) (unat (bf_len b3)) (bf_alloc b3 - bf_len b3) s) (\<lambda>(m3, n3).
      (of_int n3 :: size_t) \<le> buf_avail b3 \<and>
      rok (buf_setlen (b3\<lparr>bf_mem := m3\<rparr>) (bf_len b3 + of_int n3)) ?post))"
      if "raw_buf (b1\<lparr>bf_mem := m\<rparr>)" "content (b1\<lparr>bf_mem := m\<rparr>) = content b" for m
      using that 1 s wf fit by (intro vaddf_retry_ok) (auto simp: fits_def)
    show ?case
      by (rule rok_mono [OF one])
        (use two n 1 in \<open>auto simp: rok_rbind Let_def case_prod_unfold size_t_less buf_avail_def\<close>)
  qed
  then show ?thesis by (simp add: buf_addf_def)
qed

subsection \<open>Reading files\<close>

lemma buf_fread_ok:
  assumes wf: "wf_buf b" and fit: "fits b (unat sz)"
  shows "rok (buf_fread b sz f) (\<lambda>(n, f', b'). unat n = length (take (unat sz) f) \<and>
     f' = drop (unat sz) f \<and> wf_buf b' \<and> content b' = content b @ take (unat sz) f \<and>
     bf_pos b' = bf_pos b)"
proof -
  let ?d = "take (unat sz) f"
  have n: "unat (of_nat (length ?d) :: size_t) = length ?d"
    using fit by (intro unat_of_nat_size_t) (auto simp: fits_def)
  have emp: "content b = []" "bf_pos b = 0" if "bf_alloc b = 0"
    using that wf by (auto simp: wf_buf_def raw_buf_def content_def buf_initial_def unat_eq_0_size_t)
  have "rok (buf_grow b sz) (grown b (unat sz))"
    using wf fit by (intro buf_grow_ok) auto
  then show ?thesis unfolding buf_fread_def Let_def rok_rbind
  proof (rule rok_mono, goal_cases)
    case (1 b1)
    let ?l = "unat (bf_len b)"
    let ?m = "take ?l (bf_mem b1) @ map Some ?d @ drop (?l + length ?d) (bf_mem b1)"
    have c: "take ?l (bf_mem b1) = map Some (content b)"
      using content_Some [of b1] grown_content [OF 1] 1 by (simp add: grown_def)
    have full: "rok (buf_setlen (b1\<lparr>bf_mem := ?m\<rparr>) (bf_len b + of_nat (length ?d)))
      (\<lambda>b'. wf_buf b' \<and> content b' = content b @ ?d \<and> bf_pos b' = bf_pos b)"
      using 1 wf length_content [OF wf_raw [OF wf]]
      by (intro buf_setlen_append) (auto simp: grown_def c)
    have len: "?l + length ?d \<le> length (bf_mem b1)" "bf_len b1 = bf_len b" "bf_pos b1 = bf_pos b"
      "bf_alloc b1 \<noteq> 0"
      using 1 by (auto simp: grown_def)
    show ?case
    proof (cases "?d = []")
      case True
      then show ?thesis
        using len emp grown_wf [OF 1 wf] grown_content [OF 1] n
        by (auto simp: buf_release_def buf_init_def)
    next
      case False
      then have "0 < (of_nat (length ?d) :: size_t)" using n by (simp add: size_t_less)
      then show ?thesis using full len n by (auto simp: rok_rbind elim!: rok_mono)
    qed
  qed
qed

text \<open>
  What a descriptor delivers, however the reads cut it: the bytes up to the end of file or up to the
  first error that is not a request to try again.
\<close>

fun fd_data :: "read_item list \<Rightarrow> char list \<times> int option" where
  "fd_data [] = ([], None)"
| "fd_data (Read_Data d # fd) = (if d = [] then ([], None) else (d @ fst (fd_data fd), snd (fd_data fd)))"
| "fd_data (Read_Error e # fd) = (if e = EAGAIN \<or> e = EINTR then fd_data fd else ([], Some e))"

lemma try_read_data:
  assumes "try_read fd count = (fd', r)" and "0 < unat count"
  shows "fd_data fd = (case r of Failed e \<Rightarrow> ([], Some e)
     | Got d \<Rightarrow> (if d = [] then ([], None) else (d @ fst (fd_data fd'), snd (fd_data fd'))))"
    and "r = Got d \<Longrightarrow> length d \<le> unat count"
  using assms by (induction fd count rule: try_read.induct) (auto split: if_splits)

lemma buf_read_loop_ok:
  assumes "raw_buf b" "bf_alloc b \<noteq> 0" "0 < unat (buf_avail b)"
    and "unat (bf_len b) + length (fst (fd_data fd)) + 8193 < 2 ^ 64"
  shows "rok (buf_read_loop b fd) (\<lambda>(err, b'). raw_buf b' \<and> bf_alloc b' \<noteq> 0 \<and> bf_pos b' = bf_pos b \<and>
     err = snd (fd_data fd) \<and> content b' = content b @ fst (fd_data fd))"
  using assms
proof (induction b fd rule: buf_read_loop.induct)
  case (1 b fd)
  obtain fd' r where t: "try_read fd (buf_avail b) = (fd', r)" by fastforce
  note data = try_read_data [OF t "1.prems"(3)]
  show ?case
  proof (cases "\<exists>d. r = Got d \<and> d \<noteq> []")
    case False
    then show ?thesis
      using t data(1) "1.prems" by (cases r) (auto simp: buf_read_loop.simps [of b fd])
  next
    case True
    then obtain d where r: "r = Got d" "d \<noteq> []" by blast
    let ?l = "unat (bf_len b)"
    let ?m = "take ?l (bf_mem b) @ map Some d @ drop (?l + length d) (bf_mem b)"
    let ?b = "b\<lparr>bf_mem := ?m, bf_len := bf_len b + of_nat (length d)\<rparr>"
    have room: "?l + length d < unat (bf_alloc b)" "length (bf_mem b) = unat (bf_alloc b)"
      using buf_avail_unat [OF "1.prems"(1,2)] data(2) [OF r(1)] "1.prems"(1,2)
      by (auto simp: raw_buf_def)
    have ln: "unat (bf_len b + of_nat (length d)) = ?l + length d"
      using room unat_lt_size_t [of "bf_alloc b"]
      by (subst unat_add_size_t) (simp_all add: unat_of_nat_size_t)
    have tk: "take (?l + length d) ?m = map Some (content b @ d)"
      using content_Some [OF "1.prems"(1)] length_content [OF "1.prems"(1)] room by simp
    have raw: "raw_buf ?b" "content ?b = content b @ d"
      using "1.prems"(1,2) room ln tk by (auto simp: raw_buf_def content_def o_def size_t_le)
    have dd: "fd_data fd = (d @ fst (fd_data fd'), snd (fd_data fd'))" using data(1) r by simp
    have "rok (buf_grow ?b 8192) (grown ?b (unat (8192 :: size_t)))"
      using raw(1) "1.prems"(4) dd ln by (intro buf_grow_ok) (auto simp: fits_def)
    then have "rok (buf_grow ?b 8192) (\<lambda>b'. rok (buf_read_loop b' fd') (\<lambda>(err, b''). raw_buf b'' \<and>
       bf_alloc b'' \<noteq> 0 \<and> bf_pos b'' = bf_pos b \<and> err = snd (fd_data fd) \<and>
       content b'' = content b @ fst (fd_data fd)))"
    proof (rule rokE)
      fix b' assume e: "buf_grow ?b 8192 = Inr b'" and g: "grown ?b (unat (8192 :: size_t)) b'"
      then have g': "raw_buf b'" "bf_alloc b' \<noteq> 0" "bf_pos b' = bf_pos b" "bf_len b' = bf_len ?b"
        "unat (bf_len ?b) + 8192 < unat (bf_alloc b')"
        by (auto simp: grown_def)
      then have "0 < unat (buf_avail b')" using buf_avail_unat [OF g'(1,2)] by simp
      moreover have mc: "memcpy (bf_mem b) ?l d (length d) = Inr ?m"
        using room by (simp add: memcpy_def)
      ultimately have "rok (buf_read_loop b' fd') (\<lambda>(err, b''). raw_buf b'' \<and> bf_alloc b'' \<noteq> 0 \<and>
         bf_pos b'' = bf_pos b' \<and> err = snd (fd_data fd') \<and> content b'' = content b' @ fst (fd_data fd'))"
        using "1.IH" [OF t [symmetric] r(1) r(2) mc e g'(1,2)] "1.prems"(4) dd g'(4) ln by simp
      then show ?thesis using e g' grown_content [OF g] raw dd by (simp add: case_prod_unfold)
    qed
    then show ?thesis
      using t r room by (simp add: buf_read_loop.simps [of b fd] rok_rbind)
  qed
qed

text \<open>How \<open>buf_read\<close> ends: with the old text restored, or with the terminator written.\<close>

lemma finish_read_ok:
  assumes wf: "wf_buf b" and b2: "raw_buf b2" "bf_alloc b2 \<noteq> 0" "bf_pos b2 = bf_pos b"
    and c: "content b2 = content b @ d"
  shows "rok (if bf_alloc b \<noteq> 0 then buf_setlen b2 (bf_len b) else buf_release b2)
       (\<lambda>b'. wf_buf b' \<and> bf_pos b' = bf_pos b \<and> content b' = content b)"
    and "rok (mem_set (bf_mem b2) (unat (bf_len b2)) NUL) (\<lambda>m. wf_buf (b2\<lparr>bf_mem := m\<rparr>) \<and>
       content (b2\<lparr>bf_mem := m\<rparr>) = content b @ d \<and>
       (ucast (bf_len b2 - bf_len b) :: c_int) = of_nat (length d))"
proof -
  have lens: "length (content b) = unat (bf_len b)" "unat (bf_len b2) = unat (bf_len b) + length d"
    using length_content [OF b2(1)] length_content [OF wf_raw [OF wf]] c by auto
  have pos: "min (bf_pos b) (bf_len b) = bf_pos b"
    using wf by (auto simp: min_def dest!: wf_raw raw_bufD(2))
  have tk: "take (unat (bf_len b)) (bf_mem b2) = map Some (content b)"
  proof -
    have "take (unat (bf_len b)) (take (unat (bf_len b2)) (bf_mem b2)) = map Some (content b)"
      unfolding content_Some [OF b2(1)] c using lens by simp
    then show ?thesis using lens by (simp add: min_def)
  qed
  have "rok (buf_setlen b2 (bf_len b)) (\<lambda>b'. wf_buf b' \<and> bf_pos b' = bf_pos b \<and> content b' = content b)"
    by (rule rok_mono [OF buf_setlen_ok [OF raw_sized [OF b2(1)]]])
      (use b2 lens tk pos in \<open>auto simp: o_def dest!: raw_bufD(1)\<close>)
  moreover have "content b = [] \<and> bf_pos b = 0" if "bf_alloc b = 0"
    using that wf by (auto simp: wf_buf_def raw_buf_def content_def buf_initial_def unat_eq_0_size_t)
  ultimately show "rok (if bf_alloc b \<noteq> 0 then buf_setlen b2 (bf_len b) else buf_release b2)
       (\<lambda>b'. wf_buf b' \<and> bf_pos b' = bf_pos b \<and> content b' = content b)"
    using b2 by (auto simp: buf_release_def buf_init_def)
  have "bf_len b2 = of_nat (unat (bf_len b2))" by simp
  then have "bf_len b2 - bf_len b = of_nat (length d)" unfolding lens(2) by simp
  moreover have "length d < 2 ^ 64" using lens(2) unat_lt_size_t [of "bf_len b2"] by simp
  ultimately have "(ucast (bf_len b2 - bf_len b) :: c_int) = of_nat (length d)"
    by (simp add: unsigned_of_nat take_bit_nat_eq_self)
  then show "rok (mem_set (bf_mem b2) (unat (bf_len b2)) NUL) (\<lambda>m. wf_buf (b2\<lparr>bf_mem := m\<rparr>) \<and>
       content (b2\<lparr>bf_mem := m\<rparr>) = content b @ d \<and>
       (ucast (bf_len b2 - bf_len b) :: c_int) = of_nat (length d))"
    using b2 c by (auto simp: wf_buf_def raw_buf_def content_def)
qed

text \<open>
  \<open>buf_read\<close> appends all a descriptor delivers and returns how much that was (cut to an \<open>int\<close>),
  or returns -1 and leaves the text as it was.
\<close>

lemma buf_read_ok:
  assumes wf: "wf_buf b" and hint: "fits b (unat hint)"
    and size: "unat (bf_len b) + length (fst (fd_data fd)) + 8193 < 2 ^ 64"
  shows "rok (buf_read b fd hint) (\<lambda>(n, err, b'). wf_buf b' \<and> bf_pos b' = bf_pos b \<and> err = snd (fd_data fd) \<and>
     (case err of
        None \<Rightarrow> n = of_nat (length (fst (fd_data fd))) \<and> content b' = content b @ fst (fd_data fd)
      | Some e \<Rightarrow> n = -1 \<and> content b' = content b))"
proof -
  let ?l = "unat (bf_len b)" and ?h = "if hint \<noteq> 0 then hint else 8192 :: size_t"
  have fit: "fits b (unat ?h)" using hint size by (auto simp: fits_def)
  have emp: "content b = []" "bf_pos b = 0" if "bf_alloc b = 0"
    using that wf by (auto simp: wf_buf_def raw_buf_def content_def buf_initial_def unat_eq_0_size_t)
  have lb: "length (content b) = ?l" using wf by (auto intro: length_content)
  have "rok (buf_grow b ?h) (grown b (unat ?h))" using wf fit by (intro buf_grow_ok) auto
  then show ?thesis unfolding buf_read_def Let_def rok_rbind
  proof (rule rok_mono, goal_cases)
    case (1 b1)
    then have b1: "raw_buf b1" "bf_alloc b1 \<noteq> 0" "bf_len b1 = bf_len b" "bf_pos b1 = bf_pos b"
      "?l + unat ?h < unat (bf_alloc b1)" by (auto simp: grown_def)
    have "0 < unat ?h" by (simp add: unat_gt_0)
    then have "0 < unat (buf_avail b1)" using buf_avail_unat [OF b1(1,2)] b1 by simp
    then have "rok (buf_read_loop b1 fd) (\<lambda>(err, b'). raw_buf b' \<and> bf_alloc b' \<noteq> 0 \<and>
       bf_pos b' = bf_pos b1 \<and> err = snd (fd_data fd) \<and> content b' = content b1 @ fst (fd_data fd))"
      using b1 size by (intro buf_read_loop_ok) auto
    then show ?case
    proof (rule rok_mono, goal_cases)
      case (1 x)
      obtain err b2 where x: "x = (err, b2)" by (cases x)
      have b2: "raw_buf b2" "bf_alloc b2 \<noteq> 0" "bf_pos b2 = bf_pos b" "snd (fd_data fd) = err"
        "content b2 = content b @ fst (fd_data fd)"
        using 1 x b1 grown_content [OF \<open>grown b (unat ?h) b1\<close>] by auto
      then show ?case
        using finish_read_ok [OF wf b2(1,2,3,5)] unfolding x prod.case
        by (cases err) (auto simp: rok_rbind elim!: rok_mono)
    qed
  qed
qed

subsection \<open>Trimming\<close>

abbreviation is_sp :: "char \<Rightarrow> bool" where
  "is_sp c \<equiv> isspace (schar c)"

definition rtrim :: "char list \<Rightarrow> char list" where
  "rtrim s = rev (dropWhile is_sp (rev s))"

definition ltrim :: "char list \<Rightarrow> char list" where
  "ltrim s = dropWhile is_sp s"

lemma ltrim_scan_ok:
  assumes "take n m = map Some s" "i \<le> n" "n \<le> length m"
  shows "ltrim_scan m i n = Inr (i + length (takeWhile is_sp (drop i s)))"
  using assms
proof (induction m i n rule: ltrim_scan.induct)
  case (1 m i n)
  have l: "length s = n" using "1.prems" by (metis length_map length_take min.absorb2)
  show ?case
  proof (cases "i < n")
    case False
    then show ?thesis using "1.prems" l by (subst ltrim_scan.simps) simp
  next
    case True
    have "take n m ! i = Some (s ! i)" using "1.prems"(1) True l by simp
    then have g: "mem_get m i = Inr (s ! i)" using True "1.prems"(3) by (simp add: mem_get_def)
    have d: "drop i s = s ! i # drop (Suc i) s" using True l by (simp add: Cons_nth_drop_Suc)
    show ?thesis
      using "1.IH" [OF True g] "1.prems" True g d by (simp add: ltrim_scan.simps [of m i n])
  qed
qed

lemma rtrim_scan_ok:
  assumes "take n m = map Some s" "n \<le> length m"
  shows "rtrim_scan m n = Inr (length (rtrim s)) \<and> rtrim s = take (length (rtrim s)) s"
  using assms
proof (induction n arbitrary: s)
  case 0
  then show ?case by (simp add: rtrim_def)
next
  case (Suc n)
  have l: "length s = Suc n" using Suc.prems by (metis length_map length_take min.absorb2)
  then obtain t c where s: "s = t @ [c]" "length t = n" by (metis length_Suc_conv_rev)
  have tk: "take n m = map Some t"
    using Suc.prems s by (metis append_eq_conv_conj length_map map_append take_take min_def lessI less_imp_le_nat)
  have "m ! n = take (Suc n) m ! n" by simp
  also have "\<dots> = Some c" unfolding Suc.prems(1) s(1) using s(2) by (simp add: nth_append)
  finally have "m ! n = Some c" .
  then have g: "mem_get m n = Inr c" using Suc.prems by (simp add: mem_get_def)
  have IH: "rtrim_scan m n = Inr (length (rtrim t)) \<and> rtrim t = take (length (rtrim t)) t"
    using Suc.IH [OF tk] Suc.prems by simp
  show ?case
  proof (cases "is_sp c")
    case True
    then have "rtrim s = rtrim t" using s by (simp add: rtrim_def)
    moreover have "length (rtrim t) \<le> length t"
      using length_dropWhile_le [of is_sp "rev t"] by (simp add: rtrim_def)
    ultimately show ?thesis using True g IH s(1) by simp
  next
    case False
    then show ?thesis using g s by (simp add: rtrim_def)
  qed
qed

lemma buf_rtrim_ok:
  assumes wf: "wf_buf b"
  shows "rok (buf_rtrim b) (\<lambda>b'. wf_buf b' \<and> content b' = rtrim (content b) \<and>
     unat (bf_pos b') = min (unat (bf_pos b)) (length (rtrim (content b))))"
proof -
  let ?l = "unat (bf_len b)" and ?k = "length (rtrim (content b))"
  have tk: "take ?l (bf_mem b) = map Some (content b)" using wf by (auto intro: content_Some)
  have sc: "rtrim_scan (bf_mem b) ?l = Inr ?k" "rtrim (content b) = take ?k (content b)"
    using rtrim_scan_ok [OF tk] wf by (auto simp: wf_buf_def raw_buf_def)
  have k: "?k \<le> ?l" using sc(2) length_content [OF wf_raw [OF wf]] by (metis length_take min.cobounded1)
  then have n: "unat (of_nat ?k :: size_t) = ?k"
    using unat_lt_size_t [of "bf_len b"] by (intro unat_of_nat_size_t) simp
  have tk': "take ?k (bf_mem b) = map Some (rtrim (content b))"
    using tk sc(2) k by (metis min.absorb1 take_map take_take)
  have "rok (buf_setlen b (of_nat ?k)) (\<lambda>b'. wf_buf b' \<and>
     content b' = map the (take (unat (of_nat ?k :: size_t)) (bf_mem b)) \<and> bf_len b' = of_nat ?k \<and>
     bf_pos b' = min (bf_pos b) (of_nat ?k) \<and> bf_alloc b' = bf_alloc b)"
    using wf k tk' by (intro buf_setlen_ok) (auto simp: n wf_buf_def raw_buf_def)
  then show ?thesis
    using sc(1) by (auto simp: buf_rtrim_def n tk' o_def min_def size_t_le elim!: rok_mono)
qed

lemma buf_ltrim_ok:
  assumes wf: "wf_buf b"
  shows "rok (buf_ltrim b) (\<lambda>b'. wf_buf b' \<and> content b' = ltrim (content b) \<and>
     unat (bf_pos b') = unat (bf_pos b) - (length (content b) - length (ltrim (content b))))"
proof -
  let ?l = "unat (bf_len b)" and ?k = "length (takeWhile is_sp (content b))"
  have lc: "length (content b) = ?l" using wf by (auto intro: length_content)
  have tk: "take ?l (bf_mem b) = map Some (content b)" using wf by (auto intro: content_Some)
  have lm: "?l < length (bf_mem b)" using wf by (auto simp: wf_buf_def raw_buf_def)
  have sc: "ltrim_scan (bf_mem b) 0 ?l = Inr ?k" using ltrim_scan_ok [OF tk, of 0] lm by simp
  have k: "?k \<le> ?l" using length_takeWhile_le [of is_sp "content b"] lc by simp
  have lt: "ltrim (content b) = drop ?k (content b)" by (simp add: ltrim_def dropWhile_eq_drop)
  have nk: "unat (of_nat ?k :: size_t) = ?k"
    using k unat_lt_size_t [of "bf_len b"] by (intro unat_of_nat_size_t) simp
  have nl: "unat (bf_len b - of_nat ?k) = ?l - ?k" using k nk by (simp add: unat_sub_size_t size_t_le)
  define m where "m = take (?l - ?k) (drop ?k (bf_mem b)) @ drop (?l - ?k) (bf_mem b)"
  let ?p = "if bf_pos b < of_nat ?k then 0 else bf_pos b - of_nat ?k"
  let ?b = "b\<lparr>bf_pos := ?p, bf_mem := m\<rparr>"
  have p: "unat ?p = unat (bf_pos b) - ?k"
    by (auto simp: size_t_less nk unat_sub_size_t size_t_le)
  have tk': "take (?l - ?k) m = map Some (ltrim (content b))"
  proof -
    have "take (?l - ?k) (drop ?k (bf_mem b)) = drop ?k (take ?l (bf_mem b))" by (simp add: drop_take)
    then have "take (?l - ?k) (drop ?k (bf_mem b)) = map Some (ltrim (content b))"
      unfolding tk lt by (simp add: drop_map)
    then show ?thesis using lc k lt by (simp add: m_def)
  qed
  have lm': "length m = length (bf_mem b)" using lm k by (simp add: m_def)
  have "rok (buf_setlen ?b (bf_len b - of_nat ?k)) (\<lambda>b'. wf_buf b' \<and>
     content b' = map the (take (unat (bf_len b - of_nat ?k)) (bf_mem ?b)) \<and> bf_len b' = bf_len b - of_nat ?k \<and>
     bf_pos b' = min (bf_pos ?b) (bf_len b - of_nat ?k) \<and> bf_alloc b' = bf_alloc ?b)"
    using raw_sized [OF wf_raw [OF wf]] lm lm' tk'
    by (intro buf_setlen_ok) (auto simp: nl sized_def)
  moreover have "min ?p (bf_len b - of_nat ?k) = ?p"
    using p nl wf by (auto simp: min_def size_t_le dest!: wf_raw raw_bufD(2))
  moreover have "length (content b) - length (ltrim (content b)) = ?k" using lt lc k by simp
  ultimately show ?thesis
    using sc lm k p tk'
    by (auto simp: buf_ltrim_def rok_rbind Let_def nl o_def m_def [symmetric] elim!: rok_mono)
qed

subsection \<open>Character by character\<close>

text \<open>What is still to be read from a buffer.\<close>

definition rest :: "buf_t \<Rightarrow> char list" where
  "rest b = drop (unat (bf_pos b)) (content b)"

lemma buf_fgetc_ok:
  assumes wf: "wf_buf b"
  shows "rok (buf_fgetc b) (\<lambda>(c, b'). wf_buf b' \<and> content b' = content b \<and>
     (case rest b of [] \<Rightarrow> c = EOF \<and> b' = b
      | x # xs \<Rightarrow> c = schar x \<and> rest b' = xs \<and> unat (bf_pos b') = Suc (unat (bf_pos b))))"
proof (cases "bf_pos b < bf_len b")
  case False
  then have "rest b = []"
    using length_content [OF wf_raw [OF wf]] by (simp add: rest_def size_t_less)
  then show ?thesis using False wf by (simp add: buf_fgetc_def)
next
  case True
  let ?p = "unat (bf_pos b)" and ?l = "unat (bf_len b)"
  have lc: "length (content b) = ?l" using wf by (auto intro: length_content)
  have p: "?p < ?l" using True by (simp add: size_t_less)
  have "take ?l (bf_mem b) ! ?p = Some (content b ! ?p)"
    using content_Some [OF wf_raw [OF wf]] p lc by simp
  then have m: "mem_get (bf_mem b) ?p = Inr (content b ! ?p)"
    using p wf by (simp add: mem_get_def wf_buf_def raw_buf_def)
  have p1: "unat (bf_pos b + 1) = Suc ?p"
    using p unat_lt_size_t [of "bf_len b"] by (subst unat_add_size_t) auto
  have r: "rest b = content b ! ?p # drop (Suc ?p) (content b)"
    using p lc by (simp add: rest_def Cons_nth_drop_Suc)
  show ?thesis
    using True m r p p1 wf
    by (auto simp: buf_fgetc_def wf_buf_def raw_buf_def content_def rest_def size_t_le)
qed

lemma buf_ungetc_ok:
  assumes wf: "wf_buf b" and pos: "0 < unat (bf_pos b)"
  shows "rok (buf_ungetc b c) (\<lambda>(r, b'). wf_buf b' \<and> r = schar (char_of_int c) \<and>
     content b' = (content b)[unat (bf_pos b) - 1 := char_of_int c] \<and>
     rest b' = char_of_int c # rest b \<and> unat (bf_pos b') = unat (bf_pos b) - 1)"
proof -
  let ?p = "unat (bf_pos b)" and ?l = "unat (bf_len b)"
  have lc: "length (content b) = ?l" using wf by (auto intro: length_content)
  have p: "?p \<le> ?l" using wf by (auto simp: size_t_le dest!: wf_raw raw_bufD(2))
  have p0: "0 < bf_pos b" using pos by (simp add: size_t_less)
  have p1: "unat (bf_pos b - 1) = ?p - 1" using pos by (simp add: unat_sub_size_t size_t_le)
  let ?b = "b\<lparr>bf_mem := (bf_mem b)[?p - 1 := Some (char_of_int c)], bf_pos := bf_pos b - 1\<rparr>"
  have tk: "take ?l ((bf_mem b)[?p - 1 := Some (char_of_int c)]) =
      map Some ((content b)[?p - 1 := char_of_int c])"
    using content_Some [OF wf_raw [OF wf]] by (simp add: take_update_swap map_update)
  have ct: "content ?b = (content b)[?p - 1 := char_of_int c]"
    by (rule contentI) (use tk in simp)
  have "rest ?b = char_of_int c # rest b"
    unfolding rest_def ct using p pos lc p1 by (simp add: drop_list_update_same)
  moreover have "wf_buf ?b"
    using wf p pos tk p1 by (auto simp: wf_buf_def raw_buf_def buf_initial_def size_t_le)
  ultimately show ?thesis
    using p0 p1 ct p pos wf by (auto simp: buf_ungetc_def rok_rbind wf_buf_def raw_buf_def)
qed

subsection \<open>Splicing\<close>

text \<open>Below \<open>2 ^ 31\<close> the 32-bit differences of \<open>buf_splice\<close> are exact.\<close>

lemma ucast_diff:
  fixes x y :: size_t
  shows "(ucast (x - y) :: c_int) = of_int (int (unat x) - int (unat y))"
proof -
  have "uint (x - y) = uint x - uint y \<or> uint (x - y) = uint x - uint y + 2 ^ 64"
    by (simp add: uint_sub_if')
  moreover have "(of_int (i + 2 ^ 64) :: c_int) = of_int i" for i by simp
  ultimately have "(of_int (uint (x - y)) :: c_int) = of_int (uint x - uint y)"
    by (elim disjE) (simp_all only:)
  then show ?thesis unfolding ucast_eq uint_nat .
qed

lemma sint_small: "- (2 ^ 31) \<le> i \<Longrightarrow> i < 2 ^ 31 \<Longrightarrow> sint (of_int i :: c_int) = i"
  by (simp add: sint_sbintrunc' signed_take_bit_int_eq_self)

lemma sint_ucast_diff:
  fixes x y :: size_t
  assumes "unat x < 2 ^ 31" "unat y < 2 ^ 31"
  shows "sint (ucast (x - y) :: c_int) = int (unat x) - int (unat y)"
    and "(scast (ucast (x - y) :: c_int) :: size_t) = x - y"
proof -
  have "int (unat x) < 2 ^ 31" "int (unat y) < 2 ^ 31"
    using assms by (simp_all only: of_nat_less_numeral_power_cancel_iff)
  then have "- (2 ^ 31) \<le> int (unat x) - int (unat y)" "int (unat x) - int (unat y) < 2 ^ 31"
    by linarith+
  then show s: "sint (ucast (x - y) :: c_int) = int (unat x) - int (unat y)"
    unfolding ucast_diff by (rule sint_small)
  show "(scast (ucast (x - y) :: c_int) :: size_t) = x - y"
    unfolding scast_eq s by simp
qed

text \<open>The offset a call means: negative offsets count from the end.\<close>

definition splice_off :: "buf_t \<Rightarrow> c_int \<Rightarrow> int" where
  "splice_off b off = (if sint off < 0 then int (unat (bf_len b)) + sint off else sint off)"

lemma splice_off_word:
  assumes "0 \<le> splice_off b off" "splice_off b off < 2 ^ 31"
  defines "w \<equiv> (if sint off < 0 then ucast (bf_len b + scast off) else off) :: c_int"
  shows "sint w = splice_off b off" and "unat (scast w :: size_t) = nat (splice_off b off)"
proof -
  show s: "sint w = splice_off b off"
  proof (cases "sint off < 0")
    case True
    have "scast off = (of_int (sint off) :: size_t)" by (rule scast_eq)
    then have "bf_len b + scast off = of_int (splice_off b off)"
      using True by (simp add: splice_off_def)
    then have "w = ucast (of_int (splice_off b off) :: size_t)" using True by (simp add: w_def)
    also have "\<dots> = of_int (splice_off b off)"
      using assms(1,2) by (simp add: unsigned_of_int take_bit_int_eq_self)
    finally show ?thesis using assms(1,2) by (simp add: sint_small)
  qed (simp add: w_def splice_off_def)
  show "unat (scast w :: size_t) = nat (splice_off b off)"
    unfolding scast_eq s using assms(1,2) by (simp add: unsigned_of_int take_bit_int_eq_self)
qed

text \<open>The block after the two moves of a splice: \<open>d\<close> replaces \<open>n\<close> bytes at \<open>k\<close>.\<close>

lemma splice_block:
  assumes c: "take l m = map Some c" "length c = l" and k: "k + n \<le> l"
    and room: "l < length m" "l - n + length d < length m"
  defines "m1 \<equiv> if length d \<noteq> n
     then take (k + length d) m @ take (l - k - n) (drop (k + n) m) @ drop (k + length d + (l - k - n)) m
     else m"
  defines "m2 \<equiv> take k m1 @ map Some d @ drop (k + length d) m1"
  shows "length m1 = length m" and "length m2 = length m"
    and "take (l - n + length d) m2 = map Some (take k c @ d @ drop (k + n) c)"
proof -
  have tail: "take (l - k - n) (drop (k + n) m) = map Some (drop (k + n) c)"
  proof -
    have "take (l - k - n) (drop (k + n) m) = drop (k + n) (take l m)" by (simp add: drop_take)
    then show ?thesis using c by (simp add: drop_map)
  qed
  have head: "take k m = map Some (take k c)"
    using c(1) k by (metis add_leD1 min.absorb1 take_map take_take)
  show l1: "length m1 = length m" using k room by (auto simp: m1_def)
  then show "length m2 = length m" using k room by (auto simp: m2_def)
  have "take k m1 = map Some (take k c)" using head k room by (auto simp: m1_def)
  moreover have "take (l - k - n) (drop (k + length d) m1) = map Some (drop (k + n) c)"
    using tail k room c(2) by (auto simp: m1_def)
  moreover have "length (take k m1) = k" using l1 k room by simp
  ultimately show "take (l - n + length d) m2 = map Some (take k c @ d @ drop (k + n) c)"
    using k c(2) by (simp add: m2_def add.commute)
qed

lemma splice_setlen_ok:
  assumes b1: "sized b1" "bf_len b1 = bf_len b" and c: "take (unat (bf_len b)) (bf_mem b1) = map Some (content b)"
    "length (content b) = unat (bf_len b)"
    and k: "k + n \<le> unat (bf_len b)" and room: "unat (bf_len b) - n + length d < length (bf_mem b1)"
      "unat (bf_len b) < length (bf_mem b1)"
    and new: "unat new = unat (bf_len b) - n + length d"
  defines "l \<equiv> unat (bf_len b)"
  defines "m1 \<equiv> if length d \<noteq> n
     then take (k + length d) (bf_mem b1) @ take (l - k - n) (drop (k + n) (bf_mem b1)) @
       drop (k + length d + (l - k - n)) (bf_mem b1)
     else bf_mem b1"
  defines "m2 \<equiv> take k m1 @ map Some d @ drop (k + length d) m1"
  shows "rok (buf_setlen (b1\<lparr>bf_mem := m2\<rparr>) new) (\<lambda>b'. wf_buf b' \<and>
     content b' = take k (content b) @ d @ drop (k + n) (content b))"
proof -
  have m2: "length m2 = length (bf_mem b1)"
    "take (unat new) m2 = map Some (take k (content b) @ d @ drop (k + n) (content b))"
    unfolding new m2_def m1_def l_def using splice_block [OF c k room(2,1)] by simp_all
  have "rok (buf_setlen (b1\<lparr>bf_mem := m2\<rparr>) new) (\<lambda>b'. wf_buf b' \<and>
     content b' = map the (take (unat new) (bf_mem (b1\<lparr>bf_mem := m2\<rparr>))) \<and> bf_len b' = new \<and>
     bf_pos b' = min (bf_pos (b1\<lparr>bf_mem := m2\<rparr>)) new \<and> bf_alloc b' = bf_alloc (b1\<lparr>bf_mem := m2\<rparr>))"
    using b1 m2 room new by (intro buf_setlen_ok) (auto simp: sized_def)
  then show ?thesis using m2(2) by (auto simp: o_def elim!: rok_mono)
qed

text \<open>The room a splice needs is there once the buffer has grown by the surplus.\<close>

definition splice_room :: "buf_t \<Rightarrow> nat \<Rightarrow> nat \<Rightarrow> buf_t \<Rightarrow> bool" where
  "splice_room b n dl b1 \<longleftrightarrow> sized b1 \<and> bf_len b1 = bf_len b \<and>
     take (unat (bf_len b)) (bf_mem b1) = map Some (content b) \<and>
     unat (bf_len b) - n + dl < length (bf_mem b1) \<and> unat (bf_len b) < length (bf_mem b1)"

lemma splice_grow_ok:
  fixes n dl :: size_t
  assumes wf: "wf_buf b" and n: "unat n \<le> unat (bf_len b)" and small: "unat (bf_len b) + unat dl < 2 ^ 31"
  shows "rok (if sint (ucast (dl - n) :: c_int) > 0 then buf_grow b (scast (ucast (dl - n) :: c_int)) else Inr b)
     (splice_room b (unat n) (unat dl))"
proof -
  let ?l = "unat (bf_len b)"
  have delta: "sint (ucast (dl - n) :: c_int) = int (unat dl) - int (unat n)"
    "(scast (ucast (dl - n) :: c_int) :: size_t) = dl - n"
    using sint_ucast_diff [of dl n] n small by simp_all
  show ?thesis
  proof (cases "unat n < unat dl")
    case True
    then have dn: "unat (dl - n) = unat dl - unat n" by (subst unat_sub_size_t) (simp_all add: size_t_le)
    have "rok (buf_grow b (dl - n)) (grown b (unat (dl - n)))"
      using wf small dn by (intro buf_grow_ok) (auto simp: fits_def)
    then have "rok (buf_grow b (dl - n)) (splice_room b (unat n) (unat dl))"
    proof (rule rok_mono)
      fix b1 assume g: "grown b (unat (dl - n)) b1"
      from g have "raw_buf b1" "bf_len b1 = bf_len b" "length (bf_mem b1) = unat (bf_alloc b1)"
        "?l + (unat dl - unat n) < unat (bf_alloc b1)"
        unfolding grown_def dn by simp_all
      then show "splice_room b (unat n) (unat dl) b1"
        using content_Some [of b1] grown_content [OF g] n True by (auto simp: splice_room_def)
    qed
    with True show ?thesis unfolding delta by (simp del: of_nat_unat)
  next
    case False
    then show ?thesis
      unfolding delta using wf n content_Some [OF wf_raw [OF wf]] raw_bufD(1) [OF wf_raw [OF wf]]
      by (auto simp: splice_room_def simp del: of_nat_unat)
  qed
qed

lemma buf_splice_ok:
  assumes wf: "wf_buf b" and off: "0 \<le> splice_off b off" "nat (splice_off b off) + unat n \<le> unat (bf_len b)"
    and d: "d = [] \<or> data = Some d" and small: "unat (bf_len b) + length d < 2 ^ 31"
  shows "rok (buf_splice b off n data (of_nat (length d))) (\<lambda>b'. wf_buf b' \<and>
     content b' = take (nat (splice_off b off)) (content b) @ d @
       drop (nat (splice_off b off) + unat n) (content b))"
proof -
  let ?l = "unat (bf_len b)" and ?k = "nat (splice_off b off)"
  define dl where "dl = (of_nat (length d) :: size_t)"
  define w where "w = (if sint off < 0 then ucast (bf_len b + scast off) else off :: c_int)"
  define k where "k = (scast w :: size_t)"
  have w: "sint w = splice_off b off" "unat k = ?k"
    using splice_off_word [of b off] off small by (auto simp: w_def k_def)
  have dl: "unat dl = length d" unfolding dl_def using small by (intro unat_of_nat_size_t) simp
  have delta: "sint (ucast (dl - n) :: c_int) = int (length d) - int (unat n)"
    "(scast (ucast (dl - n) :: c_int) :: size_t) = dl - n"
    using sint_ucast_diff [of dl n] dl off small by simp_all
  have z: "(ucast (dl - n) :: c_int) = 0 \<longleftrightarrow> length d = unat n"
  proof
    assume "(ucast (dl - n) :: c_int) = 0"
    then show "length d = unat n" using delta(1) by (simp del: of_nat_unat)
  next
    assume "length d = unat n"
    then have "dl = n" using dl by (simp add: word_unat_eq_iff)
    then show "(ucast (dl - n) :: c_int) = 0" by simp
  qed
  have "bf_len b + (dl - n) = of_nat (?l - unat n + length d)"
    using off by (simp add: of_nat_diff dl_def)
  then have new: "unat (bf_len b + (dl - n)) = ?l - unat n + length d"
    using small by (simp only:) (intro unat_of_nat_size_t, simp)
  have sums: "unat (k + dl) = ?k + length d" "unat (k + n) = ?k + unat n"
    using w dl off small by (subst unat_add_size_t; simp)+
  have kl: "unat (bf_len b - k) = ?l - ?k"
    using w off by (subst unat_sub_size_t) (simp_all add: size_t_le)
  then have at: "unat (bf_len b - k - n) = ?l - ?k - unat n"
    using off by (subst unat_sub_size_t) (simp_all add: size_t_le)
  have c: "length (content b) = ?l" using wf by (auto intro: length_content)
  have nodata: "dl = 0 \<longleftrightarrow> d = []" using dl by (metis length_0_conv unat_eq_0_size_t)
  have grow: "rok (if sint (ucast (dl - n) :: c_int) > 0 then buf_grow b (scast (ucast (dl - n) :: c_int)) else Inr b)
     (splice_room b (unat n) (unat dl))"
    using wf off small dl by (intro splice_grow_ok) auto
  have fin: "rok (if ucast (dl - n) \<noteq> (0 :: c_int)
       then memmove (bf_mem b1) (unat (k + dl)) (unat (k + n)) (unat (bf_len b1 - k - n)) else Inr (bf_mem b1))
     (\<lambda>m1. rok (if dl \<noteq> 0 then memcpy m1 (unat k) (the data) (unat dl) else Inr m1)
     (\<lambda>m2. rok (buf_setlen (b1\<lparr>bf_mem := m2\<rparr>) (bf_len b1 + scast (ucast (dl - n) :: c_int)))
     (\<lambda>b'. wf_buf b' \<and> content b' = take ?k (content b) @ d @ drop (?k + unat n) (content b))))"
    if r: "splice_room b (unat n) (unat dl) b1" for b1
  proof -
    note s = splice_setlen_ok [where n = "unat n" and d = d and k = ?k and b = b and ?b1.0 = b1 and
        new = "bf_len b + (dl - n)"]
    show ?thesis
      using s r d dl c off new nodata
      by (auto simp: splice_room_def delta z sums at w(2) split: if_splits)
  qed
  show ?thesis
    unfolding buf_splice_def Let_def rok_rbind w_def [symmetric] k_def [symmetric] dl_def [symmetric]
    using off d w nodata sums rok_mono [OF grow fin] by (auto simp: size_t_le)
qed

section \<open>Sequences of operations\<close>

text \<open>
  The requests a client can make of a buffer, with what each returns left aside, and the
  requests it is entitled to make: sizes that do not overflow a \<open>size_t\<close>, a new length within the
  text, a splice within the text.
\<close>

datatype buf_op =
    Op_Release | Op_Grow size_t | Op_Setlen size_t | Op_Addch int | Op_Add "char list option" size_t
  | Op_Addstr string | Op_Addf string | Op_Fread size_t "char list" | Op_Read "read_item list" size_t
  | Op_Ltrim | Op_Rtrim | Op_Splice c_int size_t "char list" | Op_Fgetc | Op_Ungetc int | Op_Rewind

fun buf_do :: "buf_op \<Rightarrow> buf_t \<Rightarrow> buf_t res" where
  "buf_do Op_Release b = buf_release b"
| "buf_do (Op_Grow n) b = buf_grow b n"
| "buf_do (Op_Setlen n) b = buf_setlen b n"
| "buf_do (Op_Addch c) b = buf_addch b c"
| "buf_do (Op_Add d n) b = buf_add b d n"
| "buf_do (Op_Addstr s) b = buf_addstr b s"
| "buf_do (Op_Addf s) b = buf_addf b s"
| "buf_do (Op_Fread n f) b = rbind (buf_fread b n f) (\<lambda>(_, _, b'). Inr b')"
| "buf_do (Op_Read fd hint) b = rbind (buf_read b fd hint) (\<lambda>(_, _, b'). Inr b')"
| "buf_do Op_Ltrim b = buf_ltrim b"
| "buf_do Op_Rtrim b = buf_rtrim b"
| "buf_do (Op_Splice off n d) b = buf_splice b off n (Some d) (of_nat (length d))"
| "buf_do Op_Fgetc b = rbind (buf_fgetc b) (\<lambda>(_, b'). Inr b')"
| "buf_do (Op_Ungetc c) b = rbind (buf_ungetc b c) (\<lambda>(_, b'). Inr b')"
| "buf_do Op_Rewind b = Inr (buf_rewind b)"

fun buf_may :: "buf_op \<Rightarrow> buf_t \<Rightarrow> bool" where
  "buf_may (Op_Grow n) b = fits b (unat n)"
| "buf_may (Op_Setlen n) b = (n \<le> bf_len b)"
| "buf_may (Op_Addch c) b = fits b 1"
| "buf_may (Op_Add d n) b = (case d of None \<Rightarrow> True | Some x \<Rightarrow> fits b (unat n) \<and> unat n \<le> length x)"
| "buf_may (Op_Addstr s) b = fits b (length s)"
| "buf_may (Op_Addf s) b = (int (length s) \<le> INT_MAX \<and> fits b (length s + 64))"
| "buf_may (Op_Fread n f) b = fits b (unat n)"
| "buf_may (Op_Read fd hint) b =
     (fits b (unat hint) \<and> unat (bf_len b) + length (fst (fd_data fd)) + 8193 < 2 ^ 64)"
| "buf_may (Op_Splice off n d) b =
     (0 \<le> splice_off b off \<and> nat (splice_off b off) + unat n \<le> unat (bf_len b) \<and>
      unat (bf_len b) + length d < 2 ^ 31)"
| "buf_may _ b = True"

text \<open>Buffers a client can get hold of by such requests, from \<open>buf_init\<close> on.\<close>

inductive buf_reachable :: "buf_t \<Rightarrow> bool" where
  init: "unat hint + 1 < 2 ^ 64 \<Longrightarrow> buf_init hint = Inr b \<Longrightarrow> buf_reachable b"
| step: "buf_reachable b \<Longrightarrow> buf_may opr b \<Longrightarrow> buf_do opr b = Inr b' \<Longrightarrow> buf_reachable b'"

lemma buf_setlen_shorter:
  assumes wf: "wf_buf b" and n: "n \<le> bf_len b"
  shows "rok (buf_setlen b n) (\<lambda>b'. wf_buf b' \<and> content b' = take (unat n) (content b))"
proof -
  have l: "unat n \<le> unat (bf_len b)" using n by (simp add: size_t_le)
  then have t: "take (unat n) (bf_mem b) = map Some (take (unat n) (content b))"
    using content_Some [OF wf_raw [OF wf]] by (metis min.absorb1 take_map take_take)
  have "rok (buf_setlen b n) (\<lambda>b'. wf_buf b' \<and>
     content b' = map the (take (unat n) (bf_mem b)) \<and> bf_len b' = n \<and>
     bf_pos b' = min (bf_pos b) n \<and> bf_alloc b' = bf_alloc b)"
    using wf l t raw_bufD(1) [OF wf_raw [OF wf]] by (intro buf_setlen_ok) auto
  then show ?thesis by (auto simp: t o_def elim!: rok_mono)
qed

lemmas buf_op_rules =
  rok_mono [OF buf_release_ok] rok_mono [OF buf_setlen_shorter] rok_mono [OF buf_addch_ok]
  rok_mono [OF buf_addstr_ok] rok_mono [OF buf_addf_ok] rok_mono [OF buf_fread_ok]
  rok_mono [OF buf_ltrim_ok] rok_mono [OF buf_rtrim_ok] rok_mono [OF buf_fgetc_ok]

lemma buf_do_ok: "wf_buf b \<Longrightarrow> buf_may opr b \<Longrightarrow> rok (buf_do opr b) wf_buf"
proof (cases opr)
  case (Op_Ungetc c)
  assume wf: "wf_buf b"
  show ?thesis
  proof (cases "0 < unat (bf_pos b)")
    case True
    then show ?thesis
      using buf_ungetc_ok [OF wf True, of c] Op_Ungetc by (auto simp: rok_rbind elim!: rok_mono)
  next
    case False
    then have "\<not> 0 < bf_pos b" by (simp add: size_t_less)
    then show ?thesis using Op_Ungetc wf by (simp add: buf_ungetc_def)
  qed
next
  case (Op_Grow n)
  assume "wf_buf b" "buf_may opr b"
  then show ?thesis
    using Op_Grow by (auto intro: rok_mono [OF buf_grow_ok] grown_wf)
next
  case (Op_Read fd hint)
  assume "wf_buf b" "buf_may opr b"
  then show ?thesis using Op_Read buf_read_ok [of b hint fd] by (auto simp: rok_rbind elim!: rok_mono)
next
  case Op_Rewind
  assume "wf_buf b"
  then show ?thesis using Op_Rewind by (simp add: buf_rewind_def wf_buf_def raw_buf_def)
next
  case (Op_Add d n)
  assume "wf_buf b" "buf_may opr b"
  then show ?thesis
    using Op_Add by (cases d) (simp add: buf_add_def, auto intro: rok_mono [OF buf_add_ok])
next
  case (Op_Splice off n d)
  assume "wf_buf b" "buf_may opr b"
  then show ?thesis
    using Op_Splice buf_splice_ok [of b off n d "Some d"] by (auto elim!: rok_mono)
qed (auto simp: rok_rbind intro: buf_op_rules)

lemma buf_reachable_wf: "buf_reachable b \<Longrightarrow> wf_buf b"
proof (induction rule: buf_reachable.induct)
  case (init hint b)
  then show ?case using buf_init_ok [of hint] by (auto dest: rok_InrD)
next
  case (step b opr b')
  then show ?case using buf_do_ok [of b opr] by (auto dest: rok_InrD)
qed

section \<open>The interface for clients\<close>

text \<open>
  What the clients rely on when they build a text: appending a character or a string neither
  fails nor changes what is there, as long as there is room, and the room left depends on the
  length of the text only.
\<close>

locale text_buffer =
  fixes wf :: "'b \<Rightarrow> bool" and str_of :: "'b \<Rightarrow> char list" and room :: "'b \<Rightarrow> nat \<Rightarrow> bool"
    and addch :: "'b \<Rightarrow> int \<Rightarrow> 'b res" and addstr :: "'b \<Rightarrow> string \<Rightarrow> 'b res"
  assumes addch_ok: "wf b \<Longrightarrow> room b 1 \<Longrightarrow> rok (addch b c) (\<lambda>b'. wf b' \<and> str_of b' = str_of b @ [char_of_int c])"
    and addstr_ok: "wf b \<Longrightarrow> room b (length s) \<Longrightarrow> rok (addstr b s) (\<lambda>b'. wf b' \<and> str_of b' = str_of b @ s)"
    and room_mono: "room b n \<Longrightarrow> k \<le> n \<Longrightarrow> room b k"
    and room_shift: "wf b \<Longrightarrow> wf b' \<Longrightarrow> length (str_of b') = length (str_of b) + m \<Longrightarrow> room b (m + n) \<Longrightarrow> room b' n"

text \<open>A run of appends, one string after the other, with any of the appending operations.\<close>

fun add_all :: "('b \<Rightarrow> string \<Rightarrow> 'b res) \<Rightarrow> 'b \<Rightarrow> string list \<Rightarrow> 'b res" where
  "add_all add b [] = Inr b"
| "add_all add b (s # ss) = rbind (add b s) (\<lambda>b'. add_all add b' ss)"

context text_buffer
begin

lemma add_all_ok:
  assumes "wf b" and "room b (length (concat ss))"
  shows "rok (add_all addstr b ss) (\<lambda>b'. wf b' \<and> str_of b' = str_of b @ concat ss)"
  using assms
proof (induction ss arbitrary: b)
  case (Cons s ss)
  have "rok (addstr b s) (\<lambda>b'. wf b' \<and> str_of b' = str_of b @ s)"
    using Cons.prems room_mono [of b _ "length s"] by (intro addstr_ok) auto
  then show ?case unfolding add_all.simps
  proof (rule rok_rbindI)
    fix b' assume b': "wf b' \<and> str_of b' = str_of b @ s"
    then have "room b' (length (concat ss))"
      using room_shift [of b b' "length s"] Cons.prems by simp
    then show "rok (add_all addstr b' ss) (\<lambda>b''. wf b'' \<and> str_of b'' = str_of b @ concat (s # ss))"
      using Cons.IH [of b'] b' by (auto elim!: rok_mono)
  qed
qed simp

lemma addch_addstr_ok:
  assumes "wf b" and "room b (Suc (length s))"
  shows "rok (rbind (addstr b s) (\<lambda>b1. addch b1 c)) (\<lambda>b'. wf b' \<and> str_of b' = str_of b @ s @ [char_of_int c])"
proof (rule rok_rbindI)
  show "rok (addstr b s) (\<lambda>b'. wf b' \<and> str_of b' = str_of b @ s)"
    using assms room_mono [of b _ "length s"] by (intro addstr_ok) auto
  show "rok (addch b1 c) (\<lambda>b'. wf b' \<and> str_of b' = str_of b @ s @ [char_of_int c])"
    if "wf b1 \<and> str_of b1 = str_of b @ s" for b1
    using that assms addch_ok [of b1 c] room_shift [of b b1 "length s" 1] by (auto elim!: rok_mono)
qed

end

interpretation buf: text_buffer wf_buf content fits buf_addch buf_addstr
proof (unfold_locales, goal_cases)
  case (1 b c)
  then show ?case by (auto intro: rok_mono [OF buf_addch_ok])
next
  case (2 b s)
  then show ?case by (auto intro: rok_mono [OF buf_addstr_ok])
next
  case (3 b n k)
  then show ?case by (simp add: fits_def)
next
  case (4 b b' m n)
  then show ?case by (simp add: fits_def length_content wf_raw)
qed

text \<open>Formatted appends meet the same contract for texts of a printable size.\<close>

definition fmt_room :: "buf_t \<Rightarrow> nat \<Rightarrow> bool" where
  "fmt_room b n \<longleftrightarrow> length (content b) + n \<le> nat INT_MAX"

interpretation fmt: text_buffer wf_buf content fmt_room buf_addch buf_addf
proof (unfold_locales, goal_cases)
  case (1 b c)
  then show ?case
    by (auto simp: fmt_room_def fits_def length_content wf_raw intro: rok_mono [OF buf_addch_ok])
next
  case (2 b s)
  then show ?case
    by (auto simp: fmt_room_def fits_def length_content wf_raw intro!: rok_mono [OF buf_addf_ok])
qed (auto simp: fmt_room_def)

section \<open>Properties\<close>

text \<open>
  C10. Memory safety of the buffer module: on every buffer reachable from \<open>buf_init\<close> by requests
  within the caller's obligations, each further such request returns normally (no failed
  \<open>assert\<close>, no access outside the block, no read of an indeterminate byte) and
  leaves a well-formed, null-terminated buffer.
\<close>

theorem buf_requests_safe:
  assumes "buf_reachable b" and "buf_may opr b"
  shows "\<exists>b'. buf_do opr b = Inr b' \<and> wf_buf b'"
  using buf_do_ok [OF buf_reachable_wf [OF assms(1)] assms(2)] by (auto simp: rok_def)

theorem buf_requests_safe_witness:
  "\<exists>b'. buf_do (Op_Splice 0 0 ''ab'') buf_empty = Inr b' \<and> wf_buf b'"
proof (rule buf_requests_safe)
  show "buf_reachable buf_empty" by (rule buf_reachable.init [of 0]) (simp_all add: buf_init_def)
  show "buf_may (Op_Splice 0 0 ''ab'') buf_empty" by (simp add: splice_off_def buf_empty_def)
qed

text \<open>
  Growing: after \<open>buf_grow\<close> there is room for \<open>extra\<close> more bytes and a terminator, and the
  text is unchanged. This holds although \<open>GROW_N\<close> wraps around for large capacities; only
  \<open>len + extra + 1\<close> must not.
\<close>

theorem buf_grow_capacity:
  assumes "wf_buf b" and "unat (bf_len b) + unat extra + 1 < 2 ^ 64"
  shows "\<exists>b'. buf_grow b extra = Inr b' \<and> wf_buf b' \<and> content b' = content b \<and>
     bf_len b' = bf_len b \<and> unat (bf_len b) + unat extra < unat (bf_alloc b')"
proof -
  have "rok (buf_grow b extra) (grown b (unat extra))"
    using assms by (intro buf_grow_ok) (auto simp: fits_def)
  then show ?thesis
    using grown_content grown_wf assms(1) by (fastforce simp: rok_def grown_def)
qed

theorem buf_grow_capacity_witness:
  "\<exists>b'. buf_grow buf_empty 8192 = Inr b' \<and> wf_buf b' \<and> content b' = content buf_empty \<and>
     bf_len b' = bf_len buf_empty \<and> unat (bf_len buf_empty) + unat (8192 :: size_t) < unat (bf_alloc b')"
  by (rule buf_grow_capacity) (simp, simp add: buf_empty_def)

text \<open>
  Formatted output: \<open>buf_addf\<close> appends the whole expansion of its format, whether it fits
  at the first attempt or the buffer has to grow and the text is printed again.
\<close>

theorem buf_addf_appends:
  assumes "wf_buf b" and "int (length s) \<le> INT_MAX" and "fits b (length s + 64)"
  shows "\<exists>b'. buf_addf b s = Inr b' \<and> wf_buf b' \<and> content b' = content b @ s"
  using buf_addf_ok [OF assms] by (auto simp: rok_def)

theorem buf_addf_appends_witness:
  "\<exists>b'. buf_addf buf_empty ''year=2004'' = Inr b' \<and> wf_buf b' \<and> content b' = content buf_empty @ ''year=2004''"
  by (rule buf_addf_appends) (simp, simp, simp add: buf_empty_def fits_def)

text \<open>
  Reading a descriptor: however \<open>read(2)\<close> cuts the data and however often it asks to try
  again, \<open>buf_read\<close> ends; it either appends everything up to the end of file and returns the
  number of bytes, or it returns -1 and the text is what it was.
\<close>

theorem buf_read_complete:
  assumes "wf_buf b" and "fits b (unat hint)"
    and "unat (bf_len b) + length (fst (fd_data fd)) + 8193 < 2 ^ 64"
  shows "\<exists>n b'. buf_read b fd hint = Inr (n, snd (fd_data fd), b') \<and> wf_buf b' \<and>
     (if snd (fd_data fd) = None
      then n = of_nat (length (fst (fd_data fd))) \<and> content b' = content b @ fst (fd_data fd)
      else n = -1 \<and> content b' = content b)"
  using buf_read_ok [OF assms] by (fastforce simp: rok_def split: option.splits)

theorem buf_read_complete_witness:
  "\<exists>n b'. buf_read buf_empty [Read_Data ''[a]'', Read_Error EINTR, Read_Data ''k=v''] 0 =
       Inr (n, snd (fd_data [Read_Data ''[a]'', Read_Error EINTR, Read_Data ''k=v'']), b') \<and> wf_buf b' \<and>
     (if snd (fd_data [Read_Data ''[a]'', Read_Error EINTR, Read_Data ''k=v'']) = None
      then n = of_nat (length (fst (fd_data [Read_Data ''[a]'', Read_Error EINTR, Read_Data ''k=v'']))) \<and>
        content b' = content buf_empty @ fst (fd_data [Read_Data ''[a]'', Read_Error EINTR, Read_Data ''k=v''])
      else n = -1 \<and> content b' = content buf_empty)"
  by (rule buf_read_complete) (simp_all add: buf_empty_def fits_def EINTR_def EAGAIN_def
      wf_buf_def raw_buf_def buf_initial_def)

text \<open>
  C16. Splicing: within the text, and for texts below two gigabytes, \<open>buf_splice\<close> replaces exactly
  the \<open>n\<close> bytes at the offset (counted from the end when negative) by the data, although its
  differences are computed in 32 bits.
\<close>

theorem buf_splice_replaces:
  assumes "wf_buf b" and "0 \<le> splice_off b off" and "nat (splice_off b off) + unat n \<le> unat (bf_len b)"
    and "unat (bf_len b) + length d < 2 ^ 31"
  shows "\<exists>b'. buf_splice b off n (Some d) (of_nat (length d)) = Inr b' \<and> wf_buf b' \<and>
     content b' = take (nat (splice_off b off)) (content b) @ d @
       drop (nat (splice_off b off) + unat n) (content b)"
  using buf_splice_ok [OF assms(1-3) disjI2 [OF refl] assms(4)] by (auto simp: rok_def)

theorem buf_splice_replaces_witness:
  "\<exists>b'. buf_splice buf_empty 0 0 (Some ''xy'') (of_nat (length ''xy'')) = Inr b' \<and> wf_buf b' \<and>
     content b' = take (nat (splice_off buf_empty 0)) (content buf_empty) @ ''xy'' @
       drop (nat (splice_off buf_empty 0) + unat (0 :: size_t)) (content buf_empty)"
  by (rule buf_splice_replaces) (simp_all add: splice_off_def, simp_all add: buf_empty_def)

text \<open>
  Pushing back the character that was just read restores the buffer exactly, also for
  characters above 127, which \<open>buf_fgetc\<close> returns as negative numbers.
\<close>

theorem buf_fgetc_ungetc:
  assumes "wf_buf b" and "buf_fgetc b = Inr (c, b1)" and "rest b \<noteq> []"
  shows "buf_ungetc b1 c = Inr (c, b)"
proof -
  let ?p = "unat (bf_pos b)"
  have lc: "length (content b) = unat (bf_len b)" using assms(1) by (auto intro: length_content)
  then have p: "bf_pos b < bf_len b" using assms(3) by (simp add: rest_def size_t_less)
  then have p1: "?p < length (bf_mem b)" "0 < bf_pos b + 1"
    using assms(1) unat_lt_size_t [of "bf_len b"]
    by (auto simp: wf_buf_def raw_buf_def size_t_less unat_add_size_t)
  from assms(2) p obtain x where x: "bf_mem b ! ?p = Some x" "c = schar x" "b1 = b\<lparr>bf_pos := bf_pos b + 1\<rparr>"
    using p1 by (auto simp: buf_fgetc_def rbind_def mem_get_def split: option.splits)
  then have "(bf_mem b)[?p := Some x] = bf_mem b" by (metis list_update_id)
  then show ?thesis using x p1 by (simp add: buf_ungetc_def mem_set_def)
qed

theorem buf_fgetc_ungetc_witness:
  "buf_ungetc \<lparr>bf_mem = [Some CHR ''a'', Some NUL], bf_alloc = 2, bf_len = 1, bf_pos = 1\<rparr> 97 =
     Inr (97, \<lparr>bf_mem = [Some CHR ''a'', Some NUL], bf_alloc = 2, bf_len = 1, bf_pos = 0\<rparr>)"
proof (rule buf_fgetc_ungetc)
  let ?b = "\<lparr>bf_mem = [Some CHR ''a'', Some NUL], bf_alloc = 2, bf_len = 1, bf_pos = 0\<rparr>"
  show "wf_buf ?b" by (simp add: wf_buf_def raw_buf_def)
  show "buf_fgetc ?b = Inr (97, \<lparr>bf_mem = [Some CHR ''a'', Some NUL], bf_alloc = 2, bf_len = 1, bf_pos = 1\<rparr>)"
    by (simp add: buf_fgetc_def mem_get_def schar_def)
  show "rest ?b \<noteq> []" by (simp add: rest_def content_def)
qed

end
