(* ===== verification/Linked_List.thy ===== *)
theory Linked_List
  imports Prelude
begin

text \<open>
  The singly linked lists of \<open>src/list.c\<close> and \<open>src/list.h\<close>, on an explicit heap of nodes:
  the callers compare and keep pointers into lists (\<open>list_remove\<close>, \<open>list_find_first\<close>, the
  current alternative of an attribute), so the links are modelled as the C code has them.

  Address 0 is the null pointer. \<open>malloc\<close> takes an address from the free store of the state and
  returns null when there is none; which addresses it hands out is arbitrary. A loop over a list
  that is circular does not end, so the loops are partial: \<open>None\<close> is "does not return".
  \<open>is_list\<close> relates a pointer to the nodes and elements it leads to; against it, each operation is
  shown to be the operation on the list of elements that the other components are modelled with.
\<close>

section \<open>The heap of nodes\<close>

type_synonym addr = nat

record 'a list_t =
  ln_next :: addr
  ln_el :: 'a

record 'a store =
  st_heap :: "addr \<rightharpoonup> 'a list_t"
  st_free :: "addr list"

definition malloc :: "'a store \<Rightarrow> 'a list_t \<Rightarrow> 'a store \<times> addr" where
  "malloc s node = (case st_free s of
       [] \<Rightarrow> (s, 0)
     | a # as \<Rightarrow> (s\<lparr>st_heap := (st_heap s)(a \<mapsto> node), st_free := as\<rparr>, a))"

definition free_node :: "'a store \<Rightarrow> addr \<Rightarrow> 'a store" where
  "free_node s a = s\<lparr>st_heap := (st_heap s)(a := None), st_free := st_free s @ [a]\<rparr>"

definition load :: "'a store \<Rightarrow> addr \<Rightarrow> 'a list_t res" where
  "load s p = (if p = 0 then Inl Null_Deref
     else case st_heap s p of None \<Rightarrow> Inl Use_After_Free | Some n \<Rightarrow> Inr n)"

definition set_next :: "'a store \<Rightarrow> addr \<Rightarrow> addr \<Rightarrow> 'a store res" where
  "set_next s p q =
     rbind (load s p) (\<lambda>n. Inr (s\<lparr>st_heap := (st_heap s)(p \<mapsto> n\<lparr>ln_next := q\<rparr>)\<rparr>))"

section \<open>Operations\<close>

definition list_new :: "'a store \<Rightarrow> 'a \<Rightarrow> 'a store \<times> addr" where
  "list_new s el = malloc s \<lparr>ln_next = 0, ln_el = el\<rparr>"

partial_function (option) list_free :: "'a store \<Rightarrow> addr \<Rightarrow> 'a store res option" where
  "list_free s p =
     (if p = 0 then Some (Inr s)
      else case load s p of
        Inl e \<Rightarrow> Some (Inl e)
      | Inr n \<Rightarrow> list_free (free_node s p) (ln_next n))"

partial_function (option) list_length_from :: "'a store \<Rightarrow> addr \<Rightarrow> c_int \<Rightarrow> c_int res option" where
  "list_length_from s p n =
     (if p = 0 then Some (Inr n)
      else case load s p of
        Inl e \<Rightarrow> Some (Inl e)
      | Inr c \<Rightarrow> list_length_from s (ln_next c) (n + 1))"

definition list_length :: "'a store \<Rightarrow> addr \<Rightarrow> c_int res option" where
  "list_length s p = list_length_from s p 0"

text \<open>The walk of \<open>list_push\<close> to the last node.\<close>

partial_function (option) list_last :: "'a store \<Rightarrow> addr \<Rightarrow> addr res option" where
  "list_last s p =
     (case load s p of
        Inl e \<Rightarrow> Some (Inl e)
      | Inr n \<Rightarrow> if ln_next n = 0 then Some (Inr p) else list_last s (ln_next n))"

definition list_push :: "'a store \<Rightarrow> addr \<Rightarrow> 'a \<Rightarrow> ('a store \<times> addr) res option" where
  "list_push s list el =
     (let (s1, new) = malloc s \<lparr>ln_next = 0, ln_el = el\<rparr> in
      if new = 0 then Some (Inr (s1, 0))
      else if list = 0 then Some (Inr (s1, new))
      else case list_last s1 list of
        None \<Rightarrow> None
      | Some r \<Rightarrow> Some (rbind r (\<lambda>p. rbind (set_next s1 p new) (\<lambda>s2. Inr (s2, list)))))"

text \<open>A loop of pushes, as in \<open>list_from\<close>; the elements are the arguments before the null one.\<close>

fun push_all :: "('s \<Rightarrow> addr \<Rightarrow> 'a \<Rightarrow> ('s \<times> addr) res option) \<Rightarrow> 's \<Rightarrow> addr \<Rightarrow> 'a list \<Rightarrow>
    ('s \<times> addr) res option" where
  "push_all push s list [] = Some (Inr (s, list))"
| "push_all push s list (el # els) =
     (case push s list el of
        None \<Rightarrow> None
      | Some (Inl e) \<Rightarrow> Some (Inl e)
      | Some (Inr (s', list')) \<Rightarrow> push_all push s' list' els)"

definition list_from :: "'a store \<Rightarrow> 'a list \<Rightarrow> ('a store \<times> addr) res option" where
  "list_from s els = push_all list_push s 0 els"

partial_function (option) list_foreach_byval ::
    "'a store \<Rightarrow> addr \<Rightarrow> ('a \<Rightarrow> 'u \<Rightarrow> 'u) \<Rightarrow> 'u \<Rightarrow> 'u res option" where
  "list_foreach_byval s p f u =
     (if p = 0 then Some (Inr u)
      else case load s p of
        Inl e \<Rightarrow> Some (Inl e)
      | Inr n \<Rightarrow> list_foreach_byval s (ln_next n) f (f (ln_el n) u))"

partial_function (option) list_find_first :: "'a store \<Rightarrow> addr \<Rightarrow> ('a \<Rightarrow> bool) \<Rightarrow> addr res option" where
  "list_find_first s p f =
     (if p = 0 then Some (Inr 0)
      else case load s p of
        Inl e \<Rightarrow> Some (Inl e)
      | Inr n \<Rightarrow> if f (ln_el n) then Some (Inr p) else list_find_first s (ln_next n) f)"

text \<open>The loop of \<open>list_remove\<close>; \<open>prev\<close> is the node before \<open>p\<close>, or null.\<close>

partial_function (option) list_remove_loop ::
    "'a store \<Rightarrow> addr \<Rightarrow> addr \<Rightarrow> addr \<Rightarrow> addr \<Rightarrow> ('a store \<times> addr) res option" where
  "list_remove_loop s list link p prev =
     (if p = 0 then Some (Inr (s, list))
      else case load s p of
        Inl e \<Rightarrow> Some (Inl e)
      | Inr n \<Rightarrow>
          if p = link
          then Some (rbind (if prev \<noteq> 0
                            then rbind (set_next s prev (ln_next n)) (\<lambda>s'. Inr (s', list))
                            else Inr (s, ln_next n)) (\<lambda>(s', list').
                     rbind (set_next s' link 0) (\<lambda>s''. Inr (s'', list'))))
          else list_remove_loop s list link (ln_next n) p)"

definition list_remove :: "'a store \<Rightarrow> addr \<Rightarrow> addr \<Rightarrow> ('a store \<times> addr) res option" where
  "list_remove s list link = list_remove_loop s list link list 0"

text \<open>\<open>list_transform\<close> of one list into another of the same element type; \<open>dst\<close> is the result so far.\<close>

partial_function (option) list_transform_loop ::
    "'a store \<Rightarrow> addr \<Rightarrow> ('a \<Rightarrow> 'a) \<Rightarrow> addr \<Rightarrow> ('a store \<times> addr) res option" where
  "list_transform_loop s src f dst =
     (if src = 0 then Some (Inr (s, dst))
      else case load s src of
        Inl e \<Rightarrow> Some (Inl e)
      | Inr n \<Rightarrow>
          (case list_push s dst (f (ln_el n)) of
             None \<Rightarrow> None
           | Some (Inl e) \<Rightarrow> Some (Inl e)
           | Some (Inr (s', dst')) \<Rightarrow> list_transform_loop s' (ln_next n) f dst'))"

definition list_transform :: "'a store \<Rightarrow> addr \<Rightarrow> ('a \<Rightarrow> 'a) \<Rightarrow> ('a store \<times> addr) res option" where
  "list_transform s src f = list_transform_loop s src f 0"

section \<open>Lists in the heap\<close>

text \<open>\<open>is_seg s p as q\<close>: the nodes \<open>as\<close> (address and element) lead from \<open>p\<close> to \<open>q\<close>.\<close>

fun is_seg :: "'a store \<Rightarrow> addr \<Rightarrow> (addr \<times> 'a) list \<Rightarrow> addr \<Rightarrow> bool" where
  "is_seg s p [] q = (p = q)"
| "is_seg s p ((a, x) # as) q =
     (p = a \<and> a \<noteq> 0 \<and> (case st_heap s a of None \<Rightarrow> False | Some n \<Rightarrow> ln_el n = x \<and> is_seg s (ln_next n) as q))"

definition is_list :: "'a store \<Rightarrow> addr \<Rightarrow> (addr \<times> 'a) list \<Rightarrow> bool" where
  "is_list s p as \<longleftrightarrow> is_seg s p as 0 \<and> distinct (map fst as)"

text \<open>The allocator's side: free addresses are not null, not in use, and not listed twice.\<close>

definition wf_store :: "'a store \<Rightarrow> bool" where
  "wf_store s \<longleftrightarrow> 0 \<notin> set (st_free s) \<and> distinct (st_free s) \<and> set (st_free s) \<inter> dom (st_heap s) = {}"

lemma is_seg_append: "is_seg s p (as @ bs) q \<longleftrightarrow> (\<exists>r. is_seg s p as r \<and> is_seg s r bs q)"
  by (induction as arbitrary: p) (auto split: option.splits)

lemma is_seg_in_heap: "is_seg s p as q \<Longrightarrow> fst ` set as \<subseteq> dom (st_heap s) - {0}"
  by (induction as arbitrary: p) (fastforce split: option.splits)+

lemma is_seg_cong:
  "\<forall>a \<in> fst ` set as. st_heap s' a = st_heap s a \<Longrightarrow> is_seg s' p as q = is_seg s p as q"
  by (induction as arbitrary: p) (auto split: option.splits)

lemma is_seg_frame:
  "a \<notin> fst ` set as \<Longrightarrow> is_seg (s\<lparr>st_heap := (st_heap s)(a := v)\<rparr>) p as q = is_seg s p as q"
  by (intro is_seg_cong) auto

lemma is_seg_0 [simp]: "is_seg s 0 as q \<longleftrightarrow> as = [] \<and> q = 0"
  by (cases as) auto

lemma is_list_0 [simp]: "is_list s 0 as \<longleftrightarrow> as = []"
  by (auto simp: is_list_def)

lemma load_Cons: "is_seg s p ((a, x) # as) q \<Longrightarrow> \<exists>n. load s p = Inr n \<and> ln_el n = x \<and> is_seg s (ln_next n) as q"
  by (auto simp: load_def split: option.splits)

lemma is_listD: "is_list s p as \<Longrightarrow> fst ` set as \<subseteq> dom (st_heap s)" "is_list s p as \<Longrightarrow> 0 \<notin> fst ` set as"
  using is_seg_in_heap [of s p as 0] by (auto simp: is_list_def)

section \<open>The operations on lists in the heap\<close>

lemma list_length_from_seg:
  "is_seg s p as 0 \<Longrightarrow> list_length_from s p n = Some (Inr (n + of_nat (length as)))"
proof (induction as arbitrary: p n)
  case Nil
  then show ?case by (simp add: list_length_from.simps)
next
  case (Cons ax as)
  obtain a x where ax: "ax = (a, x)" by (cases ax)
  with Cons.prems have "p \<noteq> 0" by simp
  with load_Cons [of s p a x as 0] Cons ax show ?case
    by (subst list_length_from.simps) (auto simp: algebra_simps)
qed

lemma list_foreach_seg:
  "is_seg s p as 0 \<Longrightarrow> list_foreach_byval s p f u = Some (Inr (fold f (map snd as) u))"
proof (induction as arbitrary: p u)
  case Nil
  then show ?case by (simp add: list_foreach_byval.simps)
next
  case (Cons ax as)
  obtain a x where ax: "ax = (a, x)" by (cases ax)
  with Cons.prems have "p \<noteq> 0" by simp
  with load_Cons [of s p a x as 0] Cons ax show ?case
    by (subst list_foreach_byval.simps) auto
qed

lemma list_find_first_seg:
  "is_seg s p as 0 \<Longrightarrow> \<exists>q. list_find_first s p f = Some (Inr q) \<and>
     is_seg s q (dropWhile (\<lambda>(a, x). \<not> f x) as) 0"
proof (induction as arbitrary: p)
  case Nil
  then show ?case by (simp add: list_find_first.simps)
next
  case (Cons ax as)
  obtain a x where ax: "ax = (a, x)" by (cases ax)
  with Cons.prems have "p \<noteq> 0" by simp
  obtain n where n: "load s p = Inr n" "ln_el n = x" "is_seg s (ln_next n) as 0"
    using load_Cons [of s p a x as 0] Cons.prems ax by auto
  show ?case
    using Cons.prems Cons.IH [OF n(3)] n \<open>p \<noteq> 0\<close> ax by (subst list_find_first.simps) auto
qed

lemma list_last_seg:
  "is_seg s p (as @ [(a, x)]) 0 \<Longrightarrow> list_last s p = Some (Inr a)"
proof (induction as arbitrary: p)
  case Nil
  then show ?case
    by (subst list_last.simps) (auto simp: load_def split: option.splits)
next
  case (Cons bx as)
  obtain b y where bx: "bx = (b, y)" by (cases bx)
  obtain n where n: "load s p = Inr n" "is_seg s (ln_next n) (as @ [(a, x)]) 0"
    using load_Cons [of s p b y "as @ [(a, x)]" 0] Cons.prems bx by auto
  then have "ln_next n \<noteq> 0" by (metis Nil_is_append_conv is_seg_0 list.distinct(1))
  then show ?case using Cons.IH [OF n(2)] n by (subst list_last.simps) auto
qed

text \<open>The list after its last node has been linked to a fresh one.\<close>

lemma is_seg_relink:
  assumes "is_seg s p (as @ [(a, x)]) q" and "distinct (map fst (as @ [(a, x)]))"
  shows "\<exists>n. load s a = Inr n \<and> is_seg (s\<lparr>st_heap := (st_heap s)(a \<mapsto> n\<lparr>ln_next := r\<rparr>)\<rparr>) p (as @ [(a, x)]) r"
proof -
  from assms(1) obtain b where b: "is_seg s p as b" "is_seg s b [(a, x)] q" by (auto simp: is_seg_append)
  then obtain n where n: "st_heap s a = Some n" "ln_el n = x" "b = a" "a \<noteq> 0"
    by (auto split: option.splits)
  let ?s = "s\<lparr>st_heap := (st_heap s)(a \<mapsto> n\<lparr>ln_next := r\<rparr>)\<rparr>"
  have "is_seg ?s p as b = is_seg s p as b"
    using assms(2) by (intro is_seg_cong) auto
  with b n have "is_seg ?s p (as @ [(a, x)]) r" by (auto simp: is_seg_append)
  with n show ?thesis by (auto simp: load_def)
qed

lemma list_push_full:
  assumes "st_free s = []"
  shows "list_push s p x = Some (Inr (s, 0))"
  using assms by (simp add: list_push_def malloc_def)

lemma list_push_ok:
  assumes wf: "wf_store s" and l: "is_list s p as" and fr: "st_free s = c # cs"
  shows "\<exists>s' p'. list_push s p x = Some (Inr (s', p')) \<and> is_list s' p' (as @ [(c, x)]) \<and> p' \<noteq> 0 \<and>
     wf_store s' \<and> st_free s' = cs \<and> (\<forall>b. b \<noteq> c \<and> b \<notin> fst ` set as \<longrightarrow> st_heap s' b = st_heap s b)"
proof -
  let ?n = "\<lparr>ln_next = 0, ln_el = x\<rparr>"
  let ?s1 = "s\<lparr>st_heap := (st_heap s)(c \<mapsto> ?n), st_free := cs\<rparr>"
  have c: "c \<noteq> 0" "c \<notin> fst ` set as" "wf_store ?s1"
    using wf fr is_listD [OF l] by (auto simp: wf_store_def)
  have m: "malloc s ?n = (?s1, c)" using fr by (simp add: malloc_def)
  have "\<forall>a \<in> fst ` set as. st_heap ?s1 a = st_heap s a" using c(2) by auto
  then have l1: "is_seg ?s1 p as 0"
    using l is_seg_cong [of as ?s1 s p 0] by (simp add: is_list_def)
  show ?thesis
  proof (cases as rule: rev_cases)
    case Nil
    with l have "p = 0" by (simp add: is_list_def)
    then show ?thesis using Nil m c by (auto simp: list_push_def is_list_def)
  next
    case (snoc bs ay)
    obtain a y where ay: "ay = (a, y)" by (cases ay)
    with l1 snoc have seg: "is_seg ?s1 p (bs @ [(a, y)]) 0" by simp
    have d: "distinct (map fst (bs @ [(a, y)]))" using l snoc ay by (simp add: is_list_def)
    obtain n where n: "load ?s1 a = Inr n"
      "is_seg (?s1\<lparr>st_heap := (st_heap ?s1)(a \<mapsto> n\<lparr>ln_next := c\<rparr>)\<rparr>) p (bs @ [(a, y)]) c"
      using is_seg_relink [OF seg d] by blast
    let ?s2 = "?s1\<lparr>st_heap := (st_heap ?s1)(a \<mapsto> n\<lparr>ln_next := c\<rparr>)\<rparr>"
    have ac: "a \<noteq> c" "p \<noteq> 0" using c snoc ay seg by (auto intro: ccontr)
    have "is_seg ?s2 p (as @ [(c, x)]) 0"
      using n(2) snoc ay ac c by (auto simp: is_seg_append)
    moreover have "distinct (map fst (as @ [(c, x)]))" using l c by (simp add: is_list_def)
    ultimately have "is_list ?s2 p (as @ [(c, x)])" by (simp add: is_list_def)
    moreover have "list_push s p x = Some (Inr (?s2, p))"
      using m c ac list_last_seg [OF seg] n(1) by (simp add: list_push_def set_next_def)
    moreover have "a \<in> dom (st_heap ?s1)" using n(1) by (auto simp: load_def split: if_splits option.splits)
    then have "wf_store ?s2" using c(3) by (auto simp: wf_store_def)
    ultimately show ?thesis using ac snoc ay by auto
  qed
qed

subsection \<open>Removing a node\<close>

text \<open>The loop has passed the nodes \<open>as\<close>; \<open>prev\<close> is the last of them.\<close>

lemma list_remove_absent:
  "is_seg s p bs 0 \<Longrightarrow> link \<notin> fst ` set bs \<Longrightarrow> list_remove_loop s list link p prev = Some (Inr (s, list))"
proof (induction bs arbitrary: p prev)
  case Nil
  then show ?case by (simp add: list_remove_loop.simps)
next
  case (Cons ax bs)
  obtain a x where ax: "ax = (a, x)" by (cases ax)
  with Cons.prems have "p \<noteq> 0" "p \<noteq> link" by auto
  obtain n where n: "load s p = Inr n" "is_seg s (ln_next n) bs 0"
    using load_Cons [of s p a x bs 0] Cons.prems ax by auto
  then show ?case
    using Cons.IH [OF n(2)] Cons.prems \<open>p \<noteq> 0\<close> \<open>p \<noteq> link\<close> by (subst list_remove_loop.simps) auto
qed

lemma list_remove_walk:
  assumes "is_seg s p as link" "link \<notin> fst ` set as" "as \<noteq> []"
  shows "list_remove_loop s list link p prev = list_remove_loop s list link link (fst (last as))"
  using assms
proof (induction as arbitrary: p prev)
  case (Cons ax as)
  obtain a x where ax: "ax = (a, x)" by (cases ax)
  with Cons.prems have p: "p \<noteq> 0" "p \<noteq> link" "p = a" by auto
  obtain n where n: "load s p = Inr n" "is_seg s (ln_next n) as link"
    using load_Cons [of s p a x as link] Cons.prems ax by auto
  have "list_remove_loop s list link p prev = list_remove_loop s list link (ln_next n) p"
    using n p by (subst list_remove_loop.simps) simp
  then show ?case
    using Cons.IH [OF n(2)] Cons.prems n p ax by (cases "as = []") auto
qed simp

lemma list_remove_ok:
  assumes l: "is_list s p (as @ (link, x) # bs)"
  shows "\<exists>s' p'. list_remove s p link = Some (Inr (s', p')) \<and> is_list s' p' (as @ bs) \<and>
     is_list s' link [(link, x)] \<and> st_free s' = st_free s \<and> dom (st_heap s') = dom (st_heap s)"
proof -
  have d: "distinct (map fst as)" "distinct (map fst bs)" "link \<notin> fst ` set as" "link \<notin> fst ` set bs"
    "fst ` set as \<inter> fst ` set bs = {}"
    using l by (auto simp: is_list_def)
  obtain n where seg: "is_seg s p as link" and n: "st_heap s link = Some n" "ln_el n = x" "link \<noteq> 0"
    "is_seg s (ln_next n) bs 0"
    using l by (auto simp: is_list_def is_seg_append split: option.splits)
  let ?un = "\<lambda>s :: 'a store. s\<lparr>st_heap := (st_heap s)(link \<mapsto> n\<lparr>ln_next := 0\<rparr>)\<rparr>"
  show ?thesis
  proof (cases as rule: rev_cases)
    case Nil
    have "is_seg (?un s) (ln_next n) bs 0"
      using n(4) is_seg_frame [OF d(4)] by simp
    moreover have "list_remove s p link = Some (Inr (?un s, ln_next n))"
      using Nil seg n unfolding list_remove_def
      by (subst list_remove_loop.simps) (simp add: load_def set_next_def)
    ultimately show ?thesis using Nil d n by (auto simp: is_list_def)
  next
    case (snoc cs ay)
    obtain a y where ay: "ay = (a, y)" by (cases ay)
    obtain m where m: "load s a = Inr m"
      "is_seg (s\<lparr>st_heap := (st_heap s)(a \<mapsto> m\<lparr>ln_next := ln_next n\<rparr>)\<rparr>) p (cs @ [(a, y)]) (ln_next n)"
      using is_seg_relink [of s p cs a y link] seg d(1) snoc ay by auto
    let ?s1 = "s\<lparr>st_heap := (st_heap s)(a \<mapsto> m\<lparr>ln_next := ln_next n\<rparr>)\<rparr>"
    have a: "a \<noteq> 0" "a \<noteq> link" "a \<notin> fst ` set bs" "st_heap s a = Some m"
      using d snoc ay m(1) by (auto simp: load_def split: if_splits option.splits)
    have "is_seg (?un ?s1) p as (ln_next n)"
      using m(2) snoc ay is_seg_frame [OF d(3), of ?s1] by simp
    moreover have "is_seg (?un ?s1) (ln_next n) bs 0"
      using n(4) is_seg_frame [OF d(4), of ?s1] is_seg_frame [OF a(3), of s] by simp
    ultimately have "is_list (?un ?s1) p (as @ bs)" using d by (auto simp: is_list_def is_seg_append)
    moreover have "list_remove s p link = Some (Inr (?un ?s1, p))"
    proof -
      have "list_remove s p link = list_remove_loop s p link link a"
        using list_remove_walk [OF seg d(3)] snoc ay by (simp add: list_remove_def)
      also have "\<dots> = Some (Inr (?un ?s1, p))"
        using n a m(1) by (subst list_remove_loop.simps) (simp add: load_def set_next_def)
      finally show ?thesis .
    qed
    ultimately show ?thesis using a n by (auto simp: is_list_def)
  qed
qed

subsection \<open>Freeing a list\<close>

lemma list_free_seg:
  assumes "is_seg s p as 0" "distinct (map fst as)"
  shows "\<exists>s'. list_free s p = Some (Inr s') \<and> st_free s' = st_free s @ map fst as \<and>
     st_heap s' = (st_heap s) |` (- fst ` set as)"
  using assms
proof (induction as arbitrary: s p)
  case Nil
  then show ?case by (auto simp: list_free.simps restrict_map_def)
next
  case (Cons ax as)
  obtain a x where ax: "ax = (a, x)" by (cases ax)
  with Cons.prems have p: "p \<noteq> 0" "p = a" "a \<notin> fst ` set as" by auto
  obtain n where n: "load s p = Inr n" "is_seg s (ln_next n) as 0"
    using load_Cons [of s p a x as 0] Cons.prems ax by auto
  let ?s = "free_node s p"
  have "is_seg ?s (ln_next n) as 0"
    using n(2) p by (subst is_seg_cong [of as ?s s]) (auto simp: free_node_def)
  from Cons.IH [OF this] Cons.prems(2) obtain s' where
    s': "list_free ?s (ln_next n) = Some (Inr s')" "st_free s' = st_free ?s @ map fst as"
    "st_heap s' = (st_heap ?s) |` (- fst ` set as)"
    by auto
  have "list_free s p = Some (Inr s')" using n(1) p s'(1) by (subst list_free.simps) simp
  moreover have "st_heap s' = (st_heap s) |` (- fst ` set (ax # as))"
    using s'(3) p ax by (auto simp: free_node_def restrict_map_def fun_eq_iff)
  ultimately show ?case using s'(2) p ax by (simp add: free_node_def)
qed

section \<open>The contract of a push, and what loops of pushes do\<close>

text \<open>
  \<open>repr s p xs\<close>: in state \<open>s\<close> the pointer \<open>p\<close> is a list of the elements \<open>xs\<close>, and
  \<open>room s\<close> is how many more nodes can be had. A client only needs that a push appends and takes one
  unit of room.
\<close>

locale list_contract =
  fixes repr :: "'s \<Rightarrow> addr \<Rightarrow> 'a list \<Rightarrow> bool" and room :: "'s \<Rightarrow> nat"
    and push :: "'s \<Rightarrow> addr \<Rightarrow> 'a \<Rightarrow> ('s \<times> addr) res option"
  assumes push_ok: "repr s p xs \<Longrightarrow> room s = Suc n \<Longrightarrow>
      \<exists>s' p'. push s p x = Some (Inr (s', p')) \<and> repr s' p' (xs @ [x]) \<and> room s' = n"
begin

lemma push_all_ok:
  "repr s p xs \<Longrightarrow> length ys \<le> room s \<Longrightarrow>
     \<exists>s' p'. push_all push s p ys = Some (Inr (s', p')) \<and> repr s' p' (xs @ ys) \<and> room s' = room s - length ys"
proof (induction ys arbitrary: s p xs)
  case Nil
  then show ?case by auto
next
  case (Cons y ys)
  then obtain n where n: "room s = Suc n" by (cases "room s") auto
  from push_ok [OF Cons.prems(1) n, of y] obtain s' p' where
    s': "push s p y = Some (Inr (s', p'))" "repr s' p' (xs @ [y])" "room s' = n" by blast
  with Cons.IH [OF s'(2)] Cons.prems(2) n show ?case by auto
qed

end

definition repr_list :: "'a store \<Rightarrow> addr \<Rightarrow> 'a list \<Rightarrow> bool" where
  "repr_list s p xs \<longleftrightarrow> wf_store s \<and> (\<exists>as. is_list s p as \<and> map snd as = xs)"

interpretation ll: list_contract repr_list "\<lambda>s. length (st_free s)" list_push
proof
  fix s :: "'a store" and p xs n x
  assume "repr_list s p xs" and n: "length (st_free s) = Suc n"
  then obtain as where as: "wf_store s" "is_list s p as" "map snd as = xs" by (auto simp: repr_list_def)
  from n obtain c cs where c: "st_free s = c # cs" "length cs = n" by (auto simp: length_Suc_conv)
  from list_push_ok [OF as(1,2) c(1), of x] obtain s' p' where
    s': "list_push s p x = Some (Inr (s', p'))" "is_list s' p' (as @ [(c, x)])" "wf_store s'" "st_free s' = cs"
    by blast
  then have "repr_list s' p' (xs @ [x])" unfolding repr_list_def using as(3) by force
  with s' c show "\<exists>s' p'. list_push s p x = Some (Inr (s', p')) \<and> repr_list s' p' (xs @ [x]) \<and>
      length (st_free s') = n"
    by auto
qed

text \<open>\<open>list_transform\<close> pushes the images of the elements, so it is a loop of pushes as well.\<close>

lemma list_transform_loop_ok:
  assumes "wf_store s" "is_list s src as" "is_list s dst bs" "fst ` set as \<inter> fst ` set bs = {}"
    and "length as \<le> length (st_free s)"
  shows "\<exists>s' p cs. list_transform_loop s src f dst = Some (Inr (s', p)) \<and> wf_store s' \<and>
     is_list s' p (bs @ cs) \<and> map snd cs = map (f \<circ> snd) as \<and> map fst cs = take (length as) (st_free s) \<and>
     (\<forall>b. b \<in> dom (st_heap s) - fst ` set bs \<longrightarrow> st_heap s' b = st_heap s b)"
  using assms
proof (induction as arbitrary: s src dst bs)
  case Nil
  then have "list_transform_loop s src f dst = Some (Inr (s, dst))"
    by (subst list_transform_loop.simps) (simp add: is_list_def)
  then show ?case using Nil.prems by auto
next
  case (Cons ax as)
  obtain a x where ax: "ax = (a, x)" by (cases ax)
  have src: "src = a" "a \<noteq> 0" "a \<notin> fst ` set as" using Cons.prems(2) ax by (auto simp: is_list_def)
  obtain n where n: "load s src = Inr n" "ln_el n = x" "is_seg s (ln_next n) as 0"
    using load_Cons [of s src a x as 0] Cons.prems(2) ax by (auto simp: is_list_def)
  obtain c cs where c: "st_free s = c # cs" using Cons.prems(5) by (cases "st_free s") auto
  obtain s1 d1 where s1: "list_push s dst (f x) = Some (Inr (s1, d1))" "is_list s1 d1 (bs @ [(c, f x)])"
    "wf_store s1" "st_free s1 = cs" "\<forall>b. b \<noteq> c \<and> b \<notin> fst ` set bs \<longrightarrow> st_heap s1 b = st_heap s b"
    using list_push_ok [OF Cons.prems(1,3) c, of "f x"] by blast
  have inheap: "fst ` set (ax # as) \<subseteq> dom (st_heap s)" by (rule is_listD(1) [OF Cons.prems(2)])
  have cfresh: "c \<notin> dom (st_heap s)" using Cons.prems(1) c by (auto simp: wf_store_def)
  have "st_heap s1 b = st_heap s b" if "b \<in> fst ` set as" for b
    using that s1(5) Cons.prems(4) inheap cfresh by (metis IntI empty_iff in_mono list.set_intros(2) image_mono set_subset_Cons)
  then have "is_seg s1 (ln_next n) as 0"
    using n(3) by (subst is_seg_cong [of as s1 s]) auto
  then have l1: "is_list s1 (ln_next n) as" using Cons.prems(2) by (simp add: is_list_def)
  have disj: "fst ` set as \<inter> fst ` set (bs @ [(c, f x)]) = {}"
    using Cons.prems(4) cfresh inheap by auto
  have "length as \<le> length (st_free s1)" using Cons.prems(5) c s1(4) by simp
  from Cons.IH [OF s1(3) l1 s1(2) disj this] obtain s' p ds where
    s': "list_transform_loop s1 (ln_next n) f d1 = Some (Inr (s', p))" "wf_store s'"
    "is_list s' p ((bs @ [(c, f x)]) @ ds)" "map snd ds = map (f \<circ> snd) as"
    "map fst ds = take (length as) (st_free s1)"
    "\<forall>b. b \<in> dom (st_heap s1) - fst ` set (bs @ [(c, f x)]) \<longrightarrow> st_heap s' b = st_heap s1 b"
    by blast
  have "list_transform_loop s src f dst = Some (Inr (s', p))"
    using n src s1(1) s'(1) by (subst list_transform_loop.simps) simp
  moreover have "st_heap s' b = st_heap s b" if "b \<in> dom (st_heap s) - fst ` set bs" for b
  proof -
    have "b \<noteq> c" using that cfresh by auto
    then have e: "st_heap s1 b = st_heap s b" using s1(5) that by auto
    then have "b \<in> dom (st_heap s1) - fst ` set (bs @ [(c, f x)])" using that \<open>b \<noteq> c\<close> by auto
    with s'(6) e show ?thesis by simp
  qed
  ultimately show ?case
    using s' s1(4) c ax by (intro exI [of _ s'] exI [of _ p] exI [of _ "(c, f x) # ds"]) auto
qed

section \<open>Properties\<close>

text \<open>
  \<open>list_push\<close> implements appending: when a node can be allocated it returns a pointer to a list
  with the new element behind the old ones, in the same nodes, and writes to no other list.
\<close>

theorem list_push_appends:
  assumes "wf_store s" and "is_list s p as" and "st_free s = c # cs"
  shows "\<exists>s' p'. list_push s p x = Some (Inr (s', p')) \<and> is_list s' p' (as @ [(c, x)]) \<and> wf_store s' \<and>
     (\<forall>b. b \<noteq> c \<and> b \<notin> fst ` set as \<longrightarrow> st_heap s' b = st_heap s b)"
  using list_push_ok [OF assms] by blast

definition example_store :: "string store" where
  "example_store = \<lparr>st_heap = [1 \<mapsto> \<lparr>ln_next = 2, ln_el = ''a''\<rparr>, 2 \<mapsto> \<lparr>ln_next = 0, ln_el = ''b''\<rparr>],
     st_free = [3, 4, 5]\<rparr>"

lemma example_store_ok: "wf_store example_store" "is_list example_store 1 [(1, ''a''), (2, ''b'')]"
  "st_free example_store = 3 # [4, 5]"
  by (auto simp: example_store_def wf_store_def is_list_def)

theorem list_push_appends_witness:
  "\<exists>s' p'. list_push example_store 1 ''c'' = Some (Inr (s', p')) \<and>
     is_list s' p' ([(1, ''a''), (2, ''b'')] @ [(3, ''c'')]) \<and> wf_store s' \<and>
     (\<forall>b. b \<noteq> 3 \<and> b \<notin> fst ` set [(1, ''a''), (2, ''b'')] \<longrightarrow> st_heap s' b = st_heap example_store b)"
  by (rule list_push_appends [OF example_store_ok])

text \<open>
  \<open>list_remove\<close> unlinks exactly the given node: the returned list has the other nodes in their
  order, and the removed node is a list of its own.
\<close>

theorem list_remove_unlinks:
  assumes "is_list s p (as @ (link, x) # bs)"
  shows "\<exists>s' p'. list_remove s p link = Some (Inr (s', p')) \<and> is_list s' p' (as @ bs) \<and>
     is_list s' link [(link, x)]"
  using list_remove_ok [OF assms] by blast

theorem list_remove_unlinks_witness:
  "\<exists>s' p'. list_remove example_store 1 2 = Some (Inr (s', p')) \<and> is_list s' p' ([(1, ''a'')] @ []) \<and>
     is_list s' 2 [(2, ''b'')]"
  using list_remove_unlinks [of example_store 1 "[(1, ''a'')]" 2 "''b''" "[]"] example_store_ok(2) by simp

text \<open>
  \<open>list_transform\<close> implements mapping: with enough memory it returns a list of fresh nodes that
  hold the images of the elements in order, and the source list is as it was.
\<close>

theorem list_transform_maps:
  assumes "wf_store s" and "is_list s src as" and "length as \<le> length (st_free s)"
  shows "\<exists>s' p cs. list_transform s src f = Some (Inr (s', p)) \<and> is_list s' p cs \<and>
     map snd cs = map f (map snd as) \<and> is_list s' src as \<and> fst ` set cs \<inter> fst ` set as = {}"
proof -
  obtain s' p cs where r: "list_transform_loop s src f 0 = Some (Inr (s', p))"
    "is_list s' p ([] @ cs)" "map snd cs = map (f \<circ> snd) as" "map fst cs = take (length as) (st_free s)"
    "\<forall>b. b \<in> dom (st_heap s) - fst ` set ([] :: (addr \<times> 'a) list) \<longrightarrow> st_heap s' b = st_heap s b"
    using list_transform_loop_ok [of s src as 0 "[]" f] assms by auto
  have in_s: "fst ` set as \<subseteq> dom (st_heap s)" by (rule is_listD(1) [OF assms(2)])
  then have "\<forall>a \<in> fst ` set as. st_heap s' a = st_heap s a" using r(5) by auto
  then have "is_list s' src as" using assms(2) is_seg_cong [of as s' s src 0] by (simp add: is_list_def)
  moreover have "fst ` set cs \<subseteq> set (st_free s)"
    using r(4) by (metis image_set set_take_subset)
  then have "fst ` set cs \<inter> fst ` set as = {}" using assms(1) in_s by (auto simp: wf_store_def)
  ultimately show ?thesis using r by (auto simp: list_transform_def)
qed

theorem list_transform_maps_witness:
  "\<exists>s' p cs. list_transform example_store 1 rev = Some (Inr (s', p)) \<and> is_list s' p cs \<and>
     map snd cs = map rev (map snd [(1 :: nat, ''a''), (2, ''b'')]) \<and>
     is_list s' 1 [(1, ''a''), (2, ''b'')] \<and> fst ` set cs \<inter> fst ` set [(1, ''a''), (2, ''b'')] = {}"
  by (rule list_transform_maps [OF example_store_ok(1,2)]) (simp add: example_store_def)

text \<open>
  \<open>list_free\<close> gives back every node of the list, each once, and touches nothing else.
\<close>

theorem list_free_releases:
  assumes "is_list s p as"
  shows "\<exists>s'. list_free s p = Some (Inr s') \<and> st_free s' = st_free s @ map fst as \<and>
     st_heap s' = (st_heap s) |` (- fst ` set as)"
  using list_free_seg assms by (auto simp: is_list_def)

theorem list_free_releases_witness:
  "\<exists>s'. list_free example_store 1 = Some (Inr s') \<and>
     st_free s' = st_free example_store @ map fst [(1, ''a''), (2, ''b'')] \<and>
     st_heap s' = (st_heap example_store) |` (- fst ` set [(1, ''a''), (2, ''b'')])"
  by (rule list_free_releases [OF example_store_ok(2)])

end
