(* ===== verification/Log.thy ===== *)
theory Log
  imports Prelude
begin

text \<open>
  The default logging routines, \<open>src/log.c\<close>. What has been written to \<open>stderr\<close> is a string; a
  message is given with its format already expanded.
\<close>

definition pathcomp_log_emit :: "string \<Rightarrow> string \<Rightarrow> string" where
  "pathcomp_log_emit stderr msg = ((stderr @ ''pathcomp: '') @ msg) @ [CHR 0x0A]"

definition pathcomp_log_debug :: "string \<Rightarrow> string \<Rightarrow> string" where
  "pathcomp_log_debug stderr msg = stderr"

definition pathcomp_log_warning :: "string \<Rightarrow> string \<Rightarrow> string" where
  "pathcomp_log_warning stderr msg = pathcomp_log_emit stderr msg"

definition pathcomp_log_error :: "string \<Rightarrow> string \<Rightarrow> string" where
  "pathcomp_log_error stderr msg = pathcomp_log_emit stderr msg"

end
