(* ===== verification/Cf.thy ===== *)
theory Cf
  imports Buf Log
begin

text \<open>
  The configuration reader, \<open>src/cf.c\<close> and \<open>src/cf.h\<close>.

  The parser runs on the buffers of \<open>Buf\<close>: it reads the text with \<open>buf_fgetc\<close> and
  \<open>buf_ungetc\<close> and collects names, keys and values with \<open>buf_addch\<close>, so every loop of the
  C code is a function from buffers to buffers that may fail as the buffer operations may. The
  linked lists of sections and entries are HOL lists. Where the C code returns 0 the
  section under construction is dropped.

  The second half gives the same grammar as functions on character lists (\<open>p_name\<close>,
  \<open>p_key\<close>, \<open>p_value\<close>, \<open>p_text\<close>) and shows that the buffer version computes it without
  any failure; the properties of the syntax are then proved on lists.
\<close>

section \<open>Data\<close>

record cf_kv_t =
  kv_key :: string
  kv_value :: string

record cf_section_t =
  sec_name :: string
  sec_entries :: "cf_kv_t list"

record cf_t =
  cf_sections :: "cf_section_t list"

definition cf_kv_new :: "block \<Rightarrow> block \<Rightarrow> cf_kv_t res" where
  "cf_kv_new k v =
     rbind (strdup_block k) (\<lambda>k'. rbind (strdup_block v) (\<lambda>v'. Inr \<lparr>kv_key = k', kv_value = v'\<rparr>))"

definition cf_section_new :: "block \<Rightarrow> cf_section_t res" where
  "cf_section_new nm = rbind (strdup_block nm) (\<lambda>s. Inr \<lparr>sec_name = s, sec_entries = []\<rparr>)"

definition cf_new :: cf_t where
  "cf_new = \<lparr>cf_sections = []\<rparr>"

section \<open>Parser\<close>

abbreviation ch :: "char \<Rightarrow> int" where
  "ch c \<equiv> schar c"

text \<open>How many characters a buffer has left; it bounds every loop of the parser.\<close>

definition left :: "buf_t \<Rightarrow> nat" where
  "left b = unat (bf_len b) - unat (bf_pos b)"

lemma left_fgetc:
  assumes "buf_fgetc b = Inr (c, b')"
  shows "left b' = left b - 1" "c \<noteq> EOF \<Longrightarrow> 0 < left b"
proof -
  have "left b' = left b - 1 \<and> (c \<noteq> EOF \<longrightarrow> 0 < left b)"
  proof (cases "bf_pos b < bf_len b")
    case True
    then have "unat (bf_pos b + 1) = Suc (unat (bf_pos b))"
      using unat_lt_size_t [of "bf_len b"] by (subst unat_add_size_t) (auto simp: size_t_less)
    then show ?thesis
      using assms True by (auto simp: buf_fgetc_def rbind_Inr_iff left_def size_t_less)
  next
    case False
    then show ?thesis using assms by (auto simp: buf_fgetc_def left_def size_t_less)
  qed
  then show "left b' = left b - 1" "c \<noteq> EOF \<Longrightarrow> 0 < left b" by auto
qed

lemma left_ungetc: "buf_ungetc b c = Inr (r, b') \<Longrightarrow> left b' \<le> Suc (left b)"
  by (auto simp: buf_ungetc_def left_def rbind_Inr_iff unat_minus_one word_gt_0 split: if_splits)

lemma EOF_neg [simp]: "EOF < 0" "\<not> isspace EOF"
  by (simp_all add: EOF_def isspace_def)

function cf_parse_section_name :: "buf_t \<Rightarrow> buf_t \<Rightarrow> (bool \<times> buf_t \<times> buf_t) res" where
  "cf_parse_section_name t nm =
     rbind (buf_fgetc t) (\<lambda>(c, t1).
     if c < 0 then Inr (False, t1, nm)
     else if c = ch CHR 0x0A then Inr (False, t1, nm)
     else if c = ch CHR '']'' then Inr (True, t1, nm)
     else rbind (buf_addch nm c) (\<lambda>nm1. cf_parse_section_name t1 nm1))"
  by pat_completeness auto
termination
proof (relation "measure (\<lambda>(t, nm). left t)", goal_cases)
  case (2 t nm p c t1 nm1)
  then show ?case using left_fgetc [of t c t1] by (auto simp: EOF_def)
qed simp

text \<open>The two loops of \<open>cf_parse_value\<close>: skipping spaces, then collecting the value.\<close>

function cf_skip_spaces :: "buf_t \<Rightarrow> buf_t res" where
  "cf_skip_spaces t =
     rbind (buf_fgetc t) (\<lambda>(c, t1).
     if \<not> isspace c \<or> c = ch CHR 0x0A
     then rbind (buf_ungetc t1 c) (\<lambda>(_, t2). Inr t2)
     else cf_skip_spaces t1)"
  by pat_completeness auto
termination
proof (relation "measure left", goal_cases)
  case (2 t p c t1)
  then show ?case using left_fgetc [of t c t1] by (cases "c = EOF") auto
qed simp

function cf_parse_value_loop :: "buf_t \<Rightarrow> buf_t \<Rightarrow> (buf_t \<times> buf_t) res" where
  "cf_parse_value_loop t v =
     rbind (buf_fgetc t) (\<lambda>(c, t1).
     if c < 0 then Inr (t1, v)
     else if c = ch (CHR 0x5C) then
       rbind (buf_fgetc t1) (\<lambda>(c2, t2).
       if c2 = ch CHR 0x0A then cf_parse_value_loop t2 v
       else rbind (buf_addch v (ch (CHR 0x5C))) (\<lambda>v1.
            if c2 = ch CHR 0x0A then Inr (t2, v1)
            else rbind (buf_addch v1 c2) (\<lambda>v2. cf_parse_value_loop t2 v2)))
     else if c = ch CHR 0x0A then Inr (t1, v)
     else rbind (buf_addch v c) (\<lambda>v1. cf_parse_value_loop t1 v1))"
  by pat_completeness auto
termination
proof (relation "measure (\<lambda>(t, v). left t)", goal_cases)
  case (2 t v p c t1 q c2 t2)
  then show ?case using left_fgetc [of t c t1] left_fgetc(1) [of t1 c2 t2] by (auto simp: EOF_def)
next
  case (3 t v p c t1 q c2 t2 v1 v2)
  then show ?case using left_fgetc [of t c t1] left_fgetc(1) [of t1 c2 t2] by (auto simp: EOF_def)
next
  case (4 t v p c t1 v1)
  then show ?case using left_fgetc [of t c t1] by (auto simp: EOF_def)
qed simp

definition cf_parse_value :: "buf_t \<Rightarrow> buf_t \<Rightarrow> (bool \<times> buf_t \<times> buf_t) res" where
  "cf_parse_value t v =
     rbind (cf_skip_spaces t) (\<lambda>t1.
     rbind (cf_parse_value_loop t1 v) (\<lambda>(t2, v'). Inr (True, t2, v')))"

function cf_parse_key_value_pair ::
    "buf_t \<Rightarrow> buf_t \<Rightarrow> buf_t \<Rightarrow> (bool \<times> buf_t \<times> buf_t \<times> buf_t) res" where
  "cf_parse_key_value_pair t k v =
     rbind (buf_fgetc t) (\<lambda>(c, t1).
     if c < 0 then Inr (False, t1, k, v)
     else if c = ch CHR 0x0A then Inr (False, t1, k, v)
     else if c = ch CHR ''['' \<or> c = ch CHR '']'' then Inr (False, t1, k, v)
     else if c = ch CHR ''='' then
       rbind (buf_rtrim k) (\<lambda>k1. rbind (cf_parse_value t1 v) (\<lambda>(r, t2, v1). Inr (r, t2, k1, v1)))
     else rbind (buf_addch k c) (\<lambda>k1. cf_parse_key_value_pair t1 k1 v))"
  by pat_completeness auto
termination
proof (relation "measure (\<lambda>(t, k, v). left t)", goal_cases)
  case (2 t k v p c t1 k1)
  then show ?case using left_fgetc [of t c t1] by (auto simp: EOF_def)
qed simp

declare cf_parse_section_name.simps [simp del] cf_skip_spaces.simps [simp del]
  cf_parse_value_loop.simps [simp del] cf_parse_key_value_pair.simps [simp del]

lemma left_value_loop: "cf_parse_value_loop t v = Inr (t', v') \<Longrightarrow> left t' \<le> left t - 1"
proof (induction t v arbitrary: t' v' rule: cf_parse_value_loop.induct)
  case (1 t v)
  from "1.prems" obtain c t1 where g: "buf_fgetc t = Inr (c, t1)"
    by (auto simp: cf_parse_value_loop.simps [of t v] rbind_Inr_iff)
  note l = left_fgetc(1) [OF g]
  note IH = "1.IH" [OF g refl]
  consider "c < 0 \<or> c = ch CHR 0x0A" | "\<not> c < 0" "c = ch (CHR 0x5C)"
    | "\<not> c < 0" "c \<noteq> ch (CHR 0x5C)" "c \<noteq> ch CHR 0x0A" by blast
  then show ?case
  proof cases
    case 1
    then show ?thesis using "1.prems" g l
      by (elim disjE) (simp_all add: cf_parse_value_loop.simps [of t v])
  next
    case 2
    from 2 "1.prems" g obtain c2 t2 where g2: "buf_fgetc t1 = Inr (c2, t2)"
      by (auto simp: cf_parse_value_loop.simps [of t v] rbind_Inr_iff)
    note l2 = left_fgetc(1) [OF g2]
    show ?thesis
      using "1.prems" g g2 l l2 2 IH(1) [OF 2 g2 refl] IH(2) [OF 2 g2 refl]
      by (fastforce simp: cf_parse_value_loop.simps [of t v] rbind_Inr_iff split: if_splits)
  next
    case 3
    show ?thesis
      using "1.prems" g l 3 IH(3) [OF 3]
      by (fastforce simp: cf_parse_value_loop.simps [of t v] rbind_Inr_iff)
  qed
qed

lemma left_skip_spaces: "cf_skip_spaces t = Inr t' \<Longrightarrow> left t' \<le> max (left t) 1"
proof (induction t arbitrary: t' rule: cf_skip_spaces.induct)
  case (1 t)
  from "1.prems" obtain c t1 where g: "buf_fgetc t = Inr (c, t1)"
    by (auto simp: cf_skip_spaces.simps [of t] rbind_Inr_iff)
  note l = left_fgetc(1) [OF g]
  from "1.prems" g show ?case
    by (auto simp: cf_skip_spaces.simps [of t] rbind_Inr_iff l split: if_splits
        dest!: "1.IH" left_ungetc)
qed

lemma left_section_name: "cf_parse_section_name t nm = Inr (r, t', nm') \<Longrightarrow> left t' \<le> left t"
proof (induction t nm arbitrary: r t' nm' rule: cf_parse_section_name.induct)
  case (1 t nm)
  from "1.prems" obtain c t1 where g: "buf_fgetc t = Inr (c, t1)"
    by (auto simp: cf_parse_section_name.simps [of t nm] rbind_Inr_iff)
  from "1.prems" g left_fgetc(1) [OF g] "1.IH" [OF g refl] show ?case
    by (fastforce simp: cf_parse_section_name.simps [of t nm] rbind_Inr_iff split: if_splits)
qed

lemma left_value:
  assumes "cf_parse_value t v = Inr (r, t', v')"
  shows "r" "left t' \<le> left t - 1"
  using assms left_skip_spaces [of t] left_value_loop
  by (fastforce simp: cf_parse_value_def rbind_Inr_iff)+

lemma left_pair:
  "cf_parse_key_value_pair t k v = Inr (r, t', k', v') \<Longrightarrow> r \<Longrightarrow> left t' < left t"
proof (induction t k v arbitrary: r t' k' v' rule: cf_parse_key_value_pair.induct)
  case (1 t k v)
  from "1.prems" obtain c t1 where g: "buf_fgetc t = Inr (c, t1)" and c: "\<not> c < 0"
    by (auto simp: cf_parse_key_value_pair.simps [of t k v] rbind_Inr_iff split: if_splits)
  have l: "left t1 = left t - 1" "0 < left t" using left_fgetc [OF g] c by (auto simp: EOF_def)
  from "1.prems" g c l "1.IH" [OF g refl] show ?case
    by (fastforce simp: cf_parse_key_value_pair.simps [of t k v] rbind_Inr_iff split: if_splits
        dest: left_value(2))
qed

function cf_parse_text_loop ::
    "cf_section_t option \<Rightarrow> bool \<Rightarrow> cf_t \<Rightarrow> buf_t \<Rightarrow> (bool \<times> cf_t \<times> buf_t) res" where
  "cf_parse_text_loop sec comment cf t =
     rbind (buf_fgetc t) (\<lambda>(c, t1).
     if c < 0 then
       Inr (True, (case sec of None \<Rightarrow> cf | Some s \<Rightarrow> cf\<lparr>cf_sections := cf_sections cf @ [s]\<rparr>), t1)
     else if c = ch CHR 0x0A then cf_parse_text_loop sec False cf t1
     else if comment \<or> isspace c then cf_parse_text_loop sec comment cf t1
     else if c = ch CHR '';'' \<or> c = ch CHR ''#'' then cf_parse_text_loop sec True cf t1
     else if c = ch CHR ''['' then
       rbind (buf_init 0) (\<lambda>nm.
       let cf1 = (case sec of None \<Rightarrow> cf | Some s \<Rightarrow> cf\<lparr>cf_sections := cf_sections cf @ [s]\<rparr>) in
       rbind (cf_parse_section_name t1 nm) (\<lambda>(r, t2, nm1).
       if \<not> r then Inr (False, cf1, t2)
       else rbind (cf_section_new (bf_mem nm1)) (\<lambda>s.
            rbind (buf_release nm1) (\<lambda>_. cf_parse_text_loop (Some s) comment cf1 t2))))
     else if c = ch CHR ''='' then Inr (False, cf, t1)
     else
       rbind (buf_ungetc t1 c) (\<lambda>(_, t2).
       rbind (buf_init 0) (\<lambda>key.
       rbind (buf_init 0) (\<lambda>val.
       rbind (cf_parse_key_value_pair t2 key val) (\<lambda>(r, t3, key1, val1).
       if \<not> r then Inr (False, cf, t3)
       else rbind (buf_rtrim val1) (\<lambda>val2.
            rbind (cf_kv_new (bf_mem key1) (bf_mem val2)) (\<lambda>kv.
            rbind (buf_release key1) (\<lambda>_.
            rbind (buf_release val2) (\<lambda>_.
            case sec of
              None \<Rightarrow> cf_parse_text_loop None comment cf t3
            | Some s \<Rightarrow> cf_parse_text_loop (Some (s\<lparr>sec_entries := sec_entries s @ [kv]\<rparr>)) comment cf t3)))))))))"
  by pat_completeness auto
termination
proof (relation "measure (\<lambda>(sec, comment, cf, t). left t)", goal_cases)
  case (2 sec comment cf t p c t1)
  then show ?case using left_fgetc [of t c t1] by (auto simp: EOF_def)
next
  case (3 sec comment cf t p c t1)
  then show ?case using left_fgetc [of t c t1] by (auto simp: EOF_def)
next
  case (4 sec comment cf t p c t1)
  then show ?case using left_fgetc [of t c t1] by (auto simp: EOF_def)
next
  case (5 sec comment cf t p c t1 nm cf1 q r q2 t2 nm1 s u)
  then show ?case using left_fgetc [of t c t1] left_section_name [of t1 nm r t2 nm1]
    by (auto simp: EOF_def)
next
  case (6 sec comment cf t p c t1 q u t2 key val q2 r q3 t3 q4 key1 val1)
  then show ?case
    using left_fgetc [of t c t1] left_ungetc [of t1 c u t2] left_pair [of t2 key val r t3 key1 val1]
    by (auto simp: EOF_def)
next
  case (7 sec comment cf t p c t1 q u t2 key val q2 r q3 t3 q4 key1 val1)
  then show ?case
    using left_fgetc [of t c t1] left_ungetc [of t1 c u t2] left_pair [of t2 key val r t3 key1 val1]
    by (auto simp: EOF_def)
qed simp

declare cf_parse_text_loop.simps [simp del]

definition cf_parse_text :: "cf_t \<Rightarrow> buf_t \<Rightarrow> (bool \<times> cf_t \<times> buf_t) res" where
  "cf_parse_text cf t = cf_parse_text_loop None False cf t"

text \<open>
  The entry points. A null \<open>cf\<close> fails the assertion. \<open>strerror\<close> is the parameter of
  \<open>cf_add_from_file\<close>, which also appends to what has been written to \<open>stderr\<close>.
\<close>

definition cf_add_from_string :: "cf_t option \<Rightarrow> string \<Rightarrow> (bool \<times> cf_t) res" where
  "cf_add_from_string cfp str =
     (case cfp of
        None \<Rightarrow> Inl Assert_Fail
      | Some cf \<Rightarrow>
          rbind (buf_init 0) (\<lambda>t.
          rbind (buf_addstr t str) (\<lambda>t1.
          rbind (cf_parse_text cf t1) (\<lambda>(rc, cf', t2).
          rbind (buf_release t2) (\<lambda>_. Inr (rc, cf'))))))"

definition cf_add_from_file ::
    "(int \<Rightarrow> string) \<Rightarrow> cf_t option \<Rightarrow> string \<Rightarrow> file_c \<Rightarrow> string \<Rightarrow> (bool \<times> cf_t \<times> string) res" where
  "cf_add_from_file strerror cfp filename file stderr =
     (case cfp of
        None \<Rightarrow> Inl Assert_Fail
      | Some cf \<Rightarrow>
          rbind (buf_init 0) (\<lambda>t.
          rbind (buf_read_file t file 0) (\<lambda>(rc, err, t1).
          if rc = -1 then
            let sv = (case err of None \<Rightarrow> 0 | Some e \<Rightarrow> e) in
            Inr (False, cf, pathcomp_log_error stderr
              (''cannot read file '' @ filename @ '': '' @ strerror sv))
          else
            rbind (cf_parse_text cf t1) (\<lambda>(ok, cf', t2).
            rbind (buf_release t2) (\<lambda>_. Inr (ok, cf', stderr))))))"

section \<open>The grammar on character lists\<close>

fun p_name :: "string \<Rightarrow> (string \<times> string) option" where
  "p_name [] = None"
| "p_name (c # cs) =
     (if schar c < 0 \<or> c = CHR 0x0A then None
      else if c = CHR '']'' then Some ([], cs)
      else map_option (\<lambda>(n, r). (c # n, r)) (p_name cs))"

fun p_key :: "string \<Rightarrow> (string \<times> string) option" where
  "p_key [] = None"
| "p_key (c # cs) =
     (if schar c < 0 \<or> c = CHR 0x0A \<or> c = CHR ''['' \<or> c = CHR '']'' then None
      else if c = CHR ''='' then Some ([], cs)
      else map_option (\<lambda>(n, r). (c # n, r)) (p_key cs))"

definition p_spaces :: "string \<Rightarrow> string" where
  "p_spaces = dropWhile (\<lambda>c. isspace (schar c) \<and> c \<noteq> CHR 0x0A)"

fun p_value :: "string \<Rightarrow> string \<times> string" where
  "p_value [] = ([], [])"
| "p_value [c] =
     (if schar c < 0 \<or> c = CHR 0x0A then ([], [])
      else if c = CHR 0x5C then ([CHR 0x5C, CHR 0xFF], [])
      else ([c], []))"
| "p_value (c # d # cs) =
     (if schar c < 0 \<or> c = CHR 0x0A then ([], d # cs)
      else if c = CHR 0x5C then
        if d = CHR 0x0A then p_value cs
        else (case p_value cs of (v, r) \<Rightarrow> (CHR 0x5C # d # v, r))
      else (case p_value (d # cs) of (v, r) \<Rightarrow> (c # v, r)))"

lemma p_name_rest: "p_name cs = Some (n, r) \<Longrightarrow> length r < length cs"
  by (induction cs arbitrary: n) (force split: if_splits)+

lemma p_key_rest: "p_key cs = Some (n, r) \<Longrightarrow> length r < length cs"
  by (induction cs arbitrary: n) (force split: if_splits)+

lemma p_value_rest: "length (snd (p_value cs)) \<le> length cs - 1"
  by (induction cs rule: p_value.induct) (auto split: prod.splits)

lemma p_spaces_length: "length (p_spaces cs) \<le> length cs"
  by (simp add: p_spaces_def length_dropWhile_le)

definition kv_of :: "string \<Rightarrow> string \<Rightarrow> cf_kv_t" where
  "kv_of k v = \<lparr>kv_key = cstr (rtrim k), kv_value = cstr (rtrim v)\<rparr>"

function p_text :: "cf_section_t option \<Rightarrow> bool \<Rightarrow> cf_section_t list \<Rightarrow> string \<Rightarrow> bool \<times> cf_section_t list" where
  "p_text sec comment secs [] = (True, secs @ (case sec of None \<Rightarrow> [] | Some s \<Rightarrow> [s]))"
| "p_text sec comment secs (c # cs) =
     (if schar c < 0 then (True, secs @ (case sec of None \<Rightarrow> [] | Some s \<Rightarrow> [s]))
      else if c = CHR 0x0A then p_text sec False secs cs
      else if comment \<or> isspace (schar c) then p_text sec comment secs cs
      else if c = CHR '';'' \<or> c = CHR ''#'' then p_text sec True secs cs
      else if c = CHR ''['' then
        let secs1 = secs @ (case sec of None \<Rightarrow> [] | Some s \<Rightarrow> [s]) in
        (case p_name cs of
           None \<Rightarrow> (False, secs1)
         | Some (n, r) \<Rightarrow> p_text (Some \<lparr>sec_name = cstr n, sec_entries = []\<rparr>) comment secs1 r)
      else if c = CHR ''='' then (False, secs)
      else (case p_key (c # cs) of
              None \<Rightarrow> (False, secs)
            | Some (k, r) \<Rightarrow> (case p_value (p_spaces r) of (v, r') \<Rightarrow>
                p_text (map_option (\<lambda>s. s\<lparr>sec_entries := sec_entries s @ [kv_of k v]\<rparr>) sec)
                  comment secs r')))"
  by pat_completeness auto
termination
proof (relation "measure (\<lambda>(sec, comment, secs, cs). length cs)", goal_cases)
  case (5 sec comment don c cs secs1 a n r)
  then show ?case by (auto dest: p_name_rest)
next
  case (6 sec comment don c cs a k r v r1)
  then show ?case using p_value_rest [of "p_spaces r"] p_spaces_length [of r]
    by (cases "p_value (p_spaces r)") (auto dest!: p_key_rest simp del: p_key.simps)
qed simp_all

declare p_text.simps [simp del]

section \<open>The buffer version computes the grammar\<close>

text \<open>Reading a character, by the text that is left.\<close>

lemma fgetc_Nil: "wf_buf t \<Longrightarrow> rest t = [] \<Longrightarrow> buf_fgetc t = Inr (EOF, t)"
  using buf_fgetc_ok [of t] by (auto simp: rok_def)

lemma fgetc_Cons:
  assumes "wf_buf t" "rest t = x # xs"
  obtains t1 where "buf_fgetc t = Inr (schar x, t1)" "wf_buf t1" "content t1 = content t"
    "rest t1 = xs" "0 < unat (bf_pos t1)"
  using buf_fgetc_ok [of t] assms by (auto simp: rok_def)

lemma addch_fits:
  assumes "wf_buf b" "length (content b) + 2 < 2 ^ 64"
  obtains b1 where "buf_addch b c = Inr b1" "wf_buf b1" "content b1 = content b @ [char_of_int c]"
  using buf_addch_ok [of b c] assms length_content [OF wf_raw [OF assms(1)]]
  by (auto simp: rok_def fits_def)

lemma cf_parse_section_name_ok:
  assumes "wf_buf t" "wf_buf nm" "length (content nm) + length (rest t) + 2 < 2 ^ 64"
  shows "rok (cf_parse_section_name t nm) (\<lambda>(r, t', nm'). wf_buf t' \<and> wf_buf nm' \<and> content t' = content t \<and>
     (case p_name (rest t) of None \<Rightarrow> \<not> r
      | Some (n, cs) \<Rightarrow> r \<and> content nm' = content nm @ n \<and> rest t' = cs))"
  using assms
proof (induction "rest t" arbitrary: t nm)
  case Nil
  then show ?case by (simp add: cf_parse_section_name.simps [of t nm] fgetc_Nil)
next
  case (Cons x xs)
  from Cons.prems(1) Cons.hyps(2) [symmetric] obtain t1 where t1: "buf_fgetc t = Inr (schar x, t1)" "wf_buf t1"
    "content t1 = content t" "rest t1 = xs" by (rule fgetc_Cons)
  have le: "length (content nm) + 2 < 2 ^ 64" using Cons.prems(3) Cons.hyps(2) by simp
  from Cons.prems(2) le obtain nm1 where nm1: "buf_addch nm (schar x) = Inr nm1" "wf_buf nm1"
    "content nm1 = content nm @ [x]" by (rule addch_fits [where c = "schar x"]) simp
  have IH: "rok (cf_parse_section_name t1 nm1) (\<lambda>(r, t', nm'). wf_buf t' \<and> wf_buf nm' \<and> content t' = content t1 \<and>
     (case p_name (rest t1) of None \<Rightarrow> \<not> r
      | Some (n, cs) \<Rightarrow> r \<and> content nm' = content nm1 @ n \<and> rest t' = cs))"
    using t1 nm1 Cons.prems(3) by (intro Cons.hyps(1)) (auto simp flip: Cons.hyps(2))
  show ?case
  proof (cases "schar x < 0 \<or> x = CHR 0x0A \<or> x = CHR '']''")
    case True
    then show ?thesis using t1 Cons.prems Cons.hyps(2) [symmetric]
      by (auto simp: cf_parse_section_name.simps [of t nm])
  next
    case False
    then show ?thesis using IH t1 nm1 Cons.hyps(2) [symmetric]
      by (auto simp: cf_parse_section_name.simps [of t nm] split: option.splits elim!: rok_mono)
  qed
qed

lemma char_of_int_EOF [simp]: "char_of_int EOF = CHR 0xFF"
  by code_simp

lemma ungetc_back:
  assumes "wf_buf t" "0 < unat (bf_pos t)"
  obtains t1 u where "buf_ungetc t c = Inr (u, t1)" "wf_buf t1" "length (content t1) = length (content t)"
    "rest t1 = char_of_int c # rest t"
  using buf_ungetc_ok [OF assms] by (fastforce simp: rok_def)

text \<open>At the end of the text the pushed back \<open>EOF\<close> overwrites the last character with the byte 255.\<close>

lemma cf_skip_spaces_ok:
  assumes "wf_buf t" "0 < unat (bf_pos t)"
  shows "rok (cf_skip_spaces t) (\<lambda>t'. wf_buf t' \<and> length (content t') = length (content t) \<and>
     rest t' = (if p_spaces (rest t) = [] then [CHR 0xFF] else p_spaces (rest t)))"
  using assms
proof (induction "rest t" arbitrary: t)
  case Nil
  from Nil.prems obtain t1 u where "buf_ungetc t EOF = Inr (u, t1)" "wf_buf t1"
    "length (content t1) = length (content t)" "rest t1 = char_of_int EOF # rest t"
    by (rule ungetc_back)
  then show ?case using Nil by (simp add: cf_skip_spaces.simps [of t] fgetc_Nil p_spaces_def)
next
  case (Cons x xs)
  note r = Cons.hyps(2) [symmetric]
  from Cons.prems(1) r obtain t1 where t1: "buf_fgetc t = Inr (schar x, t1)" "wf_buf t1"
    "content t1 = content t" "rest t1 = xs" "0 < unat (bf_pos t1)" by (rule fgetc_Cons)
  from t1(2,5) obtain t2 u where t2: "buf_ungetc t1 (schar x) = Inr (u, t2)" "wf_buf t2"
    "length (content t2) = length (content t1)" "rest t2 = char_of_int (schar x) # rest t1"
    by (rule ungetc_back)
  have "p_spaces (x # xs) = (if isspace (schar x) \<and> x \<noteq> CHR 0x0A then p_spaces xs else x # xs)"
    by (simp add: p_spaces_def)
  then show ?case using t1 t2 r Cons.hyps(1) [of t1]
    by (cases "isspace (schar x) \<and> x \<noteq> CHR 0x0A") (auto simp: cf_skip_spaces.simps [of t] cong: if_cong)
qed

lemma cf_parse_value_loop_ok:
  assumes "wf_buf t" "wf_buf v" "length (content v) + length (rest t) + 2 < 2 ^ 64"
  shows "rok (cf_parse_value_loop t v) (\<lambda>(t', v'). wf_buf t' \<and> wf_buf v' \<and> content t' = content t \<and>
     content v' = content v @ fst (p_value (rest t)) \<and> rest t' = snd (p_value (rest t)))"
  using assms
proof (induction "rest t" arbitrary: t v rule: p_value.induct)
  case 1
  then show ?case by (simp add: cf_parse_value_loop.simps [of t v] fgetc_Nil)
next
  case (2 c)
  note r = "2.hyps" [symmetric]
  from "2.prems"(1) r obtain t1 where t1: "buf_fgetc t = Inr (schar c, t1)" "wf_buf t1"
    "content t1 = content t" "rest t1 = []" by (rule fgetc_Cons)
  have le: "length (content v) + 2 < 2 ^ 64" using "2.prems"(3) by simp
  from "2.prems"(2) le obtain v1 where v1: "buf_addch v (schar c) = Inr v1" "wf_buf v1"
    "content v1 = content v @ [c]" by (rule addch_fits [where c = "schar c"]) simp
  have le1: "length (content v1) + 2 < 2 ^ 64" using "2.prems"(3) r v1(3) by simp
  from v1(2) le1 obtain v2 where v2: "buf_addch v1 EOF = Inr v2" "wf_buf v2"
    "content v2 = content v1 @ [CHR 0xFF]" by (rule addch_fits [where c = EOF]) simp
  show ?case using t1 v1 v2 r "2.prems"
    by (auto simp: cf_parse_value_loop.simps [of t v] cf_parse_value_loop.simps [of t1] fgetc_Nil)
next
  case (3 c d cs)
  note r = "3.hyps"(4) [symmetric]
  from "3.prems"(1) r obtain t1 where t1: "buf_fgetc t = Inr (schar c, t1)" "wf_buf t1"
    "content t1 = content t" "rest t1 = d # cs" by (rule fgetc_Cons)
  from t1(2,4) obtain t2 where t2: "buf_fgetc t1 = Inr (schar d, t2)" "wf_buf t2"
    "content t2 = content t1" "rest t2 = cs" by (rule fgetc_Cons)
  have le: "length (content v) + 2 < 2 ^ 64" using "3.prems"(3) by simp
  from "3.prems"(2) le obtain v1 where v1: "buf_addch v (schar c) = Inr v1" "wf_buf v1"
    "content v1 = content v @ [c]" by (rule addch_fits [where c = "schar c"]) simp
  have le1: "length (content v1) + 2 < 2 ^ 64" using "3.prems"(3) r v1(3) by simp
  from v1(2) le1 obtain v2 where v2: "buf_addch v1 (schar d) = Inr v2" "wf_buf v2"
    "content v2 = content v1 @ [d]" by (rule addch_fits [where c = "schar d"]) simp
  consider "schar c < 0 \<or> c = CHR 0x0A" | "\<not> schar c < 0" "c = CHR 0x5C" "d = CHR 0x0A"
    | "\<not> schar c < 0" "c = CHR 0x5C" "d \<noteq> CHR 0x0A" | "\<not> (schar c < 0 \<or> c = CHR 0x0A)" "c \<noteq> CHR 0x5C" by blast
  then show ?case
  proof cases
    case 1
    then show ?thesis using t1 r "3.prems" by (auto simp: cf_parse_value_loop.simps [of t v])
  next
    case 2
    have "rok (cf_parse_value_loop t2 v) (\<lambda>(t', v'). wf_buf t' \<and> wf_buf v' \<and> content t' = content t2 \<and>
     content v' = content v @ fst (p_value (rest t2)) \<and> rest t' = snd (p_value (rest t2)))"
      using t2 "3.prems" r 2 by (intro "3.hyps"(1)) auto
    then show ?thesis using t1 t2 r 2 by (simp add: cf_parse_value_loop.simps [of t v])
  next
    case 3
    have "rok (cf_parse_value_loop t2 v2) (\<lambda>(t', v'). wf_buf t' \<and> wf_buf v' \<and> content t' = content t2 \<and>
     content v' = content v2 @ fst (p_value (rest t2)) \<and> rest t' = snd (p_value (rest t2)))"
      using t2 v1 v2 "3.prems" r 3 by (intro "3.hyps"(2)) auto
    then show ?thesis using t1 t2 v1 v2 r 3
      by (simp add: cf_parse_value_loop.simps [of t v] case_prod_unfold)
  next
    case 4
    have "rok (cf_parse_value_loop t1 v1) (\<lambda>(t', v'). wf_buf t' \<and> wf_buf v' \<and> content t' = content t1 \<and>
     content v' = content v1 @ fst (p_value (rest t1)) \<and> rest t' = snd (p_value (rest t1)))"
      using t1 v1 "3.prems" r 4 by (intro "3.hyps"(3)) auto
    then show ?thesis using t1 v1 r 4
      by (simp add: cf_parse_value_loop.simps [of t v] case_prod_unfold)
  qed
qed

lemma length_rest: "length (rest t) \<le> length (content t)"
  by (simp add: rest_def)

lemma cf_parse_value_ok:
  assumes "wf_buf t" "wf_buf v" "0 < unat (bf_pos t)" "length (content v) + length (content t) + 2 < 2 ^ 64"
  shows "rok (cf_parse_value t v) (\<lambda>(r, t', v'). r \<and> wf_buf t' \<and> wf_buf v' \<and>
     length (content t') = length (content t) \<and>
     content v' = content v @ fst (p_value (p_spaces (rest t))) \<and> rest t' = snd (p_value (p_spaces (rest t))))"
  unfolding cf_parse_value_def
proof (rule rok_rbindI [OF cf_skip_spaces_ok [OF assms(1,3)]], goal_cases)
  case (1 t1)
  have v: "p_value (rest t1) = p_value (p_spaces (rest t))"
    using 1 by auto
  have "length (content v) + length (rest t1) + 2 < 2 ^ 64"
    using 1 assms(4) length_rest [of t1] by simp
  then show ?case
    using 1 assms cf_parse_value_loop_ok [of t1 v]
    by (auto simp: rok_rbind v elim!: rok_mono)
qed

lemma cf_parse_key_value_pair_ok:
  assumes "wf_buf t" "wf_buf k" "wf_buf v" "content v = []"
    "length (content k) + length (rest t) + 2 < 2 ^ 64" "length (content t) + 2 < 2 ^ 64"
  shows "rok (cf_parse_key_value_pair t k v) (\<lambda>(r, t', k', v'). wf_buf t' \<and> wf_buf k' \<and> wf_buf v' \<and>
     length (content t') = length (content t) \<and>
     (case p_key (rest t) of None \<Rightarrow> \<not> r
      | Some (n, cs) \<Rightarrow> r \<and> content k' = rtrim (content k @ n) \<and>
          content v' = fst (p_value (p_spaces cs)) \<and> rest t' = snd (p_value (p_spaces cs))))"
  using assms
proof (induction "rest t" arbitrary: t k)
  case Nil
  then show ?case by (simp add: cf_parse_key_value_pair.simps [of t k] fgetc_Nil)
next
  case (Cons x xs)
  note r = Cons.hyps(2) [symmetric]
  from Cons.prems(1) r obtain t1 where t1: "buf_fgetc t = Inr (schar x, t1)" "wf_buf t1"
    "content t1 = content t" "rest t1 = xs" "0 < unat (bf_pos t1)" by (rule fgetc_Cons)
  have le: "length (content k) + 2 < 2 ^ 64" using Cons.prems(5) r by simp
  from Cons.prems(2) le obtain k1 where k1: "buf_addch k (schar x) = Inr k1" "wf_buf k1"
    "content k1 = content k @ [x]" by (rule addch_fits [where c = "schar x"]) simp
  consider "schar x < 0 \<or> x = CHR 0x0A \<or> x = CHR ''['' \<or> x = CHR '']''"
    | "x = CHR ''=''" | "\<not> (schar x < 0 \<or> x = CHR 0x0A \<or> x = CHR ''['' \<or> x = CHR '']'')" "x \<noteq> CHR ''=''"
    by blast
  then show ?case
  proof cases
    case 1
    then show ?thesis using t1 r Cons.prems by (auto simp: cf_parse_key_value_pair.simps [of t k])
  next
    case 2
    have "rok (buf_rtrim k) (\<lambda>k1. rok (cf_parse_value t1 v) (\<lambda>(r, t', v'). r \<and> wf_buf t' \<and> wf_buf v' \<and>
       length (content t') = length (content t) \<and> wf_buf k1 \<and> content k1 = rtrim (content k) \<and>
       content v' = fst (p_value (p_spaces xs)) \<and> rest t' = snd (p_value (p_spaces xs))))"
      using cf_parse_value_ok [of t1 v] t1 Cons.prems
      by (auto intro!: rok_mono [OF buf_rtrim_ok] elim!: rok_mono)
    then show ?thesis using t1 r 2
      by (auto simp: cf_parse_key_value_pair.simps [of t k] rok_rbind elim!: rok_mono)
  next
    case 3
    have "rok (cf_parse_key_value_pair t1 k1 v) (\<lambda>(r, t', k', v'). wf_buf t' \<and> wf_buf k' \<and> wf_buf v' \<and>
     length (content t') = length (content t1) \<and>
     (case p_key (rest t1) of None \<Rightarrow> \<not> r
      | Some (n, cs) \<Rightarrow> r \<and> content k' = rtrim (content k1 @ n) \<and>
          content v' = fst (p_value (p_spaces cs)) \<and> rest t' = snd (p_value (p_spaces cs))))"
      using t1 k1 Cons.prems r by (intro Cons.hyps(1)) auto
    then show ?thesis using t1 k1 r 3
      by (auto simp: cf_parse_key_value_pair.simps [of t k] split: option.splits elim!: rok_mono)
  qed
qed

declare p_key.simps [simp del]

abbreviation text_sim ::
    "cf_section_t option \<Rightarrow> bool \<Rightarrow> cf_t \<Rightarrow> buf_t \<Rightarrow> bool \<Rightarrow> cf_t \<Rightarrow> buf_t \<Rightarrow> bool" where
  "text_sim sec comment cf t r cf' t' \<equiv>
     (r, cf_sections cf') = p_text sec comment (cf_sections cf) (rest t) \<and> wf_buf t'"

text \<open>The two branches of the loop that parse an item.\<close>

lemma text_section_ok:
  assumes t: "wf_buf t1" "length (content t1) + 2 < 2 ^ 64"
    and IH: "\<And>s cf' t'. wf_buf t' \<Longrightarrow> length (content t') = length (content t1) \<Longrightarrow>
       length (rest t') < length (rest t1) \<Longrightarrow>
       rok (cf_parse_text_loop (Some s) comment cf' t') (\<lambda>(r, cf'', t''). text_sim (Some s) comment cf' t' r cf'' t'')"
  shows "rok (rbind (buf_init 0) (\<lambda>nm. rbind (cf_parse_section_name t1 nm) (\<lambda>(r, t2, nm1).
       if \<not> r then Inr (False, cf, t2)
       else rbind (cf_section_new (bf_mem nm1)) (\<lambda>s.
            rbind (buf_release nm1) (\<lambda>_. cf_parse_text_loop (Some s) comment cf t2)))))
     (\<lambda>(r, cf', t'). (r, cf_sections cf') =
        (case p_name (rest t1) of
           None \<Rightarrow> (False, cf_sections cf)
         | Some (n, cs) \<Rightarrow> p_text (Some \<lparr>sec_name = cstr n, sec_entries = []\<rparr>) comment (cf_sections cf) cs) \<and>
        wf_buf t')"
proof -
  have "length (content buf_empty) + length (rest t1) + 2 < 2 ^ 64"
    using t(2) length_rest [of t1] by simp
  note name = cf_parse_section_name_ok [OF t(1) wf_buf_empty this]
  show ?thesis
  proof (cases "p_name (rest t1)")
    case None
    then show ?thesis using name by (auto simp: buf_init_def rok_rbind elim!: rok_mono)
  next
    case (Some a)
    obtain n cs where a: "a = (n, cs)" by force
    show ?thesis unfolding buf_init_def using name
    proof (simp add: rok_rbind Some a, elim rok_mono, clarify, goal_cases)
      case (1 r t2 nm1)
      then have "rok (cf_parse_text_loop (Some \<lparr>sec_name = cstr n, sec_entries = []\<rparr>) comment cf t2)
        (\<lambda>(r, cf'', t''). text_sim (Some \<lparr>sec_name = cstr n, sec_entries = []\<rparr>) comment cf t2 r cf'' t'')"
        using p_name_rest [OF Some [unfolded a]] by (intro IH) auto
      with 1 show ?case
        by (auto simp: cf_section_new_def strdup_block_ok rok_rbind elim!: rok_mono [OF buf_release_ok])
    qed
  qed
qed

lemma text_pair_ok:
  assumes t: "wf_buf t1" "0 < unat (bf_pos t1)" "length (content t1) + 2 < 2 ^ 64"
    and IH: "\<And>sec' t'. wf_buf t' \<Longrightarrow> length (content t') = length (content t1) \<Longrightarrow>
       length (rest t') < Suc (length (rest t1)) \<Longrightarrow>
       rok (cf_parse_text_loop sec' comment cf t') (\<lambda>(r, cf'', t''). text_sim sec' comment cf t' r cf'' t'')"
  shows "rok (rbind (buf_ungetc t1 (schar x)) (\<lambda>(_, t2).
       rbind (buf_init 0) (\<lambda>key.
       rbind (buf_init 0) (\<lambda>val.
       rbind (cf_parse_key_value_pair t2 key val) (\<lambda>(r, t3, key1, val1).
       if \<not> r then Inr (False, cf, t3)
       else rbind (buf_rtrim val1) (\<lambda>val2.
            rbind (cf_kv_new (bf_mem key1) (bf_mem val2)) (\<lambda>kv.
            rbind (buf_release key1) (\<lambda>_.
            rbind (buf_release val2) (\<lambda>_.
            case sec of
              None \<Rightarrow> cf_parse_text_loop None comment cf t3
            | Some s \<Rightarrow> cf_parse_text_loop (Some (s\<lparr>sec_entries := sec_entries s @ [kv]\<rparr>)) comment cf t3)))))))))
     (\<lambda>(r, cf', t'). (r, cf_sections cf') =
        (case p_key (x # rest t1) of
           None \<Rightarrow> (False, cf_sections cf)
         | Some (k, cs) \<Rightarrow> (case p_value (p_spaces cs) of (v, cs') \<Rightarrow>
                p_text (map_option (\<lambda>s. s\<lparr>sec_entries := sec_entries s @ [kv_of k v]\<rparr>) sec)
                  comment (cf_sections cf) cs')) \<and> wf_buf t')"
proof -
  from t(1,2) obtain t2 u where t2: "buf_ungetc t1 (schar x) = Inr (u, t2)" "wf_buf t2"
    "length (content t2) = length (content t1)" "rest t2 = char_of_int (schar x) # rest t1"
    by (rule ungetc_back)
  have "length (content buf_empty) + length (rest t2) + 2 < 2 ^ 64" "length (content t2) + 2 < 2 ^ 64"
    using t(3) t2(3) length_rest [of t2] by simp_all
  note pair = cf_parse_key_value_pair_ok [OF t2(2) wf_buf_empty wf_buf_empty content_buf_empty this]
  show ?thesis
  proof (cases "p_key (x # rest t1)")
    case None
    then show ?thesis using pair t2 by (auto simp: buf_init_def rok_rbind elim!: rok_mono)
  next
    case (Some a)
    obtain k cs where a: "a = (k, cs)" by force
    obtain v cs' where v: "p_value (p_spaces cs) = (v, cs')" by force
    have less: "length cs' < Suc (length (rest t1))"
      using p_key_rest [OF Some [unfolded a]] p_value_rest [of "p_spaces cs"] p_spaces_length [of cs] v by simp
    have "rok (cf_parse_key_value_pair t2 buf_empty buf_empty) (\<lambda>(r, t3, key1, val1).
        wf_buf t3 \<and> wf_buf key1 \<and> wf_buf val1 \<and> length (content t3) = length (content t1) \<and>
        r \<and> content key1 = rtrim k \<and> content val1 = v \<and> rest t3 = cs')"
      using pair t2 v Some a by simp
    then show ?thesis using t2(1) unfolding buf_init_def
    proof (simp add: rok_rbind Some a v, elim rok_mono, clarify, goal_cases)
      case (1 r t3 key1 val1)
      let ?sec = "map_option (\<lambda>s. s\<lparr>sec_entries := sec_entries s @ [kv_of k (content val1)]\<rparr>) sec"
      have "rok (cf_parse_text_loop ?sec comment cf t3) (\<lambda>(r, cf'', t''). text_sim ?sec comment cf t3 r cf'' t'')"
        using 1 less by (intro IH) auto
      with 1 show ?case
        by (auto simp: cf_kv_new_def strdup_block_ok rok_rbind kv_of_def split: option.split
            intro!: rok_mono [OF buf_rtrim_ok] rok_mono [OF buf_release_ok])
    qed
  qed
qed

lemma cf_parse_text_loop_ok:
  assumes "wf_buf t" "length (content t) + 2 < 2 ^ 64"
  shows "rok (cf_parse_text_loop sec comment cf t) (\<lambda>(r, cf', t'). text_sim sec comment cf t r cf' t')"
  using assms
proof (induction "length (rest t)" arbitrary: sec comment cf t rule: less_induct)
  case less
  show ?case
  proof (cases "rest t")
    case Nil
    then show ?thesis using less.prems
      by (simp add: cf_parse_text_loop.simps [of sec] fgetc_Nil p_text.simps split: option.splits)
  next
    case (Cons x xs)
    from less.prems(1) Cons obtain t1 where t1: "buf_fgetc t = Inr (schar x, t1)" "wf_buf t1"
      "content t1 = content t" "rest t1 = xs" "0 < unat (bf_pos t1)" by (rule fgetc_Cons)
    have IH: "rok (cf_parse_text_loop sec' comment' cf' t') (\<lambda>(r, cf'', t''). text_sim sec' comment' cf' t' r cf'' t'')"
      if "wf_buf t'" "length (content t') = length (content t1)" "length (rest t') < Suc (length (rest t1))"
      for sec' comment' cf' t'
      using that t1 Cons less.prems by (intro less.hyps) auto
    have le: "length (content t1) + 2 < 2 ^ 64" using t1 less.prems by simp
    let ?item = "\<not> schar x < 0 \<and> x \<noteq> CHR 0x0A \<and> \<not> comment \<and> \<not> isspace (schar x) \<and> x \<noteq> CHR '';'' \<and> x \<noteq> CHR ''#''"
    let ?cf = "case sec of None \<Rightarrow> cf | Some s \<Rightarrow> cf\<lparr>cf_sections := cf_sections cf @ [s]\<rparr>"
    have secs: "cf_sections ?cf = cf_sections cf @ (case sec of None \<Rightarrow> [] | Some s \<Rightarrow> [s])"
      by (simp split: option.split)
    note unfold = cf_parse_text_loop.simps [of _ _ cf t] p_text.simps(2)
    consider "\<not> ?item" | "?item" "x = CHR ''[''" | "?item" "x \<noteq> CHR ''[''" by blast
    then show ?thesis
    proof cases
      case 1
      then show ?thesis using t1 Cons IH [of t1] secs by (auto simp: unfold)
    next
      case 2
      then show ?thesis
        using t1 Cons text_section_ok [OF t1(2) le IH, of ?cf False, unfolded secs]
        by (simp add: unfold Let_def)
    next
      case 3
      then show ?thesis
        using t1 Cons text_pair_ok [OF t1(2,5) le IH, of x cf False sec]
        by (simp add: unfold)
    qed
  qed
qed

lemma cf_parse_text_ok:
  assumes "wf_buf t" "bf_pos t = 0" "length (content t) + 2 < 2 ^ 64"
  shows "rok (cf_parse_text cf t) (\<lambda>(r, cf', t').
     (r, cf_sections cf') = p_text None False (cf_sections cf) (content t) \<and> wf_buf t')"
  using cf_parse_text_loop_ok [OF assms(1,3), of None False cf] assms(2)
  by (simp add: cf_parse_text_def rest_def)

lemma cf_add_from_string_ok:
  assumes "length str + 2 < 2 ^ 64"
  shows "rok (cf_add_from_string (Some cf) str) (\<lambda>(r, cf'). (r, cf_sections cf') =
     p_text None False (cf_sections cf) str)"
proof -
  have "rok (buf_addstr buf_empty str) (\<lambda>t. wf_buf t \<and> content t = content buf_empty @ str \<and> bf_pos t = bf_pos buf_empty)"
    using assms by (intro buf_addstr_ok) (simp_all add: fits_def, simp add: buf_empty_def)
  then have "rok (buf_addstr buf_empty str) (\<lambda>t. rok (cf_parse_text cf t) (\<lambda>(r, cf', t').
      (r, cf_sections cf') = p_text None False (cf_sections cf) str \<and> wf_buf t'))"
    using cf_parse_text_ok assms by (auto elim!: rok_mono)
  then show ?thesis
    by (auto simp: cf_add_from_string_def buf_init_def rok_rbind
        elim!: rok_mono intro!: rok_mono [OF buf_release_ok])
qed

section \<open>Printing and parsing back\<close>

text \<open>
  The canonical form of a configuration: a header line for every section and a line
  \<open>key = value\<close> for every entry. What can be written this way:
\<close>

definition print_kv :: "cf_kv_t \<Rightarrow> string" where
  "print_kv kv = kv_key kv @ '' = '' @ kv_value kv @ [CHR 0x0A]"

definition print_section :: "cf_section_t \<Rightarrow> string" where
  "print_section s = CHR ''['' # sec_name s @ [CHR '']'', CHR 0x0A] @ concat (map print_kv (sec_entries s))"

definition plain :: "string \<Rightarrow> string \<Rightarrow> bool" where
  "plain bad s \<longleftrightarrow> (\<forall>c\<in>set s. 0 < schar c \<and> c \<noteq> CHR 0x0A \<and> c \<notin> set bad)"

definition trimmed :: "string \<Rightarrow> bool" where
  "trimmed s \<longleftrightarrow> s = [] \<or> \<not> is_sp (hd s) \<and> \<not> is_sp (last s)"

fun closed_escapes :: "string \<Rightarrow> bool" where
  "closed_escapes [] \<longleftrightarrow> True"
| "closed_escapes [c] \<longleftrightarrow> c \<noteq> CHR 0x5C"
| "closed_escapes (c # d # cs) \<longleftrightarrow> (if c = CHR 0x5C then closed_escapes cs else closed_escapes (d # cs))"

definition printable_kv :: "cf_kv_t \<Rightarrow> bool" where
  "printable_kv kv \<longleftrightarrow> kv_key kv \<noteq> [] \<and> plain ''[]='' (kv_key kv) \<and> trimmed (kv_key kv) \<and>
     hd (kv_key kv) \<notin> set '';#'' \<and>
     plain [] (kv_value kv) \<and> trimmed (kv_value kv) \<and> closed_escapes (kv_value kv)"

definition printable :: "cf_section_t \<Rightarrow> bool" where
  "printable s \<longleftrightarrow> plain '']'' (sec_name s) \<and> (\<forall>kv\<in>set (sec_entries s). printable_kv kv)"

lemma plain_simps [simp]:
  "plain bad []"
  "plain bad (c # cs) \<longleftrightarrow> 0 < schar c \<and> c \<noteq> CHR 0x0A \<and> c \<notin> set bad \<and> plain bad cs"
  by (auto simp: plain_def)

lemma plain_cstr: "plain bad s \<Longrightarrow> cstr s = s"
  by (rule cstr_id) (metis less_irrefl plain_def schar_NUL)

lemma trimmed_rtrim: "trimmed s \<Longrightarrow> rtrim s = s"
  by (cases s rule: rev_cases) (auto simp: trimmed_def rtrim_def)

lemma p_name_plain: "plain '']'' s \<Longrightarrow> p_name (s @ CHR '']'' # cs) = Some (s, cs)"
  by (induction s) auto

lemma p_key_plain: "plain ''[]='' s \<Longrightarrow> p_key (s @ CHR ''='' # cs) = Some (s, cs)"
  by (induction s) (auto simp: p_key.simps)

lemma p_value_newline [simp]: "p_value (CHR 0x0A # cs) = ([], cs)"
  by (cases cs) auto

lemma p_value_plain:
  "plain [] s \<Longrightarrow> closed_escapes s \<Longrightarrow> p_value (s @ CHR 0x0A # cs) = (s, cs)"
  by (induction s rule: closed_escapes.induct) (auto split: if_splits)

lemma is_sp_blank [simp]: "is_sp CHR '' ''"
  by (simp add: schar_def isspace_def)

lemma p_spaces_value: "trimmed s \<Longrightarrow> p_spaces (CHR '' '' # s @ CHR 0x0A # cs) = s @ CHR 0x0A # cs"
  by (cases s) (auto simp: p_spaces_def trimmed_def)

lemma rtrim_space: "trimmed k \<Longrightarrow> rtrim (k @ '' '') = k"
  using trimmed_rtrim [of k] by (simp add: rtrim_def)

lemma p_text_kv:
  assumes "printable_kv kv"
  shows "p_text sec False secs (print_kv kv @ cs) =
     p_text (map_option (\<lambda>s. s\<lparr>sec_entries := sec_entries s @ [kv]\<rparr>) sec) False secs cs"
proof -
  obtain c k where k: "kv_key kv = c # k" using assms by (cases "kv_key kv") (auto simp: printable_kv_def)
  have a: "plain ''[]='' (kv_key kv @ '' '')" "trimmed (kv_key kv)" "plain [] (kv_value kv)"
    "trimmed (kv_value kv)" "closed_escapes (kv_value kv)" "plain ''[]='' (kv_key kv)"
    using assms by (auto simp: printable_kv_def plain_def schar_def)
  have c: "\<not> schar c < 0" "c \<noteq> CHR 0x0A" "\<not> is_sp c" "c \<noteq> CHR '';''" "c \<noteq> CHR ''#''" "c \<noteq> CHR ''[''" "c \<noteq> CHR ''=''"
    using assms k by (auto simp: printable_kv_def trimmed_def)
  have "kv_of (kv_key kv @ '' '') (kv_value kv) = kv"
    using a by (simp add: kv_of_def rtrim_space trimmed_rtrim plain_cstr [of "''[]=''"] plain_cstr [of "[]"])
  moreover have "p_key (print_kv kv @ cs) = Some (kv_key kv @ '' '', CHR '' '' # kv_value kv @ CHR 0x0A # cs)"
    using p_key_plain [OF a(1), of "CHR '' '' # kv_value kv @ CHR 0x0A # cs"] by (simp add: print_kv_def)
  moreover have "print_kv kv @ cs = c # (k @ '' = '' @ kv_value kv @ [CHR 0x0A]) @ cs"
    by (simp add: print_kv_def k)
  ultimately show ?thesis
    using c p_spaces_value [OF a(4), of cs] p_value_plain [OF a(3,5), of cs] by (simp add: p_text.simps(2))
qed

lemma p_text_kvs:
  assumes "\<forall>kv\<in>set kvs. printable_kv kv"
  shows "p_text (Some s) False secs (concat (map print_kv kvs) @ cs) =
     p_text (Some (s\<lparr>sec_entries := sec_entries s @ kvs\<rparr>)) False secs cs"
  using assms by (induction kvs arbitrary: s) (auto simp: p_text_kv)

lemma p_text_section:
  assumes "printable s"
  shows "p_text sec False secs (print_section s @ cs) =
     p_text (Some s) False (secs @ (case sec of None \<Rightarrow> [] | Some s \<Rightarrow> [s])) cs"
proof -
  have "p_name (sec_name s @ CHR '']'' # CHR 0x0A # concat (map print_kv (sec_entries s)) @ cs) =
     Some (sec_name s, CHR 0x0A # concat (map print_kv (sec_entries s)) @ cs)"
    using assms by (intro p_name_plain) (simp add: printable_def)
  moreover have "\<not> is_sp CHR ''[''" by (simp add: schar_def isspace_def)
  ultimately show ?thesis
    using assms p_text_kvs [of "sec_entries s" "\<lparr>sec_name = sec_name s, sec_entries = []\<rparr>"]
    by (cases s) (simp add: p_text.simps(2) print_section_def printable_def plain_cstr [of "'']''"])
qed

lemma p_text_print:
  assumes "\<forall>s\<in>set ss. printable s"
  shows "p_text sec False secs (concat (map print_section ss)) =
     (True, secs @ (case sec of None \<Rightarrow> [] | Some s \<Rightarrow> [s]) @ ss)"
  using assms by (induction ss arbitrary: sec secs) (auto simp: p_text_section p_text.simps(1))

lemma p_value_continue:
  "plain [] v \<Longrightarrow> closed_escapes v \<Longrightarrow>
   p_value (v @ CHR 0x5C # CHR 0x0A # cs) = (v @ fst (p_value cs), snd (p_value cs))"
  by (induction v rule: closed_escapes.induct) (auto split: if_splits prod.splits)

section \<open>Reading from a file\<close>

text \<open>What a file delivers: the bytes, or the error of opening, reading or closing it.\<close>

definition file_data :: "file_c \<Rightarrow> int + string" where
  "file_data f = (case fl_open f of Inl e \<Rightarrow> Inl e
     | Inr fd \<Rightarrow> (case fl_close f of Some e \<Rightarrow> Inl e
        | None \<Rightarrow> (case snd (fd_data fd) of Some e \<Rightarrow> Inl e | None \<Rightarrow> Inr (fst (fd_data fd)))))"

definition file_bytes :: "file_c \<Rightarrow> nat" where
  "file_bytes f = (case fl_open f of Inl e \<Rightarrow> 0 | Inr fd \<Rightarrow> length (fst (fd_data fd)))"

lemma of_nat_c_int_not_minus_one: "n < 2 ^ 31 \<Longrightarrow> (of_nat n :: c_int) \<noteq> -1"
proof
  assume n: "n < 2 ^ 31" and "(of_nat n :: c_int) = -1"
  then have "unat (of_nat n :: c_int) = unat (-1 :: c_int)" by simp
  then show False using n by (simp add: unat_of_nat unsigned_minus_1_eq_mask mask_eq_exp_minus_1)
qed

lemma buf_read_file_ok:
  assumes "file_bytes f < 2 ^ 31"
  shows "rok (buf_read_file buf_empty f 0) (\<lambda>(n, err, t).
     case file_data f of Inl e \<Rightarrow> n = -1 \<and> err = Some e
     | Inr d \<Rightarrow> n \<noteq> -1 \<and> wf_buf t \<and> bf_pos t = 0 \<and> content t = d)"
proof (cases "fl_open f")
  case (Inl e)
  then show ?thesis by (simp add: buf_read_file_def file_data_def)
next
  case (Inr fd)
  then have small: "length (fst (fd_data fd)) < 2 ^ 31" using assms by (simp add: file_bytes_def)
  then have "rok (buf_read buf_empty fd 0) (\<lambda>(n, err, b'). wf_buf b' \<and> bf_pos b' = bf_pos buf_empty \<and> err = snd (fd_data fd) \<and>
     (case err of
        None \<Rightarrow> n = of_nat (length (fst (fd_data fd))) \<and> content b' = content buf_empty @ fst (fd_data fd)
      | Some e \<Rightarrow> n = -1 \<and> content b' = content buf_empty))"
    by (intro buf_read_ok) (simp_all add: fits_def, simp_all add: buf_empty_def)
  then show ?thesis
    using Inr of_nat_c_int_not_minus_one [OF small]
    by (auto simp: buf_read_file_def file_data_def rok_rbind split: option.splits elim!: rok_mono)
qed

section \<open>Properties\<close>

text \<open>
  C4. Reading a configuration from a string never fails and computes the grammar: every access
  of the parser stays in bounds, all its loops end, and what it returns and adds to the
  sections is what \<open>p_text\<close> says of the characters.
\<close>

theorem cf_add_from_string_parses:
  assumes "length str + 2 < 2 ^ 64"
  shows "\<exists>rc cf'. cf_add_from_string (Some cf) str = Inr (rc, cf') \<and>
     (rc, cf_sections cf') = p_text None False (cf_sections cf) str"
  using cf_add_from_string_ok [OF assms] by (auto simp: rok_def)

theorem cf_add_from_string_parses_witness:
  "\<exists>rc cf'. cf_add_from_string (Some cf_new) ''[a] k = v'' = Inr (rc, cf') \<and>
     (rc, cf_sections cf') = p_text None False (cf_sections cf_new) ''[a] k = v''"
  by (rule cf_add_from_string_parses) simp

text \<open>
  C18. Reading a file of less than \<open>2 ^ 31\<close> bytes: the configuration is parsed as the string of
  the file's bytes would be; if opening, reading or closing fails, nothing is added, 0 is
  returned and one line with the reason is logged.
\<close>

theorem cf_add_from_file_parses:
  assumes "file_bytes file < 2 ^ 31"
  shows "\<exists>rc cf' log. cf_add_from_file strerror (Some cf) name file stderr = Inr (rc, cf', log) \<and>
     (case file_data file of
        Inl e \<Rightarrow> \<not> rc \<and> cf' = cf \<and>
          log = stderr @ ''pathcomp: cannot read file '' @ name @ '': '' @ strerror e @ [CHR 0x0A]
      | Inr d \<Rightarrow> (rc, cf_sections cf') = p_text None False (cf_sections cf) d \<and> log = stderr)"
proof -
  have small: "length d + 2 < 2 ^ 64" if "file_data file = Inr d" for d
    using that assms by (auto simp: file_data_def file_bytes_def split: sum.splits option.splits)
  have "rok (cf_add_from_file strerror (Some cf) name file stderr) (\<lambda>(rc, cf', log).
      case file_data file of
        Inl e \<Rightarrow> \<not> rc \<and> cf' = cf \<and>
          log = stderr @ ''pathcomp: cannot read file '' @ name @ '': '' @ strerror e @ [CHR 0x0A]
      | Inr d \<Rightarrow> (rc, cf_sections cf') = p_text None False (cf_sections cf) d \<and> log = stderr)"
  proof (cases "file_data file")
    case (Inl e)
    then show ?thesis using buf_read_file_ok [OF assms]
      by (auto simp: cf_add_from_file_def buf_init_def rok_rbind pathcomp_log_error_def
          pathcomp_log_emit_def elim!: rok_mono)
  next
    case (Inr d)
    have "rok (buf_read_file buf_empty file 0) (\<lambda>(n, err, t). n \<noteq> -1 \<and> rok (cf_parse_text cf t)
        (\<lambda>(r, cf', t'). (r, cf_sections cf') = p_text None False (cf_sections cf) d \<and> wf_buf t'))"
      using buf_read_file_ok [OF assms] Inr small [OF Inr] cf_parse_text_ok
      by (auto elim!: rok_mono)
    then show ?thesis using Inr
      by (auto simp: cf_add_from_file_def buf_init_def rok_rbind
          elim!: rok_mono intro!: rok_mono [OF buf_release_ok])
  qed
  then show ?thesis by (auto simp: rok_def)
qed

theorem cf_add_from_file_parses_witness:
  "\<exists>rc cf' log. cf_add_from_file (\<lambda>e. ''No such file or directory'') (Some cf_new) ''.pathcomp.conf''
       \<lparr>fl_open = Inl 2, fl_close = None\<rparr> '''' = Inr (rc, cf', log) \<and>
     (case file_data \<lparr>fl_open = Inl 2, fl_close = None\<rparr> of
        Inl e \<Rightarrow> \<not> rc \<and> cf' = cf_new \<and>
          log = '''' @ ''pathcomp: cannot read file '' @ ''.pathcomp.conf'' @ '': '' @
            (\<lambda>e. ''No such file or directory'') e @ [CHR 0x0A]
      | Inr d \<Rightarrow> (rc, cf_sections cf') = p_text None False (cf_sections cf_new) d \<and> log = '''')"
  by (rule cf_add_from_file_parses) (simp add: file_bytes_def)

text \<open>
  C8. Round trip: a configuration written with one header line per section and one line per
  entry is read back exactly, after the sections that were there. Values may hold backslashes, as
  long as none of them escapes the end of the line.
\<close>

theorem cf_print_parse:
  assumes "\<forall>s\<in>set ss. printable s" and "length (concat (map print_section ss)) + 2 < 2 ^ 64"
  shows "\<exists>cf'. cf_add_from_string (Some cf) (concat (map print_section ss)) = Inr (True, cf') \<and>
     cf_sections cf' = cf_sections cf @ ss"
  using cf_add_from_string_ok [OF assms(2), of cf] p_text_print [OF assms(1), of None]
  by (auto simp: rok_def)

theorem cf_print_parse_witness:
  "\<exists>cf'. cf_add_from_string (Some cf_new) (concat (map print_section
       [\<lparr>sec_name = ''t.a'', sec_entries = [\<lparr>kv_key = ''root'', kv_value = ''a b''\<rparr>]\<rparr>])) = Inr (True, cf') \<and>
     cf_sections cf' = cf_sections cf_new @
       [\<lparr>sec_name = ''t.a'', sec_entries = [\<lparr>kv_key = ''root'', kv_value = ''a b''\<rparr>]\<rparr>]"
  by (rule cf_print_parse)
    (simp_all add: printable_def printable_kv_def trimmed_def schar_def isspace_def print_section_def print_kv_def)

text \<open>
  A backslash at the end of a line continues the value on the next one: the value is the two
  pieces joined, and neither the backslash nor the line break is part of it.
\<close>

theorem cf_value_continues:
  assumes "wf_buf t" and "wf_buf val" and "0 < unat (bf_pos t)" and "content val = []"
    and "length (content t) + 2 < 2 ^ 64"
    and "rest t = CHR '' '' # v @ CHR 0x5C # CHR 0x0A # w @ CHR 0x0A # cs"
    and "plain [] v" "closed_escapes v" "trimmed v" "v \<noteq> []" "plain [] w" "closed_escapes w"
  shows "\<exists>t' val'. cf_parse_value t val = Inr (True, t', val') \<and> content val' = v @ w \<and> rest t' = cs"
proof -
  have "p_spaces (rest t) = v @ CHR 0x5C # CHR 0x0A # w @ CHR 0x0A # cs"
    using assms(6,9,10) by (cases v) (auto simp: p_spaces_def trimmed_def)
  then have "p_value (p_spaces (rest t)) = (v @ w, cs)"
    using p_value_continue [OF assms(7,8)] p_value_plain [OF assms(11,12)] by simp
  then show ?thesis using cf_parse_value_ok [OF assms(1-3)] assms(4,5) by (auto simp: rok_def)
qed

theorem cf_value_continues_witness:
  "\<exists>t' val'. cf_parse_value
       \<lparr>bf_mem = map Some (''= a'' @ [CHR 0x5C, CHR 0x0A] @ ''b'' @ [CHR 0x0A, NUL]), bf_alloc = 8, bf_len = 7, bf_pos = 1\<rparr>
       buf_empty = Inr (True, t', val') \<and> content val' = ''a'' @ ''b'' \<and> rest t' = []"
  by (rule cf_value_continues)
    (simp_all add: wf_buf_def raw_buf_def content_def rest_def trimmed_def schar_def isspace_def buf_initial_def buf_empty_def)



end
