(* ===== verification/Interpreter.thy ===== *)
theory Interpreter
  imports Log "HOL-Library.Multiset"
begin

text \<open>
  The Lua interpreter as the library sees it, \<open>src/interpreter.c\<close>, and the part of the process
  state that evaluation touches.

  Lua itself is a parameter of the model, a record of type \<open>lua_api\<close>: the state a new
  interpreter starts in, what \<open>luaL_loadstring\<close> makes of a source text, and the message of the
  error that \<open>lua_pcall\<close> reports when calls are nested too deeply. A loaded chunk is run by
  walking a tree of type \<open>lua_run\<close>: it returns, it raises an error, or it reads a field of
  \<open>self\<close> and goes on with the value it gets. The type \<open>'g\<close> stands for the global state of the
  interpreter, which a chunk may change.

  Strings that the library allocates for results carry a stamp, so that reading or freeing one
  after it was freed is visible as the error \<open>Use_After_Free\<close>.
\<close>

section \<open>Lua\<close>

text \<open>A value that the library hands to Lua.\<close>

datatype lua_value = Lua_Nil | Lua_String string | Lua_Integer int

text \<open>What a chunk can do with its argument: there is none, or it has no metatable, or fields can be read.\<close>

datatype self_arg = Self_Absent | Self_Bare | Self_Fields

text \<open>
  The result of a chunk is what \<open>lua_tostring\<close> gives for it. A field name that is neither
  a string nor a number is \<open>None\<close>, and so is an error object that is no string.
\<close>

datatype 'g lua_run =
    Lua_Return "string option" 'g
  | Lua_Error "string option" 'g
  | Lua_Index "string option" 'g "lua_value \<Rightarrow> 'g \<Rightarrow> 'g lua_run"

record 'g lua_api =
  luaL_newstate :: 'g
  luaL_loadstring :: "string \<Rightarrow> string + (self_arg \<Rightarrow> 'g \<Rightarrow> 'g lua_run)"
  lua_overflow :: string

section \<open>Process state\<close>

type_synonym strp = "nat \<times> string"

text \<open>
  \<open>w_lua\<close> is the static variable \<open>state\<close>; \<open>w_top\<close> the height of its stack; \<open>w_metas\<close> the
  metatables registered in it.
\<close>

record 'g world =
  w_lua :: "'g option"
  w_top :: nat
  w_metas :: "string list"
  w_stamp :: nat
  w_freed :: "nat list"
  w_stderr :: string

definition strdup_w :: "'g world \<Rightarrow> string \<Rightarrow> strp \<times> 'g world" where
  "strdup_w w s = ((w_stamp w, s), w\<lparr>w_stamp := Suc (w_stamp w)\<rparr>)"

definition free_w :: "'g world \<Rightarrow> strp option \<Rightarrow> 'g world res" where
  "free_w w p =
     (case p of
        None \<Rightarrow> Inr w
      | Some (n, s) \<Rightarrow>
          if n \<in> set (w_freed w) then Inl Use_After_Free else Inr (w\<lparr>w_freed := n # w_freed w\<rparr>))"

definition deref_w :: "'g world \<Rightarrow> strp \<Rightarrow> string res" where
  "deref_w w p = (if fst p \<in> set (w_freed w) then Inl Use_After_Free else Inr (snd p))"

definition log_error_w :: "'g world \<Rightarrow> string \<Rightarrow> 'g world" where
  "log_error_w w msg = w\<lparr>w_stderr := pathcomp_log_error (w_stderr w) msg\<rparr>"

section \<open>Operations\<close>

definition interpreter_get_state :: "'g lua_api \<Rightarrow> 'g world \<Rightarrow> 'g world" where
  "interpreter_get_state L w =
     (case w_lua w of
        Some g \<Rightarrow> w
      | None \<Rightarrow> w\<lparr>w_lua := Some (luaL_newstate L), w_top := 0, w_metas := []\<rparr>)"

definition interpreter_cleanup :: "'g world \<Rightarrow> 'g world res" where
  "interpreter_cleanup w =
     (case w_lua w of
        None \<Rightarrow> Inr w
      | Some g \<Rightarrow> rbind (assert_c (w_top w = 0)) (\<lambda>_. Inr (w\<lparr>w_lua := None, w_metas := []\<rparr>)))"

text \<open>
  Running a loaded chunk. \<open>cb\<close> is the C function behind the field access; it runs on a stack
  frame of its own, which holds the object and the field name and is dropped when it returns. It
  works on the composer's state \<open>'s\<close>.
\<close>

type_synonym ('s, 'g) callback = "string option \<Rightarrow> 's \<Rightarrow> 'g world \<Rightarrow> (lua_value \<times> 's \<times> 'g world) res"

primrec run_lua ::
    "('s, 'g) callback \<Rightarrow> 'g lua_run \<Rightarrow> 's \<Rightarrow> 'g world \<Rightarrow> ((string option + string option) \<times> 's \<times> 'g world) res" where
  "run_lua cb (Lua_Return r g) s w = Inr (Inr r, s, w\<lparr>w_lua := Some g\<rparr>)"
| "run_lua cb (Lua_Error e g) s w = Inr (Inl e, s, w\<lparr>w_lua := Some g\<rparr>)"
| "run_lua cb (Lua_Index k g cont) s w =
     rbind (cb k s (w\<lparr>w_lua := Some g, w_top := 2\<rparr>)) (\<lambda>(v, s1, w1).
     case w_lua w1 of
       None \<Rightarrow> Inl Null_Deref
     | Some g1 \<Rightarrow> run_lua cb (cont v g1) s1 (w1\<lparr>w_top := w_top w\<rparr>))"

section \<open>Well-formed states\<close>

text \<open>Every stamp that was freed had been handed out.\<close>

definition wf_world :: "'g world \<Rightarrow> bool" where
  "wf_world w \<longleftrightarrow> (\<forall>n\<in>set (w_freed w). n < w_stamp w)"

definition live :: "'g world \<Rightarrow> strp option \<Rightarrow> bool" where
  "live w p \<longleftrightarrow> (case p of None \<Rightarrow> True | Some (n, s) \<Rightarrow> n < w_stamp w \<and> n \<notin> set (w_freed w))"

lemma live_simps [simp]:
  "live w None" "live w (Some (n, s)) \<longleftrightarrow> n < w_stamp w \<and> n \<notin> set (w_freed w)"
  by (simp_all add: live_def)

lemma log_error_w_fields [simp]:
  "w_lua (log_error_w w msg) = w_lua w" "w_top (log_error_w w msg) = w_top w"
  "w_metas (log_error_w w msg) = w_metas w" "w_stamp (log_error_w w msg) = w_stamp w"
  "w_freed (log_error_w w msg) = w_freed w"
  by (simp_all add: log_error_w_def)

lemma get_state_stamps [simp]:
  "w_stamp (interpreter_get_state L w) = w_stamp w" "w_freed (interpreter_get_state L w) = w_freed w"
  by (simp_all add: interpreter_get_state_def split: option.split)

lemma wf_world_get_state [simp]: "wf_world (interpreter_get_state L w) = wf_world w"
  by (simp add: interpreter_get_state_def wf_world_def split: option.split)

lemma live_get_state [simp]: "live (interpreter_get_state L w) p = live w p"
  by (simp add: interpreter_get_state_def live_def split: option.split)

lemma w_lua_get_state [simp]: "w_lua (interpreter_get_state L w) \<noteq> None"
  by (simp add: interpreter_get_state_def split: option.split)

section \<open>Ownership\<close>

text \<open>\<open>owns w ns\<close>: the stamps \<open>ns\<close> belong to distinct strings that have not been freed.\<close>

definition owns :: "'g world \<Rightarrow> nat list \<Rightarrow> bool" where
  "owns w ns \<longleftrightarrow> wf_world w \<and> distinct ns \<and> (\<forall>n\<in>set ns. n < w_stamp w \<and> n \<notin> set (w_freed w))"

lemma owns_perm: "owns w ns \<Longrightarrow> mset ns = mset ms \<Longrightarrow> owns w ms"
  using mset_eq_imp_distinct_iff [of ns ms] mset_eq_setD [of ns ms] by (simp add: owns_def)

lemma owns_subset: "owns w ns \<Longrightarrow> distinct ms \<Longrightarrow> set ms \<subseteq> set ns \<Longrightarrow> owns w ms"
  by (auto simp: owns_def)

lemma owns_append: "owns w (ms @ ns) \<Longrightarrow> owns w ms" "owns w (ms @ ns) \<Longrightarrow> owns w ns"
  by (auto simp: owns_def)

lemma owns_live: "owns w ns \<Longrightarrow> n \<in> set ns \<Longrightarrow> live w (Some (n, s))"
  by (simp add: owns_def)

lemma owns_free:
  "owns w (n # ns) \<Longrightarrow> free_w w (Some (n, s)) = Inr (w\<lparr>w_freed := n # w_freed w\<rparr>) \<and> owns (w\<lparr>w_freed := n # w_freed w\<rparr>) ns"
  by (auto simp: owns_def free_w_def wf_world_def)

lemma owns_fresh: "owns w ns \<Longrightarrow> owns (w\<lparr>w_stamp := Suc (w_stamp w)\<rparr>) (w_stamp w # ns)"
  by (auto simp: owns_def wf_world_def intro!: less_SucI)

lemma owns_cong: "owns w ns \<Longrightarrow> w_stamp w' = w_stamp w \<Longrightarrow> w_freed w' = w_freed w \<Longrightarrow> owns w' ns"
  by (simp add: owns_def wf_world_def)

end
