(* ===== verification/Value.thy ===== *)
theory Value
  imports Buf Interpreter
begin

text \<open>
  Values of attributes, \<open>src/value.c\<close>: strings, integers and Lua code.

  A value lives inside a composer, and evaluating Lua code may read, and so evaluate, other values
  of the same composer. The functions that evaluate therefore work on the state \<open>'s\<close> that holds
  the value and reach it through \<open>get\<close> and \<open>put\<close>; \<open>cb\<close> is what a field access of the Lua
  code calls.
\<close>

section \<open>Data\<close>

datatype value_t =
    VALUE_STRING strp
  | VALUE_LUA string "strp option"
  | VALUE_INT c_int "strp option"

primrec v_result :: "value_t \<Rightarrow> strp option" where
  "v_result (VALUE_STRING p) = Some p"
| "v_result (VALUE_LUA src r) = r"
| "v_result (VALUE_INT i r) = r"

section \<open>Recognising a block\<close>

definition value_match_and_extract_block :: "string \<Rightarrow> string \<Rightarrow> string option res" where
  "value_match_and_extract_block tx kw =
     (if strlen tx \<le> strlen kw then Inr None
      else
        rbind (buf_init (strlen tx - strlen kw)) (\<lambda>b.
        let fail = (\<lambda>b. rbind (buf_release b) (\<lambda>_. Inr None)) in
        if take (length kw) tx \<noteq> kw then fail b
        else
          let tx1 = dropWhile (\<lambda>c. isspace (schar c)) (drop (length kw) tx) in
          if tx1 = [] \<or> hd tx1 \<noteq> CHR ''{'' then fail b
          else
            rbind (buf_addstr b (tl tx1)) (\<lambda>b1.
            rbind (strdup_block (bf_mem b1)) (\<lambda>str.
            case find (\<lambda>i. str ! i = CHR ''}'') (rev [0..<length str]) of
              None \<Rightarrow> fail b1
            | Some p \<Rightarrow>
                rbind (buf_setlen b1 (of_nat p)) (\<lambda>b2.
                rbind (buf_detach b2) (\<lambda>(s, n, b3).
                rbind (strdup_block s) (\<lambda>r. Inr (Some r))))))))"

section \<open>Constructors\<close>

definition value_new_string :: "'g world \<Rightarrow> string \<Rightarrow> value_t \<times> 'g world" where
  "value_new_string w tx = (let (p, w1) = strdup_w w tx in (VALUE_STRING p, w1))"

definition preamble :: string where
  "preamble = ''local self = ...; ''"

definition value_new_lua :: "string \<Rightarrow> value_t res" where
  "value_new_lua src =
     rbind (buf_init (strlen preamble + strlen src)) (\<lambda>b.
     rbind (buf_addstr b preamble) (\<lambda>b1.
     rbind (buf_addstr b1 src) (\<lambda>b2.
     rbind (buf_detach b2) (\<lambda>(s, n, b3).
     rbind (strdup_block s) (\<lambda>lua. Inr (VALUE_LUA lua None))))))"

definition value_new_int :: "c_int \<Rightarrow> value_t" where
  "value_new_int ival = VALUE_INT ival None"

definition value_new_auto :: "'g world \<Rightarrow> string \<Rightarrow> (value_t \<times> 'g world) res" where
  "value_new_auto w tx =
     rbind (value_match_and_extract_block tx ''lua'') (\<lambda>r.
     case r of
       Some src \<Rightarrow> rbind (value_new_lua src) (\<lambda>v. Inr (v, w))
     | None \<Rightarrow> Inr (value_new_string w tx))"

section \<open>Copying and freeing\<close>

definition strdup_opt :: "'g world \<Rightarrow> strp option \<Rightarrow> (strp option \<times> 'g world) res" where
  "strdup_opt w r =
     (case r of
        None \<Rightarrow> Inr (None, w)
      | Some p \<Rightarrow> rbind (deref_w w p) (\<lambda>s. let (q, w1) = strdup_w w s in Inr (Some q, w1)))"

definition value_clone_string :: "'g world \<Rightarrow> strp \<Rightarrow> (value_t \<times> 'g world) res" where
  "value_clone_string w p = rbind (deref_w w p) (\<lambda>s. Inr (value_new_string w s))"

definition value_clone_lua :: "'g world \<Rightarrow> string \<Rightarrow> strp option \<Rightarrow> (value_t \<times> 'g world) res" where
  "value_clone_lua w src r = rbind (strdup_opt w r) (\<lambda>(r1, w1). Inr (VALUE_LUA src r1, w1))"

definition value_clone_int :: "'g world \<Rightarrow> c_int \<Rightarrow> strp option \<Rightarrow> (value_t \<times> 'g world) res" where
  "value_clone_int w i r = rbind (strdup_opt w r) (\<lambda>(r1, w1). Inr (VALUE_INT i r1, w1))"

primrec value_clone :: "'g world \<Rightarrow> value_t \<Rightarrow> (value_t \<times> 'g world) res" where
  "value_clone w (VALUE_STRING p) = value_clone_string w p"
| "value_clone w (VALUE_LUA src r) = value_clone_lua w src r"
| "value_clone w (VALUE_INT i r) = value_clone_int w i r"

definition value_free :: "'g world \<Rightarrow> value_t \<Rightarrow> 'g world res" where
  "value_free w v = free_w w (v_result v)"

section \<open>Evaluation\<close>

text \<open>What \<open>printf\<close> writes for \<open>%d\<close>, and for \<open>%s\<close> with a null pointer.\<close>

fun digits :: "nat \<Rightarrow> string" where
  "digits n = (if n < 10 then [char_of (48 + n)] else digits (n div 10) @ [char_of (48 + n mod 10)])"

declare digits.simps [simp del]

definition fmt_d :: "int \<Rightarrow> string" where
  "fmt_d i = (if i < 0 then CHR ''-'' # digits (nat (- i)) else digits (nat i))"

definition fmt_s :: "string option \<Rightarrow> string" where
  "fmt_s s = (case s of None \<Rightarrow> ''(null)'' | Some t \<Rightarrow> t)"

definition value_eval_int ::
    "('s \<Rightarrow> value_t) \<Rightarrow> (value_t \<Rightarrow> 's \<Rightarrow> 's) \<Rightarrow> c_int \<Rightarrow> 's \<Rightarrow> 'g world \<Rightarrow> (strp option \<times> 's \<times> 'g world) res" where
  "value_eval_int get put i s w =
     rbind (buf_init 24) (\<lambda>b.
     rbind (buf_addf b (fmt_d (sint i))) (\<lambda>b1.
     rbind (free_w w (v_result (get s))) (\<lambda>w1.
     rbind (buf_detach b1) (\<lambda>(blk, n, b2).
     rbind (strdup_block blk) (\<lambda>str.
     let (p, w2) = strdup_w w1 str in
     Inr (Some p, put (VALUE_INT i (Some p)) s, w2))))))"

text \<open>Replacing the result of a Lua value: the old one is read again after the code has run.\<close>

definition set_lua_result ::
    "('s \<Rightarrow> value_t) \<Rightarrow> (value_t \<Rightarrow> 's \<Rightarrow> 's) \<Rightarrow> string \<Rightarrow> string option \<Rightarrow> 's \<Rightarrow> 'g world \<Rightarrow>
     (strp option \<times> 's \<times> 'g world) res" where
  "set_lua_result get put src r s w =
     rbind (free_w w (v_result (get s))) (\<lambda>w1.
     case r of
       None \<Rightarrow> Inr (None, put (VALUE_LUA src None) s, w1)
     | Some t \<Rightarrow> let (p, w2) = strdup_w w1 (cstr t) in Inr (Some p, put (VALUE_LUA src (Some p)) s, w2))"

definition value_eval_lua ::
    "'g lua_api \<Rightarrow> ('s, 'g) callback \<Rightarrow> bool \<Rightarrow> ('s \<Rightarrow> value_t) \<Rightarrow> (value_t \<Rightarrow> 's \<Rightarrow> 's) \<Rightarrow> string option \<Rightarrow> string \<Rightarrow>
     's \<Rightarrow> 'g world \<Rightarrow> (strp option \<times> 's \<times> 'g world) res" where
  "value_eval_lua L cb deep get put metatable src s w =
     (let w1 = interpreter_get_state L w; top = w_top w1 in
      case luaL_loadstring L src of
        Inl err \<Rightarrow>
          set_lua_result get put src None s (log_error_w w1 (''cannot parse Lua code: '' @ err))
      | Inr chunk \<Rightarrow>
          let self = (case metatable of None \<Rightarrow> Self_Absent
             | Some m \<Rightarrow> if m \<in> set (w_metas w1) then Self_Fields else Self_Bare);
            w2 = w1\<lparr>w_top := top + (if metatable = None then 1 else 2)\<rparr> in
          rbind (if deep then Inr (Inl (Some (lua_overflow L)), s, w2)
                 else case w_lua w2 of None \<Rightarrow> Inl Null_Deref | Some g \<Rightarrow> run_lua cb (chunk self g) s w2)
            (\<lambda>(out, s1, w3).
            let w4 = w3\<lparr>w_top := w_top w3 - (if metatable = None then 1 else 2)\<rparr> in
            case out of
              Inl e \<Rightarrow> set_lua_result get put src None s1 (log_error_w w4 (''cannot execute Lua code: '' @ fmt_s e))
            | Inr r \<Rightarrow> set_lua_result get put src r s1 w4))"

definition value_eval ::
    "'g lua_api \<Rightarrow> ('s, 'g) callback \<Rightarrow> bool \<Rightarrow> ('s \<Rightarrow> value_t) \<Rightarrow> (value_t \<Rightarrow> 's \<Rightarrow> 's) \<Rightarrow> string option \<Rightarrow>
     's \<Rightarrow> 'g world \<Rightarrow> (strp option \<times> 's \<times> 'g world) res" where
  "value_eval L cb deep get put metatable s w =
     (case get s of
        VALUE_STRING p \<Rightarrow> Inr (Some p, s, w)
      | VALUE_LUA src r \<Rightarrow> value_eval_lua L cb deep get put metatable src s w
      | VALUE_INT i r \<Rightarrow> value_eval_int get put i s w)"

text \<open>\<open>lua_pushstring\<close> copies the string; a null pointer pushes nil.\<close>

definition lua_pushstring :: "'g world \<Rightarrow> strp option \<Rightarrow> (lua_value \<times> 'g world) res" where
  "lua_pushstring w r =
     (case r of
        None \<Rightarrow> Inr (Lua_Nil, w\<lparr>w_top := Suc (w_top w)\<rparr>)
      | Some p \<Rightarrow> rbind (deref_w w p) (\<lambda>t. Inr (Lua_String t, w\<lparr>w_top := Suc (w_top w)\<rparr>)))"

definition value_push ::
    "'g lua_api \<Rightarrow> ('s, 'g) callback \<Rightarrow> bool \<Rightarrow> ('s \<Rightarrow> value_t) \<Rightarrow> (value_t \<Rightarrow> 's \<Rightarrow> 's) \<Rightarrow> string option \<Rightarrow>
     's \<Rightarrow> 'g world \<Rightarrow> (lua_value \<times> 's \<times> 'g world) res" where
  "value_push L cb deep get put metatable s w =
     (let w1 = interpreter_get_state L w in
      case get s of
        VALUE_STRING p \<Rightarrow> rbind (lua_pushstring w1 (Some p)) (\<lambda>(v, w2). Inr (v, s, w2))
      | VALUE_LUA src r \<Rightarrow>
          rbind (value_eval_lua L cb deep get put metatable src s w1) (\<lambda>(_, s1, w2).
          rbind (lua_pushstring w2 (v_result (get s1))) (\<lambda>(v, w3). Inr (v, s1, w3)))
      | VALUE_INT i r \<Rightarrow> Inr (Lua_Integer (sint i), s, w1\<lparr>w_top := Suc (w_top w1)\<rparr>))"

section \<open>Dumping\<close>

text \<open>\<open>addr\<close> is the text that \<open>%x\<close> gives for the address of the value, \<open>current\<close> whether it is the one selected.\<close>

definition value_dump :: "'g world \<Rightarrow> string \<Rightarrow> bool \<Rightarrow> value_t \<Rightarrow> buf_t \<Rightarrow> buf_t res" where
  "value_dump w addr current v b =
     (let marker = (if current then CHR ''*'' else CHR '' '');
        res = (case v_result v of None \<Rightarrow> Inr ''(null)'' | Some p \<Rightarrow> deref_w w p) in
      rbind res (\<lambda>r.
      case v of
        VALUE_STRING p \<Rightarrow>
          buf_addf b (''       '' @ marker # ''string(0x'' @ addr @ '') | '' @ r @ [CHR 0x0A])
      | VALUE_LUA src p \<Rightarrow>
          buf_addf b (''       '' @ marker # ''lua(0x'' @ addr @ '')    | '' @ r @ '' | (source:) '' @ src @ [CHR 0x0A])
      | VALUE_INT i p \<Rightarrow>
          buf_addf b (''       '' @ marker # ''int(0x'' @ addr @ '')    | '' @ r @ '' | (source:) '' @ fmt_d (sint i) @ [CHR 0x0A])))"

section \<open>What a block is\<close>

text \<open>The text before the last closing brace of a string.\<close>

definition upto_last_brace :: "string \<Rightarrow> string option" where
  "upto_last_brace s =
     (if CHR ''}'' \<in> set s then Some (rev (tl (dropWhile (\<lambda>c. c \<noteq> CHR ''}'') (rev s)))) else None)"

definition block_of :: "string \<Rightarrow> string \<Rightarrow> string option" where
  "block_of kw s =
     (if take (length kw) s \<noteq> kw then None
      else case dropWhile is_sp (drop (length kw) s) of
        [] \<Rightarrow> None
      | c # r \<Rightarrow> if c = CHR ''{'' then upto_last_brace r else None)"

lemma find_last:
  "find (\<lambda>i. s ! i = x) (rev [0..<length s]) =
     (if x \<in> set s then Some (length s - Suc (length (takeWhile (\<lambda>c. c \<noteq> x) (rev s)))) else None)"
proof (induction s rule: rev_induct)
  case Nil
  then show ?case by simp
next
  case (snoc c s)
  have "find (\<lambda>i. (s @ [c]) ! i = x) (rev [0..<length s]) = find (\<lambda>i. s ! i = x) (rev [0..<length s])"
    by (rule find_cong) (auto simp: nth_append)
  with snoc show ?case by auto
qed

lemma take_last_brace:
  assumes "x \<in> set s"
  shows "take (length s - Suc (length (takeWhile (\<lambda>c. c \<noteq> x) (rev s)))) s =
     rev (tl (dropWhile (\<lambda>c. c \<noteq> x) (rev s)))"
proof -
  have "rev s = takeWhile (\<lambda>c. c \<noteq> x) (rev s) @ dropWhile (\<lambda>c. c \<noteq> x) (rev s)" by simp
  then have "dropWhile (\<lambda>c. c \<noteq> x) (rev s) = drop (length (takeWhile (\<lambda>c. c \<noteq> x) (rev s))) (rev s)"
    by (metis append_eq_conv_conj)
  then show ?thesis by (simp add: tl_drop drop_Suc [symmetric] rev_drop flip: drop_Suc)
qed


lemma buf_init_sized:
  assumes "unat h + 1 < 2 ^ 64"
  obtains b where "buf_init h = Inr b" "wf_buf b" "content b = []" "bf_len b = 0"
proof -
  from buf_init_ok [OF assms] obtain b where "buf_init h = Inr b" "wf_buf b" "content b = []"
    by (auto simp: rok_def)
  then show thesis using that length_content [of b] by (auto simp: unat_eq_0_size_t)
qed

lemma addstr_fits:
  assumes "wf_buf b" "length (content b) + length s + 1 < 2 ^ 64"
  obtains b1 where "buf_addstr b s = Inr b1" "wf_buf b1" "content b1 = content b @ s"
  using buf_addstr_ok [of b s] assms length_content [OF wf_raw [OF assms(1)]]
  by (auto simp: rok_def fits_def)

lemma detach_string:
  assumes "wf_buf b" "length (content b) + 1 < 2 ^ 64"
  obtains blk n where "buf_detach b = Inr (blk, n, buf_empty)" "strdup_block blk = Inr (cstr (content b))"
  using buf_detach_ok [of b] assms length_content [OF wf_raw [OF assms(1)]]
  by (auto simp: rok_def fits_def dest: strdup_detached)

lemma release_any: "wf_buf b \<Longrightarrow> rbind (buf_release b) (\<lambda>_. Inr x) = Inr x"
  using buf_release_ok [of b] by (auto simp: rok_def)

lemma setlen_take:
  assumes "wf_buf b" "p \<le> length (content b)"
  obtains b1 where "buf_setlen b (of_nat p) = Inr b1" "wf_buf b1" "content b1 = take p (content b)"
proof -
  have l: "length (content b) = unat (bf_len b)" using assms(1) by (auto intro: length_content)
  then have p: "unat (of_nat p :: size_t) = p"
    using assms(2) unat_lt_size_t [of "bf_len b"] by (intro unat_of_nat_size_t) simp
  have "sized b" "unat (of_nat p :: size_t) < length (bf_mem b)"
    "None \<notin> set (take (unat (of_nat p :: size_t)) (bf_mem b))"
    using assms l p raw_bufD [OF wf_raw [OF assms(1)]]
    by (auto dest: set_take_subset_set_take [THEN subsetD])
  from buf_setlen_ok [OF this] show thesis
    using that assms l p by (auto simp: rok_def content_def take_map)
qed

lemma strlen_le: "length s < 2 ^ 64 \<Longrightarrow> length t < 2 ^ 64 \<Longrightarrow> strlen s \<le> strlen t \<longleftrightarrow> length s \<le> length t"
  by (simp add: size_t_le strlen_unat)

lemma block_of_short: "length s \<le> length kw \<Longrightarrow> block_of kw s = None"
  by (simp add: block_of_def)

lemma value_match_and_extract_block_ok:
  assumes "NUL \<notin> set tx" "length tx + 1 < 2 ^ 64" "length kw < 2 ^ 64"
  shows "value_match_and_extract_block tx kw = Inr (block_of kw tx)"
proof (cases "length tx \<le> length kw")
  case True
  then show ?thesis using assms block_of_short by (simp add: value_match_and_extract_block_def strlen_le)
next
  case False
  let ?r = "dropWhile is_sp (drop (length kw) tx)"
  have sub: "set ?r \<subseteq> set tx" by (auto dest!: set_dropWhileD in_set_dropD)
  have long: "length ?r \<le> length tx" using length_dropWhile_le [of is_sp "drop (length kw) tx"] by simp
  have "unat (strlen tx - strlen kw) = length tx - length kw"
    using assms False by (simp add: unat_sub_size_t strlen_le strlen_unat)
  then have "unat (strlen tx - strlen kw) + 1 < 2 ^ 64" using assms by simp
  then obtain b where b: "buf_init (strlen tx - strlen kw) = Inr b" "wf_buf b" "content b = []"
    by (rule buf_init_sized)
  have start: "\<not> strlen tx \<le> strlen kw" using False assms by (simp add: strlen_le)
  show ?thesis
  proof (cases "take (length kw) tx = kw \<and> ?r \<noteq> [] \<and> hd ?r = CHR ''{''")
    case False
    then show ?thesis using b start
      by (cases ?r) (auto simp: value_match_and_extract_block_def block_of_def Let_def release_any
          simp del: dropWhile_eq_Nil_conv)
  next
    case True
    then obtain r where r: "?r = CHR ''{'' # r" by (cases ?r) auto
    have nr: "NUL \<notin> set r" "length r < length tx" using sub long assms(1) r by auto
    have "length (content b) + length r + 1 < 2 ^ 64" using nr assms b(3) by simp
    from addstr_fits [OF b(2) this] b(3) obtain b1 where b1: "buf_addstr b r = Inr b1" "wf_buf b1" "content b1 = r"
      by (metis append_Nil)
    have s1: "strdup_block (bf_mem b1) = Inr r" using strdup_block_ok [OF b1(2)] b1(3) nr by simp
    show ?thesis
    proof (cases "CHR ''}'' \<in> set r")
      case False
      with True r b b1 s1 start show ?thesis
        by (simp add: value_match_and_extract_block_def block_of_def upto_last_brace_def Let_def find_last release_any)
    next
      case brace: True
      let ?p = "length r - Suc (length (takeWhile (\<lambda>c. c \<noteq> CHR ''}'') (rev r)))"
      have "?p \<le> length (content b1)" using b1 by simp
      from setlen_take [OF b1(2) this] b1(3) obtain b2 where b2: "buf_setlen b1 (of_nat ?p) = Inr b2" "wf_buf b2"
        "content b2 = take ?p r" by metis
      have "length (content b2) + 1 < 2 ^ 64" using b2 nr assms by simp
      from detach_string [OF b2(2) this] obtain blk n where d: "buf_detach b2 = Inr (blk, n, buf_empty)"
        "strdup_block blk = Inr (cstr (content b2))" by blast
      have "NUL \<notin> set (take ?p r)" using nr by (auto dest: in_set_takeD)
      then have "cstr (content b2) = rev (tl (dropWhile (\<lambda>c. c \<noteq> CHR ''}'') (rev r)))"
        using b2(3) take_last_brace [OF brace] by simp
      with True r b b1 s1 b2 d brace start show ?thesis
        by (simp add: value_match_and_extract_block_def block_of_def upto_last_brace_def Let_def find_last)
    qed
  qed
qed

lemma value_new_lua_ok:
  assumes "NUL \<notin> set src" "length src + 20 < 2 ^ 64"
  shows "value_new_lua src = Inr (VALUE_LUA (preamble @ src) None)"
proof -
  have l: "length preamble = 18" "NUL \<notin> set preamble" by (simp_all add: preamble_def)
  have "unat (strlen preamble + strlen src) = 18 + length src"
    using assms l by (subst unat_add_size_t) (simp_all add: strlen_unat)
  then have "unat (strlen preamble + strlen src) + 1 < 2 ^ 64" using assms by simp
  then obtain b where b: "buf_init (strlen preamble + strlen src) = Inr b" "wf_buf b" "content b = []"
    by (rule buf_init_sized)
  have "length (content b) + length preamble + 1 < 2 ^ 64" using b l by simp
  from addstr_fits [OF b(2) this] b(3) obtain b1 where b1: "buf_addstr b preamble = Inr b1" "wf_buf b1"
    "content b1 = preamble" by (metis append_Nil)
  have "length (content b1) + length src + 1 < 2 ^ 64" using b1 l assms by simp
  from addstr_fits [OF b1(2) this] b1(3) obtain b2 where b2: "buf_addstr b1 src = Inr b2" "wf_buf b2"
    "content b2 = preamble @ src" by metis
  have "length (content b2) + 1 < 2 ^ 64" using b2 l assms by simp
  from detach_string [OF b2(2) this] obtain blk n where "buf_detach b2 = Inr (blk, n, buf_empty)"
    "strdup_block blk = Inr (cstr (content b2))" by blast
  then show ?thesis using b b1 b2 assms l by (simp add: value_new_lua_def)
qed

lemma upto_last_brace_subset: "upto_last_brace s = Some r \<Longrightarrow> set r \<subseteq> set s \<and> length r \<le> length s"
  by (auto simp: upto_last_brace_def take_last_brace [symmetric] dest: in_set_takeD split: if_splits)

lemma block_of_subset:
  assumes "block_of kw s = Some r"
  shows "set r \<subseteq> set s" "length r \<le> length s"
proof -
  let ?d = "dropWhile is_sp (drop (length kw) s)"
  from assms obtain c d where d: "?d = c # d" "upto_last_brace d = Some r"
    by (auto simp: block_of_def split: if_splits list.splits)
  have "set ?d \<subseteq> set s" "length ?d \<le> length s"
    using length_dropWhile_le [of is_sp "drop (length kw) s"] by (auto dest!: set_dropWhileD in_set_dropD)
  then show "set r \<subseteq> set s" "length r \<le> length s"
    using upto_last_brace_subset [OF d(2)] d(1) by auto
qed

lemma value_new_auto_ok:
  assumes "NUL \<notin> set tx" "length tx + 20 < 2 ^ 64"
  shows "value_new_auto w tx = Inr (case block_of ''lua'' tx of
       Some src \<Rightarrow> (VALUE_LUA (preamble @ src) None, w)
     | None \<Rightarrow> (VALUE_STRING (w_stamp w, tx), w\<lparr>w_stamp := Suc (w_stamp w)\<rparr>))"
proof (cases "block_of ''lua'' tx")
  case None
  then show ?thesis using value_match_and_extract_block_ok [of tx "''lua''"] assms
    by (simp add: value_new_auto_def value_new_string_def strdup_w_def)
next
  case (Some src)
  then have "value_new_lua src = Inr (VALUE_LUA (preamble @ src) None)"
    using block_of_subset [OF Some] assms by (intro value_new_lua_ok) auto
  then show ?thesis using Some value_match_and_extract_block_ok [of tx "''lua''"] assms
    by (simp add: value_new_auto_def)
qed

section \<open>Decimal notation\<close>

definition undigits :: "string \<Rightarrow> nat" where
  "undigits s = foldl (\<lambda>a c. 10 * a + (of_char c - 48)) 0 s"

text \<open>The number a decimal string stands for, as \<open>atoi\<close> reads it.\<close>

definition atoi :: "string \<Rightarrow> int" where
  "atoi s = (case s of c # r \<Rightarrow> if c = CHR ''-'' then - int (undigits r) else int (undigits s) | [] \<Rightarrow> 0)"

lemma of_char_digit: "k < 10 \<Longrightarrow> of_char (char_of (48 + k) :: char) = (48 + k :: nat)"
  by simp

lemma undigits_digits: "undigits (digits n) = n"
proof (induction n rule: digits.induct)
  case (1 n)
  show ?case
  proof (cases "n < 10")
    case True
    then show ?thesis by (simp add: digits.simps [of n] undigits_def)
  next
    case False
    have "n mod 10 < 10" by simp
    then have "(48 + n mod 10) mod 256 = 48 + n mod 10" by (intro mod_less) linarith
    then show ?thesis using 1 False by (simp add: digits.simps [of n] undigits_def)
  qed
qed

lemma digits_range: "c \<in> set (digits n) \<Longrightarrow> 48 \<le> (of_char c :: nat) \<and> (of_char c :: nat) < 58"
proof (induction n rule: digits.induct)
  case (1 n)
  have "n mod 10 < 10" by simp
  then have "(48 + n mod 10) mod 256 = 48 + n mod 10" by (intro mod_less) linarith
  with 1 show ?case by (auto simp: digits.simps [of n] split: if_splits)
qed

lemma digits_not_Nil [simp]: "digits n \<noteq> []"
  by (simp add: digits.simps [of n])

lemma length_digits: "n < 10 ^ k \<Longrightarrow> 0 < k \<Longrightarrow> length (digits n) \<le> k"
proof (induction k arbitrary: n)
  case (Suc k)
  then show ?case using Suc.IH [of "n div 10"]
    by (cases "k = 0") (auto simp: digits.simps [of n])
qed simp

lemma atoi_fmt_d: "atoi (fmt_d i) = i"
proof (cases "i < 0")
  case True
  then show ?thesis by (simp add: atoi_def fmt_d_def undigits_digits)
next
  case False
  obtain c r where d: "digits (nat i) = c # r" by (cases "digits (nat i)") auto
  have "c \<noteq> CHR ''-''" using digits_range [of c "nat i"] d by auto
  then show ?thesis using False d undigits_digits [of "nat i"] by (simp add: atoi_def fmt_d_def)
qed

lemma fmt_d_no_NUL: "NUL \<notin> set (fmt_d i)"
  using digits_range [of NUL] by (auto simp: fmt_d_def)

lemma sint_range: "- (2 ^ 31) \<le> sint (i :: c_int)" "sint (i :: c_int) < 2 ^ 31"
  using sint_range_size [of i] by (simp_all add: word_size)

lemma length_fmt_d: "length (fmt_d (sint (i :: c_int))) \<le> 11"
proof -
  have "nat (sint i) < 10 ^ 10" "nat (- sint i) < 10 ^ 10" using sint_range [of i] by simp_all
  then have "length (digits (nat (sint i))) \<le> 10" "length (digits (nat (- sint i))) \<le> 10"
    by (auto intro: length_digits)
  then show ?thesis by (simp add: fmt_d_def)
qed

section \<open>Evaluation is memory safe\<close>

text \<open>\<open>rsafe m P\<close>: the run \<open>m\<close> ends with \<open>P\<close> or in a failed assertion, and in no other error.\<close>

definition rsafe :: "'a res \<Rightarrow> ('a \<Rightarrow> bool) \<Rightarrow> bool" where
  "rsafe m P \<longleftrightarrow> (case m of Inl e \<Rightarrow> e = Assert_Fail | Inr x \<Rightarrow> P x)"

lemma rsafe_simps [simp]: "rsafe (Inr x) P \<longleftrightarrow> P x" "rsafe (Inl e) P \<longleftrightarrow> e = Assert_Fail"
  by (simp_all add: rsafe_def)

lemma rsafe_mono: "rsafe m P \<Longrightarrow> (\<And>x. P x \<Longrightarrow> Q x) \<Longrightarrow> rsafe m Q"
  by (auto simp: rsafe_def split: sum.splits)

lemma rsafe_rbind: "rsafe (rbind m f) P \<longleftrightarrow> rsafe m (\<lambda>x. rsafe (f x) P)"
  by (cases m) auto

lemma rok_rsafe: "rok m P \<Longrightarrow> rsafe m P"
  by (auto simp: rok_def)

text \<open>What stays of a value when it is evaluated: everything but the result.\<close>

primrec strip :: "value_t \<Rightarrow> value_t" where
  "strip (VALUE_STRING p) = VALUE_STRING p"
| "strip (VALUE_LUA src r) = VALUE_LUA src None"
| "strip (VALUE_INT i r) = VALUE_INT i None"

text \<open>
  What evaluation needs of the place a value is kept in, and of the calls that Lua code makes:
  \<open>inv\<close> relates the state to the memory, it makes the result of the value live, it only depends
  on the stamps, a value may get a fresh result once its old one is freed, and a field access
  keeps all this.
\<close>

locale value_slot =
  fixes get :: "'s \<Rightarrow> value_t" and put :: "value_t \<Rightarrow> 's \<Rightarrow> 's"
    and cb :: "('s, 'g) callback" and inv :: "'s \<Rightarrow> 'g world \<Rightarrow> bool"
  assumes get_put: "inv s w \<Longrightarrow> get (put v s) = v"
    and live_result: "inv s w \<Longrightarrow> live w (v_result (get s))"
    and same_value: "inv s w \<Longrightarrow> inv s' w' \<Longrightarrow> strip (get s') = strip (get s)"
    and only_stamps: "inv s w \<Longrightarrow> w_stamp w' = w_stamp w \<Longrightarrow> w_freed w' = w_freed w \<Longrightarrow> inv s w'"
    and clear_result: "inv s w \<Longrightarrow> strip v = strip (get s) \<Longrightarrow> free_w w (v_result (get s)) = Inr w1 \<Longrightarrow>
      v_result v = None \<Longrightarrow> inv (put v s) w1"
    and new_result: "inv s w \<Longrightarrow> strip v = strip (get s) \<Longrightarrow> free_w w (v_result (get s)) = Inr w1 \<Longrightarrow>
      strdup_w w1 t = (p, w2) \<Longrightarrow> v_result v = Some p \<Longrightarrow> inv (put v s) w2"
    and callback: "inv s w \<Longrightarrow> w_lua w \<noteq> None \<Longrightarrow>
      rsafe (cb k s w) (\<lambda>(v, s', w'). inv s' w' \<and> w_lua w' \<noteq> None \<and> w_metas w' = w_metas w)"
begin

lemma free_live: "inv s w \<Longrightarrow> rok (free_w w (v_result (get s))) (\<lambda>w1. w_lua w1 = w_lua w \<and>
    w_top w1 = w_top w \<and> w_metas w1 = w_metas w \<and> w_stderr w1 = w_stderr w)"
  using live_result [of s w] by (auto simp: free_w_def live_def split: option.splits)

lemma set_lua_result_ok:
  assumes "inv s w" and "strip (get s) = VALUE_LUA src None"
  shows "rok (set_lua_result get put src r s w) (\<lambda>(p, s', w'). inv s' w' \<and> p = v_result (get s') \<and>
     map_option snd p = map_option cstr r \<and> w_lua w' = w_lua w \<and> w_top w' = w_top w \<and> w_metas w' = w_metas w)"
proof -
  from free_live [OF assms(1)] obtain w1 where w1: "free_w w (v_result (get s)) = Inr w1" "w_lua w1 = w_lua w"
    "w_top w1 = w_top w" "w_metas w1 = w_metas w" by (auto simp: rok_def)
  show ?thesis
  proof (cases r)
    case None
    have "inv (put (VALUE_LUA src None) s) w1" using clear_result [OF assms(1) _ w1(1)] assms(2) by simp
    then show ?thesis using None w1 get_put [OF assms(1)] by (simp add: set_lua_result_def)
  next
    case (Some t)
    let ?p = "(w_stamp w1, cstr t)" and ?w2 = "w1\<lparr>w_stamp := Suc (w_stamp w1)\<rparr>"
    have "inv (put (VALUE_LUA src (Some ?p)) s) ?w2"
      using new_result [OF assms(1) _ w1(1), of _ "cstr t" ?p ?w2] assms(2) by (simp add: strdup_w_def)
    then show ?thesis using Some w1 get_put [OF assms(1)] by (simp add: set_lua_result_def strdup_w_def)
  qed
qed

lemma run_lua_safe:
  assumes "inv s w"
  shows "rsafe (run_lua cb t s w) (\<lambda>(out, s', w'). inv s' w' \<and> w_lua w' \<noteq> None \<and>
     w_top w' = w_top w \<and> w_metas w' = w_metas w)"
  using assms
proof (induction t arbitrary: s w)
  case (Lua_Return r g)
  then show ?case by (auto intro: only_stamps)
next
  case (Lua_Error e g)
  then show ?case by (auto intro: only_stamps)
next
  case (Lua_Index k g cont)
  let ?w = "w\<lparr>w_lua := Some g, w_top := 2\<rparr>"
  have "inv s ?w" using Lua_Index.prems by (rule only_stamps) simp_all
  from callback [OF this, of k]
  have "rsafe (cb k s ?w) (\<lambda>(v, s1, w1). inv s1 w1 \<and> w_lua w1 \<noteq> None \<and> w_metas w1 = w_metas w)" by simp
  then show ?case unfolding run_lua.simps rsafe_rbind
  proof (rule rsafe_mono, clarify, goal_cases)
    case (1 v s1 w1 g1)
    then have "inv s1 (w1\<lparr>w_top := w_top w\<rparr>)" by (auto intro: only_stamps)
    from Lua_Index.IH [OF rangeI rangeI this] 1 show ?case by (auto elim!: rsafe_mono)
  qed
qed

lemma value_eval_lua_safe:
  assumes "inv s w" and "strip (get s) = VALUE_LUA src None"
  shows "rsafe (value_eval_lua L cb deep get put metatable src s w) (\<lambda>(p, s', w'). inv s' w' \<and>
     p = v_result (get s') \<and> w_lua w' \<noteq> None \<and> w_top w' = w_top (interpreter_get_state L w) \<and>
     w_metas w' = w_metas (interpreter_get_state L w))"
proof -
  let ?w1 = "interpreter_get_state L w"
  let ?k = "if metatable = None then 1 else 2 :: nat"
  let ?w2 = "?w1\<lparr>w_top := w_top ?w1 + ?k\<rparr>"
  have i1: "inv s ?w1" using assms(1) by (rule only_stamps) simp_all
  have finish: "rsafe (set_lua_result get put src r s' w') (\<lambda>(p, s'', w''). inv s'' w'' \<and> p = v_result (get s'') \<and>
      w_lua w'' \<noteq> None \<and> w_top w'' = w_top w' \<and> w_metas w'' = w_metas w')"
    if "inv s' w0" "w_stamp w' = w_stamp w0" "w_freed w' = w_freed w0" "w_lua w' \<noteq> None" for s' w0 w' r
    using that same_value [OF assms(1) that(1)] assms(2) only_stamps [OF that(1-3)]
    by (auto intro!: rok_rsafe rok_mono [OF set_lua_result_ok])
  show ?thesis
  proof (cases "luaL_loadstring L src")
    case (Inl err)
    have "rsafe (set_lua_result get put src None s (log_error_w ?w1 (''cannot parse Lua code: '' @ err)))
      (\<lambda>(p, s', w'). inv s' w' \<and> p = v_result (get s') \<and> w_lua w' \<noteq> None \<and>
        w_top w' = w_top (log_error_w ?w1 (''cannot parse Lua code: '' @ err)) \<and>
        w_metas w' = w_metas (log_error_w ?w1 (''cannot parse Lua code: '' @ err)))"
      by (rule finish [OF i1]) simp_all
    then show ?thesis using Inl by (simp only: value_eval_lua_def Let_def sum.case log_error_w_fields)
  next
    case (Inr chunk)
    let ?self = "case metatable of None \<Rightarrow> Self_Absent
       | Some m \<Rightarrow> if m \<in> set (w_metas ?w1) then Self_Fields else Self_Bare"
    obtain g where g: "w_lua ?w1 = Some g" by (meson not_None_eq w_lua_get_state)
    have i2: "inv s ?w2" using i1 by (rule only_stamps) simp_all
    have "rsafe (if deep then Inr (Inl (Some (lua_overflow L)), s, ?w2) else run_lua cb (chunk ?self g) s ?w2)
      (\<lambda>(out, s', w'). inv s' w' \<and> w_lua w' \<noteq> None \<and> w_top w' = w_top ?w2 \<and> w_metas w' = w_metas ?w1)"
      using run_lua_safe [OF i2, of "chunk ?self g"] i2 g by simp
    then have "rsafe (if deep then Inr (Inl (Some (lua_overflow L)), s, ?w2) else run_lua cb (chunk ?self g) s ?w2)
      (\<lambda>(out, s1, w3). rsafe (let w4 = w3\<lparr>w_top := w_top w3 - ?k\<rparr> in
            case out of
              Inl e \<Rightarrow> set_lua_result get put src None s1 (log_error_w w4 (''cannot execute Lua code: '' @ fmt_s e))
            | Inr r \<Rightarrow> set_lua_result get put src r s1 w4)
        (\<lambda>(p, s', w'). inv s' w' \<and> p = v_result (get s') \<and> w_lua w' \<noteq> None \<and> w_top w' = w_top ?w1 \<and>
          w_metas w' = w_metas ?w1))"
    proof (rule rsafe_mono, clarify, goal_cases)
      case (1 out s1 w3 g3)
      then show ?case
        by (cases out) (auto simp: Let_def simp del: One_nat_def
            intro!: rsafe_mono [OF finish [of s1 w3]])
    qed
    then show ?thesis using g
      by (cases deep; cases metatable) (simp_all add: value_eval_lua_def Let_def Inr rsafe_rbind case_prod_unfold)
  qed
qed

lemma value_eval_int_ok:
  assumes "inv s w" and "strip (get s) = VALUE_INT i None"
  shows "rok (value_eval_int get put i s w) (\<lambda>(p, s', w'). inv s' w' \<and> p = v_result (get s') \<and>
     map_option snd p = Some (fmt_d (sint i)) \<and> w_lua w' = w_lua w \<and> w_top w' = w_top w \<and> w_metas w' = w_metas w)"
proof -
  let ?t = "fmt_d (sint i)"
  obtain b where b: "buf_init 24 = Inr b" "wf_buf b" "content b = []" "bf_len b = 0"
    by (rule buf_init_sized [of 24]) simp_all
  have "int (length ?t) \<le> INT_MAX" "fits b (length ?t + 64)"
    using length_fmt_d [of i] b by (simp_all add: fits_def)
  from buf_addf_ok [OF b(2) this] b(3) obtain b1 where b1: "buf_addf b ?t = Inr b1" "wf_buf b1" "content b1 = ?t"
    by (auto simp: rok_def)
  have "length (content b1) + 1 < 2 ^ 64" using b1(3) length_fmt_d [of i] by simp
  from detach_string [OF b1(2) this] b1(3) obtain blk n where d: "buf_detach b1 = Inr (blk, n, buf_empty)"
    "strdup_block blk = Inr ?t" by (auto simp: fmt_d_no_NUL)
  from free_live [OF assms(1)] obtain w1 where w1: "free_w w (v_result (get s)) = Inr w1" "w_lua w1 = w_lua w"
    "w_top w1 = w_top w" "w_metas w1 = w_metas w" by (auto simp: rok_def)
  let ?p = "(w_stamp w1, ?t)" and ?w2 = "w1\<lparr>w_stamp := Suc (w_stamp w1)\<rparr>"
  have "inv (put (VALUE_INT i (Some ?p)) s) ?w2"
    using new_result [OF assms(1) _ w1(1), of _ ?t ?p ?w2] assms(2) by (simp add: strdup_w_def)
  then show ?thesis
    using b b1 d w1 get_put [OF assms(1)] by (simp add: value_eval_int_def strdup_w_def)
qed

lemma value_eval_safe:
  assumes "inv s w"
  shows "rsafe (value_eval L cb deep get put metatable s w) (\<lambda>(p, s', w'). inv s' w' \<and> p = v_result (get s') \<and>
     (w_lua w \<noteq> None \<longrightarrow> w_lua w' \<noteq> None \<and> w_top w' = w_top w \<and> w_metas w' = w_metas w))"
proof (cases "get s")
  case (VALUE_STRING p)
  then show ?thesis using assms by (simp add: value_eval_def)
next
  case (VALUE_LUA src r)
  then show ?thesis using assms value_eval_lua_safe [OF assms, of src L deep metatable]
    by (auto simp: value_eval_def interpreter_get_state_def elim!: rsafe_mono split: option.splits)
next
  case (VALUE_INT i r)
  then show ?thesis using assms value_eval_int_ok [OF assms, of i]
    by (auto simp: value_eval_def intro!: rok_rsafe elim!: rok_mono)
qed

lemma pushstring_live:
  "live w p \<Longrightarrow> lua_pushstring w p = Inr (case p of None \<Rightarrow> Lua_Nil | Some q \<Rightarrow> Lua_String (snd q), w\<lparr>w_top := Suc (w_top w)\<rparr>)"
  by (auto simp: lua_pushstring_def deref_w_def live_def split: option.splits)

lemma value_push_safe:
  assumes "inv s w"
  shows "rsafe (value_push L cb deep get put metatable s w) (\<lambda>(v, s', w'). inv s' w' \<and>
     w_lua w' \<noteq> None \<and> w_metas w' = w_metas (interpreter_get_state L w))"
proof -
  let ?w1 = "interpreter_get_state L w"
  have i1: "inv s ?w1" using assms by (rule only_stamps) simp_all
  have idem: "interpreter_get_state L ?w1 = ?w1" by (simp add: interpreter_get_state_def split: option.split)
  have top: "inv s' (w'\<lparr>w_top := n\<rparr>)" if "inv s' w'" for s' w' n
    using that by (rule only_stamps) simp_all
  show ?thesis
  proof (cases "get s")
    case (VALUE_STRING p)
    then show ?thesis using top [OF i1] pushstring_live [OF live_result [OF i1]]
      by (simp add: value_push_def Let_def del: not_None_eq)
  next
    case (VALUE_LUA src r)
    have "rsafe (value_eval_lua L cb deep get put metatable src s ?w1) (\<lambda>(q, s1, w2).
        rsafe (rbind (lua_pushstring w2 (v_result (get s1))) (\<lambda>(v, w3). Inr (v, s1, w3)))
          (\<lambda>(v, s', w'). inv s' w' \<and> w_lua w' \<noteq> None \<and> w_metas w' = w_metas ?w1))"
      using value_eval_lua_safe [OF i1, of src L deep metatable] VALUE_LUA pushstring_live [OF live_result] top
      by (auto simp: idem simp del: not_None_eq elim!: rsafe_mono)
    then show ?thesis using VALUE_LUA by (simp add: value_push_def Let_def rsafe_rbind case_prod_unfold)
  next
    case (VALUE_INT i r)
    then show ?thesis using top [OF i1] by (simp add: value_push_def Let_def del: not_None_eq)
  qed
qed

end

section \<open>A value on its own\<close>

text \<open>A value that no composer holds: nothing can be read through \<open>self\<close>.\<close>

definition own_inv :: "value_t \<Rightarrow> value_t \<Rightarrow> 'g world \<Rightarrow> bool" where
  "own_inv v0 v w \<longleftrightarrow> strip v = strip v0 \<and> live w (v_result v) \<and> wf_world w"

lemma free_w_Inr:
  "free_w w r = Inr w1 \<longleftrightarrow> (case r of None \<Rightarrow> w1 = w | Some (n, s) \<Rightarrow> n \<notin> set (w_freed w) \<and> w1 = w\<lparr>w_freed := n # w_freed w\<rparr>)"
  by (auto simp: free_w_def split: option.splits)

interpretation own: value_slot "\<lambda>v. v" "\<lambda>v _. v" "\<lambda>k s w. Inl Assert_Fail" "own_inv v0" for v0
  by unfold_locales (auto simp: own_inv_def free_w_Inr strdup_w_def live_def wf_world_def
      intro!: less_SucI split: option.splits)

text \<open>A fresh process, for examples.\<close>

definition world0 :: "unit world" where
  "world0 = \<lparr>w_lua = None, w_top = 0, w_metas = [], w_stamp = 0, w_freed = [], w_stderr = []\<rparr>"

section \<open>Properties\<close>



text \<open>
  Evaluating an integer value gives its decimal text, for every 32-bit integer the smallest one
  included: reading the text back as a number gives the integer, and the value keeps it as its
  result.
\<close>

theorem value_eval_int_decimal:
  assumes "wf_world w"
  shows "\<exists>p v' w'. value_eval L cb deep (\<lambda>v. v) (\<lambda>v _. v) m (value_new_int i) w = Inr (Some p, v', w') \<and>
     atoi (snd p) = sint i \<and> v_result v' = Some p \<and> live w' (Some p)"
proof -
  have "own_inv (VALUE_INT i None) (VALUE_INT i None) w" using assms by (simp add: own_inv_def)
  from own.value_eval_int_ok [OF this, of i]
  show ?thesis by (auto simp: rok_def value_eval_def value_new_int_def own_inv_def atoi_fmt_d)
qed

theorem value_eval_int_decimal_witness:
  "\<exists>p v' w'. value_eval \<lparr>luaL_newstate = (), luaL_loadstring = (\<lambda>s. Inl s), lua_overflow = []\<rparr> (\<lambda>k v w. Inl Assert_Fail) False
       (\<lambda>v. v) (\<lambda>v _. v) None (value_new_int (- 2147483648)) world0 = Inr (Some p, v', w') \<and>
     atoi (snd p) = sint (- 2147483648 :: c_int) \<and> v_result v' = Some p \<and> live w' (Some p)"
  by (rule value_eval_int_decimal) (simp add: wf_world_def world0_def)

end
