(* ===== verification/Att.thy ===== *)
theory Att
  imports Value
begin

text \<open>
  Attributes, \<open>src/att.c\<close>: a name, a list of alternative values, a cursor into the list, and the
  section the values come from.

  The cursor \<open>current\<close> of the C code is a pointer into the list of alternatives; here it is the
  index of the node, \<open>None\<close> being the null pointer behind the last one. The second half states
  what a cursor promises as a locale and proves, for any cursor, that turning a row of them like
  the wheels of an odometer goes through all their combinations; attributes are an instance.
\<close>

section \<open>Data\<close>

record att_t =
  at_name :: string
  alternatives :: "value_t list"
  current :: "nat option"
  origin :: "string option"

text \<open>The start of a list as a pointer, and the node behind another one.\<close>

definition head_node :: "'a list \<Rightarrow> nat option" where
  "head_node xs = (if xs = [] then None else Some 0)"

definition next_node :: "'a list \<Rightarrow> nat \<Rightarrow> nat option" where
  "next_node xs i = (if Suc i < length xs then Some (Suc i) else None)"

section \<open>Operations\<close>

definition att_new :: "string \<Rightarrow> value_t \<Rightarrow> string option \<Rightarrow> att_t" where
  "att_new name v orig = \<lparr>at_name = name, alternatives = [v], current = head_node [v], origin = orig\<rparr>"

primrec clone_values :: "'g world \<Rightarrow> value_t list \<Rightarrow> (value_t list \<times> 'g world) res" where
  "clone_values w [] = Inr ([], w)"
| "clone_values w (v # vs) =
     rbind (value_clone w v) (\<lambda>(v1, w1). rbind (clone_values w1 vs) (\<lambda>(vs1, w2). Inr (v1 # vs1, w2)))"

text \<open>The loop that counts up to the current alternative; \<open>p\<close> walks the original, \<open>q\<close> the copy.\<close>

function clone_cursor ::
    "value_t list \<Rightarrow> nat option \<Rightarrow> value_t list \<Rightarrow> nat option \<Rightarrow> nat option \<Rightarrow> (nat option \<times> nat option) res" where
  "clone_cursor xs cur ys p q =
     (if p \<noteq> cur \<and> p \<noteq> None then
        rbind (assert_c (q \<noteq> None)) (\<lambda>_.
        clone_cursor xs cur ys (next_node xs (the p)) (next_node ys (the q)))
      else Inr (p, q))"
  by pat_completeness auto
termination
  by (relation "measure (\<lambda>(xs, cur, ys, p, q). case p of None \<Rightarrow> 0 | Some i \<Rightarrow> Suc (length xs - i))")
    (auto simp: next_node_def split: option.splits)

declare clone_cursor.simps [simp del]

definition att_clone :: "'g world \<Rightarrow> att_t \<Rightarrow> (att_t \<times> 'g world) res" where
  "att_clone w att =
     rbind (clone_values w (alternatives att)) (\<lambda>(vs, w1).
     rbind (clone_cursor (alternatives att) (current att) vs (head_node (alternatives att)) (head_node vs)) (\<lambda>(p, q).
     rbind (assert_c (p = current att)) (\<lambda>_.
     Inr (\<lparr>at_name = at_name att, alternatives = vs, current = q, origin = origin att\<rparr>, w1))))"

primrec free_values :: "'g world \<Rightarrow> value_t list \<Rightarrow> 'g world res" where
  "free_values w [] = Inr w"
| "free_values w (v # vs) = rbind (value_free w v) (\<lambda>w1. free_values w1 vs)"

definition att_replace_value :: "'g world \<Rightarrow> att_t \<Rightarrow> value_t \<Rightarrow> string option \<Rightarrow> (att_t \<times> 'g world) res" where
  "att_replace_value w att v orig =
     rbind (free_values w (alternatives att)) (\<lambda>w1.
     Inr (att\<lparr>alternatives := [v], current := head_node [v], origin := orig\<rparr>, w1))"

text \<open>The list that \<open>list_push\<close> returns is not stored: without a first node the value is lost.\<close>

definition att_add_value :: "att_t \<Rightarrow> value_t \<Rightarrow> att_t" where
  "att_add_value att v =
     (if alternatives att = [] then att else att\<lparr>alternatives := alternatives att @ [v]\<rparr>)"

definition att_free :: "'g world \<Rightarrow> att_t option \<Rightarrow> 'g world res" where
  "att_free w att = (case att of None \<Rightarrow> Inr w | Some a \<Rightarrow> free_values w (alternatives a))"

definition att_name_equal_to :: "att_t \<Rightarrow> string \<Rightarrow> bool" where
  "att_name_equal_to att name \<longleftrightarrow> at_name att = name"

definition att_get_origin :: "att_t \<Rightarrow> string option" where
  "att_get_origin att = origin att"

text \<open>
  Evaluation of the current alternative. \<open>get\<close> and \<open>put\<close> reach the attribute in the composer's
  state \<open>'s\<close>; the alternative is a part of it.
\<close>

definition alt_get :: "('s \<Rightarrow> att_t) \<Rightarrow> nat \<Rightarrow> 's \<Rightarrow> value_t" where
  "alt_get get j s = alternatives (get s) ! j"

definition alt_put :: "('s \<Rightarrow> att_t) \<Rightarrow> (att_t \<Rightarrow> 's \<Rightarrow> 's) \<Rightarrow> nat \<Rightarrow> value_t \<Rightarrow> 's \<Rightarrow> 's" where
  "alt_put get put j v s = put ((get s)\<lparr>alternatives := (alternatives (get s))[j := v]\<rparr>) s"

definition att_eval ::
    "'g lua_api \<Rightarrow> ('s, 'g) callback \<Rightarrow> bool \<Rightarrow> ('s \<Rightarrow> att_t) \<Rightarrow> (att_t \<Rightarrow> 's \<Rightarrow> 's) \<Rightarrow> string option \<Rightarrow>
     's \<Rightarrow> 'g world \<Rightarrow> (strp option \<times> 's \<times> 'g world) res" where
  "att_eval L cb deep get put metatable s w =
     (case current (get s) of
        None \<Rightarrow> Inr (None, s, w)
      | Some j \<Rightarrow> value_eval L cb deep (alt_get get j) (alt_put get put j) metatable s w)"

definition att_push ::
    "'g lua_api \<Rightarrow> ('s, 'g) callback \<Rightarrow> bool \<Rightarrow> ('s \<Rightarrow> att_t) \<Rightarrow> (att_t \<Rightarrow> 's \<Rightarrow> 's) \<Rightarrow> string option \<Rightarrow>
     's \<Rightarrow> 'g world \<Rightarrow> (lua_value \<times> 's \<times> 'g world) res" where
  "att_push L cb deep get put metatable s w =
     (case current (get s) of
        None \<Rightarrow> Inr (Lua_Nil, s, w)
      | Some j \<Rightarrow> value_push L cb deep (alt_get get j) (alt_put get put j) metatable s w)"

definition att_rewind :: "att_t \<Rightarrow> att_t" where
  "att_rewind att = att\<lparr>current := head_node (alternatives att)\<rparr>"

definition att_next :: "att_t \<Rightarrow> bool \<times> att_t" where
  "att_next att =
     (case current att of
        None \<Rightarrow> (False, att)
      | Some j \<Rightarrow>
          let att1 = att\<lparr>current := next_node (alternatives att) j\<rparr> in (current att1 \<noteq> None, att1))"

text \<open>\<open>addr\<close> and \<open>vaddr\<close> give the addresses of the attribute and of its values as \<open>%x\<close> writes them.\<close>

fun dump_values :: "'g world \<Rightarrow> (nat \<Rightarrow> string) \<Rightarrow> nat option \<Rightarrow> nat \<Rightarrow> value_t list \<Rightarrow> buf_t \<Rightarrow> buf_t res" where
  "dump_values w vaddr cur i [] b = Inr b"
| "dump_values w vaddr cur i (v # vs) b =
     rbind (value_dump w (vaddr i) (cur = Some i) v b) (\<lambda>b1. dump_values w vaddr cur (Suc i) vs b1)"

definition att_dump :: "'g world \<Rightarrow> string \<Rightarrow> (nat \<Rightarrow> string) \<Rightarrow> att_t \<Rightarrow> buf_t \<Rightarrow> buf_t res" where
  "att_dump w addr vaddr att b =
     rbind (buf_addf b (''    attribute at 0x'' @ addr @ [CHR 0x0A])) (\<lambda>b1.
     rbind (buf_addf b1 (''      name: '' @ at_name att @ [CHR 0x0A])) (\<lambda>b2.
     rbind (buf_addf b2 (''      origin: '' @ fmt_s (origin att) @ [CHR 0x0A])) (\<lambda>b3.
     rbind (buf_addf b3 (''      values:'' @ [CHR 0x0A])) (\<lambda>b4.
     dump_values w vaddr (current att) 0 (alternatives att) b4))))"

section \<open>Cursors and odometers\<close>

text \<open>The loop over the attributes in \<open>pathcomp_next\<close>, for any kind of cursor.\<close>

fun next_loop :: "('c \<Rightarrow> bool \<times> 'c) \<Rightarrow> ('c \<Rightarrow> 'c) \<Rightarrow> 'c list \<Rightarrow> bool \<times> 'c list" where
  "next_loop nxt rew [] = (False, [])"
| "next_loop nxt rew (c # cs) =
     (case nxt c of (r, c1) \<Rightarrow>
        if r then (True, c1 # cs)
        else case next_loop nxt rew cs of (r1, cs1) \<Rightarrow> (r1, rew c1 # cs1))"

text \<open>
  A cursor has a position below its size. Moving on either reaches the next position or
  reports the end, after which rewinding gives the first position again.
\<close>

locale cursor =
  fixes nxt :: "'c \<Rightarrow> bool \<times> 'c" and rew :: "'c \<Rightarrow> 'c"
    and pos :: "'c \<Rightarrow> nat" and extent :: "'c \<Rightarrow> nat" and good :: "'c \<Rightarrow> bool" and fixed :: "'c \<Rightarrow> 'f"
  assumes pos_extent: "good c \<Longrightarrow> pos c < extent c"
    and nxt_moves: "good c \<Longrightarrow> Suc (pos c) < extent c \<Longrightarrow> nxt c = (r, c') \<Longrightarrow>
      r \<and> good c' \<and> pos c' = Suc (pos c) \<and> fixed c' = fixed c"
    and nxt_ends: "good c \<Longrightarrow> \<not> Suc (pos c) < extent c \<Longrightarrow> nxt c = (r, c') \<Longrightarrow>
      \<not> r \<and> good (rew c') \<and> pos (rew c') = 0 \<and> fixed (rew c') = fixed c"
    and fixed_extent: "fixed c = fixed c' \<Longrightarrow> extent c = extent c'"
begin

definition total :: "'c list \<Rightarrow> nat" where
  "total cs = prod_list (map extent cs)"

primrec index :: "'c list \<Rightarrow> nat" where
  "index [] = 0"
| "index (c # cs) = pos c + extent c * index cs"

lemma total_simps [simp]: "total [] = 1" "total (c # cs) = extent c * total cs"
  by (simp_all add: total_def)

lemma index_bound: "\<forall>c\<in>set cs. good c \<Longrightarrow> index cs < total cs"
proof (induction cs)
  case (Cons c cs)
  then have "pos c + extent c * index cs < extent c + extent c * index cs" by (simp add: pos_extent)
  also have "\<dots> = extent c * Suc (index cs)" by simp
  also have "\<dots> \<le> extent c * total cs" using Cons by (intro mult_le_mono) auto
  finally show ?case by simp
qed simp

lemma total_fixed: "map fixed cs = map fixed ds \<Longrightarrow> total cs = total ds"
proof (induction cs arbitrary: ds)
  case (Cons c cs)
  then obtain d ds' where ds: "ds = d # ds'" "fixed c = fixed d" "map fixed cs = map fixed ds'"
    by (cases ds) auto
  show ?case using Cons.IH [OF ds(3)] fixed_extent [OF ds(2)] ds(1) by simp
qed (simp add: total_def)

text \<open>One turn of the odometer: the combination number grows by one, or all wheels are back at the start.\<close>

lemma next_loop_step:
  assumes "\<forall>c\<in>set cs. good c" and "next_loop nxt rew cs = (r, cs')"
  shows "(\<forall>c\<in>set cs'. good c) \<and> map fixed cs' = map fixed cs \<and> r = (Suc (index cs) < total cs) \<and>
     (if r then index cs' = Suc (index cs) else \<forall>c\<in>set cs'. pos c = 0)"
  using assms
proof (induction cs arbitrary: r cs')
  case Nil
  then show ?case by simp
next
  case (Cons c cs)
  obtain r1 c1 where n: "nxt c = (r1, c1)" by force
  obtain r2 cs1 where l: "next_loop nxt rew cs = (r2, cs1)" by force
  have good: "good c" "\<forall>c\<in>set cs. good c" using Cons.prems by auto
  note IH = Cons.IH [OF good(2) l]
  have ib: "index cs < total cs" using good by (intro index_bound)
  show ?case
  proof (cases "Suc (pos c) < extent c")
    case True
    note m = nxt_moves [OF good(1) True n]
    have "extent c1 = extent c" using m by (intro fixed_extent) simp
    moreover have "Suc (index (c # cs)) < total (c # cs)"
    proof -
      have "Suc (pos c + extent c * index cs) < extent c + extent c * index cs" using True by simp
      also have "\<dots> = extent c * Suc (index cs)" by simp
      also have "\<dots> \<le> extent c * total cs" using ib by (intro mult_le_mono) auto
      finally show ?thesis by simp
    qed
    ultimately show ?thesis using m n Cons.prems(2) good by auto
  next
    case False
    note e = nxt_ends [OF good(1) False n]
    have ext: "extent (rew c1) = extent c" using e by (intro fixed_extent) simp
    have last: "Suc (pos c) = extent c" using False pos_extent [OF good(1)] by simp
    then have idx: "Suc (index (c # cs)) = extent c * Suc (index cs)" by simp
    have "r2 = (Suc (index (c # cs)) < total (c # cs))"
      using IH idx last by (metis mult_less_cancel1 total_simps(2) zero_less_Suc)
    then show ?thesis using IH e n l Cons.prems(2) ext idx last by auto
  qed
qed

text \<open>The positions are determined by the combination number.\<close>

lemma index_inj:
  assumes "map fixed cs = map fixed ds" "\<forall>c\<in>set cs. good c" "\<forall>c\<in>set ds. good c" "index cs = index ds"
  shows "map pos cs = map pos ds"
  using assms
proof (induction cs arbitrary: ds)
  case (Cons c cs)
  then obtain d ds' where ds: "ds = d # ds'" by (cases ds) auto
  have e: "extent d = extent c" using Cons.prems(1) ds by (intro fixed_extent) simp
  have p: "pos c < extent c" "pos d < extent c" using Cons.prems pos_extent [of c] pos_extent [of d] ds e by auto
  have i: "pos c + extent c * index cs = pos d + extent c * index ds'" using Cons.prems(4) ds e by simp
  have "pos c = pos d" using arg_cong [OF i, of "\<lambda>n. n mod extent c"] p by simp
  moreover have "index cs = index ds'" using i calculation p by auto
  ultimately show ?case using Cons ds by auto
qed simp

end

section \<open>Attributes are cursors\<close>

definition good_att :: "att_t \<Rightarrow> bool" where
  "good_att a \<longleftrightarrow> (\<exists>j. current a = Some j \<and> j < length (alternatives a))"

definition at_pos :: "att_t \<Rightarrow> nat" where
  "at_pos a = (case current a of None \<Rightarrow> 0 | Some j \<Rightarrow> j)"

abbreviation att_fixed :: "att_t \<Rightarrow> att_t" where
  "att_fixed a \<equiv> a\<lparr>current := None\<rparr>"

lemma att_fixed_eq: "att_fixed a = att_fixed b \<longleftrightarrow> at_name a = at_name b \<and> alternatives a = alternatives b \<and> origin a = origin b"
  by (cases a; cases b) auto

interpretation att: cursor att_next att_rewind at_pos "\<lambda>a. length (alternatives a)" good_att att_fixed
proof (unfold_locales, goal_cases)
  case (1 c)
  then show ?case by (auto simp: good_att_def at_pos_def)
next
  case (2 c r c')
  then show ?case by (auto simp: good_att_def at_pos_def att_next_def next_node_def Let_def)
next
  case (3 c r c')
  then show ?case
    by (auto simp: good_att_def at_pos_def att_next_def next_node_def Let_def att_rewind_def head_node_def)
next
  case (4 c c')
  then show ?case by (simp add: att_fixed_eq)
qed

section \<open>Memory of values\<close>

definition stamps :: "value_t \<Rightarrow> nat list" where
  "stamps v = (case v_result v of None \<Rightarrow> [] | Some p \<Rightarrow> [fst p])"

definition stamps_of :: "value_t list \<Rightarrow> nat list" where
  "stamps_of vs = concat (map stamps vs)"

lemma stamps_of_simps [simp]:
  "stamps_of [] = []" "stamps_of (v # vs) = stamps v @ stamps_of vs"
  "stamps_of (vs @ us) = stamps_of vs @ stamps_of us"
  by (simp_all add: stamps_of_def)

text \<open>A value without the addresses of its strings.\<close>

primrec erase :: "value_t \<Rightarrow> value_t" where
  "erase (VALUE_STRING p) = VALUE_STRING (0, snd p)"
| "erase (VALUE_LUA src r) = VALUE_LUA src (map_option (\<lambda>p. (0, snd p)) r)"
| "erase (VALUE_INT i r) = VALUE_INT i (map_option (\<lambda>p. (0, snd p)) r)"

lemma strdup_opt_ok:
  assumes "owns w ((case r of None \<Rightarrow> [] | Some p \<Rightarrow> [fst p]) @ ns)"
  obtains r' w' where "strdup_opt w r = Inr (r', w')" "map_option snd r' = map_option snd r"
    "owns w' ((case r' of None \<Rightarrow> [] | Some p \<Rightarrow> [fst p]) @ (case r of None \<Rightarrow> [] | Some p \<Rightarrow> [fst p]) @ ns)"
    "w_lua w' = w_lua w" "w_metas w' = w_metas w" "w_top w' = w_top w"
proof (cases r)
  case None
  then show thesis using that [of None w] assms by (simp add: strdup_opt_def)
next
  case (Some p)
  then show thesis
    using that [of "Some (w_stamp w, snd p)" "w\<lparr>w_stamp := Suc (w_stamp w)\<rparr>"] assms owns_fresh [OF assms]
      owns_live [OF assms, of "fst p"]
    by (simp add: strdup_opt_def deref_w_def strdup_w_def)
qed

lemma erase_iff:
  "erase (VALUE_LUA src r') = erase (VALUE_LUA src r) \<longleftrightarrow> map_option snd r' = map_option snd r"
  "erase (VALUE_INT i r') = erase (VALUE_INT i r) \<longleftrightarrow> map_option snd r' = map_option snd r"
  by (cases r; cases r'; simp)+

lemma value_clone_ok:
  assumes "owns w (stamps v @ ns)"
  shows "rok (value_clone w v) (\<lambda>(v', w'). erase v' = erase v \<and> owns w' (stamps v' @ stamps v @ ns) \<and>
     w_lua w' = w_lua w \<and> w_metas w' = w_metas w \<and> w_top w' = w_top w)"
proof (cases v)
  case (VALUE_STRING p)
  then show ?thesis using assms owns_fresh [OF assms] owns_live [OF assms, of "fst p"]
    by (simp add: value_clone_string_def value_new_string_def strdup_w_def deref_w_def stamps_def)
next
  case (VALUE_LUA src r)
  obtain r' w' where "strdup_opt w r = Inr (r', w')" "map_option snd r' = map_option snd r"
    "owns w' ((case r' of None \<Rightarrow> [] | Some p \<Rightarrow> [fst p]) @ (case r of None \<Rightarrow> [] | Some p \<Rightarrow> [fst p]) @ ns)"
    "w_lua w' = w_lua w" "w_metas w' = w_metas w" "w_top w' = w_top w"
    by (rule strdup_opt_ok [of w r ns]) (use assms VALUE_LUA in \<open>auto simp: stamps_def\<close>)
  then show ?thesis using VALUE_LUA by (simp add: value_clone_lua_def stamps_def erase_iff del: erase.simps)
next
  case (VALUE_INT i r)
  obtain r' w' where "strdup_opt w r = Inr (r', w')" "map_option snd r' = map_option snd r"
    "owns w' ((case r' of None \<Rightarrow> [] | Some p \<Rightarrow> [fst p]) @ (case r of None \<Rightarrow> [] | Some p \<Rightarrow> [fst p]) @ ns)"
    "w_lua w' = w_lua w" "w_metas w' = w_metas w" "w_top w' = w_top w"
    by (rule strdup_opt_ok [of w r ns]) (use assms VALUE_INT in \<open>auto simp: stamps_def\<close>)
  then show ?thesis using VALUE_INT by (simp add: value_clone_int_def stamps_def erase_iff del: erase.simps)
qed

lemma clone_values_ok:
  assumes "owns w (stamps_of vs @ ns)"
  shows "rok (clone_values w vs) (\<lambda>(vs', w'). map erase vs' = map erase vs \<and>
     owns w' (stamps_of vs' @ stamps_of vs @ ns) \<and>
     w_lua w' = w_lua w \<and> w_metas w' = w_metas w \<and> w_top w' = w_top w)"
  using assms
proof (induction vs arbitrary: w ns)
  case Nil
  then show ?case by simp
next
  case (Cons v vs)
  have "owns w (stamps v @ stamps_of vs @ ns)" using Cons.prems by simp
  from value_clone_ok [OF this] show ?case unfolding clone_values.simps rok_rbind
  proof (rule rok_mono, clarify, goal_cases)
    case (1 v1 w1)
    then have "owns w1 (stamps_of vs @ (stamps v1 @ stamps v @ ns))"
      by (elim owns_perm) simp
    from Cons.IH [OF this] show ?case unfolding rok_rbind
    proof (rule rok_mono, clarify, goal_cases)
      case (1 vs2 w2)
      then have "owns w2 ((stamps v1 @ stamps_of vs2) @ (stamps v @ stamps_of vs) @ ns)"
        by (elim owns_perm) simp
      with 1 \<open>erase v1 = erase v\<close> \<open>w_lua w1 = w_lua w\<close> \<open>w_metas w1 = w_metas w\<close> \<open>w_top w1 = w_top w\<close>
      show ?case by simp
    qed
  qed
qed

lemma free_values_ok:
  assumes "owns w (stamps_of vs @ ns)"
  shows "rok (free_values w vs) (\<lambda>w'. owns w' ns \<and> w_freed w' = rev (stamps_of vs) @ w_freed w \<and> w_stamp w' = w_stamp w \<and>
     w_lua w' = w_lua w \<and> w_metas w' = w_metas w \<and> w_top w' = w_top w)"
  using assms
proof (induction vs arbitrary: w)
  case Nil
  then show ?case by simp
next
  case (Cons v vs)
  show ?case
  proof (cases "v_result v")
    case None
    then show ?thesis using Cons by (simp add: value_free_def stamps_def free_w_def)
  next
    case (Some p)
    let ?w = "w\<lparr>w_freed := fst p # w_freed w\<rparr>"
    have "owns w (fst p # stamps_of vs @ ns)" using Cons.prems Some by (simp add: stamps_def)
    from owns_free [OF this, of "snd p"] have "free_w w (Some p) = Inr ?w" "owns ?w (stamps_of vs @ ns)" by auto
    with Cons.IH [of ?w] show ?thesis using Some by (simp add: value_free_def stamps_def)
  qed
qed

section \<open>Cloning an attribute\<close>

lemma clone_cursor_from:
  assumes "length xs = length ys" "i \<le> j" "j < length xs"
  shows "clone_cursor xs (Some j) ys (Some i) (Some i) = Inr (Some j, Some j)"
  using assms
proof (induction "j - i" arbitrary: i)
  case 0
  then show ?case by (simp add: clone_cursor.simps)
next
  case (Suc k)
  then show ?case using Suc.hyps(1) [of "Suc i"]
    by (simp add: clone_cursor.simps [of xs "Some j" ys "Some i"] next_node_def)
qed

lemma clone_cursor_end:
  assumes "length xs = length ys" "i < length xs"
  shows "clone_cursor xs None ys (Some i) (Some i) = Inr (None, None)"
  using assms
proof (induction "length xs - i" arbitrary: i)
  case 0
  then show ?case by simp
next
  case (Suc k)
  then show ?case using Suc.hyps(1) [of "Suc i"]
    by (cases "Suc i < length xs")
      (simp_all add: clone_cursor.simps [of xs None ys "Some i"] clone_cursor.simps [of xs None ys None] next_node_def)
qed

lemma clone_cursor_ok:
  assumes "length xs = length ys" "case cur of None \<Rightarrow> True | Some j \<Rightarrow> j < length xs"
  shows "clone_cursor xs cur ys (head_node xs) (head_node ys) = Inr (cur, cur)"
  using assms clone_cursor_from [of xs ys 0] clone_cursor_end [of xs ys 0]
  by (cases cur; cases xs) (auto simp: head_node_def clone_cursor.simps [of "[]"])

definition att_erase :: "att_t \<Rightarrow> att_t" where
  "att_erase a = a\<lparr>alternatives := map erase (alternatives a)\<rparr>"

lemma att_clone_ok:
  assumes "owns w (stamps_of (alternatives a) @ ns)" "case current a of None \<Rightarrow> True | Some j \<Rightarrow> j < length (alternatives a)"
  shows "rok (att_clone w a) (\<lambda>(a', w'). att_erase a' = att_erase a \<and>
     owns w' (stamps_of (alternatives a') @ stamps_of (alternatives a) @ ns) \<and>
     w_lua w' = w_lua w \<and> w_metas w' = w_metas w \<and> w_top w' = w_top w)"
  unfolding att_clone_def rok_rbind
proof (rule rok_mono [OF clone_values_ok [OF assms(1)]], clarify, goal_cases)
  case (1 vs w')
  have "length (alternatives a) = length vs" using map_eq_imp_length_eq [OF 1(1)] by simp
  from clone_cursor_ok [OF this assms(2)] 1 show ?case by (simp add: rok_rbind att_erase_def)
qed

end
