(* ===== verification/Pathcomp.thy ===== *)
theory Pathcomp
  imports Att Cf
begin

text \<open>
  The composer, \<open>src/pathcomp.c\<close>: construction from the configuration, evaluation, iteration over
  the combinations of alternatives, and the operations that meet the file system.

  The static variable \<open>config\<close> is passed to the functions that use it. The recursion through
  \<open>copy-from\<close> has fuel, and so has the nesting of Lua evaluations; for the first one running out is the
  value \<open>None\<close>, for the second one it is the error that the interpreter reports when C calls are
  nested too deeply. Calls to the operating system are parameters.
\<close>

section \<open>Data\<close>

record pathcomp_t =
  pc_name :: string
  pc_attributes :: "att_t list"
  pc_metatable :: string
  pc_done :: bool
  pc_started :: bool

datatype pathcomp_action_t =
    PATHCOMP_ACTION_ADD | PATHCOMP_ACTION_REPLACE | PATHCOMP_ACTION_ADD_IF | PATHCOMP_ACTION_NONE

definition PATHCOMP_ORIGIN_RUNTIME :: "string option" where "PATHCOMP_ORIGIN_RUNTIME = None"
definition PATHCOMP_ATT_ROOT :: string where "PATHCOMP_ATT_ROOT = ''root''"
definition PATHCOMP_ATT_COMPOSE :: string where "PATHCOMP_ATT_COMPOSE = ''compose''"
definition PATHCOMP_ATT_COPY :: string where "PATHCOMP_ATT_COPY = ''copy-from''"

section \<open>Configuration\<close>

definition pathcomp_add_config_from_string :: "cf_t option \<Rightarrow> string \<Rightarrow> cf_t option res" where
  "pathcomp_add_config_from_string config str =
     (let config1 = (case config of None \<Rightarrow> cf_new | Some cf \<Rightarrow> cf) in
      rbind (cf_add_from_string (Some config1) str) (\<lambda>(rc, cf). Inr (Some cf)))"

definition pathcomp_add_config_from_file ::
    "(int \<Rightarrow> string) \<Rightarrow> cf_t option \<Rightarrow> string \<Rightarrow> file_c \<Rightarrow> 'g world \<Rightarrow> (cf_t option \<times> 'g world) res" where
  "pathcomp_add_config_from_file strerror config filename file w =
     (let config1 = (case config of None \<Rightarrow> cf_new | Some cf \<Rightarrow> cf) in
      rbind (cf_add_from_file strerror (Some config1) filename file (w_stderr w)) (\<lambda>(rc, cf, err).
      Inr (Some cf, w\<lparr>w_stderr := err\<rparr>)))"

definition pathcomp_cleanup :: "cf_t option \<Rightarrow> 'g world \<Rightarrow> (cf_t option \<times> 'g world) res" where
  "pathcomp_cleanup config w = rbind (interpreter_cleanup w) (\<lambda>w1. Inr (None, w1))"

section \<open>Attributes from the configuration\<close>

definition find_section_with_name :: "cf_section_t \<Rightarrow> string \<Rightarrow> bool" where
  "find_section_with_name sec name \<longleftrightarrow> sec_name sec = name"

text \<open>The first attribute with the name, by its index.\<close>

fun find_att :: "att_t list \<Rightarrow> string \<Rightarrow> nat option" where
  "find_att [] name = None"
| "find_att (a # as) name = (if att_name_equal_to a name then Some 0 else map_option Suc (find_att as name))"

definition pathcomp_retrieve_att :: "pathcomp_t \<Rightarrow> string \<Rightarrow> nat option" where
  "pathcomp_retrieve_att composer name = find_att (pc_attributes composer) name"

definition get_att :: "nat \<Rightarrow> pathcomp_t \<Rightarrow> att_t" where
  "get_att i composer = pc_attributes composer ! i"

definition put_att :: "nat \<Rightarrow> att_t \<Rightarrow> pathcomp_t \<Rightarrow> pathcomp_t" where
  "put_att i a composer = composer\<lparr>pc_attributes := (pc_attributes composer)[i := a]\<rparr>"

definition pathcomp_add_or_replace ::
    "'g world \<Rightarrow> pathcomp_t \<Rightarrow> string \<Rightarrow> value_t \<Rightarrow> string option \<Rightarrow> pathcomp_action_t \<Rightarrow> (pathcomp_t \<times> 'g world) res" where
  "pathcomp_add_or_replace w composer name val orig action =
     (case pathcomp_retrieve_att composer name of
        None \<Rightarrow> Inr (composer\<lparr>pc_attributes := pc_attributes composer @ [att_new name val orig]\<rparr>, w)
      | Some i \<Rightarrow>
          let att = get_att i composer;
            action1 =
              (if action = PATHCOMP_ACTION_ADD_IF then
                 let old_origin = att_get_origin att;
                   old_inherited = (case old_origin of None \<Rightarrow> False | Some s \<Rightarrow> s \<noteq> pc_name composer);
                   new_inherited = (case orig of None \<Rightarrow> False | Some s \<Rightarrow> s \<noteq> pc_name composer) in
                 if new_inherited \<and> \<not> old_inherited then PATHCOMP_ACTION_NONE
                 else if \<not> new_inherited \<and> old_inherited then PATHCOMP_ACTION_REPLACE
                 else PATHCOMP_ACTION_ADD
               else action) in
          case action1 of
            PATHCOMP_ACTION_REPLACE \<Rightarrow>
              rbind (att_replace_value w att val orig) (\<lambda>(att1, w1). Inr (put_att i att1 composer, w1))
          | PATHCOMP_ACTION_ADD \<Rightarrow> Inr (put_att i (att_add_value att val) composer, w)
          | PATHCOMP_ACTION_NONE \<Rightarrow> rbind (value_free w val) (\<lambda>w1. Inr (composer, w1))
          | PATHCOMP_ACTION_ADD_IF \<Rightarrow> Inl Assert_Fail)"

text \<open>Sequencing of runs that may also fail to end.\<close>

definition obind :: "'a res option \<Rightarrow> ('a \<Rightarrow> 'b res option) \<Rightarrow> 'b res option" where
  "obind m f = (case m of None \<Rightarrow> None | Some (Inl e) \<Rightarrow> Some (Inl e) | Some (Inr x) \<Rightarrow> f x)"

type_synonym 'g build = "pathcomp_t \<Rightarrow> 'g world \<Rightarrow> (pathcomp_t \<times> 'g world) res option"

text \<open>\<open>sections\<close> is the recursive call for the section that is copied from.\<close>

primrec pathcomp_add_atts_from_entries ::
    "(string \<Rightarrow> 'g build) \<Rightarrow> string \<Rightarrow> cf_kv_t list \<Rightarrow> 'g build" where
  "pathcomp_add_atts_from_entries sections section_name [] composer w = Some (Inr (composer, w))"
| "pathcomp_add_atts_from_entries sections section_name (kv # entries) composer w =
     obind (Some (value_new_auto w (kv_value kv))) (\<lambda>(val, w1).
     obind (Some (pathcomp_add_or_replace w1 composer (kv_key kv) val (Some section_name) PATHCOMP_ACTION_ADD_IF))
       (\<lambda>(composer1, w2).
     obind (if kv_key kv = PATHCOMP_ATT_COPY then sections (kv_value kv) composer1 w2
            else Some (Inr (composer1, w2))) (\<lambda>(composer2, w3).
     pathcomp_add_atts_from_entries sections section_name entries composer2 w3)))"

primrec sections_loop :: "(string \<Rightarrow> cf_kv_t list \<Rightarrow> 'g build) \<Rightarrow> string \<Rightarrow> cf_section_t list \<Rightarrow> 'g build" where
  "sections_loop entries section_name [] composer w = Some (Inr (composer, w))"
| "sections_loop entries section_name (sec # secs) composer w =
     (if find_section_with_name sec section_name
      then obind (entries (sec_name sec) (sec_entries sec) composer w) (\<lambda>(composer1, w1).
           sections_loop entries section_name secs composer1 w1)
      else sections_loop entries section_name secs composer w)"

primrec pathcomp_add_atts_from_sections :: "nat \<Rightarrow> cf_t option \<Rightarrow> string \<Rightarrow> 'g build" where
  "pathcomp_add_atts_from_sections 0 config section_name = (\<lambda>composer w. None)"
| "pathcomp_add_atts_from_sections (Suc n) config section_name = (\<lambda>composer w.
     case config of
       None \<Rightarrow> Some (Inr (composer, w))
     | Some cf \<Rightarrow>
         sections_loop (pathcomp_add_atts_from_entries (pathcomp_add_atts_from_sections n config))
           section_name (cf_sections cf) composer w)"

definition pathcomp_make_from_config :: "nat \<Rightarrow> cf_t option \<Rightarrow> 'g build" where
  "pathcomp_make_from_config fuel config composer w =
     pathcomp_add_atts_from_sections fuel config (pc_name composer) composer w"

section \<open>Evaluation\<close>

definition push_value_with ::
    "'g lua_api \<Rightarrow> (pathcomp_t, 'g) callback \<Rightarrow> bool \<Rightarrow> string \<Rightarrow> pathcomp_t \<Rightarrow> 'g world \<Rightarrow> (lua_value \<times> pathcomp_t \<times> 'g world) res" where
  "push_value_with L cb deep name composer w =
     (case pathcomp_retrieve_att composer name of
        None \<Rightarrow> Inr (Lua_Nil, composer, w)
      | Some i \<Rightarrow> att_push L cb deep (get_att i) (put_att i) (Some (pc_metatable composer)) composer w)"

definition pathcomp_eval_callback ::
    "(string \<Rightarrow> pathcomp_t \<Rightarrow> 'g world \<Rightarrow> (lua_value \<times> pathcomp_t \<times> 'g world) res) \<Rightarrow> (pathcomp_t, 'g) callback" where
  "pathcomp_eval_callback push k composer w =
     rbind (assert_c (k \<noteq> None)) (\<lambda>_. push (the k) composer w)"

text \<open>The number bounds how deeply evaluations may be nested; at 0 a call of Lua code is refused.\<close>

primrec pathcomp_push_value ::
    "'g lua_api \<Rightarrow> nat \<Rightarrow> string \<Rightarrow> pathcomp_t \<Rightarrow> 'g world \<Rightarrow> (lua_value \<times> pathcomp_t \<times> 'g world) res" where
  "pathcomp_push_value L 0 =
     push_value_with L (pathcomp_eval_callback (\<lambda>name composer w. Inl Assert_Fail)) True"
| "pathcomp_push_value L (Suc n) = push_value_with L (pathcomp_eval_callback (pathcomp_push_value L n)) False"

definition pathcomp_eval_nocopy ::
    "'g lua_api \<Rightarrow> nat \<Rightarrow> pathcomp_t \<Rightarrow> string \<Rightarrow> 'g world \<Rightarrow> (strp option \<times> pathcomp_t \<times> 'g world) res" where
  "pathcomp_eval_nocopy L n composer name w =
     (case pathcomp_retrieve_att composer name of
        None \<Rightarrow> Inr (None, composer, w)
      | Some i \<Rightarrow>
          att_eval L (pathcomp_eval_callback (pathcomp_push_value L n)) False (get_att i) (put_att i)
            (Some (pc_metatable composer)) composer w)"

definition pathcomp_eval ::
    "'g lua_api \<Rightarrow> nat \<Rightarrow> pathcomp_t \<Rightarrow> string \<Rightarrow> 'g world \<Rightarrow> (string option \<times> pathcomp_t \<times> 'g world) res" where
  "pathcomp_eval L n composer name w =
     rbind (pathcomp_eval_nocopy L n composer name w) (\<lambda>(s, composer1, w1).
     case s of
       None \<Rightarrow> Inr (None, composer1, w1)
     | Some p \<Rightarrow> rbind (deref_w w1 p) (\<lambda>str. Inr (Some str, composer1, w1)))"

definition yield_part :: "'g world \<Rightarrow> strp option \<Rightarrow> (string \<Rightarrow> buf_t \<Rightarrow> buf_t res) \<Rightarrow> buf_t \<Rightarrow> buf_t res" where
  "yield_part w s f path =
     (case s of
        None \<Rightarrow> Inr path
      | Some p \<Rightarrow> rbind (deref_w w p) (\<lambda>str. if strlen str \<noteq> 0 then f str path else Inr path))"

definition pathcomp_yield ::
    "'g lua_api \<Rightarrow> nat \<Rightarrow> pathcomp_t \<Rightarrow> 'g world \<Rightarrow> (string option \<times> pathcomp_t \<times> 'g world) res" where
  "pathcomp_yield L n composer w =
     rbind (buf_init 0) (\<lambda>path.
     rbind (pathcomp_eval_nocopy L n composer PATHCOMP_ATT_ROOT w) (\<lambda>(root, composer1, w1).
     rbind (pathcomp_eval_nocopy L n composer1 PATHCOMP_ATT_COMPOSE w1) (\<lambda>(compose, composer2, w2).
     rbind (yield_part w2 root (\<lambda>s b. rbind (buf_addstr b s) (\<lambda>b1. buf_addch b1 (schar CHR ''/''))) path) (\<lambda>path1.
     rbind (yield_part w2 compose (\<lambda>s b. buf_addstr b s) path1) (\<lambda>path2.
     if bf_len path2 \<noteq> 0
     then rbind (buf_detach path2) (\<lambda>(blk, len, _). rbind (strdup_block blk) (\<lambda>str. Inr (Some str, composer2, w2)))
     else rbind (buf_release path2) (\<lambda>_. Inr (None, composer2, w2)))))))"

section \<open>Objects\<close>

definition pathcomp_new ::
    "'g lua_api \<Rightarrow> nat \<Rightarrow> cf_t option \<Rightarrow> string \<Rightarrow> 'g world \<Rightarrow> (pathcomp_t \<times> 'g world) res option" where
  "pathcomp_new L fuel config name w =
     (let w1 = interpreter_get_state L w;
        composer = \<lparr>pc_name = name, pc_attributes = [], pc_metatable = [], pc_done = False, pc_started = False\<rparr> in
      obind (pathcomp_make_from_config fuel config composer w1) (\<lambda>(composer1, w2). Some (
      rbind (buf_init 0) (\<lambda>b.
      rbind (buf_addstr b ''libpathcomp::'') (\<lambda>b1.
      rbind (buf_addstr b1 name) (\<lambda>b2.
      rbind (buf_detach b2) (\<lambda>(blk, len, _).
      rbind (strdup_block blk) (\<lambda>metatable.
      Inr (composer1\<lparr>pc_metatable := metatable, pc_done := False, pc_started := False\<rparr>,
        w2\<lparr>w_metas := List.insert metatable (w_metas w2)\<rparr>)))))))))"

primrec clone_atts :: "'g world \<Rightarrow> att_t list \<Rightarrow> (att_t list \<times> 'g world) res" where
  "clone_atts w [] = Inr ([], w)"
| "clone_atts w (a # as) =
     rbind (att_clone w a) (\<lambda>(a1, w1). rbind (clone_atts w1 as) (\<lambda>(as1, w2). Inr (a1 # as1, w2)))"

definition pathcomp_clone :: "'g world \<Rightarrow> pathcomp_t \<Rightarrow> (pathcomp_t \<times> 'g world) res" where
  "pathcomp_clone w composer =
     rbind (clone_atts w (pc_attributes composer)) (\<lambda>(as, w1).
     Inr (\<lparr>pc_name = pc_name composer, pc_attributes = as, pc_metatable = pc_metatable composer,
       pc_done = pc_done composer, pc_started = pc_started composer\<rparr>, w1))"

primrec free_atts :: "'g world \<Rightarrow> att_t list \<Rightarrow> 'g world res" where
  "free_atts w [] = Inr w"
| "free_atts w (a # as) = rbind (att_free w (Some a)) (\<lambda>w1. free_atts w1 as)"

definition pathcomp_free :: "'g world \<Rightarrow> pathcomp_t option \<Rightarrow> 'g world res" where
  "pathcomp_free w composer = (case composer of None \<Rightarrow> Inr w | Some c \<Rightarrow> free_atts w (pc_attributes c))"

section \<open>Setting attributes\<close>

definition pathcomp_set :: "'g world \<Rightarrow> pathcomp_t \<Rightarrow> string \<Rightarrow> string \<Rightarrow> (pathcomp_t \<times> 'g world) res" where
  "pathcomp_set w composer name val =
     rbind (value_new_auto w val) (\<lambda>(v, w1).
     pathcomp_add_or_replace w1 composer name v PATHCOMP_ORIGIN_RUNTIME PATHCOMP_ACTION_REPLACE)"

definition pathcomp_set_int :: "'g world \<Rightarrow> pathcomp_t \<Rightarrow> string \<Rightarrow> c_int \<Rightarrow> (pathcomp_t \<times> 'g world) res" where
  "pathcomp_set_int w composer name i =
     pathcomp_add_or_replace w composer name (value_new_int i) PATHCOMP_ORIGIN_RUNTIME PATHCOMP_ACTION_REPLACE"

definition pathcomp_add :: "'g world \<Rightarrow> pathcomp_t \<Rightarrow> string \<Rightarrow> string \<Rightarrow> (pathcomp_t \<times> 'g world) res" where
  "pathcomp_add w composer name val =
     rbind (value_new_auto w val) (\<lambda>(v, w1).
     pathcomp_add_or_replace w1 composer name v PATHCOMP_ORIGIN_RUNTIME PATHCOMP_ACTION_ADD)"

definition pathcomp_add_int :: "'g world \<Rightarrow> pathcomp_t \<Rightarrow> string \<Rightarrow> c_int \<Rightarrow> (pathcomp_t \<times> 'g world) res" where
  "pathcomp_add_int w composer name i =
     pathcomp_add_or_replace w composer name (value_new_int i) PATHCOMP_ORIGIN_RUNTIME PATHCOMP_ACTION_ADD"

section \<open>Iteration\<close>

definition pathcomp_rewind :: "pathcomp_t \<Rightarrow> pathcomp_t" where
  "pathcomp_rewind composer =
     composer\<lparr>pc_attributes := map att_rewind (pc_attributes composer), pc_done := False, pc_started := False\<rparr>"

definition pathcomp_done :: "pathcomp_t \<Rightarrow> bool" where
  "pathcomp_done composer = pc_done composer"

definition pathcomp_next :: "pathcomp_t \<Rightarrow> bool \<times> pathcomp_t" where
  "pathcomp_next composer =
     (if pc_done composer then (False, composer)
      else case next_loop att_next att_rewind (pc_attributes composer) of (r, as) \<Rightarrow>
        if r then (True, composer\<lparr>pc_attributes := as\<rparr>)
        else (False, composer\<lparr>pc_attributes := as, pc_done := True\<rparr>))"

section \<open>Files\<close>

text \<open>\<open>path_exists\<close> is whether \<open>stat\<close> succeeds.\<close>

partial_function (option) pathcomp_find ::
    "'g lua_api \<Rightarrow> nat \<Rightarrow> (string \<Rightarrow> bool) \<Rightarrow> pathcomp_t \<Rightarrow> 'g world \<Rightarrow> (string option \<times> pathcomp_t \<times> 'g world) res option" where
  "pathcomp_find L n path_exists composer w =
     (let composer1 = (if pc_started composer then snd (pathcomp_next composer) else composer);
        composer2 = composer1\<lparr>pc_started := True\<rparr> in
      if pathcomp_done composer2 then Some (Inr (None, composer2, w))
      else case pathcomp_yield L n composer2 w of
        Inl e \<Rightarrow> Some (Inl e)
      | Inr (path, composer3, w1) \<Rightarrow>
          if path \<noteq> None \<and> path_exists (the path) then Some (Inr (path, composer3, w1))
          else pathcomp_find L n path_exists composer3 w1)"

definition EEXIST :: int where "EEXIST = 17"

text \<open>
  The loop of \<open>pathcomp_mkdir\<close>. The pointer \<open>p\<close> cuts the path into \<open>before\<close> and
  \<open>after\<close>; \<open>mkdir\<close> returns an error number or nothing.
\<close>

function mkdir_loop ::
    "('fs \<Rightarrow> string \<Rightarrow> int option \<times> 'fs) \<Rightarrow> (int \<Rightarrow> string) \<Rightarrow> string \<Rightarrow> string \<Rightarrow> 'fs \<Rightarrow> 'g world \<Rightarrow> int \<times> 'fs \<times> 'g world" where
  "mkdir_loop mkdir strerror before after fs w =
     (let slashes = takeWhile (\<lambda>c. c = CHR ''/'') after;
        name = takeWhile (\<lambda>c. c \<noteq> CHR ''/'') (drop (length slashes) after);
        dir = before @ slashes @ name in
      case drop (length slashes + length name) after of
        [] \<Rightarrow> (0, fs, w)
      | c # after1 \<Rightarrow>
          (case mkdir fs dir of (err, fs1) \<Rightarrow>
             if err \<noteq> None \<and> the err \<noteq> EEXIST
             then (- 1, fs1, log_error_w w (''mkdir '' @ [CHR 0x27] @ dir @ [CHR 0x27] @ '': '' @ strerror (the err)))
             else mkdir_loop mkdir strerror (dir @ ''/'') after1 fs1 w))"
  by pat_completeness auto
termination
proof (relation "measure (\<lambda>(mk, se, before, after, fs, w). length after)", goal_cases)
  case (2 mk se before after fs w sl nm dir c after1 err fs1)
  then have "length (drop (length sl + length nm) after) = Suc (length after1)" by simp
  then show ?case by simp
qed simp

declare mkdir_loop.simps [simp del]

definition pathcomp_mkdir ::
    "'g lua_api \<Rightarrow> nat \<Rightarrow> ('fs \<Rightarrow> string \<Rightarrow> int option \<times> 'fs) \<Rightarrow> (int \<Rightarrow> string) \<Rightarrow> pathcomp_t \<Rightarrow> 'fs \<Rightarrow> 'g world \<Rightarrow>
     (int \<times> 'fs \<times> pathcomp_t \<times> 'g world) res" where
  "pathcomp_mkdir L n mkdir strerror composer fs w =
     rbind (pathcomp_yield L n composer w) (\<lambda>(path, composer1, w1).
     case path of
       None \<Rightarrow> Inl Null_Deref
     | Some p \<Rightarrow> (case mkdir_loop mkdir strerror [] p fs w1 of (rc, fs1, w2) \<Rightarrow> Inr (rc, fs1, composer1, w2)))"

section \<open>Dumping\<close>

fun dump_atts :: "'g world \<Rightarrow> (nat \<Rightarrow> string) \<Rightarrow> (nat \<Rightarrow> nat \<Rightarrow> string) \<Rightarrow> nat \<Rightarrow> att_t list \<Rightarrow> buf_t \<Rightarrow> buf_t res" where
  "dump_atts w aaddr vaddr i [] b = Inr b"
| "dump_atts w aaddr vaddr i (a # as) b =
     rbind (att_dump w (aaddr i) (vaddr i) a b) (\<lambda>b1. dump_atts w aaddr vaddr (Suc i) as b1)"

definition fmt_bool :: "bool \<Rightarrow> string" where
  "fmt_bool x = fmt_d (if x then 1 else 0)"

definition pathcomp_dump ::
    "'g world \<Rightarrow> string \<Rightarrow> (nat \<Rightarrow> string) \<Rightarrow> (nat \<Rightarrow> nat \<Rightarrow> string) \<Rightarrow> pathcomp_t \<Rightarrow> string res" where
  "pathcomp_dump w addr aaddr vaddr composer =
     rbind (buf_init 0) (\<lambda>b.
     rbind (buf_addf b (''composer object at 0x'' @ addr @ [CHR 0x0A])) (\<lambda>b1.
     rbind (buf_addf b1 (''  class: '' @ pc_name composer @ [CHR 0x0A])) (\<lambda>b2.
     rbind (buf_addf b2 (''  metatable: '' @ pc_metatable composer @ [CHR 0x0A])) (\<lambda>b3.
     rbind (buf_addf b3 (''  done: '' @ fmt_bool (pc_done composer) @ [CHR 0x0A])) (\<lambda>b4.
     rbind (buf_addf b4 (''  started: '' @ fmt_bool (pc_started composer) @ [CHR 0x0A])) (\<lambda>b5.
     rbind (buf_addf b5 (''  attributes:'' @ [CHR 0x0A])) (\<lambda>b6.
     rbind (dump_atts w aaddr vaddr 0 (pc_attributes composer) b6) (\<lambda>b7.
     rbind (buf_detach b7) (\<lambda>(blk, n, _). strdup_block blk)))))))))"

section \<open>Evaluation keeps the composer and the memory in order\<close>

text \<open>The strings a composer owns, and what evaluation does not change of it.\<close>

definition comp_stamps :: "pathcomp_t \<Rightarrow> nat list" where
  "comp_stamps c = concat (map (\<lambda>a. stamps_of (alternatives a)) (pc_attributes c))"

definition att_shape :: "att_t \<Rightarrow> att_t" where
  "att_shape a = a\<lparr>alternatives := map strip (alternatives a)\<rparr>"

definition comp_shape :: "pathcomp_t \<Rightarrow> pathcomp_t" where
  "comp_shape c = c\<lparr>pc_attributes := map att_shape (pc_attributes c)\<rparr>"

definition cursor_ok :: "att_t \<Rightarrow> bool" where
  "cursor_ok a \<longleftrightarrow> (case current a of None \<Rightarrow> True | Some j \<Rightarrow> j < length (alternatives a))"

definition comp_inv :: "pathcomp_t \<Rightarrow> pathcomp_t \<Rightarrow> 'g world \<Rightarrow> bool" where
  "comp_inv sh c w \<longleftrightarrow> comp_shape c = sh \<and> owns w (comp_stamps c) \<and> (\<forall>a\<in>set (pc_attributes sh). cursor_ok a)"

definition slot_inv :: "pathcomp_t \<Rightarrow> nat \<Rightarrow> nat \<Rightarrow> pathcomp_t \<Rightarrow> 'g world \<Rightarrow> bool" where
  "slot_inv sh i j c w \<longleftrightarrow> comp_inv sh c w \<and> i < length (pc_attributes sh) \<and>
     j < length (alternatives (pc_attributes sh ! i))"

lemma mset_concat_update:
  "i < length xs \<Longrightarrow> mset (concat (map f (xs[i := x]))) + mset (f (xs ! i)) = mset (concat (map f xs)) + mset (f x)"
proof (induction xs arbitrary: i)
  case (Cons y ys)
  show ?case
  proof (cases i)
    case (Suc k)
    with Cons have "mset (concat (map f (ys[k := x]))) + mset (f (ys ! k)) = mset (concat (map f ys)) + mset (f x)"
      by simp
    then show ?thesis using Suc by (simp add: ac_simps)
  qed simp
qed simp

lemma shape_lengths:
  assumes "comp_shape c = sh"
  shows "length (pc_attributes sh) = length (pc_attributes c)"
    "i < length (pc_attributes c) \<Longrightarrow> pc_attributes sh ! i = att_shape (pc_attributes c ! i)"
  using assms by (auto simp: comp_shape_def)

lemma slot_bounds:
  assumes "slot_inv sh i j c w"
  shows "i < length (pc_attributes c)" "j < length (alternatives (pc_attributes c ! i))"
    "strip (alt_get (get_att i) j c) = alternatives (pc_attributes sh ! i) ! j"
proof -
  have sh: "comp_shape c = sh" using assms by (simp add: slot_inv_def comp_inv_def)
  show i: "i < length (pc_attributes c)" using assms shape_lengths(1) [OF sh] by (simp add: slot_inv_def)
  show "j < length (alternatives (pc_attributes c ! i))"
    "strip (alt_get (get_att i) j c) = alternatives (pc_attributes sh ! i) ! j"
    using assms shape_lengths(2) [OF sh i] by (auto simp: slot_inv_def att_shape_def alt_get_def get_att_def)
qed

lemma slot_get_put:
  assumes "slot_inv sh i j c w"
  shows "alt_get (get_att i) j (alt_put (get_att i) (put_att i) j v c) = v"
  using slot_bounds [OF assms] by (simp add: alt_get_def alt_put_def get_att_def put_att_def)

lemma slot_put_stamps:
  assumes "slot_inv sh i j c w"
  shows "mset (comp_stamps (alt_put (get_att i) (put_att i) j v c)) + mset (stamps (alt_get (get_att i) j c)) =
     mset (comp_stamps c) + mset (stamps v)"
proof -
  let ?a = "pc_attributes c ! i" and ?f = "\<lambda>a. stamps_of (alternatives a)"
  let ?a' = "?a\<lparr>alternatives := (alternatives ?a)[j := v]\<rparr>"
  note b = slot_bounds [OF assms]
  have inner: "mset (?f ?a') + mset (stamps (alternatives ?a ! j)) = mset (?f ?a) + mset (stamps v)"
    using mset_concat_update [OF b(2), of stamps v] by (simp add: stamps_of_def)
  have "mset (concat (map ?f ((pc_attributes c)[i := ?a']))) + mset (?f ?a) =
      mset (concat (map ?f (pc_attributes c))) + mset (?f ?a')"
    using mset_concat_update [OF b(1), of ?f ?a'] by simp
  then have "mset (concat (map ?f ((pc_attributes c)[i := ?a']))) + mset (stamps (alternatives ?a ! j)) + mset (?f ?a) =
      mset (concat (map ?f (pc_attributes c))) + (mset (?f ?a') + mset (stamps (alternatives ?a ! j)))"
    by (simp add: ac_simps)
  then show ?thesis unfolding inner
    by (simp add: comp_stamps_def alt_put_def alt_get_def put_att_def get_att_def ac_simps)
qed

lemma slot_put_shape:
  assumes "slot_inv sh i j c w" and "strip v = strip (alt_get (get_att i) j c)"
  shows "comp_shape (alt_put (get_att i) (put_att i) j v c) = sh"
proof -
  let ?a = "pc_attributes c ! i"
  note b = slot_bounds [OF assms(1)]
  have "(map strip (alternatives ?a))[j := strip v] = map strip (alternatives ?a)"
    using b assms(2) by (simp add: alt_get_def get_att_def list_update_same_conv)
  then have "att_shape (?a\<lparr>alternatives := (alternatives ?a)[j := v]\<rparr>) = att_shape ?a"
    by (simp add: att_shape_def map_update)
  then have "map att_shape ((pc_attributes c)[i := ?a\<lparr>alternatives := (alternatives ?a)[j := v]\<rparr>]) = map att_shape (pc_attributes c)"
    using b(1) by (simp add: map_update list_update_same_conv)
  moreover have "comp_shape c = sh" using assms(1) by (simp add: slot_inv_def comp_inv_def)
  ultimately show ?thesis by (auto simp: comp_shape_def alt_put_def put_att_def get_att_def)
qed

lemma slot_put_inv:
  assumes "slot_inv sh i j c w" and "strip v = strip (alt_get (get_att i) j c)"
    and "owns w' ns" and "mset ns + mset (stamps (alt_get (get_att i) j c)) = mset (comp_stamps c) + mset (stamps v)"
  shows "slot_inv sh i j (alt_put (get_att i) (put_att i) j v c) w'"
proof -
  have "mset ns = mset (comp_stamps (alt_put (get_att i) (put_att i) j v c))"
    using slot_put_stamps [OF assms(1), of v] assms(4) by (metis add_right_cancel)
  then have "owns w' (comp_stamps (alt_put (get_att i) (put_att i) j v c))" by (rule owns_perm [OF assms(3)])
  then show ?thesis using assms(1) slot_put_shape [OF assms(1,2)] by (simp add: slot_inv_def comp_inv_def)
qed

text \<open>Freeing the result that a slot holds leaves all other strings of the composer owned.\<close>

lemma slot_free:
  assumes "slot_inv sh i j c w" and "free_w w (v_result (alt_get (get_att i) j c)) = Inr w1"
  obtains ns where "owns w1 ns" "mset ns + mset (stamps (alt_get (get_att i) j c)) = mset (comp_stamps c)"
    "w_stamp w1 = w_stamp w"
proof (cases "v_result (alt_get (get_att i) j c)")
  case None
  then show thesis using that [of "comp_stamps c"] assms
    by (simp add: free_w_Inr stamps_def slot_inv_def comp_inv_def)
next
  case (Some p)
  let ?ns = "remove1 (fst p) (comp_stamps c)"
  have st: "stamps (alt_get (get_att i) j c) = [fst p]" using Some by (simp add: stamps_def)
  have "{#fst p#} \<subseteq># mset (comp_stamps c)"
    using slot_put_stamps [OF assms(1), of "VALUE_INT 0 None"] st
    by (metis (no_types) add.right_neutral mset.simps(1) mset_single_iff_right mset_subset_eq_add_right stamps_def v_result.simps(3) option.case(1))
  then have m: "mset ?ns + {#fst p#} = mset (comp_stamps c)" by simp
  have "owns w (fst p # ?ns)"
    using assms(1) m by (auto simp: slot_inv_def comp_inv_def elim: owns_perm)
  from owns_free [OF this, of "snd p"] show thesis
    using that [of ?ns] assms(2) m Some st by (auto simp: free_w_Inr split: prod.splits)
qed

definition push_safe ::
    "pathcomp_t \<Rightarrow> (string \<Rightarrow> pathcomp_t \<Rightarrow> 'g world \<Rightarrow> (lua_value \<times> pathcomp_t \<times> 'g world) res) \<Rightarrow> bool" where
  "push_safe sh push \<longleftrightarrow> (\<forall>name c w. comp_inv sh c w \<longrightarrow> w_lua w \<noteq> None \<longrightarrow>
     rsafe (push name c w) (\<lambda>(v, c', w'). comp_inv sh c' w' \<and> w_lua w' \<noteq> None \<and> w_metas w' = w_metas w))"

lemma slot_locale:
  assumes "push_safe sh push"
  shows "value_slot (alt_get (get_att i) j) (alt_put (get_att i) (put_att i) j)
     (pathcomp_eval_callback push) (slot_inv sh i j)"
proof (unfold_locales, goal_cases)
  case (1 s w v)
  then show ?case by (rule slot_get_put)
next
  case (2 s w)
  show ?case
  proof (cases "v_result (alt_get (get_att i) j s)")
    case (Some p)
    have "fst p \<in># mset (comp_stamps s)"
      using slot_put_stamps [OF 2, of "VALUE_INT 0 None"] Some by (simp add: stamps_def flip: set_mset_mset)
        (metis union_single_eq_member add_mset_add_single)
    then show ?thesis using 2 Some by (cases p) (auto simp: slot_inv_def comp_inv_def owns_def)
  qed simp
next
  case (3 s w s' w')
  then show ?case using slot_bounds(3) by metis
next
  case (4 s w w')
  then show ?case by (auto simp: slot_inv_def comp_inv_def elim: owns_cong)
next
  case (5 s w v w1)
  obtain ns where "owns w1 ns" "mset ns + mset (stamps (alt_get (get_att i) j s)) = mset (comp_stamps s)"
    by (rule slot_free [OF 5(1,3)])
  then show ?case using 5 by (intro slot_put_inv [OF 5(1,2)]) (auto simp: stamps_def)
next
  case (6 s w v w1 t p w2)
  obtain ns where ns: "owns w1 ns" "mset ns + mset (stamps (alt_get (get_att i) j s)) = mset (comp_stamps s)"
    by (rule slot_free [OF 6(1,3)])
  have "owns w2 (w_stamp w1 # ns)" "stamps v = [w_stamp w1]"
    using owns_fresh [OF ns(1)] 6(4,5) by (auto simp: strdup_w_def stamps_def)
  then show ?case using 6 ns by (intro slot_put_inv [OF 6(1,2), of _ "w_stamp w1 # ns"]) auto
next
  case (7 s w k)
  then show ?case using assms
    by (cases k) (auto simp: pathcomp_eval_callback_def push_safe_def slot_inv_def elim!: rsafe_mono)
qed

lemma find_att_bound: "find_att as name = Some i \<Longrightarrow> i < length as \<and> at_name (as ! i) = name"
  by (induction as arbitrary: i) (auto simp: att_name_equal_to_def split: if_splits)

lemma current_slot:
  assumes "comp_inv sh c w" "pathcomp_retrieve_att c name = Some i" "current (get_att i c) = Some j"
  shows "slot_inv sh i j c w"
proof -
  have sh: "comp_shape c = sh" using assms(1) by (simp add: comp_inv_def)
  have i: "i < length (pc_attributes c)" using assms(2) by (auto simp: pathcomp_retrieve_att_def dest: find_att_bound)
  have "cursor_ok (pc_attributes sh ! i)" using assms(1) i shape_lengths(1) [OF sh] by (simp add: comp_inv_def)
  then show ?thesis
    using assms shape_lengths [OF sh] i by (auto simp: slot_inv_def cursor_ok_def att_shape_def get_att_def)
qed

lemma push_value_with_safe:
  assumes "push_safe sh push"
  shows "push_safe sh (push_value_with L (pathcomp_eval_callback push) deep)"
  unfolding push_safe_def
proof (intro allI impI)
  fix name c and w :: "'a world"
  assume inv: "comp_inv sh c w" and lua: "w_lua w \<noteq> None"
  show "rsafe (push_value_with L (pathcomp_eval_callback push) deep name c w)
    (\<lambda>(v, c', w'). comp_inv sh c' w' \<and> w_lua w' \<noteq> None \<and> w_metas w' = w_metas w)"
  proof (cases "pathcomp_retrieve_att c name")
    case None
    then show ?thesis using inv lua by (simp add: push_value_with_def)
  next
    case (Some i)
    show ?thesis
    proof (cases "current (get_att i c)")
      case None
      then show ?thesis using Some inv lua by (simp add: push_value_with_def att_push_def)
    next
      case cur: (Some j)
      have "interpreter_get_state L w = w" using lua by (auto simp: interpreter_get_state_def)
      then show ?thesis
        using Some cur value_slot.value_push_safe [OF slot_locale [OF assms] current_slot [OF inv Some cur],
            of L deep "Some (pc_metatable c)"]
        by (auto simp: push_value_with_def att_push_def slot_inv_def elim!: rsafe_mono)
    qed
  qed
qed

lemma pathcomp_push_value_safe:
  fixes L :: "'g lua_api"
  shows "push_safe sh (pathcomp_push_value L n)"
proof (induction n)
  case 0
  have "push_safe sh (\<lambda>name c (w :: 'g world). Inl Assert_Fail)" by (simp add: push_safe_def)
  then show ?case by (simp add: push_value_with_safe)
next
  case (Suc n)
  then show ?case by (simp add: push_value_with_safe)
qed

text \<open>The place of every value of a composer is a slot in the sense of the values' interface.\<close>

interpretation comp: value_slot "alt_get (get_att i) j" "alt_put (get_att i) (put_att i) j"
    "pathcomp_eval_callback (pathcomp_push_value L n)" "slot_inv sh i j" for L n sh i j
  by (rule slot_locale [OF pathcomp_push_value_safe])

lemma pathcomp_eval_nocopy_safe:
  assumes "comp_inv sh c w"
  shows "rsafe (pathcomp_eval_nocopy L n c name w) (\<lambda>(p, c', w'). comp_inv sh c' w' \<and> live w' p \<and>
     (w_lua w \<noteq> None \<longrightarrow> w_lua w' \<noteq> None \<and> w_top w' = w_top w \<and> w_metas w' = w_metas w))"
proof (cases "pathcomp_retrieve_att c name")
  case None
  then show ?thesis using assms by (simp add: pathcomp_eval_nocopy_def)
next
  case (Some i)
  show ?thesis
  proof (cases "current (get_att i c)")
    case None
    then show ?thesis using Some assms by (simp add: pathcomp_eval_nocopy_def att_eval_def)
  next
    case cur: (Some j)
    from comp.value_eval_safe [OF current_slot [OF assms Some cur], of L L n False "Some (pc_metatable c)"]
    show ?thesis using Some cur comp.live_result [where i = i and j = j]
      by (auto simp: pathcomp_eval_nocopy_def att_eval_def slot_inv_def elim!: rsafe_mono)
  qed
qed

end
