(* ===== verification/Iterate.thy ===== *)
theory Iterate
  imports Pathcomp
begin

text \<open>
  Iteration over the combinations of alternatives: \<open>pathcomp_next\<close> as an odometer,
  \<open>pathcomp_yield\<close> and \<open>pathcomp_find\<close>. The combination numbers and the facts about them come
  from the interface of cursors in \<open>Att\<close>; what evaluation keeps of a composer comes from
  \<open>Pathcomp\<close>.
\<close>

section \<open>Combinations\<close>

definition good_comp :: "pathcomp_t \<Rightarrow> bool" where
  "good_comp c \<longleftrightarrow> (\<forall>a\<in>set (pc_attributes c). good_att a)"

text \<open>Which alternative of each attribute is selected, and how many selections there are.\<close>

definition selection :: "pathcomp_t \<Rightarrow> nat list" where
  "selection c = map at_pos (pc_attributes c)"

definition combinations :: "pathcomp_t \<Rightarrow> nat list list" where
  "combinations c = product_lists (map (\<lambda>a. [0..<length (alternatives a)]) (pc_attributes c))"

abbreviation number :: "pathcomp_t \<Rightarrow> nat" where
  "number c \<equiv> att.index (pc_attributes c)"

abbreviation ncomb :: "pathcomp_t \<Rightarrow> nat" where
  "ncomb c \<equiv> att.total (pc_attributes c)"

text \<open>Two composers that differ in the cursors and the iteration flags only.\<close>

definition same_atts :: "pathcomp_t \<Rightarrow> pathcomp_t \<Rightarrow> bool" where
  "same_atts c d \<longleftrightarrow> map att_fixed (pc_attributes c) = map att_fixed (pc_attributes d) \<and>
     pc_name c = pc_name d \<and> pc_metatable c = pc_metatable d"

lemma same_atts_refl [simp]: "same_atts c c"
  by (simp add: same_atts_def)

lemma same_atts_trans: "same_atts c d \<Longrightarrow> same_atts d e \<Longrightarrow> same_atts c e"
  by (simp add: same_atts_def)

lemma same_count: "same_atts c d \<Longrightarrow> ncomb c = ncomb d"
  by (auto simp: same_atts_def intro: att.total_fixed)

lemma number_bound: "good_comp c \<Longrightarrow> number c < ncomb c"
  by (simp add: good_comp_def att.index_bound)

lemma pathcomp_next_step:
  assumes "good_comp c" "\<not> pc_done c" "pathcomp_next c = (r, c')"
  shows "good_comp c'" "same_atts c' c" "pc_started c' = pc_started c" "r = (Suc (number c) < ncomb c)"
    "pc_done c' = (\<not> r)" "r \<Longrightarrow> number c' = Suc (number c)" "\<not> r \<Longrightarrow> \<forall>i\<in>set (selection c'). i = 0"
proof -
  obtain r1 as where l: "next_loop att_next att_rewind (pc_attributes c) = (r1, as)" by force
  have "(\<forall>a\<in>set as. good_att a) \<and> map att_fixed as = map att_fixed (pc_attributes c) \<and>
      r1 = (Suc (number c) < ncomb c) \<and> (if r1 then att.index as = Suc (number c) else \<forall>a\<in>set as. at_pos a = 0)"
    using att.next_loop_step [OF _ l] assms(1) by (simp add: good_comp_def)
  then show "good_comp c'" "same_atts c' c" "pc_started c' = pc_started c" "r = (Suc (number c) < ncomb c)"
    "pc_done c' = (\<not> r)" "r \<Longrightarrow> number c' = Suc (number c)" "\<not> r \<Longrightarrow> \<forall>i\<in>set (selection c'). i = 0"
    using assms(2,3) l
    by (auto simp: pathcomp_next_def good_comp_def same_atts_def selection_def split: if_splits)
qed

section \<open>All combinations, each one once\<close>

text \<open>The composer after \<open>k\<close> calls of \<open>pathcomp_next\<close>.\<close>

primrec after :: "nat \<Rightarrow> pathcomp_t \<Rightarrow> pathcomp_t" where
  "after 0 c = c"
| "after (Suc k) c = snd (pathcomp_next (after k c))"

definition at_start :: "pathcomp_t \<Rightarrow> bool" where
  "at_start c \<longleftrightarrow> good_comp c \<and> number c = 0 \<and> \<not> pc_done c"

lemma after_state:
  assumes "at_start c" "k < ncomb c"
  shows "good_comp (after k c) \<and> same_atts (after k c) c \<and> number (after k c) = k \<and> \<not> pc_done (after k c)"
  using assms(2)
proof (induction k)
  case 0
  then show ?case using assms(1) by (simp add: at_start_def)
next
  case (Suc k)
  obtain r c' where n: "pathcomp_next (after k c) = (r, c')" by force
  have IH: "good_comp (after k c)" "same_atts (after k c) c" "number (after k c) = k" "\<not> pc_done (after k c)"
    using Suc by auto
  note step = pathcomp_next_step [OF IH(1,4) n]
  have "r" using step(4) IH(3) same_count [OF IH(2)] Suc.prems by simp
  then show ?case using step IH n by (auto intro: same_atts_trans)
qed

lemma length_product_upt: "length (product_lists (map (\<lambda>a. [0..<f a]) as)) = prod_list (map f as)"
  by (induction as) (auto simp: length_concat o_def sum_list_triv)

lemma length_combinations: "length (combinations c) = ncomb c"
  by (simp add: combinations_def length_product_upt att.total_def)

lemma distinct_product_lists: "\<forall>xs\<in>set xss. distinct xs \<Longrightarrow> distinct (product_lists xss)"
proof (induction xss)
  case (Cons xs xss)
  have "distinct (concat (map (\<lambda>x. map ((#) x) (product_lists xss)) xs))"
    if "distinct xs" "distinct (product_lists xss)" for xs
    using that by (induction xs) (auto simp: distinct_map inj_on_def)
  with Cons show ?case by simp
qed simp

lemma selection_in_combinations:
  assumes "good_comp c" "same_atts c d"
  shows "selection c \<in> set (combinations d)"
proof -
  have "list_all2 (\<lambda>p xs. p \<in> set xs) (map at_pos as) (map (\<lambda>a. [0..<length (alternatives a)]) bs)"
    if "\<forall>a\<in>set as. good_att a" "map att_fixed as = map att_fixed bs" for as bs
    using that
  proof (induction as arbitrary: bs)
    case (Cons a as)
    then obtain b bs' where "bs = b # bs'" by (cases bs) auto
    with Cons show ?case
      using att.pos_extent [of a] by (auto simp: att_fixed_eq)
  qed simp
  with assms show ?thesis
    by (simp add: selection_def combinations_def product_lists_set good_comp_def same_atts_def)
qed

lemma index_eqI:
  "map at_pos as = map at_pos bs \<Longrightarrow> map att_fixed as = map att_fixed bs \<Longrightarrow> att.index as = att.index bs"
proof (induction as arbitrary: bs)
  case (Cons a as)
  then obtain b bs' where bs: "bs = b # bs'" by (cases bs) auto
  then have "at_pos a = at_pos b" "att_fixed a = att_fixed b" "att.index as = att.index bs'"
    using Cons.prems Cons.IH [of bs'] by simp_all
  then show ?case using bs by (simp add: att_fixed_eq)
qed simp

lemma visited_distinct:
  assumes "at_start c"
  shows "distinct (map (\<lambda>k. selection (after k c)) [0..<ncomb c])"
  unfolding distinct_map
proof (intro conjI inj_onI)
  fix x y assume xy: "x \<in> set [0..<ncomb c]" "y \<in> set [0..<ncomb c]" "selection (after x c) = selection (after y c)"
  note X = after_state [OF assms, of x] and Y = after_state [OF assms, of y]
  have "number (after x c) = number (after y c)"
    using X Y xy by (intro index_eqI) (simp_all add: selection_def same_atts_def)
  then show "x = y" using X Y xy by simp
qed simp

lemma visited_all:
  assumes "at_start c"
  shows "set (map (\<lambda>k. selection (after k c)) [0..<ncomb c]) = set (combinations c)"
proof (rule card_subset_eq)
  let ?v = "map (\<lambda>k. selection (after k c)) [0..<ncomb c]"
  show "finite (set (combinations c))" by simp
  show "set ?v \<subseteq> set (combinations c)"
    using after_state [OF assms] selection_in_combinations by auto
  have "distinct (combinations c)"
    unfolding combinations_def by (intro distinct_product_lists) auto
  then show "card (set ?v) = card (set (combinations c))"
    using distinct_card [OF visited_distinct [OF assms]] length_combinations [of c]
    by (simp add: distinct_card)
qed

lemma index_zero: "\<forall>a\<in>set as. at_pos a = 0 \<Longrightarrow> att.index as = 0"
  by (induction as) auto

lemma after_all:
  assumes "at_start c"
  shows "pc_done (after (ncomb c) c)" "number (after (ncomb c) c) = 0" "same_atts (after (ncomb c) c) c"
proof -
  have "0 < ncomb c" using number_bound [of c] assms by (simp add: at_start_def)
  then obtain k where k: "ncomb c = Suc k" by (cases "ncomb c") auto
  obtain r c' where n: "pathcomp_next (after k c) = (r, c')" by force
  have st: "good_comp (after k c)" "same_atts (after k c) c" "number (after k c) = k" "\<not> pc_done (after k c)"
    using after_state [OF assms, of k] k by auto
  note step = pathcomp_next_step [OF st(1,4) n]
  have "\<not> r" using step(4) st(3) same_count [OF st(2)] k by simp
  then show "pc_done (after (ncomb c) c)" "number (after (ncomb c) c) = 0" "same_atts (after (ncomb c) c) c"
    using step n k st by (auto intro: index_zero same_atts_trans simp: selection_def)
qed

section \<open>The pathname of a combination\<close>

text \<open>How the values of \<open>root\<close> and \<open>compose\<close> make a pathname.\<close>

definition join_path :: "string option \<Rightarrow> string option \<Rightarrow> string option" where
  "join_path r co =
     (let s = (case r of None \<Rightarrow> [] | Some t \<Rightarrow> if t = [] then [] else t @ ''/'') @ (case co of None \<Rightarrow> [] | Some t \<Rightarrow> t)
      in if s = [] then None else Some s)"

lemma yield_part_ok:
  assumes wf: "wf_buf b" and live: "live w s" and len: "case s of None \<Rightarrow> True | Some p \<Rightarrow> length (snd p) < 2 ^ 64"
    and f: "\<And>p. s = Some p \<Longrightarrow> snd p \<noteq> [] \<Longrightarrow> rok (f (snd p) b) (\<lambda>b'. wf_buf b' \<and> content b' = content b @ g (snd p))"
    and g: "g [] = []"
  shows "rok (yield_part w s f b) (\<lambda>b'. wf_buf b' \<and> content b' = content b @ (case s of None \<Rightarrow> [] | Some p \<Rightarrow> g (snd p)))"
proof (cases s)
  case None
  then show ?thesis using wf by (simp add: yield_part_def)
next
  case (Some p)
  then have d: "deref_w w p = Inr (snd p)" using live by (cases p) (simp add: deref_w_def)
  have "strlen (snd p) \<noteq> 0 \<longleftrightarrow> snd p \<noteq> []"
    using len Some strlen_unat [of "snd p"] unat_eq_0_size_t [of "strlen (snd p)"] by auto
  then show ?thesis using Some d f g wf by (auto simp: yield_part_def)
qed

lemma yield_paths_ok:
  assumes "live w root" "live w compose"
    and "length (fmt_s (map_option snd root)) + length (fmt_s (map_option snd compose)) + 3 < 2 ^ 64"
  shows "rok (rbind (yield_part w root (\<lambda>s b. rbind (buf_addstr b s) (\<lambda>b1. buf_addch b1 (schar CHR ''/''))) buf_empty)
       (\<lambda>path1. yield_part w compose (\<lambda>s b. buf_addstr b s) path1))
     (\<lambda>b. wf_buf b \<and> content b = (case root of None \<Rightarrow> [] | Some p \<Rightarrow> if snd p = [] then [] else snd p @ ''/'') @
        (case compose of None \<Rightarrow> [] | Some p \<Rightarrow> snd p))"
proof -
  have one: "rok (yield_part w root (\<lambda>s b. rbind (buf_addstr b s) (\<lambda>b1. buf_addch b1 (schar CHR ''/''))) buf_empty)
      (\<lambda>b. wf_buf b \<and> content b = content buf_empty @ (case root of None \<Rightarrow> [] | Some p \<Rightarrow>
        (\<lambda>s. if s = [] then [] else s @ ''/'') (snd p)))"
  proof (rule yield_part_ok)
    fix p assume p: "root = Some p" "snd p \<noteq> []"
    then have "length (content buf_empty) + length (snd p) + 1 < 2 ^ 64" "length (snd p) + 2 < 2 ^ 64"
      using assms(3) by (simp_all add: fmt_s_def)
    with addstr_fits [of buf_empty "snd p"] obtain b1 where b1: "buf_addstr buf_empty (snd p) = Inr b1" "wf_buf b1"
      "content b1 = content buf_empty @ snd p" by auto
    have "length (content b1) + 2 < 2 ^ 64" using b1 \<open>length (snd p) + 2 < 2 ^ 64\<close> by simp
    from addch_fits [OF b1(2) this, of "schar CHR ''/''"] obtain b2 where
      "buf_addch b1 (schar CHR ''/'') = Inr b2" "wf_buf b2" "content b2 = content b1 @ ''/''" by auto
    then show "rok (rbind (buf_addstr buf_empty (snd p)) (\<lambda>b1. buf_addch b1 (schar CHR ''/'')))
      (\<lambda>b'. wf_buf b' \<and> content b' = content buf_empty @ (if snd p = [] then [] else snd p @ ''/''))"
      using b1 p by simp
  qed (use assms in \<open>auto simp: fmt_s_def split: option.splits\<close>)
  have two: "rok (yield_part w compose (\<lambda>s b. buf_addstr b s) b)
      (\<lambda>b'. wf_buf b' \<and> content b' = content b @ (case compose of None \<Rightarrow> [] | Some p \<Rightarrow> (\<lambda>s. s) (snd p)))"
    if b: "wf_buf b" "length (content b) \<le> length (fmt_s (map_option snd root)) + 1" for b
  proof (rule yield_part_ok)
    fix p assume p: "compose = Some p" "snd p \<noteq> []"
    then have "length (content b) + length (snd p) + 1 < 2 ^ 64" using assms(3) b(2) by (simp add: fmt_s_def)
    from addstr_fits [OF b(1) this] obtain b1 where "buf_addstr b (snd p) = Inr b1" "wf_buf b1"
      "content b1 = content b @ snd p" by blast
    then show "rok (buf_addstr b (snd p)) (\<lambda>b'. wf_buf b' \<and> content b' = content b @ snd p)" by simp
  qed (use assms b in \<open>auto simp: fmt_s_def split: option.splits\<close>)
  show ?thesis unfolding rok_rbind
    by (rule rok_mono [OF one], rule rok_mono [OF two])
      (auto simp: fmt_s_def split: option.splits if_splits)
qed

text \<open>The second half of \<open>pathcomp_yield\<close>, from the two values on.\<close>

lemma yield_finish:
  assumes "live w root" "live w compose"
    and "length (fmt_s (map_option snd root)) + length (fmt_s (map_option snd compose)) + 3 < 2 ^ 64"
    and "NUL \<notin> set (fmt_s (map_option snd root))" "NUL \<notin> set (fmt_s (map_option snd compose))"
  shows "rbind (yield_part w root (\<lambda>s b. rbind (buf_addstr b s) (\<lambda>b1. buf_addch b1 (schar CHR ''/''))) buf_empty) (\<lambda>path1.
     rbind (yield_part w compose (\<lambda>s b. buf_addstr b s) path1) (\<lambda>path2.
     if bf_len path2 \<noteq> 0
     then rbind (buf_detach path2) (\<lambda>(blk, len, _). rbind (strdup_block blk) (\<lambda>str. Inr (Some str, c, w)))
     else rbind (buf_release path2) (\<lambda>_. Inr (None, c, w)))) =
     Inr (join_path (map_option snd root) (map_option snd compose), c, w)"
proof -
  let ?s = "(case root of None \<Rightarrow> [] | Some p \<Rightarrow> if snd p = [] then [] else snd p @ ''/'') @
        (case compose of None \<Rightarrow> [] | Some p \<Rightarrow> snd p)"
  from yield_paths_ok [OF assms(1-3)] obtain path1 b where
    p1: "yield_part w root (\<lambda>s b. rbind (buf_addstr b s) (\<lambda>b1. buf_addch b1 (schar CHR ''/''))) buf_empty = Inr path1"
    and p2: "yield_part w compose (\<lambda>s b. buf_addstr b s) path1 = Inr b" and b: "wf_buf b" "content b = ?s"
    by (auto simp: rok_def rbind_Inr_iff)
  have j: "join_path (map_option snd root) (map_option snd compose) = (if ?s = [] then None else Some ?s)"
    by (auto simp: join_path_def Let_def split: option.split)
  have n: "NUL \<notin> set ?s" using assms(4,5) by (auto simp: fmt_s_def split: option.splits if_splits)
  have "length ?s + 1 < 2 ^ 64" using assms(3) by (auto simp: fmt_s_def split: option.splits)
  then have "length (content b) + 1 < 2 ^ 64" using b by simp
  from detach_string [OF b(1) this] obtain blk len where d: "buf_detach b = Inr (blk, len, buf_empty)"
    "strdup_block blk = Inr (cstr (content b))" by blast
  have "bf_len b = 0 \<longleftrightarrow> ?s = []"
    using length_content [OF wf_raw [OF b(1)]] b(2) by (metis length_0_conv unat_eq_0_size_t)
  then show ?thesis using p1 p2 d b n j release_any [OF b(1)] by auto
qed

lemma pathcomp_yield_eq:
  assumes "pathcomp_eval_nocopy L n c PATHCOMP_ATT_ROOT w = Inr (root, c1, w1)"
    and "pathcomp_eval_nocopy L n c1 PATHCOMP_ATT_COMPOSE w1 = Inr (compose, c2, w2)"
    and "live w2 root" "live w2 compose"
    and "length (fmt_s (map_option snd root)) + length (fmt_s (map_option snd compose)) + 3 < 2 ^ 64"
    and "NUL \<notin> set (fmt_s (map_option snd root))" "NUL \<notin> set (fmt_s (map_option snd compose))"
  shows "pathcomp_yield L n c w = Inr (join_path (map_option snd root) (map_option snd compose), c2, w2)"
  using yield_finish [OF assms(3-7), of c2] assms(1,2) by (simp add: pathcomp_yield_def buf_init_def)

text \<open>The value an attribute has selected.\<close>

definition current_value :: "pathcomp_t \<Rightarrow> string \<Rightarrow> value_t option" where
  "current_value c name =
     (case pathcomp_retrieve_att c name of
        None \<Rightarrow> None
      | Some i \<Rightarrow> map_option (\<lambda>j. alternatives (get_att i c) ! j) (current (get_att i c)))"

lemma current_valueE:
  assumes "current_value c name = Some v"
  obtains i j where "pathcomp_retrieve_att c name = Some i" "current (get_att i c) = Some j" "v = alt_get (get_att i) j c"
  using assms that by (auto simp: current_value_def alt_get_def split: option.splits)

lemma eval_string:
  assumes "current_value c name = Some (VALUE_STRING p)"
  shows "pathcomp_eval_nocopy L n c name w = Inr (Some p, c, w)"
proof -
  from assms obtain i j where "pathcomp_retrieve_att c name = Some i" "current (get_att i c) = Some j"
    "VALUE_STRING p = alt_get (get_att i) j c" by (rule current_valueE)
  then show ?thesis by (simp add: pathcomp_eval_nocopy_def att_eval_def value_eval_def flip: \<open>VALUE_STRING p = _\<close>)
qed

lemma eval_absent: "current_value c name = None \<Longrightarrow> pathcomp_eval_nocopy L n c name w = Inr (None, c, w)"
  by (auto simp: pathcomp_eval_nocopy_def att_eval_def current_value_def split: option.splits)

lemma strip_string: "strip v = VALUE_STRING p \<longleftrightarrow> v = VALUE_STRING p"
  by (cases v) auto

text \<open>The text of a string value stays allocated whatever is evaluated.\<close>

lemma string_stays_live:
  fixes w w' :: "'g world"
  assumes "comp_inv sh c w" "comp_inv sh c' w'" "current_value c name = Some (VALUE_STRING p)"
  shows "live w' (Some p)"
proof -
  from assms(3) obtain i j where ij: "pathcomp_retrieve_att c name = Some i" "current (get_att i c) = Some j"
    "VALUE_STRING p = alt_get (get_att i) j c" by (rule current_valueE)
  have s: "slot_inv sh i j c w" by (rule current_slot [OF assms(1) ij(1,2)])
  then have s': "slot_inv sh i j c' w'" using assms(2) by (simp add: slot_inv_def)
  have "strip (alt_get (get_att i) j c') = strip (alt_get (get_att i) j c)"
    by (rule comp.same_value [OF s s'])
  then have "alt_get (get_att i) j c' = VALUE_STRING p"
    unfolding ij(3) [symmetric] strip.simps strip_string .
  then show ?thesis using comp.live_result [OF s'] by simp
qed

lemma good_cursor_ok: "good_comp c \<Longrightarrow> a \<in> set (pc_attributes (comp_shape c)) \<Longrightarrow> cursor_ok a"
  by (auto simp: good_comp_def good_att_def comp_shape_def att_shape_def cursor_ok_def dest!: bspec)

lemma comp_inv_good: "good_comp c \<Longrightarrow> owns w (comp_stamps c) \<Longrightarrow> comp_inv (comp_shape c) c w"
  by (simp add: comp_inv_def good_cursor_ok)

lemma good_shape: "comp_shape c' = comp_shape c \<Longrightarrow> good_comp c' = good_comp c"
proof -
  have "good_comp c = good_comp (comp_shape c)" for c
    by (auto simp: good_comp_def good_att_def comp_shape_def att_shape_def)
  then show "comp_shape c' = comp_shape c \<Longrightarrow> ?thesis" by metis
qed

lemma shape_numbers:
  assumes "comp_shape c' = comp_shape c"
  shows "number c' = number c" "ncomb c' = ncomb c" "pc_done c' = pc_done c" "pc_started c' = pc_started c"
proof -
  have idx: "att.index (map att_shape as) = att.index as" "att.total (map att_shape as) = att.total as" for as
    by (induction as) (auto simp: att_shape_def at_pos_def)
  have a: "map att_shape (pc_attributes c') = map att_shape (pc_attributes c)"
    "pc_done c' = pc_done c" "pc_started c' = pc_started c"
    using assms by (auto simp: comp_shape_def dest: arg_cong [of _ _ pc_attributes] arg_cong [of _ _ pc_done] arg_cong [of _ _ pc_started])
  show "number c' = number c" "ncomb c' = ncomb c" using idx [of "pc_attributes c'"] idx [of "pc_attributes c"] a(1) by auto
  show "pc_done c' = pc_done c" "pc_started c' = pc_started c" by (fact a)+
qed

lemma yield_keeps:
  assumes "comp_inv sh c w" "pathcomp_yield L n c w = Inr (path, c', w')"
  shows "comp_inv sh c' w'"
proof -
  from assms(2) obtain root c1 w1 compose where
    e: "pathcomp_eval_nocopy L n c PATHCOMP_ATT_ROOT w = Inr (root, c1, w1)"
    "pathcomp_eval_nocopy L n c1 PATHCOMP_ATT_COMPOSE w1 = Inr (compose, c', w')"
    by (auto simp: pathcomp_yield_def rbind_Inr_iff split: if_splits)
  have "comp_inv sh c1 w1"
    using pathcomp_eval_nocopy_safe [OF assms(1), of L n PATHCOMP_ATT_ROOT] e(1) by simp
  then show ?thesis
    using pathcomp_eval_nocopy_safe [of sh c1 w1 L n PATHCOMP_ATT_COMPOSE] e(2) by simp
qed

section \<open>Searching\<close>

lemma same_atts_stamps: assumes "same_atts c d" shows "comp_stamps c = comp_stamps d"
proof -
  have "map alternatives (pc_attributes c) = map alternatives (pc_attributes d)"
  proof -
    have "map alternatives (map att_fixed (pc_attributes c)) = map alternatives (map att_fixed (pc_attributes d))"
      using assms by (simp only: same_atts_def)
    then show ?thesis by (simp add: o_def)
  qed
  moreover have "comp_stamps c = concat (map stamps_of (map alternatives (pc_attributes c)))" for c
    by (simp add: comp_stamps_def o_def)
  ultimately show ?thesis by (simp only:)
qed

text \<open>How many combinations are still to be tried.\<close>

definition remaining :: "pathcomp_t \<Rightarrow> nat" where
  "remaining c = (if pc_done c then 0 else ncomb c - number c) + (if pc_started c then 0 else 1)"

text \<open>What a search may return: an existing path, or nothing at the end of the combinations.\<close>

definition found :: "(string \<Rightarrow> bool) \<Rightarrow> nat \<Rightarrow> (string option \<times> pathcomp_t \<times> 'g world) res \<Rightarrow> bool" where
  "found path_exists m r \<longleftrightarrow> (case r of
      Inl e \<Rightarrow> True
    | Inr (path, c', w') \<Rightarrow> pc_started c' \<and> good_comp c' \<and> owns w' (comp_stamps c') \<and>
        (case path of None \<Rightarrow> pc_done c' | Some p \<Rightarrow> path_exists p \<and> \<not> pc_done c' \<and> remaining c' < m))"

lemma found_mono: "found path_exists m r \<Longrightarrow> m \<le> m' \<Longrightarrow> found path_exists m' r"
  by (auto simp: found_def split: sum.splits option.splits)

lemma next_keeps:
  assumes "good_comp c" "owns w (comp_stamps c)"
  shows "good_comp (snd (pathcomp_next c))" "owns w (comp_stamps (snd (pathcomp_next c)))"
proof -
  obtain r c' where n: "pathcomp_next c = (r, c')" by force
  show "good_comp (snd (pathcomp_next c))"
    using assms pathcomp_next_step(1) [OF assms(1) _ n] n by (cases "pc_done c") (auto simp: pathcomp_next_def)
  show "owns w (comp_stamps (snd (pathcomp_next c)))"
    using assms pathcomp_next_step(2) [OF assms(1) _ n, THEN same_atts_stamps] n
    by (cases "pc_done c") (auto simp: pathcomp_next_def)
qed

lemma next_remaining:
  assumes "good_comp c" "\<not> pc_done c"
  shows "remaining (snd (pathcomp_next c)) < remaining c"
proof -
  obtain r c' where n: "pathcomp_next c = (r, c')" by force
  note step = pathcomp_next_step [OF assms n]
  then show ?thesis
    using n assms(2) same_count [OF step(2)] number_bound [OF assms(1)] by (cases r) (simp_all add: remaining_def)
qed

lemma next_done: "pc_done c \<Longrightarrow> pathcomp_next c = (False, c)"
  by (simp add: pathcomp_next_def)

lemma remaining_started: "remaining (c\<lparr>pc_started := True\<rparr>) \<le> remaining c"
  "\<not> pc_started c \<Longrightarrow> remaining (c\<lparr>pc_started := True\<rparr>) < remaining c"
  by (auto simp: remaining_def)

lemma pathcomp_find_returns:
  assumes "good_comp c" "owns w (comp_stamps c)"
  shows "\<exists>r. pathcomp_find L n path_exists c w = Some r \<and> found path_exists (remaining c) r"
  using assms
proof (induction "remaining c" arbitrary: c w rule: less_induct)
  case less
  define c1 where "c1 = (if pc_started c then snd (pathcomp_next c) else c)"
  define c2 where "c2 = c1\<lparr>pc_started := True\<rparr>"
  have g1: "good_comp c1" "owns w (comp_stamps c1)" using less.prems next_keeps by (auto simp: c1_def)
  then have g2: "good_comp c2" "owns w (comp_stamps c2)" by (auto simp: c2_def good_comp_def comp_stamps_def)
  note unfold = pathcomp_find.simps [of L n path_exists c w, folded c1_def, unfolded Let_def, folded c2_def]
  show ?case
  proof (cases "pc_done c2")
    case True
    then show ?thesis using unfold g2 by (simp add: pathcomp_done_def found_def c2_def)
  next
    case False
    have less2: "remaining c2 < remaining c"
    proof (cases "pc_started c")
      case True
      then have "remaining c1 < remaining c"
        using next_remaining [OF less.prems(1)] False by (cases "pc_done c") (auto simp: c1_def c2_def next_done)
      then show ?thesis using remaining_started(1) [of c1] by (simp add: c2_def)
    qed (auto simp: c1_def c2_def remaining_started)
    show ?thesis
    proof (cases "pathcomp_yield L n c2 w")
      case (Inl e)
      then show ?thesis using False unfold by (simp add: pathcomp_done_def found_def)
    next
      case (Inr y)
      obtain path c3 w1 where y: "y = (path, c3, w1)" by (cases y) auto
      have inv: "comp_inv (comp_shape c2) c3 w1"
        using yield_keeps [OF comp_inv_good [OF g2]] Inr y by simp
      then have sh: "comp_shape c3 = comp_shape c2" and own: "owns w1 (comp_stamps c3)"
        by (simp_all add: comp_inv_def)
      have g3: "good_comp c3" using good_shape [OF sh] g2 by simp
      have f3: "pc_done c3 = pc_done c2" "pc_started c3 = pc_started c2" "remaining c3 = remaining c2"
        using shape_numbers [OF sh] by (simp_all add: remaining_def)
      show ?thesis
      proof (cases "path \<noteq> None \<and> path_exists (the path)")
        case True
        then show ?thesis using False unfold Inr y f3 g3 own less2 by (auto simp: pathcomp_done_def found_def c2_def)
      next
        case no: False
        have "\<exists>r. pathcomp_find L n path_exists c3 w1 = Some r \<and> found path_exists (remaining c3) r"
          using less2 f3(3) g3 own by (intro less.hyps) simp_all
        then have "\<exists>r. pathcomp_find L n path_exists c3 w1 = Some r \<and> found path_exists (remaining c) r"
          using found_mono less2 f3(3) by fastforce
        moreover have "pathcomp_find L n path_exists c w = pathcomp_find L n path_exists c3 w1"
          using unfold False Inr y no by (auto simp: pathcomp_done_def)
        ultimately show ?thesis by simp
      qed
    qed
  qed
qed

lemma eval_copyE:
  assumes "pathcomp_eval L n c name w = Inr (co, c', w')"
  obtains p where "pathcomp_eval_nocopy L n c name w = Inr (p, c', w')" "map_option snd p = co"
proof (cases "pathcomp_eval_nocopy L n c name w")
  case (Inr r)
  obtain p c1 w1 where r: "r = (p, c1, w1)" by (cases r)
  then show thesis using assms Inr that [of p]
    by (cases p) (auto simp: pathcomp_eval_def deref_w_def split: if_splits)
qed (use assms in \<open>simp add: pathcomp_eval_def\<close>)

lemma yield_joins:
  assumes "good_comp c" and "owns w (comp_stamps c)"
    and "current_value c ''root'' = map_option VALUE_STRING root"
    and "pathcomp_eval L n c ''compose'' w = Inr (co, c', w')"
    and "length (fmt_s (map_option snd root)) + length (fmt_s co) + 3 < 2 ^ 64"
    and "NUL \<notin> set (fmt_s (map_option snd root))" "NUL \<notin> set (fmt_s co)"
  shows "pathcomp_yield L n c w = Inr (join_path (map_option snd root) co, c', w')"
proof -
  let ?sh = "comp_shape c"
  note inv = comp_inv_good [OF assms(1,2)]
  from assms(4) obtain p where p: "pathcomp_eval_nocopy L n c ''compose'' w = Inr (p, c', w')" "map_option snd p = co"
    by (rule eval_copyE)
  have e: "comp_inv ?sh c' w'" "live w' p"
    using pathcomp_eval_nocopy_safe [OF inv, of L n "''compose''"] p(1) by auto
  have r: "pathcomp_eval_nocopy L n c ''root'' w = Inr (root, c, w)"
    using assms(3) eval_string eval_absent by (cases root) auto
  have "live w' root" using assms(3) string_stays_live [OF inv e(1)] by (cases root) auto
  then show ?thesis
    using pathcomp_yield_eq [of L n c w root c w p c' w'] r p e(2) assms(5-7)
    by (simp add: PATHCOMP_ATT_ROOT_def PATHCOMP_ATT_COMPOSE_def)
qed

section \<open>Properties\<close>

text \<open>A small composer for the examples: two attributes with two and three alternatives.\<close>

definition str_att :: "string \<Rightarrow> nat \<Rightarrow> string list \<Rightarrow> att_t" where
  "str_att name n vs =
     \<lparr>at_name = name, alternatives = map (\<lambda>(k, v). VALUE_STRING (n + k, v)) (List.enumerate 0 vs),
      current = Some 0, origin = None\<rparr>"

definition comp0 :: pathcomp_t where
  "comp0 = \<lparr>pc_name = ''c'', pc_attributes = [str_att ''root'' 0 [''a'', ''b''], str_att ''compose'' 2 [''x'', ''y'', ''z'']],
     pc_metatable = ''libpathcomp::c'', pc_done = False, pc_started = False\<rparr>"

definition world5 :: "unit world" where
  "world5 = world0\<lparr>w_stamp := 5\<rparr>"

definition lua0 :: "unit lua_api" where
  "lua0 = \<lparr>luaL_newstate = (), luaL_loadstring = (\<lambda>s. Inl s), lua_overflow = ''stack overflow''\<rparr>"

lemma comp0_good: "good_comp comp0" "owns world5 (comp_stamps comp0)" "at_start comp0"
  by (simp_all add: good_comp_def good_att_def comp0_def str_att_def owns_def world5_def world0_def wf_world_def
      comp_stamps_def stamps_def enumerate_eq_zip at_start_def at_pos_def)









definition reads_root :: "unit lua_api" where
  "reads_root = \<lparr>luaL_newstate = (),
     luaL_loadstring = (\<lambda>s. Inr (\<lambda>self g.
       if s = ''root'' then Lua_Return (Some ''/data'') g
       else Lua_Index (Some ''root'') g (\<lambda>v g1. Lua_Return (Some ''x'') g1))),
     lua_overflow = []\<rparr>"

definition comp_lua :: pathcomp_t where
  "comp_lua = \<lparr>pc_name = ''c'',
     pc_attributes =
       [\<lparr>at_name = ''root'', alternatives = [VALUE_LUA ''root'' None], current = Some 0, origin = None\<rparr>,
        \<lparr>at_name = ''compose'', alternatives = [VALUE_LUA ''compose'' None], current = Some 0, origin = None\<rparr>],
     pc_metatable = ''m'', pc_done = False, pc_started = False\<rparr>"


end
