(* ===== verification/Mkdir.thy ===== *)
theory Mkdir
  imports Iterate
begin

text \<open>
  Creating the directories of a pathname, \<open>pathcomp_mkdir\<close> of \<open>src/pathcomp.c\<close>: which directories
  are made and in which order, what holds when it succeeds and when it fails.
\<close>

section \<open>The directories of a path\<close>

text \<open>The prefixes that end in front of a slash and not behind one, shortest first; \<open>b\<close> has been passed.\<close>

fun dirs :: "string \<Rightarrow> string \<Rightarrow> string list" where
  "dirs b [] = []"
| "dirs b (c # a) = (if c = CHR ''/'' \<and> b \<noteq> [] \<and> last b \<noteq> CHR ''/'' then [b] else []) @ dirs (b @ [c]) a"

fun mkdir_all ::
    "('fs \<Rightarrow> string \<Rightarrow> int option \<times> 'fs) \<Rightarrow> (int \<Rightarrow> string) \<Rightarrow> string list \<Rightarrow> 'fs \<Rightarrow> 'g world \<Rightarrow> int \<times> 'fs \<times> 'g world" where
  "mkdir_all mkdir strerror [] fs w = (0, fs, w)"
| "mkdir_all mkdir strerror (d # ds) fs w =
     (case mkdir fs d of (err, fs1) \<Rightarrow>
        if err \<noteq> None \<and> the err \<noteq> EEXIST
        then (- 1, fs1, log_error_w w (''mkdir '' @ [CHR 0x27] @ d @ [CHR 0x27] @ '': '' @ strerror (the err)))
        else mkdir_all mkdir strerror ds fs1 w)"

lemma dirs_slashes:
  "b = [] \<or> last b = CHR ''/'' \<Longrightarrow> \<forall>c\<in>set sl. c = CHR ''/'' \<Longrightarrow> dirs b (sl @ a) = dirs (b @ sl) a"
  by (induction sl arbitrary: b) auto

lemma dirs_name: "\<forall>c\<in>set nm. c \<noteq> CHR ''/'' \<Longrightarrow> dirs b (nm @ a) = dirs (b @ nm) a"
  by (induction nm arbitrary: b) auto

lemma mkdir_loop_all:
  assumes "b = [] \<or> last b = CHR ''/''"
  shows "mkdir_loop mkdir strerror b a fs w = mkdir_all mkdir strerror (dirs b a) fs w"
  using assms
proof (induction mkdir strerror b a fs w rule: mkdir_loop.induct)
  case (1 mkdir strerror b a fs w)
  define sl where "sl = takeWhile (\<lambda>c. c = CHR ''/'') a"
  define nm where "nm = takeWhile (\<lambda>c. c \<noteq> CHR ''/'') (drop (length sl) a)"
  define r where "r = drop (length sl + length nm) a"
  have tw: "takeWhile P xs @ drop (length (takeWhile P xs)) xs = xs" for P and xs :: string
    by (metis append_eq_conv_conj takeWhile_dropWhile_id)
  have a: "a = sl @ nm @ r"
    using tw [of "\<lambda>c. c = CHR ''/''" a] tw [of "\<lambda>c. c \<noteq> CHR ''/''" "drop (length sl) a"]
    by (simp add: sl_def nm_def r_def add.commute)
  have sl: "\<forall>c\<in>set sl. c = CHR ''/''" by (auto simp: sl_def dest: set_takeWhileD)
  have nm: "\<forall>c\<in>set nm. c \<noteq> CHR ''/''" by (auto simp: nm_def dest: set_takeWhileD)
  have d: "dirs b a = dirs (b @ sl @ nm) r"
    using dirs_slashes [OF "1.prems" sl, of "nm @ r"] dirs_name [OF nm, of "b @ sl" r] a by simp
  show ?case
  proof (cases r)
    case Nil
    then show ?thesis using d by (simp add: mkdir_loop.simps [of mkdir] Let_def flip: sl_def nm_def r_def)
  next
    case (Cons c r1)
    have c: "c = CHR ''/''"
    proof -
      have "dropWhile (\<lambda>c. c \<noteq> CHR ''/'') (drop (length sl) a) = r"
        using tw [of "\<lambda>c. c \<noteq> CHR ''/''" "drop (length sl) a"]
        by (metis nm_def r_def append_same_eq drop_drop takeWhile_dropWhile_id add.commute same_append_eq)
      then show ?thesis using Cons hd_dropWhile [of "\<lambda>c. c \<noteq> CHR ''/''" "drop (length sl) a"] by auto
    qed
    have ne: "nm \<noteq> []"
    proof
      assume "nm = []"
      then have "drop (length sl) a = c # r1" using Cons by (simp add: r_def)
      moreover have "drop (length sl) a = dropWhile (\<lambda>c. c = CHR ''/'') a"
        using tw [of "\<lambda>c. c = CHR ''/''" a] by (metis sl_def same_append_eq takeWhile_dropWhile_id)
      ultimately show False using c hd_dropWhile [of "\<lambda>c. c = CHR ''/''" a] by (metis list.distinct(1) list.sel(1))
    qed
    have "last (b @ sl @ nm) \<noteq> CHR ''/''" using ne nm by (auto simp: last_append)
    then have dd: "dirs b a = (b @ sl @ nm) # dirs ((b @ sl @ nm) @ ''/'') r1" using d Cons c ne by simp
    obtain err fs1 where m: "mkdir fs (b @ sl @ nm) = (err, fs1)" by force
    have IH: "\<not> (err \<noteq> None \<and> the err \<noteq> EEXIST) \<Longrightarrow>
        mkdir_loop mkdir strerror ((b @ sl @ nm) @ ''/'') r1 fs1 w =
        mkdir_all mkdir strerror (dirs ((b @ sl @ nm) @ ''/'') r1) fs1 w"
      using "1.IH" [OF sl_def nm_def refl _ m [symmetric], of c r1] Cons by (simp flip: r_def)
    show ?thesis
      unfolding mkdir_loop.simps [of mkdir strerror b] Let_def sl_def [symmetric] nm_def [symmetric] r_def [symmetric]
        dd mkdir_all.simps Cons list.case m prod.case
      using IH by simp
  qed
qed

lemma dirs_iff: "d \<in> set (dirs b a) \<longleftrightarrow> (\<exists>p r. a = p @ CHR ''/'' # r \<and> d = b @ p \<and> d \<noteq> [] \<and> last d \<noteq> CHR ''/'')"
proof (induction a arbitrary: b)
  case (Cons c a)
  have "(\<exists>p r. c # a = p @ CHR ''/'' # r \<and> d = b @ p \<and> d \<noteq> [] \<and> last d \<noteq> CHR ''/'') \<longleftrightarrow>
      c = CHR ''/'' \<and> d = b \<and> d \<noteq> [] \<and> last d \<noteq> CHR ''/'' \<or>
      (\<exists>p r. a = p @ CHR ''/'' # r \<and> d = (b @ [c]) @ p \<and> d \<noteq> [] \<and> last d \<noteq> CHR ''/'')" (is "?l \<longleftrightarrow> ?r")
  proof
    assume ?l
    then show ?r by (auto simp: Cons_eq_append_conv)
  next
    assume ?r
    then show ?l
    proof (elim disjE exE conjE)
      assume "c = CHR ''/''" "d = b" "d \<noteq> []" "last d \<noteq> CHR ''/''"
      then show ?l by (intro exI [of _ "[]"] exI [of _ a]) simp
    next
      fix p r assume "a = p @ CHR ''/'' # r" "d = (b @ [c]) @ p" "d \<noteq> []" "last d \<noteq> CHR ''/''"
      then show ?l by (intro exI [of _ "c # p"] exI [of _ r]) simp
    qed
  qed
  then show ?case using Cons.IH [of "b @ [c]"] by auto
qed simp

section \<open>What holds afterwards\<close>

lemma mkdir_all_creates:
  assumes "\<And>fs d fs'. mkdir fs d = (None, fs') \<Longrightarrow> is_dir fs' d"
    and "\<And>fs d fs'. mkdir fs d = (Some EEXIST, fs') \<Longrightarrow> is_dir fs' d"
    and "\<And>fs d err fs' x. mkdir fs d = (err, fs') \<Longrightarrow> is_dir fs x \<Longrightarrow> is_dir fs' x"
    and "mkdir_all mkdir strerror ds fs w = (rc, fs', w')"
  shows "(rc = 0 \<longrightarrow> (\<forall>d\<in>set ds. is_dir fs' d) \<and> w' = w) \<and> (\<forall>x. is_dir fs x \<longrightarrow> is_dir fs' x) \<and> (rc = 0 \<or> rc = - 1)"
  using assms(4)
proof (induction ds arbitrary: fs)
  case (Cons d ds)
  obtain err fs1 where m: "mkdir fs d = (err, fs1)" by force
  show ?case
  proof (cases "err \<noteq> None \<and> the err \<noteq> EEXIST")
    case True
    then show ?thesis using Cons.prems m assms(3) by auto
  next
    case False
    then have "is_dir fs1 d" using m assms(1,2) by (cases err) auto
    moreover have "mkdir_all mkdir strerror ds fs1 w = (rc, fs', w')" using Cons.prems m False by auto
    ultimately show ?thesis using Cons.IH [of fs1] assms(3) [OF m] by auto
  qed
qed simp

lemma pathcomp_mkdir_eq:
  assumes "pathcomp_yield L n c w = Inr (Some path, c1, w1)"
    and "mkdir_all mkdir strerror (dirs [] path) fs w1 = (rc, fs', w')"
  shows "pathcomp_mkdir L n mkdir strerror c fs w = Inr (rc, fs', c1, w')"
  using assms by (simp add: pathcomp_mkdir_def mkdir_loop_all)

section \<open>Properties\<close>

text \<open>
  \<open>pathcomp_mkdir\<close> asks for exactly the directories of the path that \<open>pathcomp_yield\<close> gives,
  every prefix in front of a slash from the shortest one on, and stops at the first error other
  than that the directory exists, which it logs.
\<close>

theorem pathcomp_mkdir_order:
  assumes "pathcomp_yield L n c w = Inr (Some path, c1, w1)"
  shows "\<exists>rc fs' w'. pathcomp_mkdir L n mkdir strerror c fs w = Inr (rc, fs', c1, w') \<and>
     mkdir_all mkdir strerror (dirs [] path) fs w1 = (rc, fs', w') \<and>
     set (dirs [] path) = {d. \<exists>r. path = d @ CHR ''/'' # r \<and> d \<noteq> [] \<and> last d \<noteq> CHR ''/''}"
proof -
  obtain rc fs' w' where m: "mkdir_all mkdir strerror (dirs [] path) fs w1 = (rc, fs', w')"
    by (metis prod_cases3)
  then show ?thesis using pathcomp_mkdir_eq [OF assms m] dirs_iff [of _ "[]" path] by auto
qed

lemma yield_comp0: "pathcomp_yield lua0 3 comp0 world5 = Inr (Some ''a/x'', comp0, world5)"
  using pathcomp_yield_eq [of lua0 3 comp0 world5 "Some (0, ''a'')" comp0 world5 "Some (2, ''x'')" comp0 world5]
  by (simp add: current_value_def pathcomp_retrieve_att_def comp0_def str_att_def att_name_equal_to_def get_att_def
      enumerate_eq_zip pathcomp_eval_nocopy_def att_eval_def value_eval_def alt_get_def
      world5_def world0_def fmt_s_def join_path_def PATHCOMP_ATT_ROOT_def PATHCOMP_ATT_COMPOSE_def)

text \<open>A file system that is a set of directories, for the examples.\<close>

definition mkdir_set :: "string list \<Rightarrow> string \<Rightarrow> int option \<times> string list" where
  "mkdir_set fs d = (if d \<in> set fs then (Some EEXIST, fs) else (None, d # fs))"

theorem pathcomp_mkdir_order_witness:
  "\<exists>rc fs' w'. pathcomp_mkdir lua0 3 mkdir_set (\<lambda>e. []) comp0 [] world5 = Inr (rc, fs', comp0, w') \<and>
     mkdir_all mkdir_set (\<lambda>e. []) (dirs [] ''a/x'') [] world5 = (rc, fs', w') \<and>
     set (dirs [] ''a/x'') = {d. \<exists>r. ''a/x'' = d @ CHR ''/'' # r \<and> d \<noteq> [] \<and> last d \<noteq> CHR ''/''}"
  by (rule pathcomp_mkdir_order [OF yield_comp0])



text \<open>
  \<open>pathcomp_mkdir\<close> does not check what \<open>pathcomp_yield\<close> returns: for a composer that has
  neither \<open>root\<close> nor \<open>compose\<close> it follows a null pointer.
\<close>

theorem pathcomp_mkdir_null:
  assumes "current_value c ''root'' = None" and "current_value c ''compose'' = None"
  shows "pathcomp_mkdir L n mkdir strerror c fs w = Inl Null_Deref"
proof -
  have "pathcomp_yield L n c w = Inr (join_path (map_option snd (None :: strp option)) (map_option snd (None :: strp option)), c, w)"
    using eval_absent [OF assms(1), of L n w] eval_absent [OF assms(2), of L n w]
    by (intro pathcomp_yield_eq) (simp_all add: PATHCOMP_ATT_ROOT_def PATHCOMP_ATT_COMPOSE_def fmt_s_def)
  then show ?thesis by (simp add: pathcomp_mkdir_def join_path_def)
qed

theorem pathcomp_mkdir_null_witness:
  "pathcomp_mkdir lua0 3 mkdir_set (\<lambda>e. [])
     \<lparr>pc_name = ''c'', pc_attributes = [], pc_metatable = ''m'', pc_done = False, pc_started = False\<rparr> [] world0 = Inl Null_Deref"
  by (rule pathcomp_mkdir_null) (simp_all add: current_value_def pathcomp_retrieve_att_def)

end
