(* ===== verification/Build.thy ===== *)
theory Build
  imports Iterate
begin

text \<open>
  Building and changing composers: \<open>pathcomp_add_or_replace\<close> and the functions on top of it, the
  attributes that \<open>pathcomp_new\<close> takes from the configuration, cloning and freeing.

  The abstract view of a composer is the list of its attributes, each with its name, its values
  without their addresses, and its origin. The operations are shown to be simple functions on
  this view (\<open>vput\<close>), and the recursion through \<open>copy-from\<close> to run through a list of entries
  computed beforehand (\<open>expand\<close>).
\<close>

section \<open>The abstract view\<close>

type_synonym aview = "(string \<times> value_t list \<times> string option) list"

definition view_att :: "att_t \<Rightarrow> string \<times> value_t list \<times> string option" where
  "view_att a = (at_name a, map erase (alternatives a), origin a)"

definition view :: "pathcomp_t \<Rightarrow> aview" where
  "view c = map view_att (pc_attributes c)"

text \<open>Which action is taken on an attribute that is there already.\<close>

definition inherited :: "string \<Rightarrow> string option \<Rightarrow> bool" where
  "inherited name orig \<longleftrightarrow> (case orig of None \<Rightarrow> False | Some s \<Rightarrow> s \<noteq> name)"

definition resolve :: "string \<Rightarrow> string option \<Rightarrow> string option \<Rightarrow> pathcomp_action_t \<Rightarrow> pathcomp_action_t" where
  "resolve name old new action =
     (if action = PATHCOMP_ACTION_ADD_IF then
        if inherited name new \<and> \<not> inherited name old then PATHCOMP_ACTION_NONE
        else if \<not> inherited name new \<and> inherited name old then PATHCOMP_ACTION_REPLACE
        else PATHCOMP_ACTION_ADD
      else action)"

definition vchange :: "string \<Rightarrow> value_t \<Rightarrow> string option \<Rightarrow> pathcomp_action_t \<Rightarrow> value_t list \<times> string option \<Rightarrow> value_t list \<times> string option" where
  "vchange name v orig action old =
     (case resolve name (snd old) orig action of
        PATHCOMP_ACTION_REPLACE \<Rightarrow> ([v], orig)
      | PATHCOMP_ACTION_ADD \<Rightarrow> (fst old @ [v], snd old)
      | _ \<Rightarrow> old)"

primrec vput :: "string \<Rightarrow> string \<Rightarrow> value_t \<Rightarrow> string option \<Rightarrow> pathcomp_action_t \<Rightarrow> aview \<Rightarrow> aview" where
  "vput name k v orig action [] = [(k, [v], orig)]"
| "vput name k v orig action (a # as) =
     (if fst a = k then (k, vchange name v orig action (snd a)) # as else a # vput name k v orig action as)"

definition vlook :: "string \<Rightarrow> aview \<Rightarrow> (value_t list \<times> string option) option" where
  "vlook k vs = map_of vs k"

lemma vlook_vput:
  "vlook j (vput name k v orig action vs) =
     (if j = k then Some (case vlook k vs of None \<Rightarrow> ([v], orig) | Some old \<Rightarrow> vchange name v orig action old)
      else vlook j vs)"
  by (induction vs) (auto simp: vlook_def)

lemma vput_find:
  "find_att as k = None \<Longrightarrow> vput name k v orig action (map view_att as) = map view_att as @ [(k, [v], orig)]"
  "find_att as k = Some i \<Longrightarrow> vput name k v orig action (map view_att as) =
     (map view_att as)[i := (k, vchange name v orig action (snd (view_att (as ! i))))]"
  by (induction as arbitrary: i)
    (auto simp: att_name_equal_to_def view_att_def split: if_splits)

section \<open>Adding and replacing\<close>

lemma put_att_stamps:
  assumes "i < length (pc_attributes c)"
  shows "mset (comp_stamps (put_att i a c)) + mset (stamps_of (alternatives (get_att i c))) =
     mset (comp_stamps c) + mset (stamps_of (alternatives a))"
  using mset_concat_update [OF assms, of "\<lambda>a. stamps_of (alternatives a)" a]
  by (simp add: comp_stamps_def put_att_def get_att_def)

lemma put_att_good: "good_comp c \<Longrightarrow> good_att a \<Longrightarrow> good_comp (put_att i a c)"
  by (auto simp: good_comp_def put_att_def dest: set_update_subset_insert [THEN subsetD])

lemma put_att_view: "view (put_att i a c) = (view c)[i := view_att a]"
  by (simp add: view_def put_att_def map_update)

text \<open>What every change of a composer keeps.\<close>

definition same_frame :: "pathcomp_t \<Rightarrow> pathcomp_t \<Rightarrow> bool" where
  "same_frame c' c \<longleftrightarrow> pc_name c' = pc_name c \<and> pc_metatable c' = pc_metatable c \<and> pc_done c' = pc_done c \<and>
     pc_started c' = pc_started c"

definition sound :: "pathcomp_t \<Rightarrow> 'g world \<Rightarrow> bool" where
  "sound c w \<longleftrightarrow> good_comp c \<and> owns w (comp_stamps c)"

definition same_lua :: "'g world \<Rightarrow> 'g world \<Rightarrow> bool" where
  "same_lua w' w \<longleftrightarrow> w_lua w' = w_lua w \<and> w_metas w' = w_metas w \<and> w_top w' = w_top w"

lemma same_frame_simps [simp]: "same_frame c c" "same_frame (put_att i a c) c"
  "same_frame (c\<lparr>pc_attributes := as\<rparr>) c"
  by (simp_all add: same_frame_def put_att_def)

lemma same_lua_refl [simp]: "same_lua w w"
  by (simp add: same_lua_def)

lemma replace_ok:
  assumes c: "good_comp c" "owns w (stamps val @ comp_stamps c)" and i: "i < length (pc_attributes c)"
  shows "rok (att_replace_value w (get_att i c) val orig) (\<lambda>(a, w'). sound (put_att i a c) w' \<and> same_lua w' w \<and>
     view_att a = (at_name (get_att i c), [erase val], orig))"
proof -
  let ?alts = "alternatives (get_att i c)" and ?a = "(get_att i c)\<lparr>alternatives := [val], current := Some 0, origin := orig\<rparr>"
  define ns where "ns = comp_stamps (put_att i ((get_att i c)\<lparr>alternatives := []\<rparr>) c)"
  have ns: "mset (comp_stamps c) = mset (stamps_of ?alts) + mset ns"
    using put_att_stamps [OF i, of "(get_att i c)\<lparr>alternatives := []\<rparr>"] by (simp add: ns_def union_commute)
  then have "owns w (stamps_of ?alts @ stamps val @ ns)" by (intro owns_perm [OF c(2)]) simp
  from free_values_ok [OF this] obtain w' where w': "free_values w ?alts = Inr w'" "owns w' (stamps val @ ns)"
    "same_lua w' w" by (auto simp: rok_def same_lua_def)
  have "mset (comp_stamps (put_att i ?a c)) = mset (stamps val @ ns)"
    using put_att_stamps [OF i, of ?a] ns by simp
  then have "owns w' (comp_stamps (put_att i ?a c))" using owns_perm [OF w'(2)] by simp
  moreover have "good_comp (put_att i ?a c)" by (intro put_att_good c) (simp add: good_att_def)
  ultimately show ?thesis
    using w' by (simp add: att_replace_value_def head_node_def sound_def view_att_def)
qed

lemma add_value_ok:
  assumes c: "good_comp c" "owns w (stamps val @ comp_stamps c)" and i: "i < length (pc_attributes c)"
  shows "sound (put_att i (att_add_value (get_att i c) val) c) w"
    "view_att (att_add_value (get_att i c) val) =
       (at_name (get_att i c), map erase (alternatives (get_att i c)) @ [erase val], origin (get_att i c))"
proof -
  let ?a = "att_add_value (get_att i c) val"
  have g: "good_att (get_att i c)" using c(1) i by (simp add: good_comp_def get_att_def)
  then have alts: "alternatives ?a = alternatives (get_att i c) @ [val]" "current ?a = current (get_att i c)"
    by (auto simp: att_add_value_def good_att_def)
  have "mset (comp_stamps (put_att i ?a c)) = mset (stamps val @ comp_stamps c)"
    using put_att_stamps [OF i, of ?a] alts by simp
  then have "owns w (comp_stamps (put_att i ?a c))" using owns_perm [OF c(2)] by simp
  moreover have "good_comp (put_att i ?a c)" using g alts by (intro put_att_good c) (auto simp: good_att_def)
  ultimately show "sound (put_att i ?a c) w" by (simp add: sound_def)
  show "view_att ?a = (at_name (get_att i c), map erase (alternatives (get_att i c)) @ [erase val], origin (get_att i c))"
    using alts by (simp add: view_att_def) (auto simp: att_add_value_def)
qed

lemma value_free_ok:
  assumes "owns w (stamps val @ ns)"
  shows "rok (value_free w val) (\<lambda>w'. owns w' ns \<and> same_lua w' w)"
  using free_values_ok [of w "[val]" ns] assms by (auto simp: rok_def rbind_Inr_iff same_lua_def)

lemma pathcomp_add_or_replace_ok:
  assumes c: "good_comp c" "owns w (stamps val @ comp_stamps c)"
  shows "rok (pathcomp_add_or_replace w c k val orig action) (\<lambda>(c', w'). sound c' w' \<and> same_frame c' c \<and> same_lua w' w \<and>
     view c' = vput (pc_name c) k (erase val) orig action (view c))"
proof (cases "pathcomp_retrieve_att c k")
  case None
  have "owns w (comp_stamps c @ stamps val)" by (rule owns_perm [OF c(2)]) simp
  then show ?thesis using None c
    by (simp add: pathcomp_add_or_replace_def sound_def good_comp_def good_att_def att_new_def head_node_def comp_stamps_def
        view_def vput_find(1) pathcomp_retrieve_att_def view_att_def)
next
  case (Some i)
  let ?a = "get_att i c"
  have i: "i < length (pc_attributes c)" "at_name ?a = k"
    using find_att_bound [of "pc_attributes c" k i] Some by (auto simp: pathcomp_retrieve_att_def get_att_def)
  let ?act = "resolve (pc_name c) (origin ?a) orig action"
  have v: "vput (pc_name c) k (erase val) orig action (view c) =
      (view c)[i := (k, vchange (pc_name c) (erase val) orig action (map erase (alternatives ?a), origin ?a))]"
    using vput_find(2) [of "pc_attributes c" k i] Some
    by (simp add: view_def pathcomp_retrieve_att_def get_att_def view_att_def)
  have same: "(view c)[i := view_att ?a] = view c"
    using i by (simp add: view_def get_att_def list_update_same_conv)
  have unfold: "pathcomp_add_or_replace w c k val orig action =
      (case ?act of
         PATHCOMP_ACTION_REPLACE \<Rightarrow> rbind (att_replace_value w ?a val orig) (\<lambda>(a, w1). Inr (put_att i a c, w1))
       | PATHCOMP_ACTION_ADD \<Rightarrow> Inr (put_att i (att_add_value ?a val) c, w)
       | PATHCOMP_ACTION_NONE \<Rightarrow> rbind (value_free w val) (\<lambda>w1. Inr (c, w1))
       | PATHCOMP_ACTION_ADD_IF \<Rightarrow> Inl Assert_Fail)"
    using Some by (simp add: pathcomp_add_or_replace_def resolve_def inherited_def att_get_origin_def Let_def)
  show ?thesis
  proof (cases ?act)
    case PATHCOMP_ACTION_REPLACE
    then show ?thesis using replace_ok [OF c i(1), of orig] unfold v i(2)
      by (auto simp: rok_rbind put_att_view vchange_def elim!: rok_mono)
  next
    case PATHCOMP_ACTION_ADD
    then show ?thesis using add_value_ok [OF c i(1)] unfold v i(2)
      by (simp add: put_att_view vchange_def)
  next
    case PATHCOMP_ACTION_NONE
    then show ?thesis using value_free_ok [OF c(2)] unfold v i(2) same c(1)
      by (auto simp: rok_rbind vchange_def sound_def view_att_def elim!: rok_mono)
  next
    case PATHCOMP_ACTION_ADD_IF
    then show ?thesis by (auto simp: resolve_def split: if_splits)
  qed
qed

text \<open>The value a text stands for, without addresses.\<close>

definition value_of :: "string \<Rightarrow> value_t" where
  "value_of t = (case block_of ''lua'' t of Some src \<Rightarrow> VALUE_LUA (preamble @ src) None | None \<Rightarrow> VALUE_STRING (0, t))"

definition c_text :: "string \<Rightarrow> bool" where
  "c_text t \<longleftrightarrow> NUL \<notin> set t \<and> length t + 20 < 2 ^ 64"

lemma value_new_auto_owns:
  assumes "c_text t" "owns w ns"
  shows "rok (value_new_auto w t) (\<lambda>(v, w'). erase v = value_of t \<and> owns w' (stamps v @ ns) \<and> same_lua w' w)"
  using assms owns_fresh [OF assms(2)]
  by (simp add: value_new_auto_ok c_text_def value_of_def stamps_def same_lua_def split: option.split)

lemma set_or_add_ok:
  assumes "sound c w" "c_text t"
  shows "rok (rbind (value_new_auto w t) (\<lambda>(v, w1). pathcomp_add_or_replace w1 c k v orig action))
     (\<lambda>(c', w'). sound c' w' \<and> same_frame c' c \<and> same_lua w' w \<and>
       view c' = vput (pc_name c) k (value_of t) orig action (view c))"
proof -
  have "owns w (comp_stamps c)" using assms(1) by (simp add: sound_def)
  note new = value_new_auto_owns [OF assms(2) this]
  show ?thesis unfolding rok_rbind
  proof (rule rok_mono [OF new], goal_cases)
  case (1 x)
  obtain v w1 where x: "x = (v, w1)" by (cases x)
  have "rok (pathcomp_add_or_replace w1 c k v orig action) (\<lambda>(c', w'). sound c' w' \<and> same_frame c' c \<and> same_lua w' w1 \<and>
     view c' = vput (pc_name c) k (erase v) orig action (view c))"
    using 1 x assms(1) by (intro pathcomp_add_or_replace_ok) (auto simp: sound_def)
  then show ?case using 1 x by (auto simp: same_lua_def elim!: rok_mono)
  qed
qed

section \<open>Entries in the order they are added\<close>

type_synonym event = "string \<times> string \<times> string"

text \<open>
  The entries that building from a section runs through: key, value and section. The flag tells
  whether the list is complete, or cut off because the fuel ran out inside a copied section.
\<close>

primrec expand_entries :: "(string \<Rightarrow> event list \<times> bool) \<Rightarrow> string \<Rightarrow> cf_kv_t list \<Rightarrow> event list \<times> bool" where
  "expand_entries copy sec [] = ([], True)"
| "expand_entries copy sec (kv # kvs) =
     (let e = (kv_key kv, kv_value kv, sec);
        (sub, c1) = (if kv_key kv = PATHCOMP_ATT_COPY then copy (kv_value kv) else ([], True));
        (es, c2) = (if c1 then expand_entries copy sec kvs else ([], False)) in
      (e # sub @ es, c2))"

primrec expand_sections :: "(string \<Rightarrow> event list \<times> bool) \<Rightarrow> string \<Rightarrow> cf_section_t list \<Rightarrow> event list \<times> bool" where
  "expand_sections copy name [] = ([], True)"
| "expand_sections copy name (s # ss) =
     (if sec_name s = name then
        let (es, c1) = expand_entries copy (sec_name s) (sec_entries s);
          (es2, c2) = (if c1 then expand_sections copy name ss else ([], False)) in (es @ es2, c2)
      else expand_sections copy name ss)"

primrec expand :: "nat \<Rightarrow> cf_section_t list \<Rightarrow> string \<Rightarrow> event list \<times> bool" where
  "expand 0 secs name = ([], False)"
| "expand (Suc n) secs name = expand_sections (expand n secs) name secs"

text \<open>Adding one entry, a list of them, and a list that may be cut off.\<close>

definition add_event :: "event \<Rightarrow> pathcomp_t \<Rightarrow> 'g world \<Rightarrow> (pathcomp_t \<times> 'g world) res" where
  "add_event e c w = (case e of (k, t, sec) \<Rightarrow>
     rbind (value_new_auto w t) (\<lambda>(v, w1). pathcomp_add_or_replace w1 c k v (Some sec) PATHCOMP_ACTION_ADD_IF))"

primrec add_events :: "event list \<Rightarrow> pathcomp_t \<Rightarrow> 'g world \<Rightarrow> (pathcomp_t \<times> 'g world) res" where
  "add_events [] c w = Inr (c, w)"
| "add_events (e # es) c w = rbind (add_event e c w) (\<lambda>(c1, w1). add_events es c1 w1)"

definition run_events :: "event list \<times> bool \<Rightarrow> pathcomp_t \<Rightarrow> 'g world \<Rightarrow> (pathcomp_t \<times> 'g world) res option" where
  "run_events ec c w =
     (case add_events (fst ec) c w of Inl e \<Rightarrow> Some (Inl e) | Inr r \<Rightarrow> if snd ec then Some (Inr r) else None)"

lemma obind_simps [simp]:
  "obind None f = None" "obind (Some (Inl e)) f = Some (Inl e)" "obind (Some (Inr x)) f = f x"
  by (simp_all add: obind_def)

lemma run_events_Nil: "run_events ([], True) c w = Some (Inr (c, w))" "run_events ([], False) c w = None"
  by (simp_all add: run_events_def)

lemma run_events_Cons:
  "run_events (e # es, b) c w = obind (Some (add_event e c w)) (\<lambda>(c1, w1). run_events (es, b) c1 w1)"
  by (cases "add_event e c w") (auto simp: run_events_def split: sum.split)

lemma run_events_append:
  "run_events (es @ fs, b) c w = obind (run_events (es, True) c w) (\<lambda>(c1, w1). run_events (fs, b) c1 w1)"
proof (induction es arbitrary: c w)
  case (Cons e es)
  then show ?case by (cases "add_event e c w") (auto simp: run_events_Cons)
qed (simp add: run_events_Nil)

lemma run_events_cut: "run_events (es, False) c w = obind (run_events (es, True) c w) (\<lambda>_. None)"
  using run_events_append [of es "[]" False c w] by (simp add: run_events_Nil case_prod_unfold)

lemma obind_assoc: "obind (obind m f) g = obind m (\<lambda>x. obind (f x) g)"
  by (cases m) (auto simp: obind_def split: sum.split)

lemma obind_None: "obind (obind m (\<lambda>_. None)) f = obind m (\<lambda>_. None)"
  by (simp add: obind_assoc)

lemma entries_expand:
  "pathcomp_add_atts_from_entries (\<lambda>name. run_events (copy name)) sec kvs c w =
     run_events (expand_entries copy sec kvs) c w"
proof (induction kvs arbitrary: c w)
  case Nil
  then show ?case by (simp add: run_events_Nil)
next
  case (Cons kv kvs)
  obtain sub b where s: "(if kv_key kv = PATHCOMP_ATT_COPY then copy (kv_value kv) else ([], True)) = (sub, b)"
    by force
  obtain es b2 where e: "expand_entries copy sec kvs = (es, b2)" by force
  have step: "pathcomp_add_atts_from_entries (\<lambda>name. run_events (copy name)) sec (kv # kvs) c w =
      obind (Some (add_event (kv_key kv, kv_value kv, sec) c w)) (\<lambda>(c1, w1).
      obind (run_events (sub, b) c1 w1) (\<lambda>(c2, w2). run_events (es, b2) c2 w2))"
    using s Cons.IH e
    by (cases "value_new_auto w (kv_value kv)") (auto simp: add_event_def run_events_Nil split: if_splits)
  show ?case
  proof (cases b)
    case True
    then show ?thesis using s e step by (simp add: run_events_Cons run_events_append)
  next
    case False
    then show ?thesis using s step
      by (simp add: run_events_Cons run_events_cut [of sub] obind_None case_prod_unfold)
  qed
qed

lemma sections_expand:
  "sections_loop (pathcomp_add_atts_from_entries (\<lambda>name. run_events (copy name))) name ss c w =
     run_events (expand_sections copy name ss) c w"
proof (induction ss arbitrary: c w)
  case Nil
  then show ?case by (simp add: run_events_Nil)
next
  case (Cons s ss)
  obtain es b where e: "expand_entries copy (sec_name s) (sec_entries s) = (es, b)" by force
  obtain es2 b2 where e2: "expand_sections copy name ss = (es2, b2)" by force
  show ?case
  proof (cases "sec_name s = name \<and> \<not> b")
    case True
    then show ?thesis using e Cons
      by (simp add: find_section_with_name_def entries_expand run_events_cut [of es] obind_None case_prod_unfold)
  next
    case False
    then show ?thesis using e e2 Cons
      by (auto simp: find_section_with_name_def entries_expand run_events_append)
  qed
qed

lemma make_from_config_expand:
  fixes w :: "'g world"
  shows "pathcomp_add_atts_from_sections n (Some cf) name c w = run_events (expand n (cf_sections cf) name) c w"
proof (induction n arbitrary: name c w)
  case 0
  then show ?case by (simp add: run_events_Nil)
next
  case (Suc n)
  then have "(pathcomp_add_atts_from_sections n (Some cf) :: string \<Rightarrow> 'g build) = (\<lambda>name. run_events (expand n (cf_sections cf) name))"
    by (intro ext) simp
  then show ?case by (simp add: sections_expand)
qed

section \<open>What the entries amount to\<close>

definition build_view :: "string \<Rightarrow> event list \<Rightarrow> aview \<Rightarrow> aview" where
  "build_view name es vs = fold (\<lambda>(k, t, sec). vput name k (value_of t) (Some sec) PATHCOMP_ACTION_ADD_IF) es vs"

lemma add_events_ok:
  assumes "sound c w" "\<forall>e\<in>set es. c_text (fst (snd e))"
  shows "rok (add_events es c w) (\<lambda>(c', w'). sound c' w' \<and> same_frame c' c \<and> same_lua w' w \<and>
     view c' = build_view (pc_name c) es (view c))"
  using assms
proof (induction es arbitrary: c w)
  case Nil
  then show ?case by (simp add: build_view_def)
next
  case (Cons e es)
  obtain k t sec where e: "e = (k, t, sec)" by (cases e)
  have "rok (add_event e c w) (\<lambda>(c', w'). sound c' w' \<and> same_frame c' c \<and> same_lua w' w \<and>
       view c' = vput (pc_name c) k (value_of t) (Some sec) PATHCOMP_ACTION_ADD_IF (view c))"
    using set_or_add_ok [OF Cons.prems(1), of t k] Cons.prems(2) e by (simp add: add_event_def)
  then show ?case unfolding add_events.simps rok_rbind
  proof (rule rok_mono, goal_cases)
    case (1 x)
    obtain c1 w1 where x: "x = (c1, w1)" by (cases x)
    have "rok (add_events es c1 w1) (\<lambda>(c', w'). sound c' w' \<and> same_frame c' c1 \<and> same_lua w' w1 \<and>
       view c' = build_view (pc_name c1) es (view c1))"
      using 1 x Cons.prems(2) by (intro Cons.IH) auto
    then show ?case using 1 x e by (auto simp: same_frame_def same_lua_def build_view_def elim!: rok_mono)
  qed
qed

text \<open>
  The entries for a key that count: those of the class's own sections if there are any, and
  otherwise all that were inherited.
\<close>

definition entries_for :: "string \<Rightarrow> event list \<Rightarrow> event list" where
  "entries_for k es = filter (\<lambda>e. fst e = k) es"

definition chosen :: "string \<Rightarrow> string \<Rightarrow> event list \<Rightarrow> event list" where
  "chosen name k es =
     (let own = filter (\<lambda>e. snd (snd e) = name) (entries_for k es) in if own = [] then entries_for k es else own)"

lemma build_view_look:
  "vlook k (build_view name es []) =
     (if entries_for k es = [] then None
      else Some (map (\<lambda>e. value_of (fst (snd e))) (chosen name k es), Some (snd (snd (hd (chosen name k es))))))"
proof (induction es rule: rev_induct)
  case Nil
  then show ?case by (simp add: build_view_def vlook_def entries_for_def)
next
  case (snoc e es)
  obtain j t sec where e: "e = (j, t, sec)" by (cases e)
  have bv: "build_view name (es @ [(j, t, sec)]) [] = vput name j (value_of t) (Some sec) PATHCOMP_ACTION_ADD_IF (build_view name es [])"
    by (simp add: build_view_def)
  show ?case
  proof (cases "j = k")
    case False
    then have "entries_for k (es @ [e]) = entries_for k es" by (simp add: entries_for_def e)
    then have "entries_for k (es @ [e]) = entries_for k es" "chosen name k (es @ [e]) = chosen name k es"
      by (simp_all add: chosen_def Let_def)
    then show ?thesis using snoc False unfolding e bv by (simp add: vlook_vput)
  next
    case True
    let ?own = "filter (\<lambda>e. snd (snd e) = name) (entries_for k es)"
    have "inherited name (Some (snd (snd (hd (chosen name k es))))) \<longleftrightarrow> ?own = []" if "entries_for k es \<noteq> []"
    proof (cases "?own = []")
      case True
      then have "snd (snd (hd (entries_for k es))) \<noteq> name"
        using hd_in_set [OF that] by (metis (mono_tags, lifting) filter_empty_conv)
      then show ?thesis using True by (simp add: chosen_def inherited_def)
    next
      case False
      then have "hd ?own \<in> set ?own" by (rule hd_in_set)
      then show ?thesis using False by (auto simp: chosen_def inherited_def)
    qed
    then show ?thesis
      using snoc True unfolding e bv
      by (cases "?own = []"; cases "entries_for k es = []")
        (auto simp: vlook_vput chosen_def entries_for_def vchange_def resolve_def inherited_def Let_def)
  qed
qed

section \<open>Copying without and with cycles\<close>

text \<open>A rank that falls along every \<open>copy-from\<close> entry bounds the fuel that is needed.\<close>

definition ranked :: "(string \<Rightarrow> nat) \<Rightarrow> cf_section_t list \<Rightarrow> bool" where
  "ranked rank secs \<longleftrightarrow> (\<forall>s\<in>set secs. \<forall>kv\<in>set (sec_entries s).
     kv_key kv = PATHCOMP_ATT_COPY \<longrightarrow> rank (kv_value kv) < rank (sec_name s))"

lemma expand_entries_complete:
  "\<forall>kv\<in>set kvs. kv_key kv = PATHCOMP_ATT_COPY \<longrightarrow> snd (copy (kv_value kv)) \<Longrightarrow> snd (expand_entries copy sec kvs)"
  by (induction kvs) (auto simp: Let_def split: prod.splits)

lemma expand_sections_complete:
  "\<forall>s\<in>set ss. sec_name s = name \<longrightarrow> snd (expand_entries copy (sec_name s) (sec_entries s)) \<Longrightarrow>
   snd (expand_sections copy name ss)"
  by (induction ss) (auto simp: Let_def split: prod.splits)

lemma expand_complete: "ranked rank secs \<Longrightarrow> rank name < n \<Longrightarrow> snd (expand n secs name)"
proof (induction n arbitrary: name)
  case (Suc n)
  show ?case
    unfolding expand.simps
  proof (rule expand_sections_complete, intro ballI impI, rule expand_entries_complete, intro ballI impI)
    fix s kv assume a: "s \<in> set secs" "sec_name s = name" "kv \<in> set (sec_entries s)" "kv_key kv = PATHCOMP_ATT_COPY"
    then have "rank (kv_value kv) < rank name" using Suc.prems(1) by (auto simp: ranked_def)
    then show "snd (expand n secs (kv_value kv))" using Suc by simp
  qed
qed simp

lemma expand_entries_cut:
  "kv \<in> set kvs \<Longrightarrow> kv_key kv = PATHCOMP_ATT_COPY \<Longrightarrow> \<not> snd (copy (kv_value kv)) \<Longrightarrow> \<not> snd (expand_entries copy sec kvs)"
  by (induction kvs) (auto simp: Let_def split: prod.splits)

lemma expand_sections_cut:
  "s \<in> set ss \<Longrightarrow> sec_name s = name \<Longrightarrow> \<not> snd (expand_entries copy (sec_name s) (sec_entries s)) \<Longrightarrow>
   \<not> snd (expand_sections copy name ss)"
  by (induction ss) (auto simp: Let_def split: prod.splits)

text \<open>One section copies from another.\<close>

definition copies :: "cf_section_t list \<Rightarrow> (string \<times> string) set" where
  "copies secs = {(sec_name s, kv_value kv) | s kv. s \<in> set secs \<and> kv \<in> set (sec_entries s) \<and> kv_key kv = PATHCOMP_ATT_COPY}"

lemma expand_step_cut: "(a, b) \<in> copies secs \<Longrightarrow> \<not> snd (expand n secs b) \<Longrightarrow> \<not> snd (expand (Suc n) secs a)"
proof -
  assume "(a, b) \<in> copies secs" and b: "\<not> snd (expand n secs b)"
  then obtain s kv where s: "s \<in> set secs" "sec_name s = a" "kv \<in> set (sec_entries s)"
    and kv: "kv_key kv = PATHCOMP_ATT_COPY" "kv_value kv = b"
    by (auto simp: copies_def)
  have "\<not> snd (expand_entries (expand n secs) (sec_name s) (sec_entries s))"
    using b kv by (intro expand_entries_cut [OF s(3)]) simp_all
  then show ?thesis unfolding expand.simps by (rule expand_sections_cut [OF s(1,2)])
qed

lemma expand_cycle:
  assumes "(a, a) \<in> (copies secs)\<^sup>+"
  shows "\<not> snd (expand n secs a)"
proof -
  have "\<not> snd (expand n secs b)" if "\<And>m. m < n \<Longrightarrow> \<not> snd (expand m secs a)" "(b, a) \<in> (copies secs)\<^sup>*" "b \<noteq> a \<or> n = 0" for n b
    using that(2,1,3)
  proof (induction arbitrary: n rule: converse_rtrancl_induct)
    case base
    then show ?case by simp
  next
    case (step b c)
    show ?case
    proof (cases n)
      case (Suc m)
      have "\<not> snd (expand m secs c)"
        using step.IH [of m] step.prems(1) Suc by (cases "c = a") auto
      then show ?thesis using expand_step_cut [OF step.hyps(1)] Suc by simp
    qed simp
  qed
  note chain = this
  from assms obtain b where b: "(a, b) \<in> copies secs" "(b, a) \<in> (copies secs)\<^sup>*"
    by (meson tranclD)
  show ?thesis
  proof (induction n rule: less_induct)
    case (less n)
    show ?case
    proof (cases n)
      case (Suc m)
      have "\<not> snd (expand m secs b)"
        using chain [of m b] less Suc b(2) by (cases "b = a") auto
      then show ?thesis using expand_step_cut [OF b(1)] Suc by simp
    qed simp
  qed
qed

lemma expand_entries_more:
  assumes "\<And>name. snd (copy name) \<Longrightarrow> copy' name = copy name" "snd (expand_entries copy sec kvs)"
  shows "expand_entries copy' sec kvs = expand_entries copy sec kvs"
  using assms(2)
proof (induction kvs)
  case (Cons kv kvs)
  then show ?case using assms(1) [of "kv_value kv"] by (auto simp: Let_def split: prod.splits if_splits)
qed simp

lemma expand_sections_more:
  assumes "\<And>name. snd (copy name) \<Longrightarrow> copy' name = copy name" "snd (expand_sections copy name ss)"
  shows "expand_sections copy' name ss = expand_sections copy name ss"
  using assms(2)
proof (induction ss)
  case (Cons s ss)
  then show ?case using expand_entries_more [of copy copy' "sec_name s" "sec_entries s", OF assms(1)]
    by (auto simp: Let_def split: prod.splits if_splits)
qed simp

lemma expand_Suc: "snd (expand n secs name) \<Longrightarrow> expand (Suc n) secs name = expand n secs name"
proof (induction n arbitrary: name)
  case (Suc n)
  show ?case
    unfolding expand.simps(2) [of "Suc n"] using Suc.IH Suc.prems
    by (subst expand_sections_more [of "expand n secs"]) simp_all
qed simp

lemma expand_more: "snd (expand n secs name) \<Longrightarrow> n \<le> m \<Longrightarrow> expand m secs name = expand n secs name"
proof (induction "m - n" arbitrary: m)
  case (Suc k)
  then obtain l where m: "m = Suc l" "n \<le> l" by (cases m) auto
  with Suc have "expand l secs name = expand n secs name" by simp
  then show ?case using expand_Suc [of l secs name] Suc.prems m by simp
qed simp

section \<open>New composers\<close>

text \<open>All texts of the configuration fit C strings.\<close>

definition c_sections :: "cf_section_t list \<Rightarrow> bool" where
  "c_sections secs \<longleftrightarrow> (\<forall>s\<in>set secs. \<forall>kv\<in>set (sec_entries s). c_text (kv_value kv))"

lemma expand_entries_texts:
  assumes "\<forall>kv\<in>set kvs. c_text (kv_value kv)" "\<And>name. \<forall>e\<in>set (fst (copy name)). c_text (fst (snd e))"
  shows "\<forall>e\<in>set (fst (expand_entries copy s kvs)). c_text (fst (snd e))"
  using assms(1)
proof (induction kvs)
  case (Cons kv kvs)
  then show ?case using assms(2) [of "kv_value kv"] by (auto simp: Let_def split: prod.splits if_splits)
qed simp

lemma expand_texts: "c_sections secs \<Longrightarrow> \<forall>e\<in>set (fst (expand n secs name)). c_text (fst (snd e))"
proof (induction n arbitrary: name)
  case (Suc n)
  have "\<forall>e\<in>set (fst (expand_sections (expand n secs) name ss)). c_text (fst (snd e))" if "set ss \<subseteq> set secs" for ss
    using that
  proof (induction ss)
    case (Cons s ss)
    have "\<forall>e\<in>set (fst (expand_entries (expand n secs) (sec_name s) (sec_entries s))). c_text (fst (snd e))"
      using Suc Cons.prems by (intro expand_entries_texts) (auto simp: c_sections_def)
    then show ?case using Cons by (auto simp: Let_def split: prod.splits)
  qed simp
  from this [OF subset_refl] show ?case by simp
qed simp

lemma metatable_ok:
  assumes "c_text name"
  shows "rbind (buf_init 0) (\<lambda>b. rbind (buf_addstr b ''libpathcomp::'') (\<lambda>b1. rbind (buf_addstr b1 name) (\<lambda>b2.
      rbind (buf_detach b2) (\<lambda>(blk, len, _). rbind (strdup_block blk) f)))) = f (''libpathcomp::'' @ name)"
proof -
  obtain b where b: "buf_init 0 = Inr b" "wf_buf b" "content b = []" by (rule buf_init_sized [of 0]) simp
  have "length (content b) + length ''libpathcomp::'' + 1 < 2 ^ 64" using b by simp
  from addstr_fits [OF b(2) this] b(3) obtain b1 where b1: "buf_addstr b ''libpathcomp::'' = Inr b1" "wf_buf b1"
    "content b1 = ''libpathcomp::''" by (metis append_Nil)
  have "length (content b1) + length name + 1 < 2 ^ 64" using b1 assms by (simp add: c_text_def)
  from addstr_fits [OF b1(2) this] b1(3) obtain b2 where b2: "buf_addstr b1 name = Inr b2" "wf_buf b2"
    "content b2 = ''libpathcomp::'' @ name" by metis
  have "length (content b2) + 1 < 2 ^ 64" using b2 assms by (simp add: c_text_def)
  from detach_string [OF b2(2) this] obtain blk n where "buf_detach b2 = Inr (blk, n, buf_empty)"
    "strdup_block blk = Inr (cstr (content b2))" by blast
  then show ?thesis using b b1 b2 assms by (simp add: c_text_def)
qed

lemma pathcomp_new_run:
  assumes "c_text name"
  shows "pathcomp_new L fuel (Some cf) name w =
     obind (run_events (expand fuel (cf_sections cf) name)
       \<lparr>pc_name = name, pc_attributes = [], pc_metatable = [], pc_done = False, pc_started = False\<rparr>
       (interpreter_get_state L w)) (\<lambda>(c, w1). Some (Inr (c\<lparr>pc_metatable := ''libpathcomp::'' @ name, pc_done := False,
         pc_started := False\<rparr>, w1\<lparr>w_metas := List.insert (''libpathcomp::'' @ name) (w_metas w1)\<rparr>)))"
  unfolding pathcomp_new_def Let_def pathcomp_make_from_config_def metatable_ok [OF assms] make_from_config_expand
  by simp

lemma get_state_owns: "owns w ns \<Longrightarrow> owns (interpreter_get_state L w) ns"
  by (rule owns_cong) simp_all

text \<open>The events of a new composer always succeed.\<close>

lemma new_events_ok:
  fixes w :: "'g world"
  assumes "c_sections secs" "wf_world w"
  shows "rok (add_events (fst (expand fuel secs name))
      \<lparr>pc_name = name, pc_attributes = [], pc_metatable = [], pc_done = False, pc_started = False\<rparr> (interpreter_get_state L w))
     (\<lambda>(c, w'). sound c w' \<and> pc_name c = name \<and> same_lua w' (interpreter_get_state L w) \<and>
        view c = build_view name (fst (expand fuel secs name)) [])"
proof -
  let ?c = "\<lparr>pc_name = name, pc_attributes = [], pc_metatable = [], pc_done = False, pc_started = False\<rparr>"
  have "sound ?c (interpreter_get_state L w)"
    using get_state_owns [of w "[]"] assms(2) by (simp add: sound_def good_comp_def comp_stamps_def owns_def)
  from add_events_ok [OF this expand_texts [OF assms(1), of fuel name]] show ?thesis
    by (auto simp: view_def same_frame_def elim!: rok_mono)
qed

lemma pathcomp_new_ok:
  fixes w :: "'g world"
  assumes "c_text name" "c_sections (cf_sections cf)" "wf_world w" "snd (expand fuel (cf_sections cf) name)"
  obtains c w' where "pathcomp_new L fuel (Some cf) name w = Some (Inr (c, w'))" "sound c w'" "pc_name c = name"
    "pc_metatable c = ''libpathcomp::'' @ name" "pc_metatable c \<in> set (w_metas w')" "w_lua w' \<noteq> None"
    "\<not> pc_done c" "\<not> pc_started c" "view c = build_view name (fst (expand fuel (cf_sections cf) name)) []"
proof -
  from new_events_ok [OF assms(2,3), of fuel name L] obtain c w1 where
    r: "add_events (fst (expand fuel (cf_sections cf) name))
      \<lparr>pc_name = name, pc_attributes = [], pc_metatable = [], pc_done = False, pc_started = False\<rparr>
      (interpreter_get_state L w) = Inr (c, w1)"
    and c: "sound c w1" "pc_name c = name" "same_lua w1 (interpreter_get_state L w)"
      "view c = build_view name (fst (expand fuel (cf_sections cf) name)) []"
    by (auto simp: rok_def)
  let ?m = "''libpathcomp::'' @ name"
  let ?c = "c\<lparr>pc_metatable := ?m, pc_done := False, pc_started := False\<rparr>"
  let ?w = "w1\<lparr>w_metas := List.insert ?m (w_metas w1)\<rparr>"
  have new: "pathcomp_new L fuel (Some cf) name w = Some (Inr (?c, ?w))"
    using r assms(4) by (simp add: pathcomp_new_run [OF assms(1)] run_events_def)
  have "sound ?c ?w" using c(1) by (auto simp: sound_def good_comp_def comp_stamps_def intro: owns_cong)
  moreover have "w_lua ?w \<noteq> None" using c(3) by (simp add: same_lua_def)
  ultimately show thesis using that [OF new] c by (simp add: view_def)
qed

section \<open>Clones\<close>

definition atts_stamps :: "att_t list \<Rightarrow> nat list" where
  "atts_stamps as = concat (map (\<lambda>a. stamps_of (alternatives a)) as)"

lemma atts_stamps_simps [simp]:
  "atts_stamps [] = []" "atts_stamps (a # as) = stamps_of (alternatives a) @ atts_stamps as"
  by (simp_all add: atts_stamps_def)

lemma clone_atts_ok:
  assumes "\<forall>a\<in>set as. good_att a" "owns w (atts_stamps as @ ns)"
  shows "rok (clone_atts w as) (\<lambda>(as', w'). map att_erase as' = map att_erase as \<and>
     owns w' (atts_stamps as' @ atts_stamps as @ ns) \<and> same_lua w' w)"
  using assms
proof (induction as arbitrary: w ns)
  case Nil
  then show ?case by simp
next
  case (Cons a as)
  have "case current a of None \<Rightarrow> True | Some j \<Rightarrow> j < length (alternatives a)"
    using Cons.prems(1) by (auto simp: good_att_def)
  moreover have "owns w (stamps_of (alternatives a) @ atts_stamps as @ ns)" using Cons.prems(2) by simp
  ultimately obtain a1 w1 where a1: "att_clone w a = Inr (a1, w1)" "att_erase a1 = att_erase a"
    "owns w1 (stamps_of (alternatives a1) @ stamps_of (alternatives a) @ atts_stamps as @ ns)" "same_lua w1 w"
    using att_clone_ok [of w a "atts_stamps as @ ns"] by (auto simp: rok_def same_lua_def)
  from a1(3) have "owns w1 (atts_stamps as @ (stamps_of (alternatives a1) @ stamps_of (alternatives a) @ ns))"
    by (elim owns_perm) simp
  from Cons.IH [OF _ this] Cons.prems(1) obtain as1 w2 where as1: "clone_atts w1 as = Inr (as1, w2)"
    "map att_erase as1 = map att_erase as" "same_lua w2 w1"
    "owns w2 (atts_stamps as1 @ atts_stamps as @ stamps_of (alternatives a1) @ stamps_of (alternatives a) @ ns)"
    by (auto simp: rok_def)
  from as1(4) have "owns w2 (atts_stamps (a1 # as1) @ atts_stamps (a # as) @ ns)" by (elim owns_perm) simp
  then show ?case using a1 as1 by (simp add: same_lua_def)
qed

lemma free_atts_ok:
  assumes "owns w (atts_stamps as @ ns)"
  shows "rok (free_atts w as) (\<lambda>w'. owns w' ns \<and> same_lua w' w \<and> set (w_freed w') = set (atts_stamps as) \<union> set (w_freed w))"
  using assms
proof (induction as arbitrary: w)
  case Nil
  then show ?case by simp
next
  case (Cons a as)
  have "owns w (stamps_of (alternatives a) @ atts_stamps as @ ns)" using Cons.prems by simp
  from free_values_ok [OF this] show ?case unfolding free_atts.simps att_free_def option.case rok_rbind
  proof (rule rok_mono, goal_cases)
    case (1 w1)
    then show ?case using Cons.IH [of w1] by (auto simp: same_lua_def elim!: rok_mono)
  qed
qed

lemma good_erase: "good_comp c \<longleftrightarrow> (\<forall>a\<in>set (map att_erase (pc_attributes c)). good_att a)"
  by (simp add: good_comp_def good_att_def att_erase_def)

lemma view_erase: "view c = map (\<lambda>a. (at_name a, alternatives a, origin a)) (map att_erase (pc_attributes c))"
  by (simp add: view_def view_att_def att_erase_def)

section \<open>Composers a program can reach\<close>

text \<open>
  The composers that a client of the library can have in its hands: made by \<open>pathcomp_new\<close> and
  changed, evaluated and iterated by any sequence of calls that return.
\<close>

inductive reachable :: "'g lua_api \<Rightarrow> pathcomp_t \<Rightarrow> 'g world \<Rightarrow> bool" for L :: "'g lua_api" where
  new: "reachable L c w'" if "pathcomp_new L fuel (Some cf) name w = Some (Inr (c, w'))" "wf_world w" "c_text name"
    "c_sections (cf_sections cf)"
| set_text: "reachable L c' w'" if "reachable L c w" "pathcomp_set w c k t = Inr (c', w')" "c_text t"
| add_text: "reachable L c' w'" if "reachable L c w" "pathcomp_add w c k t = Inr (c', w')" "c_text t"
| set_int: "reachable L c' w'" if "reachable L c w" "pathcomp_set_int w c k i = Inr (c', w')"
| add_int: "reachable L c' w'" if "reachable L c w" "pathcomp_add_int w c k i = Inr (c', w')"
| eval: "reachable L c' w'" if "reachable L c w" "pathcomp_eval L n c k w = Inr (s, c', w')"
| yield: "reachable L c' w'" if "reachable L c w" "pathcomp_yield L n c w = Inr (p, c', w')"
| mkdir: "reachable L c' w'" if "reachable L c w" "pathcomp_mkdir L n mkdir strerror c (fs :: string list) w = Inr (rc, fs', c', w')"
| rewind: "reachable L (pathcomp_rewind c) w" if "reachable L c w"
| advance: "reachable L (snd (pathcomp_next c)) w" if "reachable L c w"
| clone: "reachable L c' w'" if "reachable L c w" "pathcomp_clone w c = Inr (c', w')"

lemma sound_inv: "sound c w \<Longrightarrow> comp_inv (comp_shape c) c w"
  by (simp add: sound_def comp_inv_good)

lemma inv_sound:
  fixes w w' :: "'g world"
  assumes "sound c w" "comp_inv (comp_shape c) c' w'"
  shows "sound c' w'"
  using assms good_shape [of c' c] by (simp add: sound_def comp_inv_def)

lemma value_new_int_owns: "owns w ns \<Longrightarrow> owns w (stamps (value_new_int i) @ ns)" "erase (value_new_int i) = VALUE_INT i None"
  by (simp_all add: value_new_int_def stamps_def)

lemma set_add_int_ok:
  assumes "sound c w"
  shows "rok (pathcomp_add_or_replace w c k (value_new_int i) orig action)
     (\<lambda>(c', w'). sound c' w' \<and> same_frame c' c \<and> same_lua w' w \<and>
       view c' = vput (pc_name c) k (VALUE_INT i None) orig action (view c))"
  using pathcomp_add_or_replace_ok [of c w "value_new_int i" k orig action] assms
  by (simp add: sound_def value_new_int_owns)

lemma set_add_int_returns:
  assumes "sound c w"
  obtains c' w' where "pathcomp_add_or_replace w c k (value_new_int i) orig action = Inr (c', w')" "sound c' w'"
  using set_add_int_ok [OF assms, of k i orig action] by (auto simp: rok_def)

lemma mkdir_loop_world: "mkdir_loop mkdir strerror before aft fs w = (rc, fs', w') \<Longrightarrow>
   w_stamp w' = w_stamp w \<and> w_freed w' = w_freed w \<and> w_lua w' = w_lua w"
proof (induction "length aft" arbitrary: before aft fs w rule: less_induct)
  case less
  let ?sl = "takeWhile (\<lambda>c. c = CHR ''/'') aft"
  let ?nm = "takeWhile (\<lambda>c. c \<noteq> CHR ''/'') (drop (length ?sl) aft)"
  show ?case
  proof (cases "drop (length ?sl + length ?nm) aft")
    case Nil
    then show ?thesis using less.prems by (simp add: mkdir_loop.simps [of _ _ before aft] Let_def)
  next
    case (Cons c aft1)
    have "length aft1 < length aft" using arg_cong [OF Cons, of length] by simp
    from less.hyps [OF this] less.prems Cons show ?thesis
      by (simp add: mkdir_loop.simps [of _ _ before aft] Let_def split: prod.splits if_splits) auto
  qed
qed

lemma rewind_sound: "sound c w \<Longrightarrow> sound (pathcomp_rewind c) w"
  by (auto simp: sound_def pathcomp_rewind_def comp_stamps_def o_def att_rewind_def good_comp_def good_att_def head_node_def)

lemma clone_sound:
  assumes "sound c w"
  obtains c' w' where "pathcomp_clone w c = Inr (c', w')" "map att_erase (pc_attributes c') = map att_erase (pc_attributes c)"
    "owns w' (comp_stamps c' @ comp_stamps c)" "same_frame c' c" "good_comp c'" "same_lua w' w"
proof -
  have "owns w (atts_stamps (pc_attributes c) @ [])" using assms by (simp add: sound_def comp_stamps_def atts_stamps_def)
  from clone_atts_ok [OF _ this] assms obtain as w' where r: "clone_atts w (pc_attributes c) = Inr (as, w')"
    "map att_erase as = map att_erase (pc_attributes c)" "owns w' (atts_stamps as @ atts_stamps (pc_attributes c))"
    "same_lua w' w" by (auto simp: rok_def sound_def good_comp_def)
  let ?c = "\<lparr>pc_name = pc_name c, pc_attributes = as, pc_metatable = pc_metatable c,
       pc_done = pc_done c, pc_started = pc_started c\<rparr>"
  have "good_comp ?c" using assms r(2) good_erase [of ?c] good_erase [of c] by (simp add: sound_def)
  moreover have "pathcomp_clone w c = Inr (?c, w')" using r(1) by (simp add: pathcomp_clone_def)
  ultimately show thesis using that [of ?c w'] r by (simp add: comp_stamps_def atts_stamps_def same_frame_def)
qed

lemma eval_keeps:
  assumes "comp_inv sh c w" "pathcomp_eval L n c k w = Inr (s, c', w')"
  shows "comp_inv sh c' w'"
proof -
  from assms(2) obtain p where "pathcomp_eval_nocopy L n c k w = Inr (p, c', w')" by (rule eval_copyE)
  then show ?thesis using pathcomp_eval_nocopy_safe [OF assms(1), of L n k] by simp
qed

lemma eval_sound: "sound c w \<Longrightarrow> pathcomp_eval L n c k w = Inr (s, c', w') \<Longrightarrow> sound c' w'"
  by (metis inv_sound sound_inv eval_keeps)

lemma yield_sound: "sound c w \<Longrightarrow> pathcomp_yield L n c w = Inr (p, c', w') \<Longrightarrow> sound c' w'"
  by (metis inv_sound sound_inv yield_keeps)

lemma mkdir_keeps:
  fixes w w' :: "'g world"
  assumes "comp_inv sh c w" "pathcomp_mkdir L n mkdir strerror c fs w = Inr (rc, fs', c', w')"
  shows "comp_inv sh c' w'"
proof -
  obtain po c1 w1 where y: "pathcomp_yield L n c w = Inr (po, c1, w1)"
    using assms(2) by (cases "pathcomp_yield L n c w") (auto simp: pathcomp_mkdir_def)
  with assms(2) obtain p where p: "po = Some p" by (cases po) (auto simp: pathcomp_mkdir_def)
  have l: "mkdir_loop mkdir strerror [] p fs w1 = (rc, fs', w')" and c: "c1 = c'"
    using assms(2) y p by (cases "mkdir_loop mkdir strerror [] p fs w1"; simp add: pathcomp_mkdir_def)+
  have "comp_inv sh c' w1" using yield_keeps [OF assms(1) y] c by simp
  then show ?thesis using mkdir_loop_world [OF l] by (auto simp: comp_inv_def intro: owns_cong)
qed

lemma mkdir_sound: "sound c w \<Longrightarrow> pathcomp_mkdir L n mkdir strerror c fs w = Inr (rc, fs', c', w') \<Longrightarrow> sound c' w'"
  by (metis inv_sound sound_inv mkdir_keeps)

lemma set_or_add_sound:
  assumes "sound c w" "c_text t"
    and "rbind (value_new_auto w t) (\<lambda>(v, w1). pathcomp_add_or_replace w1 c k v orig action) = Inr (c', w')"
  shows "sound c' w'"
  using set_or_add_ok [OF assms(1,2), of k orig action] assms(3) by simp

lemma new_sound:
  fixes w :: "'g world"
  assumes "pathcomp_new L fuel (Some cf) name w = Some (Inr (c, w'))" "wf_world w" "c_text name" "c_sections (cf_sections cf)"
  shows "sound c w'"
proof -
  have "snd (expand fuel (cf_sections cf) name)"
    using assms(1) unfolding pathcomp_new_run [OF assms(3)] run_events_def
    by (cases "snd (expand fuel (cf_sections cf) name)") (auto simp: obind_def split: sum.splits)
  then obtain c1 w1 where "pathcomp_new L fuel (Some cf) name w = Some (Inr (c1, w1))" "sound c1 w1"
    by (rule pathcomp_new_ok [OF assms(3,4,2)])
  then show ?thesis using assms(1) by simp
qed

lemma reachable_sound: "reachable L c w \<Longrightarrow> sound c w"
proof (induction rule: reachable.induct)
  case (clone c w c' w')
  from clone_sound [OF clone.IH] clone.hyps(2) show ?case by (metis Inr_inject owns_append(1) prod.inject sound_def)
next
  case (set_int c w k i c' w')
  then show ?case by (metis Inr_inject pathcomp_set_int_def prod.inject set_add_int_returns)
next
  case (add_int c w k i c' w')
  then show ?case by (metis Inr_inject pathcomp_add_int_def prod.inject set_add_int_returns)
next
  case (advance c w)
  then show ?case using next_keeps [of c w] by (simp add: sound_def)
qed (auto simp: pathcomp_set_def pathcomp_add_def new_sound rewind_sound intro: set_or_add_sound eval_sound yield_sound mkdir_sound)

section \<open>Properties\<close>

text \<open>An example configuration: two sections, the second one copies from the first.\<close>

definition cf1 :: cf_t where
  "cf1 = \<lparr>cf_sections =
     [\<lparr>sec_name = ''base'', sec_entries = [\<lparr>kv_key = ''root'', kv_value = ''/a''\<rparr>, \<lparr>kv_key = ''x'', kv_value = ''1''\<rparr>]\<rparr>,
      \<lparr>sec_name = ''c'', sec_entries = [\<lparr>kv_key = ''copy-from'', kv_value = ''base''\<rparr>, \<lparr>kv_key = ''root'', kv_value = ''/b''\<rparr>,
         \<lparr>kv_key = ''root'', kv_value = ''/c''\<rparr>]\<rparr>]\<rparr>"

definition cf_loop :: cf_t where
  "cf_loop = \<lparr>cf_sections = [\<lparr>sec_name = ''c'', sec_entries = [\<lparr>kv_key = ''copy-from'', kv_value = ''c''\<rparr>]\<rparr>]\<rparr>"

lemma cf1_ok: "c_sections (cf_sections cf1)" "c_text ''c''" "c_sections (cf_sections cf_loop)" "wf_world world0"
  "ranked (\<lambda>s. if s = ''c'' then 1 else 0) (cf_sections cf1)"
  by (simp_all add: c_sections_def c_text_def cf1_def cf_loop_def wf_world_def world0_def ranked_def PATHCOMP_ATT_COPY_def)



text \<open>
  C15. Circular copying: when a section copies from itself, directly or through others, building
  a composer of that class never returns, whatever depth of recursion is allowed.
\<close>

theorem pathcomp_new_cycle:
  fixes w :: "'g world"
  assumes "c_text name" and "c_sections (cf_sections cf)" and "wf_world w"
    and "(name, name) \<in> (copies (cf_sections cf))\<^sup>+"
  shows "pathcomp_new L fuel (Some cf) name w = None"
  using new_events_ok [OF assms(2,3), of fuel name L] expand_cycle [OF assms(4), of fuel]
  by (auto simp: pathcomp_new_run [OF assms(1)] run_events_def rok_def)

theorem pathcomp_new_cycle_witness: "pathcomp_new lua0 10 (Some cf_loop) ''c'' world0 = None"
  by (rule pathcomp_new_cycle [OF cf1_ok(2,3,4)])
    (auto simp: copies_def cf_loop_def PATHCOMP_ATT_COPY_def intro: r_into_trancl)


lemma comp0_sound: "sound comp0 world5"
  using comp0_good by (simp add: sound_def)





definition comp_c :: pathcomp_t where
  "comp_c = \<lparr>pc_name = ''c'', pc_attributes = [], pc_metatable = ''libpathcomp::c'', pc_done = False, pc_started = False\<rparr>"

lemma comp_c_reachable: "reachable lua0 comp_c (world0\<lparr>w_lua := Some (), w_metas := [''libpathcomp::c'']\<rparr>)"
  by (rule reachable.new [of _ 1 "\<lparr>cf_sections = []\<rparr>" "''c''" world0])
    (simp_all add: pathcomp_new_run [OF cf1_ok(2)] run_events_def comp_c_def interpreter_get_state_def world0_def
      c_sections_def wf_world_def c_text_def lua0_def)

definition comp_n :: pathcomp_t where
  "comp_n = comp_c\<lparr>pc_attributes := [att_new ''n'' (value_new_int 7) None]\<rparr>"

abbreviation world_n :: "unit world" where
  "world_n \<equiv> world0\<lparr>w_lua := Some (), w_metas := [''libpathcomp::c'']\<rparr>"

lemma comp_n_reachable: "reachable lua0 comp_n world_n"
  by (rule reachable.set_int [OF comp_c_reachable, of "''n''" 7])
    (simp add: pathcomp_set_int_def pathcomp_add_or_replace_def pathcomp_retrieve_att_def comp_n_def comp_c_def
      PATHCOMP_ORIGIN_RUNTIME_def)


end
