(* ===== verification/Standalone.thy ===== *)
theory Standalone
  imports Mkdir Build
begin

text \<open>
  The command-line program, \<open>src/standalone.c\<close>: attributes given as \<open>key=value\<close> and
  \<open>key+=value\<close>, the options, and the loop that prints pathnames.

  The services of the operating system are the record \<open>system\<close>: what \<open>getopt\<close> returns for
  a command line (the options one by one, and then the operands), opening files, \<open>stat\<close>,
  \<open>mkdir\<close> and the messages of error numbers.
\<close>

section \<open>Arguments\<close>

record kv_t =
  arg_key :: string
  arg_value :: string
  arg_add :: bool

definition kv_new :: "string \<Rightarrow> string \<Rightarrow> (kv_t option \<times> string) res" where
  "kv_new arg err =
     rbind (assert_c (CHR ''='' \<in> set arg)) (\<lambda>_.
     let key = takeWhile (\<lambda>c. c \<noteq> CHR ''='') arg;
       val = drop (Suc (length key)) arg in
     if strlen key < 1 then Inr (None, pathcomp_log_error err ''empty key specified on command line'')
     else if last key = CHR ''+'' then Inr (Some \<lparr>arg_key = butlast key, arg_value = val, arg_add = True\<rparr>, err)
     else Inr (Some \<lparr>arg_key = key, arg_value = val, arg_add = False\<rparr>, err))"

definition kv_add_to_composer :: "kv_t \<Rightarrow> pathcomp_t \<Rightarrow> 'g world \<Rightarrow> (pathcomp_t \<times> 'g world) res" where
  "kv_add_to_composer kv composer w =
     (if arg_add kv then pathcomp_add w composer (arg_key kv) (arg_value kv)
      else pathcomp_set w composer (arg_key kv) (arg_value kv))"

section \<open>Options\<close>

record opt_t =
  o_class :: "string option"
  o_attributes :: "kv_t list"
  o_print_all :: bool
  o_only_existing :: bool
  o_config_file :: string
  o_do_mkdir :: bool
  o_eval_att :: "string option"

text \<open>The end of the process: the status, and what was written.\<close>

record exit_t =
  ex_status :: int
  ex_out :: string
  ex_err :: string

definition EXIT_SUCCESS :: int where "EXIT_SUCCESS = 0"
definition EXIT_FAILURE :: int where "EXIT_FAILURE = 1"

definition puts_c :: "string \<Rightarrow> string \<Rightarrow> string" where
  "puts_c out s = out @ s @ [CHR 0x0A]"

definition usage_lines :: "string list" where
  "usage_lines =
    [''Usage'',
     ''    pathcomp -c class [ -f config -aehm -x att ] key=value key=value key+=value ...'',
     [],
     ''Mandatory command-line arguments'',
     ''    -c class: use this locator class'',
     [],
     ''Options'',
     ''    -a: print all pathnames (default: print first)'',
     ''    -e: print only existing pathnames (default: print any pathname)'',
     ''    -f config: use config file 'config' (default: .pathcomprc)'',
     ''    -h: display this information'',
     ''    -m: create parent directory recursively'',
     ''    -x att: evaluate and print attribute 'att' instead of pathname'',
     [],
     ''Attributes'',
     ''    key=value: set attribute 'key' to 'value'' @ [CHR 0x27],
     ''    key+=value: add value 'value' to attribute 'key'' @ [CHR 0x27]]"

definition print_usage :: "string \<Rightarrow> string" where
  "print_usage out = puts_c out (concat (map (\<lambda>l. l @ [CHR 0x0A]) usage_lines))"

text \<open>What \<open>getopt\<close> returns, with \<open>optarg\<close> and \<open>optopt\<close>.\<close>

type_synonym getopt_t = "char \<times> string option \<times> char"

fun opt_loop :: "getopt_t list \<Rightarrow> opt_t \<Rightarrow> string \<Rightarrow> (exit_t + opt_t) res" where
  "opt_loop [] options err = Inr (Inr options)"
| "opt_loop ((opt, optarg, optopt) # xs) options err =
     (if opt = CHR ''a'' then opt_loop xs (options\<lparr>o_print_all := True\<rparr>) err
      else if opt = CHR ''c'' then
        (case optarg of None \<Rightarrow> Inl Null_Deref | Some a \<Rightarrow> opt_loop xs (options\<lparr>o_class := Some a\<rparr>) err)
      else if opt = CHR ''e'' then opt_loop xs (options\<lparr>o_only_existing := True\<rparr>) err
      else if opt = CHR ''f'' then
        (case optarg of None \<Rightarrow> Inl Null_Deref | Some a \<Rightarrow> opt_loop xs (options\<lparr>o_config_file := a\<rparr>) err)
      else if opt = CHR ''h'' then Inr (Inl \<lparr>ex_status = EXIT_SUCCESS, ex_out = print_usage [], ex_err = err\<rparr>)
      else if opt = CHR ''m'' then opt_loop xs (options\<lparr>o_do_mkdir := True\<rparr>) err
      else if opt = CHR ''x'' then
        (case optarg of None \<Rightarrow> Inl Null_Deref | Some a \<Rightarrow> opt_loop xs (options\<lparr>o_eval_att := Some a\<rparr>) err)
      else if opt = CHR ''?'' then
        Inr (Inl \<lparr>ex_status = EXIT_FAILURE, ex_out = print_usage [],
          ex_err = pathcomp_log_error err (''invalid option '' @ [CHR 0x27, optopt, CHR 0x27])\<rparr>)
      else if opt = CHR '':'' then
        Inr (Inl \<lparr>ex_status = EXIT_FAILURE, ex_out = print_usage [],
          ex_err = pathcomp_log_error err (''missing argument for option '' @ [CHR 0x27, optopt, CHR 0x27])\<rparr>)
      else Inl Assert_Fail)"

primrec args_loop :: "string list \<Rightarrow> opt_t \<Rightarrow> string \<Rightarrow> opt_t res" where
  "args_loop [] options err = Inr options"
| "args_loop (arg # xs) options err =
     rbind (kv_new arg err) (\<lambda>(kv, err1).
     rbind (assert_c (kv \<noteq> None)) (\<lambda>_.
     args_loop xs (options\<lparr>o_attributes := o_attributes options @ [the kv]\<rparr>) err1))"

definition opt_new :: "getopt_t list \<times> string list \<Rightarrow> string \<Rightarrow> (exit_t + opt_t) res" where
  "opt_new cmdline err =
     rbind (opt_loop (fst cmdline)
       \<lparr>o_class = None, o_attributes = [], o_print_all = False, o_only_existing = False,
        o_config_file = ''.pathcomprc'', o_do_mkdir = False, o_eval_att = None\<rparr> err) (\<lambda>r.
     case r of
       Inl ex \<Rightarrow> Inr (Inl ex)
     | Inr options \<Rightarrow>
         (case o_class options of
            None \<Rightarrow>
              Inr (Inl \<lparr>ex_status = EXIT_FAILURE, ex_out = print_usage [],
                ex_err = pathcomp_log_error err
                  (''class name (argument to option '' @ [CHR 0x27] @ ''-c'' @ [CHR 0x27] @ '') is mandatory'')\<rparr>)
          | Some class \<Rightarrow> rbind (args_loop (snd cmdline) options err) (\<lambda>options1. Inr (Inr options1))))"

section \<open>The program\<close>

record 'fs system =
  sys_getopt :: "string list \<Rightarrow> getopt_t list \<times> string list"
  sys_open :: "'fs \<Rightarrow> string \<Rightarrow> file_c"
  sys_stat :: "'fs \<Rightarrow> string \<Rightarrow> bool"
  sys_mkdir :: "'fs \<Rightarrow> string \<Rightarrow> int option \<times> 'fs"
  sys_errno :: "'fs \<Rightarrow> int"
  sys_strerror :: "int \<Rightarrow> string"

text \<open>What is done with one pathname.\<close>

definition main_path ::
    "'g lua_api \<Rightarrow> nat \<Rightarrow> 'fs system \<Rightarrow> opt_t \<Rightarrow> string \<Rightarrow> pathcomp_t \<Rightarrow> 'g world \<Rightarrow> 'fs \<Rightarrow> string \<Rightarrow>
     (pathcomp_t \<times> 'g world \<times> 'fs \<times> string) res" where
  "main_path L n sys options path composer w fs out =
     rbind (if o_do_mkdir options
            then rbind (pathcomp_mkdir L n (sys_mkdir sys) (sys_strerror sys) composer fs w) (\<lambda>(rc, fs1, c1, w1).
              Inr (c1, if rc = - 1
                       then log_error_w w1 (''cannot create directory: '' @ sys_strerror sys (sys_errno sys fs1)) else w1, fs1))
            else Inr (composer, w, fs)) (\<lambda>(c1, w1, fs1).
     case o_eval_att options of
       Some att \<Rightarrow>
         rbind (pathcomp_eval L n c1 att w1) (\<lambda>(s, c2, w2).
         Inr (c2, w2, fs1, case s of None \<Rightarrow> out | Some str \<Rightarrow> puts_c out str))
     | None \<Rightarrow> Inr (c1, w1, fs1, puts_c out path))"

partial_function (option) main_loop ::
    "'g lua_api \<Rightarrow> nat \<Rightarrow> 'fs system \<Rightarrow> opt_t \<Rightarrow> pathcomp_t \<Rightarrow> 'g world \<Rightarrow> 'fs \<Rightarrow> string \<Rightarrow>
     (pathcomp_t \<times> 'g world \<times> 'fs \<times> string) res option" where
  "main_loop L n sys options composer w fs out =
     (if pathcomp_done composer then Some (Inr (composer, w, fs, out))
      else case (if o_only_existing options then pathcomp_find L n (sys_stat sys fs) composer w
                 else Some (pathcomp_yield L n composer w)) of
        None \<Rightarrow> None
      | Some (Inl e) \<Rightarrow> Some (Inl e)
      | Some (Inr (path, c1, w1)) \<Rightarrow>
          (case (case path of None \<Rightarrow> Inr (c1, w1, fs, out) | Some p \<Rightarrow> main_path L n sys options p c1 w1 fs out) of
             Inl e \<Rightarrow> Some (Inl e)
           | Inr (c2, w2, fs2, out2) \<Rightarrow>
               if \<not> o_print_all options then Some (Inr (c2, w2, fs2, out2))
               else main_loop L n sys options (if o_only_existing options then c2 else snd (pathcomp_next c2)) w2 fs2 out2))"

primrec add_args :: "kv_t list \<Rightarrow> pathcomp_t \<Rightarrow> 'g world \<Rightarrow> (pathcomp_t \<times> 'g world) res" where
  "add_args [] composer w = Inr (composer, w)"
| "add_args (kv # kvs) composer w = rbind (kv_add_to_composer kv composer w) (\<lambda>(c1, w1). add_args kvs c1 w1)"

definition main_c ::
    "'g lua_api \<Rightarrow> nat \<Rightarrow> nat \<Rightarrow> 'fs system \<Rightarrow> string list \<Rightarrow> 'g world \<Rightarrow> 'fs \<Rightarrow> (exit_t \<times> 'fs) res option" where
  "main_c L n fuel sys argv w fs =
     obind (Some (opt_new (sys_getopt sys argv) (w_stderr w))) (\<lambda>r.
     case r of
       Inl ex \<Rightarrow> Some (Inr (ex, fs))
     | Inr options \<Rightarrow>
         obind (Some (pathcomp_add_config_from_file (sys_strerror sys) None (o_config_file options)
           (sys_open sys fs (o_config_file options)) w)) (\<lambda>(config, w1).
         obind (pathcomp_new L fuel config (the (o_class options)) w1) (\<lambda>(composer, w2).
         obind (Some (add_args (o_attributes options) composer w2)) (\<lambda>(c3, w3).
         obind (main_loop L n sys options c3 w3 fs []) (\<lambda>(c4, w4, fs4, out).
         obind (Some (pathcomp_free w4 (Some c4))) (\<lambda>w5.
         obind (Some (pathcomp_cleanup config w5)) (\<lambda>(_, w6).
         Some (Inr (\<lparr>ex_status = EXIT_SUCCESS, ex_out = out, ex_err = w_stderr w6\<rparr>, fs4)))))))))"

section \<open>The loop ends\<close>

lemma main_path_keeps:
  fixes w w' :: "'g world"
  assumes "comp_inv sh c w" "main_path L n sys options path c w fs out = Inr (c', w', fs', out')"
  shows "comp_inv sh c' w'"
proof -
  from assms(2) obtain c1 w1 fs1 where
    m: "(if o_do_mkdir options
         then rbind (pathcomp_mkdir L n (sys_mkdir sys) (sys_strerror sys) c fs w) (\<lambda>(rc, fs1, c1, w1).
           Inr (c1, if rc = - 1
                    then log_error_w w1 (''cannot create directory: '' @ sys_strerror sys (sys_errno sys fs1)) else w1, fs1))
         else Inr (c, w, fs)) = Inr (c1, w1, fs1)"
    and e: "(case o_eval_att options of
       Some att \<Rightarrow>
         rbind (pathcomp_eval L n c1 att w1) (\<lambda>(s, c2, w2).
         Inr (c2, w2, fs1, case s of None \<Rightarrow> out | Some str \<Rightarrow> puts_c out str))
     | None \<Rightarrow> Inr (c1, w1, fs1, puts_c out path)) = Inr (c', w', fs', out')"
    unfolding main_path_def rbind_Inr_iff by auto
  have k: "comp_inv sh c1 w1"
  proof (cases "o_do_mkdir options")
    case True
    with m obtain rc fs2 w2 where mk: "pathcomp_mkdir L n (sys_mkdir sys) (sys_strerror sys) c fs w = Inr (rc, fs2, c1, w2)"
      "w_stamp w1 = w_stamp w2" "w_freed w1 = w_freed w2"
      by (auto simp: rbind_Inr_iff split: if_splits)
    from mkdir_keeps [OF assms(1) mk(1)] mk(2,3) show ?thesis by (auto simp: comp_inv_def intro: owns_cong)
  qed (use m assms(1) in simp)
  show ?thesis
  proof (cases "o_eval_att options")
    case None
    then show ?thesis using e k by simp
  next
    case (Some a)
    with e obtain s where "pathcomp_eval L n c1 a w1 = Inr (s, c', w')" by (auto simp: rbind_Inr_iff)
    then show ?thesis by (rule eval_keeps [OF k])
  qed
qed

lemma got_step:
  fixes w w1 :: "'g world"
  assumes "sound c w" "\<not> pc_done c"
    and "(if ex then pathcomp_find L n stat c w else Some (pathcomp_yield L n c w)) = Some (Inr (path, c1, w1))"
  shows "sound c1 w1 \<and> (if ex then pc_done c1 \<or> remaining c1 < remaining c else remaining c1 = remaining c \<and> \<not> pc_done c1)"
proof (cases ex)
  case True
  with assms(3) have "pathcomp_find L n stat c w = Some (Inr (path, c1, w1))" by simp
  then have "found stat (remaining c) (Inr (path, c1, w1) :: (string option \<times> pathcomp_t \<times> 'g world) res)"
    using pathcomp_find_returns [of c w L n stat] assms(1) by (auto simp: sound_def)
  then show ?thesis using True by (cases path) (auto simp: found_def sound_def)
next
  case False
  with assms(3) have "comp_inv (comp_shape c) c1 w1" using yield_keeps [OF sound_inv [OF assms(1)]] by simp
  then show ?thesis using False inv_sound [OF assms(1)] shape_numbers [of c1 c] assms(2)
    by (simp add: comp_inv_def remaining_def)
qed

lemma main_loop_returns_aux:
  fixes w :: "'g world"
  assumes "sound c w"
  shows "\<exists>r. main_loop L n sys options c w fs out = Some r \<and>
     (case r of Inl e \<Rightarrow> True | Inr (c', w', fs', out') \<Rightarrow> sound c' w' \<and> (o_print_all options \<longrightarrow> pc_done c'))"
  using assms
proof (induction "remaining c" arbitrary: c w fs out rule: less_induct)
  case less
  show ?case
  proof (cases "pc_done c")
    case True
    then show ?thesis using less.prems by (simp add: main_loop.simps pathcomp_done_def)
  next
    case False
    let ?get = "if o_only_existing options then pathcomp_find L n (sys_stat sys fs) c w else Some (pathcomp_yield L n c w)"
    obtain r where r: "?get = Some r"
      using pathcomp_find_returns [of c w L n "sys_stat sys fs"] less.prems
      by (cases "o_only_existing options") (auto simp: sound_def)
    show ?thesis
    proof (cases r)
      case (Inl e)
      then show ?thesis using r False by (subst main_loop.simps) (simp add: pathcomp_done_def)
    next
      case (Inr y)
      obtain path c1 w1 where y: "y = (path, c1, w1)" by (cases y)
      have got: "sound c1 w1 \<and> (if o_only_existing options then pc_done c1 \<or> remaining c1 < remaining c
          else remaining c1 = remaining c \<and> \<not> pc_done c1)"
        using r Inr y less.prems False by (intro got_step) (auto split: if_splits)
      let ?do = "case path of None \<Rightarrow> Inr (c1, w1, fs, out) | Some p \<Rightarrow> main_path L n sys options p c1 w1 fs out"
      show ?thesis
      proof (cases ?do)
        case (Inl e)
        then show ?thesis using r Inr y False by (subst main_loop.simps) (simp add: pathcomp_done_def)
      next
        case did: (Inr z)
        obtain c2 w2 fs2 out2 where z: "z = (c2, w2, fs2, out2)" by (cases z)
        have k: "comp_inv (comp_shape c1) c2 w2"
          using did z got main_path_keeps [OF sound_inv] by (cases path) (auto simp: sound_inv)
        have s2: "sound c2 w2" using inv_sound [of c1 w1 c2 w2] got k by simp
        have same: "remaining c2 = remaining c1" "pc_done c2 = pc_done c1"
          using shape_numbers [of c2 c1] k by (simp_all add: comp_inv_def remaining_def)
        let ?c3 = "if o_only_existing options then c2 else snd (pathcomp_next c2)"
        have s3: "sound ?c3 w2" using s2 next_keeps [of c2 w2] by (simp add: sound_def)
        have eq: "main_loop L n sys options c w fs out =
            (if \<not> o_print_all options then Some (Inr (c2, w2, fs2, out2)) else main_loop L n sys options ?c3 w2 fs2 out2)"
          using r Inr y False did z by (subst main_loop.simps) (simp add: pathcomp_done_def)
        show ?thesis
        proof (cases "o_print_all options \<and> \<not> (o_only_existing options \<and> pc_done c2)")
          case False
          then show ?thesis using eq s2 by (auto simp: main_loop.simps pathcomp_done_def)
        next
          case True
          have "remaining ?c3 < remaining c"
            using True got same next_remaining [of c2] s2 by (auto simp: sound_def)
          then show ?thesis using less.hyps [OF _ s3] True eq by simp
        qed
      qed
    qed
  qed
qed

section \<open>What is printed\<close>

text \<open>Composers whose values are texts.\<close>

definition plain_comp :: "pathcomp_t \<Rightarrow> bool" where
  "plain_comp c \<longleftrightarrow> (\<forall>a\<in>set (pc_attributes c). \<forall>v\<in>set (alternatives a).
     \<exists>p. v = VALUE_STRING p \<and> NUL \<notin> set (snd p) \<and> length (snd p) < 2 ^ 62)"

definition text_of :: "pathcomp_t \<Rightarrow> string \<Rightarrow> string option" where
  "text_of c k = map_option (\<lambda>v. snd (the (v_result v))) (current_value c k)"

definition path_of :: "pathcomp_t \<Rightarrow> string option" where
  "path_of c = join_path (text_of c ''root'') (text_of c ''compose'')"

definition line :: "string option \<Rightarrow> string" where
  "line path = (case path of None \<Rightarrow> [] | Some p \<Rightarrow> p @ [CHR 0x0A])"

lemma plain_compD:
  assumes "plain_comp c" "i < length (pc_attributes c)" "j < length (alternatives (pc_attributes c ! i))"
  shows "\<exists>p. alternatives (pc_attributes c ! i) ! j = VALUE_STRING p \<and> NUL \<notin> set (snd p) \<and> length (snd p) < 2 ^ 62"
  using assms(1) nth_mem [OF assms(2)] nth_mem [OF assms(3)] unfolding plain_comp_def by blast

lemma plain_value:
  assumes "plain_comp c" "good_comp c"
  obtains p where "current_value c k = map_option VALUE_STRING p" "text_of c k = map_option snd p"
    "NUL \<notin> set (fmt_s (map_option snd p))" "length (fmt_s (map_option snd p)) < 2 ^ 62"
proof (cases "current_value c k")
  case None
  then show thesis using that [of None] by (simp add: text_of_def fmt_s_def)
next
  case (Some v)
  then obtain i j where ij: "pathcomp_retrieve_att c k = Some i" "current (get_att i c) = Some j"
    "v = alternatives (get_att i c) ! j"
    by (auto simp: current_value_def split: option.splits)
  have i: "i < length (pc_attributes c)"
    using ij(1) find_att_bound [of "pc_attributes c" k i] by (auto simp: pathcomp_retrieve_att_def)
  then have "j < length (alternatives (get_att i c))"
    using ij(2) assms(2) by (auto simp: good_comp_def good_att_def get_att_def dest!: bspec [of _ _ "pc_attributes c ! i"])
  then obtain p where "v = VALUE_STRING p" "NUL \<notin> set (snd p)" "length (snd p) < 2 ^ 62"
    using plain_compD [OF assms(1) i, of j] ij(3) by (auto simp: get_att_def)
  then show thesis using that [of "Some p"] Some by (simp add: text_of_def fmt_s_def)
qed

lemma plain_yield:
  assumes "plain_comp c" "sound c w"
  shows "pathcomp_yield L n c w = Inr (path_of c, c, w)"
proof -
  have g: "good_comp c" "owns w (comp_stamps c)" using assms(2) by (simp_all add: sound_def)
  from plain_value [OF assms(1) g(1)] obtain r where
    r: "current_value c ''root'' = map_option VALUE_STRING r" "text_of c ''root'' = map_option snd r"
    "NUL \<notin> set (fmt_s (map_option snd r))" "length (fmt_s (map_option snd r)) < 2 ^ 62" .
  from plain_value [OF assms(1) g(1)] obtain q where
    q: "current_value c ''compose'' = map_option VALUE_STRING q" "text_of c ''compose'' = map_option snd q"
    "NUL \<notin> set (fmt_s (map_option snd q))" "length (fmt_s (map_option snd q)) < 2 ^ 62" .
  have "live w q" using string_stays_live [OF sound_inv [OF assms(2)] sound_inv [OF assms(2)]] q(1) by (cases q) auto
  then have "pathcomp_eval L n c ''compose'' w = Inr (map_option snd q, c, w)"
    using eval_string [of c "''compose''" _ L n w] eval_absent [of c "''compose''" L n w] q(1)
    by (cases q) (auto simp: pathcomp_eval_def deref_w_def)
  from yield_joins [OF g r(1) this] r q show ?thesis by (simp add: path_of_def)
qed

lemma plain_same: assumes "same_atts c d" "plain_comp d" shows "plain_comp c"
proof -
  have "map alternatives (map att_fixed (pc_attributes c)) = map alternatives (map att_fixed (pc_attributes d))"
    using assms(1) by (simp only: same_atts_def)
  from arg_cong [OF this, of set] have "alternatives ` set (pc_attributes c) = alternatives ` set (pc_attributes d)"
    by (simp add: image_image)
  moreover have "plain_comp c \<longleftrightarrow> (\<forall>vs\<in>alternatives ` set (pc_attributes c). \<forall>v\<in>set vs.
     \<exists>p. v = VALUE_STRING p \<and> NUL \<notin> set (snd p) \<and> length (snd p) < 2 ^ 62)" for c
    by (simp add: plain_comp_def)
  ultimately show ?thesis using assms(2) by (simp only:)
qed

lemma main_loop_prints:
  fixes w :: "'g world"
  assumes c: "at_start c" "owns w (comp_stamps c)" "plain_comp c"
    and opts: "o_print_all options" "\<not> o_only_existing options" "\<not> o_do_mkdir options" "o_eval_att options = None"
    and k: "k \<le> ncomb c"
  shows "main_loop L n sys options (after k c) w fs out =
     Some (Inr (after (ncomb c) c, w, fs, out @ concat (map (\<lambda>j. line (path_of (after j c))) [k..<ncomb c])))"
  using k
proof (induction "ncomb c - k" arbitrary: k out)
  case 0
  then show ?case using after_all [OF c(1)] by (simp add: main_loop.simps pathcomp_done_def)
next
  case (Suc m)
  then have k: "k < ncomb c" by simp
  note st = after_state [OF c(1) k]
  have s: "sound (after k c) w" using st c(2) same_atts_stamps [of "after k c" c] by (simp add: sound_def)
  have p: "plain_comp (after k c)" using plain_same [of "after k c" c] st c(3) by simp
  have "main_loop L n sys options (after k c) w fs out =
      main_loop L n sys options (after (Suc k) c) w fs (out @ line (path_of (after k c)))"
    using st opts plain_yield [OF p s, of L n]
    by (subst main_loop.simps) (simp add: pathcomp_done_def main_path_def line_def puts_c_def split: option.split)
  also have "\<dots> = Some (Inr (after (ncomb c) c, w, fs,
      (out @ line (path_of (after k c))) @ concat (map (\<lambda>j. line (path_of (after j c))) [Suc k..<ncomb c])))"
    using Suc by (intro Suc.hyps) simp_all
  finally show ?case using k by (simp add: upt_conv_Cons)
qed

section \<open>Properties\<close>


definition sys0 :: "unit system" where
  "sys0 = \<lparr>sys_getopt = (\<lambda>argv. ([], argv)), sys_open = (\<lambda>fs f. \<lparr>fl_open = Inl 2, fl_close = None\<rparr>), sys_stat = (\<lambda>fs f. f = ''b/x''),
     sys_mkdir = (\<lambda>fs f. (None, fs)), sys_errno = (\<lambda>fs. 0), sys_strerror = (\<lambda>e. [])\<rparr>"

definition opts0 :: opt_t where
  "opts0 = \<lparr>o_class = Some ''c'', o_attributes = [], o_print_all = True, o_only_existing = False,
        o_config_file = ''.pathcomprc'', o_do_mkdir = False, o_eval_att = None\<rparr>"



lemma comp0_plain: "plain_comp comp0"
  by (simp add: plain_comp_def comp0_def str_att_def enumerate_eq_zip)


text \<open>
  Attributes on the command line: an argument without an equals sign aborts the program, an
  empty key is refused with a message, \<open>k=v\<close> sets and \<open>k+=v\<close> adds. The test for an
  empty key comes before the plus sign is taken off, so that \<open>+=v\<close> is accepted and
  adds to an attribute with the empty name.
\<close>

theorem kv_new_splits:
  assumes "CHR ''='' \<notin> set k" and "length k + 1 < 2 ^ 64"
  shows "kv_new k err = Inl Assert_Fail \<and>
     kv_new (''='' @ v) err = Inr (None, pathcomp_log_error err ''empty key specified on command line'') \<and>
     kv_new (k @ ''+='' @ v) err = Inr (Some \<lparr>arg_key = k, arg_value = v, arg_add = True\<rparr>, err) \<and>
     (k \<noteq> [] \<and> last k \<noteq> CHR ''+'' \<longrightarrow>
       kv_new (k @ ''='' @ v) err = Inr (Some \<lparr>arg_key = k, arg_value = v, arg_add = False\<rparr>, err))"
proof -
  have t: "takeWhile (\<lambda>c. c \<noteq> CHR ''='') (k @ CHR ''='' # v) = k"
    "takeWhile (\<lambda>c. c \<noteq> CHR ''='') (k @ CHR ''+'' # CHR ''='' # v) = k @ ''+''"
    using assms(1) by (auto simp: takeWhile_append2 intro: takeWhile_append2 [THEN trans])
  have "\<not> strlen (k @ ''+'') < 1" "k \<noteq> [] \<Longrightarrow> \<not> strlen k < 1"
    using assms(2) strlen_unat [of "k @ ''+''"] strlen_unat [of k] by (auto simp: word_less_nat_alt)
  moreover have "strlen [] < 1" by (simp add: strlen_def)
  ultimately show ?thesis using assms(1) t by (simp add: kv_new_def Let_def)
qed

theorem kv_new_splits_witness:
  "kv_new ''k'' [] = Inl Assert_Fail \<and>
     kv_new (''='' @ ''v'') [] = Inr (None, pathcomp_log_error [] ''empty key specified on command line'') \<and>
     kv_new (''k'' @ ''+='' @ ''v'') [] = Inr (Some \<lparr>arg_key = ''k'', arg_value = ''v'', arg_add = True\<rparr>, []) \<and>
     kv_new (''k'' @ ''='' @ ''v'') [] = Inr (Some \<lparr>arg_key = ''k'', arg_value = ''v'', arg_add = False\<rparr>, [])"
  using kv_new_splits [of "''k''" "[]" "''v''"] by simp

text \<open>The last argument given for an option.\<close>

definition last_arg :: "char \<Rightarrow> getopt_t list \<Rightarrow> string option \<Rightarrow> string option" where
  "last_arg c opts d = fold (\<lambda>(opt, arg, _) r. if opt = c then arg else r) opts d"

definition valid_opt :: "getopt_t \<Rightarrow> bool" where
  "valid_opt o1 \<longleftrightarrow> (case o1 of (opt, arg, _) \<Rightarrow> opt \<in> set ''aem'' \<or> opt \<in> set ''cfx'' \<and> arg \<noteq> None)"

lemma opt_loop_valid:
  "\<forall>o1\<in>set opts. valid_opt o1 \<Longrightarrow>
   opt_loop opts options err = Inr (Inr (options\<lparr>
     o_print_all := o_print_all options \<or> CHR ''a'' \<in> fst ` set opts,
     o_only_existing := o_only_existing options \<or> CHR ''e'' \<in> fst ` set opts,
     o_do_mkdir := o_do_mkdir options \<or> CHR ''m'' \<in> fst ` set opts,
     o_class := last_arg CHR ''c'' opts (o_class options),
     o_config_file := the (last_arg CHR ''f'' opts (Some (o_config_file options))),
     o_eval_att := last_arg CHR ''x'' opts (o_eval_att options)\<rparr>))"
proof (induction opts arbitrary: options)
  case Nil
  then show ?case by (simp add: last_arg_def)
next
  case (Cons o1 opts)
  obtain c a p where o1: "o1 = (c, a, p)" by (cases o1)
  with Cons.prems consider "c = CHR ''a''" | "c = CHR ''e''" | "c = CHR ''m''"
    | t where "c = CHR ''c''" "a = Some t" | t where "c = CHR ''f''" "a = Some t" | t where "c = CHR ''x''" "a = Some t"
    by (auto simp: valid_opt_def)
  then show ?case using Cons o1 by cases (simp_all add: last_arg_def)
qed

text \<open>
  Options: for a command line with valid options the flags are those that occur, the class,
  the configuration file and the attribute to print are the last ones given; without a class
  the program prints a message and the usage and exits with a failure.
\<close>

theorem opt_new_options:
  assumes "\<forall>o1\<in>set opts. valid_opt o1"
  shows "opt_new (opts, args) err =
    (if last_arg CHR ''c'' opts None = None
     then Inr (Inl \<lparr>ex_status = 1, ex_out = print_usage [],
       ex_err = pathcomp_log_error err (''class name (argument to option '' @ [CHR 0x27] @ ''-c'' @ [CHR 0x27] @ '') is mandatory'')\<rparr>)
     else rbind (args_loop args
       \<lparr>o_class = last_arg CHR ''c'' opts None, o_attributes = [],
        o_print_all = (CHR ''a'' \<in> fst ` set opts), o_only_existing = (CHR ''e'' \<in> fst ` set opts),
        o_config_file = the (last_arg CHR ''f'' opts (Some ''.pathcomprc'')),
        o_do_mkdir = (CHR ''m'' \<in> fst ` set opts), o_eval_att = last_arg CHR ''x'' opts None\<rparr> err) (\<lambda>o1. Inr (Inr o1)))"
  using opt_loop_valid [OF assms, of _ err] by (auto simp: opt_new_def EXIT_FAILURE_def split: option.split)

theorem opt_new_options_witness:
  "opt_new ([(CHR ''a'', None, NUL), (CHR ''c'', Some ''img'', NUL)], [''x=1'']) [] =
     rbind (args_loop [''x=1'']
       \<lparr>o_class = Some ''img'', o_attributes = [], o_print_all = True, o_only_existing = False,
        o_config_file = ''.pathcomprc'', o_do_mkdir = False, o_eval_att = None\<rparr> []) (\<lambda>o1. Inr (Inr o1))"
  using opt_new_options [of "[(CHR ''a'', None, NUL), (CHR ''c'', Some ''img'', NUL)]" "[''x=1'']" "[]"]
  by (simp add: valid_opt_def last_arg_def)

end
