(* ===== verification/Lopcodes.thy ===== *)
theory Lopcodes
  imports Prelude
begin

text \<open>
  The instructions of the Lua virtual machine, \<open>liblua/src/lopcodes.h\<close> and
  \<open>liblua/src/lopcodes.c\<close>: an instruction is an unsigned number of 32 bits that holds an opcode of
  6 bits and the arguments A (8 bits), C and B (9 bits each), where B and C together make the
  argument Bx, and sBx is Bx in excess notation. The macros that read and write the fields become
  functions on words; the assigning ones return the new instruction.
\<close>

unbundle bit_operations_syntax

section \<open>Fields\<close>

type_synonym Instruction = "32 word"

datatype OpMode = iABC | iABx | iAsBx

definition SIZE_C :: nat where "SIZE_C = 9"
definition SIZE_B :: nat where "SIZE_B = 9"
definition SIZE_Bx :: nat where "SIZE_Bx = SIZE_C + SIZE_B"
definition SIZE_A :: nat where "SIZE_A = 8"
definition SIZE_OP :: nat where "SIZE_OP = 6"
definition POS_OP :: nat where "POS_OP = 0"
definition POS_A :: nat where "POS_A = POS_OP + SIZE_OP"
definition POS_C :: nat where "POS_C = POS_A + SIZE_A"
definition POS_B :: nat where "POS_B = POS_C + SIZE_C"
definition POS_Bx :: nat where "POS_Bx = POS_C"

definition MAXARG_Bx :: int where "MAXARG_Bx = 2 ^ SIZE_Bx - 1"
definition MAXARG_sBx :: int where "MAXARG_sBx = drop_bit 1 MAXARG_Bx"
definition MAXARG_A :: int where "MAXARG_A = 2 ^ SIZE_A - 1"
definition MAXARG_B :: int where "MAXARG_B = 2 ^ SIZE_B - 1"
definition MAXARG_C :: int where "MAXARG_C = 2 ^ SIZE_C - 1"

definition MASK1 :: "nat \<Rightarrow> nat \<Rightarrow> Instruction" where
  "MASK1 n p = push_bit p (NOT (push_bit n (NOT 0)))"

definition MASK0 :: "nat \<Rightarrow> nat \<Rightarrow> Instruction" where
  "MASK0 n p = NOT (MASK1 n p)"

text \<open>The pattern that the macros share: a field of \<open>n\<close> bits at position \<open>p\<close>.\<close>

definition GETFIELD :: "nat \<Rightarrow> nat \<Rightarrow> Instruction \<Rightarrow> int" where
  "GETFIELD n p i = int (unat (drop_bit p i AND MASK1 n 0))"

definition SETFIELD :: "nat \<Rightarrow> nat \<Rightarrow> Instruction \<Rightarrow> int \<Rightarrow> Instruction" where
  "SETFIELD n p i u = (i AND MASK0 n p) OR (push_bit p (word_of_int u) AND MASK1 n p)"

definition GET_OPCODE :: "Instruction \<Rightarrow> int" where "GET_OPCODE = GETFIELD SIZE_OP POS_OP"
definition SET_OPCODE :: "Instruction \<Rightarrow> int \<Rightarrow> Instruction" where "SET_OPCODE = SETFIELD SIZE_OP POS_OP"
definition GETARG_A :: "Instruction \<Rightarrow> int" where "GETARG_A = GETFIELD SIZE_A POS_A"
definition SETARG_A :: "Instruction \<Rightarrow> int \<Rightarrow> Instruction" where "SETARG_A = SETFIELD SIZE_A POS_A"
definition GETARG_B :: "Instruction \<Rightarrow> int" where "GETARG_B = GETFIELD SIZE_B POS_B"
definition SETARG_B :: "Instruction \<Rightarrow> int \<Rightarrow> Instruction" where "SETARG_B = SETFIELD SIZE_B POS_B"
definition GETARG_C :: "Instruction \<Rightarrow> int" where "GETARG_C = GETFIELD SIZE_C POS_C"
definition SETARG_C :: "Instruction \<Rightarrow> int \<Rightarrow> Instruction" where "SETARG_C = SETFIELD SIZE_C POS_C"
definition GETARG_Bx :: "Instruction \<Rightarrow> int" where "GETARG_Bx = GETFIELD SIZE_Bx POS_Bx"
definition SETARG_Bx :: "Instruction \<Rightarrow> int \<Rightarrow> Instruction" where "SETARG_Bx = SETFIELD SIZE_Bx POS_Bx"

definition GETARG_sBx :: "Instruction \<Rightarrow> int" where
  "GETARG_sBx i = GETARG_Bx i - MAXARG_sBx"

definition SETARG_sBx :: "Instruction \<Rightarrow> int \<Rightarrow> Instruction" where
  "SETARG_sBx i b = SETARG_Bx i (b + MAXARG_sBx)"

definition CREATE_ABC :: "int \<Rightarrow> int \<Rightarrow> int \<Rightarrow> int \<Rightarrow> Instruction" where
  "CREATE_ABC op a b c =
     push_bit POS_OP (word_of_int op) OR push_bit POS_A (word_of_int a) OR push_bit POS_B (word_of_int b)
       OR push_bit POS_C (word_of_int c)"

definition CREATE_ABx :: "int \<Rightarrow> int \<Rightarrow> int \<Rightarrow> Instruction" where
  "CREATE_ABx op a bc =
     push_bit POS_OP (word_of_int op) OR push_bit POS_A (word_of_int a) OR push_bit POS_Bx (word_of_int bc)"

text \<open>Arguments that are a register or a constant.\<close>

definition BITRK :: int where "BITRK = push_bit (SIZE_B - 1) 1"
definition ISK :: "int \<Rightarrow> bool" where "ISK x \<longleftrightarrow> x AND BITRK \<noteq> 0"
definition INDEXK :: "int \<Rightarrow> int" where "INDEXK r = r AND NOT BITRK"
definition MAXINDEXRK :: int where "MAXINDEXRK = BITRK - 1"
definition RKASK :: "int \<Rightarrow> int" where "RKASK x = x OR BITRK"
definition NO_REG :: int where "NO_REG = MAXARG_A"

section \<open>Opcodes\<close>

datatype OpCode =
    OP_MOVE | OP_LOADK | OP_LOADBOOL | OP_LOADNIL | OP_GETUPVAL | OP_GETGLOBAL | OP_GETTABLE |
    OP_SETGLOBAL | OP_SETUPVAL | OP_SETTABLE | OP_NEWTABLE | OP_SELF | OP_ADD | OP_SUB | OP_MUL |
    OP_DIV | OP_MOD | OP_POW | OP_UNM | OP_NOT | OP_LEN | OP_CONCAT | OP_JMP | OP_EQ | OP_LT |
    OP_LE | OP_TEST | OP_TESTSET | OP_CALL | OP_TAILCALL | OP_RETURN | OP_FORLOOP | OP_FORPREP |
    OP_TFORLOOP | OP_SETLIST | OP_CLOSE | OP_CLOSURE | OP_VARARG

definition opcodes :: "OpCode list" where
  "opcodes =
    [OP_MOVE, OP_LOADK, OP_LOADBOOL, OP_LOADNIL, OP_GETUPVAL, OP_GETGLOBAL, OP_GETTABLE,
     OP_SETGLOBAL, OP_SETUPVAL, OP_SETTABLE, OP_NEWTABLE, OP_SELF, OP_ADD, OP_SUB, OP_MUL, OP_DIV,
     OP_MOD, OP_POW, OP_UNM, OP_NOT, OP_LEN, OP_CONCAT, OP_JMP, OP_EQ, OP_LT, OP_LE, OP_TEST,
     OP_TESTSET, OP_CALL, OP_TAILCALL, OP_RETURN, OP_FORLOOP, OP_FORPREP, OP_TFORLOOP, OP_SETLIST,
     OP_CLOSE, OP_CLOSURE, OP_VARARG]"

definition NUM_OPCODES :: nat where "NUM_OPCODES = 38"

definition luaP_opnames :: "string list" where
  "luaP_opnames =
    [''MOVE'', ''LOADK'', ''LOADBOOL'', ''LOADNIL'', ''GETUPVAL'', ''GETGLOBAL'', ''GETTABLE'',
     ''SETGLOBAL'', ''SETUPVAL'', ''SETTABLE'', ''NEWTABLE'', ''SELF'', ''ADD'', ''SUB'', ''MUL'',
     ''DIV'', ''MOD'', ''POW'', ''UNM'', ''NOT'', ''LEN'', ''CONCAT'', ''JMP'', ''EQ'', ''LT'',
     ''LE'', ''TEST'', ''TESTSET'', ''CALL'', ''TAILCALL'', ''RETURN'', ''FORLOOP'', ''FORPREP'',
     ''TFORLOOP'', ''SETLIST'', ''CLOSE'', ''CLOSURE'', ''VARARG'']"

text \<open>The number of an opcode, and the opcode of a number; a field of 6 bits can hold numbers that are none.\<close>

definition op_number :: "OpCode \<Rightarrow> nat" where
  "op_number op = length (takeWhile (\<lambda>x. x \<noteq> op) opcodes)"

definition cast_OpCode :: "int \<Rightarrow> OpCode option" where
  "cast_OpCode n = (if 0 \<le> n \<and> n < int NUM_OPCODES then Some (opcodes ! nat n) else None)"

datatype OpArgMask = OpArgN | OpArgU | OpArgR | OpArgK

primrec mask_number :: "OpArgMask \<Rightarrow> 8 word" where
  "mask_number OpArgN = 0" | "mask_number OpArgU = 1" | "mask_number OpArgR = 2" | "mask_number OpArgK = 3"

primrec mode_number :: "OpMode \<Rightarrow> 8 word" where
  "mode_number iABC = 0" | "mode_number iABx = 1" | "mode_number iAsBx = 2"

definition opmode :: "8 word \<Rightarrow> 8 word \<Rightarrow> OpArgMask \<Rightarrow> OpArgMask \<Rightarrow> OpMode \<Rightarrow> 8 word" where
  "opmode t a b c m =
     push_bit 7 t OR push_bit 6 a OR push_bit 4 (mask_number b) OR push_bit 2 (mask_number c) OR mode_number m"

definition luaP_opmodes :: "8 word list" where
  "luaP_opmodes =
    [opmode 0 1 OpArgR OpArgN iABC,
     opmode 0 1 OpArgK OpArgN iABx,
     opmode 0 1 OpArgU OpArgU iABC,
     opmode 0 1 OpArgR OpArgN iABC,
     opmode 0 1 OpArgU OpArgN iABC,
     opmode 0 1 OpArgK OpArgN iABx,
     opmode 0 1 OpArgR OpArgK iABC,
     opmode 0 0 OpArgK OpArgN iABx,
     opmode 0 0 OpArgU OpArgN iABC,
     opmode 0 0 OpArgK OpArgK iABC,
     opmode 0 1 OpArgU OpArgU iABC,
     opmode 0 1 OpArgR OpArgK iABC,
     opmode 0 1 OpArgK OpArgK iABC,
     opmode 0 1 OpArgK OpArgK iABC,
     opmode 0 1 OpArgK OpArgK iABC,
     opmode 0 1 OpArgK OpArgK iABC,
     opmode 0 1 OpArgK OpArgK iABC,
     opmode 0 1 OpArgK OpArgK iABC,
     opmode 0 1 OpArgR OpArgN iABC,
     opmode 0 1 OpArgR OpArgN iABC,
     opmode 0 1 OpArgR OpArgN iABC,
     opmode 0 1 OpArgR OpArgR iABC,
     opmode 0 0 OpArgR OpArgN iAsBx,
     opmode 1 0 OpArgK OpArgK iABC,
     opmode 1 0 OpArgK OpArgK iABC,
     opmode 1 0 OpArgK OpArgK iABC,
     opmode 1 1 OpArgR OpArgU iABC,
     opmode 1 1 OpArgR OpArgU iABC,
     opmode 0 1 OpArgU OpArgU iABC,
     opmode 0 1 OpArgU OpArgU iABC,
     opmode 0 0 OpArgU OpArgN iABC,
     opmode 0 1 OpArgR OpArgN iAsBx,
     opmode 0 1 OpArgR OpArgN iAsBx,
     opmode 1 0 OpArgN OpArgU iABC,
     opmode 0 0 OpArgU OpArgU iABC,
     opmode 0 0 OpArgN OpArgN iABC,
     opmode 0 1 OpArgU OpArgN iABx,
     opmode 0 1 OpArgU OpArgN iABC]"


definition cast_OpMode :: "8 word \<Rightarrow> OpMode" where
  "cast_OpMode n = (if n = 0 then iABC else if n = 1 then iABx else iAsBx)"

definition cast_OpArgMask :: "8 word \<Rightarrow> OpArgMask" where
  "cast_OpArgMask n = (if n = 0 then OpArgN else if n = 1 then OpArgU else if n = 2 then OpArgR else OpArgK)"

definition getOpMode :: "OpCode \<Rightarrow> OpMode" where
  "getOpMode m = cast_OpMode (luaP_opmodes ! op_number m AND 3)"

definition getBMode :: "OpCode \<Rightarrow> OpArgMask" where
  "getBMode m = cast_OpArgMask (drop_bit 4 (luaP_opmodes ! op_number m) AND 3)"

definition getCMode :: "OpCode \<Rightarrow> OpArgMask" where
  "getCMode m = cast_OpArgMask (drop_bit 2 (luaP_opmodes ! op_number m) AND 3)"

definition testAMode :: "OpCode \<Rightarrow> bool" where
  "testAMode m \<longleftrightarrow> luaP_opmodes ! op_number m AND push_bit 6 1 \<noteq> 0"

definition testTMode :: "OpCode \<Rightarrow> bool" where
  "testTMode m \<longleftrightarrow> luaP_opmodes ! op_number m AND push_bit 7 1 \<noteq> 0"

definition LFIELDS_PER_FLUSH :: int where "LFIELDS_PER_FLUSH = 50"

section \<open>Laws of fields\<close>

lemmas field_sizes = SIZE_C_def SIZE_B_def SIZE_Bx_def SIZE_A_def SIZE_OP_def POS_OP_def POS_A_def POS_C_def POS_B_def POS_Bx_def

lemmas field_macros = GET_OPCODE_def SET_OPCODE_def GETARG_A_def SETARG_A_def GETARG_B_def SETARG_B_def
  GETARG_C_def SETARG_C_def GETARG_Bx_def SETARG_Bx_def

lemmas field_limits = MAXARG_A_def MAXARG_B_def MAXARG_C_def MAXARG_Bx_def MAXARG_sBx_def

lemma bit_MASK1: "bit (MASK1 n p) k \<longleftrightarrow> p \<le> k \<and> k < p + n \<and> k < 32"
  by (auto simp: MASK1_def bit_simps)

text \<open>A field is read off the bits of the instruction.\<close>

lemma GETFIELD_bits: "GETFIELD n p i = take_bit n (drop_bit p (uint i))"
  unfolding GETFIELD_def uint_nat [symmetric]
  by (rule bit_eqI) (auto simp: bit_simps bit_MASK1 bit_uint_iff dest: bit_imp_le_length)

lemma bit_GETFIELD: "bit (GETFIELD n p i) k \<longleftrightarrow> k < n \<and> bit i (p + k)"
  by (auto simp: GETFIELD_bits bit_simps bit_uint_iff dest: bit_imp_le_length)

lemma bit_SETFIELD:
  "bit (SETFIELD n p i u) k \<longleftrightarrow> k < 32 \<and> (if p \<le> k \<and> k < p + n then bit u (k - p) else bit i k)"
  by (auto simp: SETFIELD_def MASK0_def bit_simps bit_MASK1 bit_word_of_int_iff)

lemma GETFIELD_range: "0 \<le> GETFIELD n p i" "GETFIELD n p i < 2 ^ n"
  by (simp_all add: GETFIELD_bits)

lemma take_small: "0 \<le> u \<Longrightarrow> u < 2 ^ n \<Longrightarrow> take_bit n u = (u :: int)"
  by (simp add: take_bit_int_eq_self)

lemma get_set_same: "p + n \<le> 32 \<Longrightarrow> 0 \<le> u \<Longrightarrow> u < 2 ^ n \<Longrightarrow> GETFIELD n p (SETFIELD n p i u) = u"
  by (subst take_small [symmetric, of u n]) (auto intro!: bit_eqI simp: bit_GETFIELD bit_SETFIELD bit_simps)

lemma get_set_other: "q + m \<le> p \<or> p + n \<le> q \<Longrightarrow> q + m \<le> 32 \<Longrightarrow> GETFIELD m q (SETFIELD n p i u) = GETFIELD m q i"
  by (rule bit_eqI) (auto simp: bit_GETFIELD bit_SETFIELD)

lemma set_get_same: "SETFIELD n p i (GETFIELD n p i) = i"
  by (rule bit_word_eqI) (auto simp: bit_SETFIELD bit_GETFIELD)

lemma small_bit: "0 \<le> u \<Longrightarrow> u < 2 ^ n \<Longrightarrow> bit (u :: int) k \<Longrightarrow> k < n"
  using take_small [of u n] by (metis bit_take_bit_iff)

text \<open>Instructions put together from fields in range.\<close>

lemma bit_CREATE_ABC:
  assumes "0 \<le> op" "op < 2 ^ 6" "0 \<le> a" "a < 2 ^ 8" "0 \<le> b" "b < 2 ^ 9" "0 \<le> c" "c < 2 ^ 9"
  shows "bit (CREATE_ABC op a b c) k \<longleftrightarrow>
     k < 32 \<and> (if k < 6 then bit op k else if k < 14 then bit a (k - 6) else if k < 23 then bit c (k - 14) else bit b (k - 23))"
  using small_bit [OF assms(1,2), of k] small_bit [OF assms(3,4), of "k - 6"] small_bit [OF assms(5,6), of "k - 23"]
    small_bit [OF assms(7,8), of "k - 14"]
  by (auto simp: CREATE_ABC_def field_sizes bit_simps bit_word_of_int_iff)

lemma bit_CREATE_ABx:
  assumes "0 \<le> op" "op < 2 ^ 6" "0 \<le> a" "a < 2 ^ 8" "0 \<le> bc" "bc < 2 ^ 18"
  shows "bit (CREATE_ABx op a bc) k \<longleftrightarrow>
     k < 32 \<and> (if k < 6 then bit op k else if k < 14 then bit a (k - 6) else bit bc (k - 14))"
  using small_bit [OF assms(1,2), of k] small_bit [OF assms(3,4), of "k - 6"] small_bit [OF assms(5,6), of "k - 14"]
  by (auto simp: CREATE_ABx_def field_sizes bit_simps bit_word_of_int_iff)

lemma GETFIELD_eqI:
  assumes "0 \<le> u" "u < 2 ^ n" "\<And>k. k < n \<Longrightarrow> bit i (p + k) = bit u k"
  shows "GETFIELD n p i = u"
  by (subst take_small [OF assms(1,2), symmetric]) (auto intro!: bit_eqI simp: bit_GETFIELD bit_simps assms(3))

section \<open>Opcodes and their numbers\<close>

lemma length_opcodes [simp]: "length opcodes = NUM_OPCODES"
  by (simp add: opcodes_def NUM_OPCODES_def)

lemma op_number_less: "op_number op < NUM_OPCODES"
  by (cases op) (simp_all add: op_number_def opcodes_def NUM_OPCODES_def)

lemma opcodes_nth: "opcodes ! op_number op = op"
  by (cases op) (simp_all add: op_number_def opcodes_def)

lemma distinct_opcodes: "distinct opcodes"
  by (simp add: opcodes_def)

lemma cast_op_number: "cast_OpCode (int (op_number op)) = Some op"
  using op_number_less [of op] by (simp add: cast_OpCode_def opcodes_nth)

lemma cast_OpCode_Some: "cast_OpCode n = Some op \<longleftrightarrow> n = int (op_number op)"
proof
  assume "cast_OpCode n = Some op"
  then have n: "0 \<le> n" "nat n < NUM_OPCODES" "opcodes ! nat n = op"
    by (auto simp: cast_OpCode_def split: if_splits)
  then have "opcodes ! nat n = opcodes ! op_number op" by (simp add: opcodes_nth)
  then have "nat n = op_number op"
    using nth_eq_iff_index_eq [OF distinct_opcodes, of "nat n" "op_number op"] n(2) op_number_less [of op] by simp
  then show "n = int (op_number op)" using n(1) by simp
qed (simp add: cast_op_number)

text \<open>The table, unpacked: which opcodes have which format.\<close>

lemmas table_simps = luaP_opmodes_def op_number_def opcodes_def opmode_def cast_OpMode_def cast_OpArgMask_def

lemma getOpMode_table:
  "getOpMode op = (if op \<in> {OP_LOADK, OP_GETGLOBAL, OP_SETGLOBAL, OP_CLOSURE} then iABx
     else if op \<in> {OP_JMP, OP_FORLOOP, OP_FORPREP} then iAsBx else iABC)"
  by (cases op) (simp_all add: getOpMode_def table_simps)

lemma testTMode_table:
  "testTMode op \<longleftrightarrow> op \<in> {OP_EQ, OP_LT, OP_LE, OP_TEST, OP_TESTSET, OP_TFORLOOP}"
  by (cases op) (simp_all add: testTMode_def table_simps)

lemma testAMode_table:
  "testAMode op \<longleftrightarrow> op \<notin> {OP_SETGLOBAL, OP_SETUPVAL, OP_SETTABLE, OP_JMP, OP_EQ, OP_LT, OP_LE, OP_RETURN,
     OP_TFORLOOP, OP_SETLIST, OP_CLOSE}"
  by (cases op) (simp_all add: testAMode_def table_simps)

lemma getBMode_table:
  "getBMode op = (if op \<in> {OP_TFORLOOP, OP_CLOSE} then OpArgN
     else if op \<in> {OP_LOADBOOL, OP_GETUPVAL, OP_SETUPVAL, OP_NEWTABLE, OP_CALL, OP_TAILCALL, OP_RETURN, OP_SETLIST,
       OP_CLOSURE, OP_VARARG} then OpArgU
     else if op \<in> {OP_MOVE, OP_LOADNIL, OP_GETTABLE, OP_SELF, OP_UNM, OP_NOT, OP_LEN, OP_CONCAT, OP_JMP, OP_TEST,
       OP_TESTSET, OP_FORLOOP, OP_FORPREP} then OpArgR
     else OpArgK)"
  by (cases op) (simp_all add: getBMode_def table_simps)

lemma getCMode_table:
  "getCMode op = (if op \<in> {OP_LOADBOOL, OP_NEWTABLE, OP_TEST, OP_TESTSET, OP_CALL, OP_TAILCALL, OP_TFORLOOP, OP_SETLIST} then OpArgU
     else if op = OP_CONCAT then OpArgR
     else if op \<in> {OP_GETTABLE, OP_SETTABLE, OP_SELF, OP_ADD, OP_SUB, OP_MUL, OP_DIV, OP_MOD, OP_POW, OP_EQ, OP_LT, OP_LE} then OpArgK
     else OpArgN)"
  by (cases op) (simp_all add: getCMode_def table_simps)

lemmas op_table = getOpMode_table testTMode_table testAMode_table getBMode_table getCMode_table

section \<open>Properties\<close>

lemma limits: "MAXARG_A = 2 ^ 8 - 1" "MAXARG_B = 2 ^ 9 - 1" "MAXARG_C = 2 ^ 9 - 1" "MAXARG_Bx = 2 ^ 18 - 1" "MAXARG_sBx = 2 ^ 17 - 1"
  by (simp_all add: field_limits field_sizes)

text \<open>
  Instructions round trip: an instruction made of fields in range gives each of them back,
  in the three-argument format as well as in the format with a wide argument, where the signed
  reading of the wide argument is the excess notation; and every instruction is put
  together again from its fields.
\<close>

theorem instruction_roundtrip:
  assumes "0 \<le> op" "op < 2 ^ SIZE_OP" "0 \<le> a" "a \<le> MAXARG_A" "0 \<le> b" "b \<le> MAXARG_B" "0 \<le> c" "c \<le> MAXARG_C"
    and "- MAXARG_sBx \<le> s" "s \<le> MAXARG_sBx"
  shows "GET_OPCODE (CREATE_ABC op a b c) = op \<and> GETARG_A (CREATE_ABC op a b c) = a \<and>
    GETARG_B (CREATE_ABC op a b c) = b \<and> GETARG_C (CREATE_ABC op a b c) = c \<and>
    GET_OPCODE (CREATE_ABx op a (s + MAXARG_sBx)) = op \<and> GETARG_A (CREATE_ABx op a (s + MAXARG_sBx)) = a \<and>
    GETARG_sBx (CREATE_ABx op a (s + MAXARG_sBx)) = s \<and>
    CREATE_ABC (GET_OPCODE i) (GETARG_A i) (GETARG_B i) (GETARG_C i) = i"
proof -
  have r: "op < 2 ^ 6" "a < 2 ^ 8" "b < 2 ^ 9" "c < 2 ^ 9" "0 \<le> s + MAXARG_sBx" "s + MAXARG_sBx < 2 ^ 18"
    using assms by (simp_all add: limits SIZE_OP_def)
  note abc = bit_CREATE_ABC [OF assms(1) r(1) assms(3) r(2) assms(5) r(3) assms(7) r(4)]
  note abx = bit_CREATE_ABx [OF assms(1) r(1) assms(3) r(2,5,6)]
  have "GET_OPCODE (CREATE_ABC op a b c) = op" "GETARG_A (CREATE_ABC op a b c) = a"
    "GETARG_B (CREATE_ABC op a b c) = b" "GETARG_C (CREATE_ABC op a b c) = c"
    using assms r by (auto intro!: GETFIELD_eqI simp: field_macros field_sizes abc)
  moreover have "GET_OPCODE (CREATE_ABx op a (s + MAXARG_sBx)) = op" "GETARG_A (CREATE_ABx op a (s + MAXARG_sBx)) = a"
    "GETARG_Bx (CREATE_ABx op a (s + MAXARG_sBx)) = s + MAXARG_sBx"
    using assms r by (auto intro!: GETFIELD_eqI simp: field_macros field_sizes abx)
  moreover have "CREATE_ABC (GET_OPCODE i) (GETARG_A i) (GETARG_B i) (GETARG_C i) = i"
    using GETFIELD_range [of 6 0 i] GETFIELD_range [of 8 6 i] GETFIELD_range [of 9 23 i] GETFIELD_range [of 9 14 i]
    by (intro bit_word_eqI) (auto simp: field_macros field_sizes bit_CREATE_ABC bit_GETFIELD)
  ultimately show ?thesis by (simp add: GETARG_sBx_def)
qed

theorem instruction_roundtrip_witness:
  "GET_OPCODE (CREATE_ABC 28 1 2 3) = 28 \<and> GETARG_A (CREATE_ABC 28 1 2 3) = 1 \<and>
    GETARG_B (CREATE_ABC 28 1 2 3) = 2 \<and> GETARG_C (CREATE_ABC 28 1 2 3) = 3 \<and>
    GET_OPCODE (CREATE_ABx 28 1 (- 5 + MAXARG_sBx)) = 28 \<and> GETARG_A (CREATE_ABx 28 1 (- 5 + MAXARG_sBx)) = 1 \<and>
    GETARG_sBx (CREATE_ABx 28 1 (- 5 + MAXARG_sBx)) = - 5 \<and>
    CREATE_ABC (GET_OPCODE 77) (GETARG_A 77) (GETARG_B 77) (GETARG_C 77) = 77"
  by (rule instruction_roundtrip) (simp_all add: limits SIZE_OP_def)

text \<open>
  Writing a field: the argument that was set is read back, and no other field changes.
\<close>

theorem setarg_laws:
  assumes "0 \<le> a" "a \<le> MAXARG_A" "0 \<le> b" "b \<le> MAXARG_B" "0 \<le> c" "c \<le> MAXARG_C"
    and "- MAXARG_sBx \<le> s" "s \<le> MAXARG_sBx"
  shows "GETARG_A (SETARG_A i a) = a \<and> GETARG_B (SETARG_B i b) = b \<and> GETARG_C (SETARG_C i c) = c \<and>
    GETARG_sBx (SETARG_sBx i s) = s \<and>
    GET_OPCODE (SETARG_A i a) = GET_OPCODE i \<and> GETARG_Bx (SETARG_A i a) = GETARG_Bx i \<and>
    GET_OPCODE (SETARG_B i b) = GET_OPCODE i \<and> GETARG_A (SETARG_B i b) = GETARG_A i \<and> GETARG_C (SETARG_B i b) = GETARG_C i \<and>
    GET_OPCODE (SETARG_C i c) = GET_OPCODE i \<and> GETARG_A (SETARG_C i c) = GETARG_A i \<and> GETARG_B (SETARG_C i c) = GETARG_B i \<and>
    GET_OPCODE (SETARG_sBx i s) = GET_OPCODE i \<and> GETARG_A (SETARG_sBx i s) = GETARG_A i"
  using assms
  by (simp add: field_macros field_sizes GETARG_sBx_def SETARG_sBx_def limits get_set_same get_set_other)

theorem setarg_laws_witness:
  "GETARG_A (SETARG_A 77 200) = 200 \<and> GETARG_B (SETARG_B 77 300) = 300 \<and> GETARG_C (SETARG_C 77 511) = 511 \<and>
    GETARG_sBx (SETARG_sBx 77 (- 9)) = - 9 \<and>
    GET_OPCODE (SETARG_A 77 200) = GET_OPCODE 77 \<and> GETARG_Bx (SETARG_A 77 200) = GETARG_Bx 77 \<and>
    GET_OPCODE (SETARG_B 77 300) = GET_OPCODE 77 \<and> GETARG_A (SETARG_B 77 300) = GETARG_A 77 \<and> GETARG_C (SETARG_B 77 300) = GETARG_C 77 \<and>
    GET_OPCODE (SETARG_C 77 511) = GET_OPCODE 77 \<and> GETARG_A (SETARG_C 77 511) = GETARG_A 77 \<and> GETARG_B (SETARG_C 77 511) = GETARG_B 77 \<and>
    GET_OPCODE (SETARG_sBx 77 (- 9)) = GET_OPCODE 77 \<and> GETARG_A (SETARG_sBx 77 (- 9)) = GETARG_A 77"
  by (rule setarg_laws) (simp_all add: limits)

end
