(* ===== verification/Lobject.thy ===== *)
theory Lobject
  imports Prelude
begin

text \<open>
  The objects of the Lua virtual machine that the code checker and the binary format work on, and
  the generic functions on them, \<open>liblua/src/lobject.h\<close> and \<open>liblua/src/lobject.c\<close>.

  Strings are lists of bytes; all strings are interned, so that comparing pointers to them is
  comparing contents, and a null pointer is \<open>None\<close>. A number is kept as the 64 bits of its
  representation. The size fields of a prototype are the lengths of its arrays.

  Also what the Lua theories share: the outcome of a run of the interpreter.
\<close>

unbundle bit_operations_syntax

section \<open>Errors\<close>

text \<open>
  A run of the interpreter ends with a value or with an error: one that Lua raises (a syntax error, a
  runtime error with its message before the position is added, no memory), or a fault of the C code.
\<close>

datatype lerror = Syntax string | Runtime string | Memory | Fault cerror

type_synonym 'a lres = "lerror + 'a"

definition ebind :: "'a lres \<Rightarrow> ('a \<Rightarrow> 'b lres) \<Rightarrow> 'b lres" where
  "ebind m f = (case m of Inl e \<Rightarrow> Inl e | Inr x \<Rightarrow> f x)"

lemma ebind_simps [simp]: "ebind (Inl e) f = Inl e" "ebind (Inr x) f = f x"
  by (simp_all add: ebind_def)

lemma ebind_cong [fundef_cong]: "m = n \<Longrightarrow> (\<And>x. n = Inr x \<Longrightarrow> f x = g x) \<Longrightarrow> ebind m f = ebind n g"
  by (cases n) auto

lemma ebind_Inr_iff [res_iff]: "ebind m f = Inr y \<longleftrightarrow> (\<exists>x. m = Inr x \<and> f x = Inr y)"
  by (cases m) auto

text \<open>\<open>nofault m P\<close>: the C code of \<open>m\<close> does nothing undefined, and a value satisfies \<open>P\<close>.\<close>

definition nofault :: "'a lres \<Rightarrow> ('a \<Rightarrow> bool) \<Rightarrow> bool" where
  "nofault m P \<longleftrightarrow> (case m of Inl e \<Rightarrow> (\<forall>c. e \<noteq> Fault c) | Inr x \<Rightarrow> P x)"

lemma nofault_simps [simp]: "nofault (Inr x) P \<longleftrightarrow> P x" "nofault (Inl (Runtime w)) P" "nofault (Inl (Syntax w)) P"
  "nofault (Inl Memory) P" "\<not> nofault (Inl (Fault c)) P"
  by (simp_all add: nofault_def)

lemma nofault_ebind: "nofault (ebind m f) P \<longleftrightarrow> nofault m (\<lambda>x. nofault (f x) P)"
  by (cases m) (auto simp: nofault_def)

lemma nofault_mono: "nofault m P \<Longrightarrow> (\<And>x. m = Inr x \<Longrightarrow> P x \<Longrightarrow> Q x) \<Longrightarrow> nofault m Q"
  by (cases m) (auto simp: nofault_def)

lemma nofault_ebindI: "nofault m P \<Longrightarrow> (\<And>x. m = Inr x \<Longrightarrow> P x \<Longrightarrow> nofault (f x) Q) \<Longrightarrow> nofault (ebind m f) Q"
  unfolding nofault_ebind by (rule nofault_mono)

section \<open>Data\<close>

type_synonym TString = string

datatype TValue = TNil | TBoolean bool | TNumber "64 word" | TStr "TString option"

definition MAX_INT :: int where "MAX_INT = INT_MAX - 2"

definition LUA_TNIL :: int where "LUA_TNIL = 0"
definition LUA_TBOOLEAN :: int where "LUA_TBOOLEAN = 1"
definition LUA_TNUMBER :: int where "LUA_TNUMBER = 3"
definition LUA_TSTRING :: int where "LUA_TSTRING = 4"

primrec ttype :: "TValue \<Rightarrow> int" where
  "ttype TNil = LUA_TNIL" | "ttype (TBoolean b) = LUA_TBOOLEAN" | "ttype (TNumber n) = LUA_TNUMBER" | "ttype (TStr s) = LUA_TSTRING"

definition ttisstring :: "TValue \<Rightarrow> bool" where
  "ttisstring v \<longleftrightarrow> ttype v = LUA_TSTRING"

record LocVar =
  varname :: "TString option"
  startpc :: c_int
  endpc :: c_int

datatype Proto = Proto
  (p_k: "TValue list")
  (p_code: "32 word list")
  (p_p: "Proto list")
  (p_lineinfo: "c_int list")
  (p_locvars: "LocVar list")
  (p_upvalues: "TString option list")
  (p_source: "TString option")
  (p_linedefined: c_int)
  (p_lastlinedefined: c_int)
  (p_nups: "8 word")
  (p_numparams: "8 word")
  (p_is_vararg: "8 word")
  (p_maxstacksize: "8 word")

definition VARARG_HASARG :: "8 word" where "VARARG_HASARG = 1"
definition VARARG_ISVARARG :: "8 word" where "VARARG_ISVARARG = 2"
definition VARARG_NEEDSARG :: "8 word" where "VARARG_NEEDSARG = 4"

section \<open>Floating-point bytes\<close>

lemma unat_shift: "unat (drop_bit n w) = unat (w :: 'a::len word) div 2 ^ n"
  unfolding unat_drop_bit_eq by (rule drop_bit_eq_div)

lemma unat_Suc_le: "unat (w + 1 :: 'a::len word) \<le> unat w + 1"
  using unatSuc [of w] by (cases "1 + w = 0") (simp_all add: add.commute [of w 1])

text \<open>The loop of \<open>luaO_int2fb\<close>; the addition may wrap.\<close>

function int2fb_loop :: "32 word \<Rightarrow> nat \<Rightarrow> 32 word \<times> nat" where
  "int2fb_loop x e = (if 16 \<le> x then int2fb_loop (drop_bit 1 (x + 1)) (e + 1) else (x, e))"
  by pat_completeness auto
termination
proof (relation "measure (\<lambda>(x, e). unat x)", goal_cases)
  case (2 x e)
  have "unat (drop_bit 1 (x + 1)) = unat (x + 1) div 2" by (simp only: unat_shift power_one_right)
  moreover have "unat (x + 1) \<le> unat x + 1" by (rule unat_Suc_le)
  moreover have "16 \<le> unat x" using 2 by (simp add: word_le_nat_alt)
  ultimately show ?case by simp
qed simp

declare int2fb_loop.simps [simp del]

definition luaO_int2fb :: "32 word \<Rightarrow> int" where
  "luaO_int2fb x =
     (case int2fb_loop x 0 of (x1, e) \<Rightarrow>
        if x1 < 8 then sint x1 else push_bit 3 (int e + 1) OR (sint x1 - 8))"

definition luaO_fb2int :: "int \<Rightarrow> int" where
  "luaO_fb2int x =
     (let e = drop_bit 3 x AND 31 in
      if e = 0 then x else push_bit (nat (e - 1)) ((x AND 7) + 8))"

section \<open>Logarithms\<close>

definition log_2 :: "nat list" where
  "log_2 =
    [0,1,2,2,3,3,3,3,4,4,4,4,4,4,4,4,5,5,5,5,5,5,5,5,5,5,5,5,5,5,5,5,
     6,6,6,6,6,6,6,6,6,6,6,6,6,6,6,6,6,6,6,6,6,6,6,6,6,6,6,6,6,6,6,6,
     7,7,7,7,7,7,7,7,7,7,7,7,7,7,7,7,7,7,7,7,7,7,7,7,7,7,7,7,7,7,7,7,
     7,7,7,7,7,7,7,7,7,7,7,7,7,7,7,7,7,7,7,7,7,7,7,7,7,7,7,7,7,7,7,7,
     8,8,8,8,8,8,8,8,8,8,8,8,8,8,8,8,8,8,8,8,8,8,8,8,8,8,8,8,8,8,8,8,
     8,8,8,8,8,8,8,8,8,8,8,8,8,8,8,8,8,8,8,8,8,8,8,8,8,8,8,8,8,8,8,8,
     8,8,8,8,8,8,8,8,8,8,8,8,8,8,8,8,8,8,8,8,8,8,8,8,8,8,8,8,8,8,8,8,
     8,8,8,8,8,8,8,8,8,8,8,8,8,8,8,8,8,8,8,8,8,8,8,8,8,8,8,8,8,8,8,8]"

function log2_loop :: "32 word \<Rightarrow> int \<Rightarrow> 32 word \<times> int" where
  "log2_loop x l = (if 256 \<le> x then log2_loop (drop_bit 8 x) (l + 8) else (x, l))"
  by pat_completeness auto
termination
proof (relation "measure (\<lambda>(x, l). unat x)", goal_cases)
  case (2 x l)
  then have "256 \<le> unat x" by (simp add: word_le_nat_alt)
  moreover have "unat (drop_bit 8 x) = unat x div 256" by (simp add: unat_shift del: drop_bit_eq_div)
  ultimately show ?case by simp
qed simp

declare log2_loop.simps [simp del]

definition luaO_log2 :: "32 word \<Rightarrow> int" where
  "luaO_log2 x = (case log2_loop x (- 1) of (x1, l) \<Rightarrow> l + int (log_2 ! unat x1))"

section \<open>Names of chunks\<close>

text \<open>Appending to a buffer of \<open>cap\<close> bytes, the terminator included.\<close>

definition strcat_c :: "nat \<Rightarrow> string \<Rightarrow> string \<Rightarrow> string res" where
  "strcat_c cap out s = (if length out + length s + 1 \<le> cap then Inr (out @ s) else Inl Out_Of_Bounds)"

definition chunk_string :: "nat \<Rightarrow> size_t \<Rightarrow> string \<Rightarrow> string res" where
  "chunk_string cap bufflen source =
     (let len = of_nat (length (takeWhile (\<lambda>c. c \<noteq> CHR 0x0A \<and> c \<noteq> CHR 0x0D) source));
        bufflen1 = bufflen - 17;
        len1 = (if len > bufflen1 then bufflen1 else len) in
      rbind (strcat_c cap [] (''[string '' @ [CHR 0x22])) (\<lambda>out.
      rbind (if unat len1 < length source
             then rbind (strcat_c cap out (take (unat len1) source)) (\<lambda>out1. strcat_c cap out1 ''...'')
             else strcat_c cap out source) (\<lambda>out2.
      strcat_c cap out2 [CHR 0x22, CHR '']''])))"

definition luaO_chunkid :: "string \<Rightarrow> size_t \<Rightarrow> string res" where
  "luaO_chunkid source bufflen =
     (let cap = unat bufflen in
      case source of
        c # source1 \<Rightarrow>
          if c = CHR ''='' then
            if cap = 0 then Inl Out_Of_Bounds else Inr (take (cap - 1) source1)
          else if c = CHR ''@'' then
            (let bufflen1 = bufflen - 8; l = strlen source1 in
             if l > bufflen1
             then rbind (strcat_c cap [] ''...'') (\<lambda>out. strcat_c cap out (drop (unat (l - bufflen1)) source1))
             else strcat_c cap [] source1)
          else chunk_string cap bufflen source
      | [] \<Rightarrow> chunk_string cap bufflen source)"

section \<open>Rounding up\<close>

lemma int2fb_loop_ok:
  "int2fb_loop x e = (x', e') \<Longrightarrow> unat x < 2 ^ 31 \<Longrightarrow>
   \<exists>k. e' = e + k \<and> unat x' < 16 \<and> unat x \<le> unat x' * 2 ^ k \<and> unat x' * 2 ^ k < unat x + 2 ^ k \<and> (k = 0 \<or> 8 \<le> unat x')"
proof (induction x e rule: int2fb_loop.induct)
  case (1 x e)
  show ?case
  proof (cases "16 \<le> x")
    case False
    then have "unat x < 16" by (simp add: word_le_nat_alt)
    then show ?thesis using 1(2) False by (subst (asm) int2fb_loop.simps) (auto intro!: exI [of _ 0])
  next
    case True
    let ?y = "drop_bit 1 (x + 1)"
    have "unat (x + 1) = unat x + 1" using 1(3) by (subst unat_add_lem [THEN iffD1]) auto
    then have y: "unat ?y = (unat x + 1) div 2" by (simp only: unat_shift power_one_right)
    have x: "16 \<le> unat x" using True by (simp add: word_le_nat_alt)
    have "int2fb_loop ?y (e + 1) = (x', e')" using 1(2) True by (subst (asm) int2fb_loop.simps) simp
    moreover have "unat ?y < 2 ^ 31" using y 1(3) by simp
    ultimately obtain k where k: "e' = e + 1 + k" "unat x' < 16" "unat ?y \<le> unat x' * 2 ^ k"
      "unat x' * 2 ^ k < unat ?y + 2 ^ k" "k = 0 \<or> 8 \<le> unat x'" using 1(1) True by blast
    have b: "unat x \<le> 2 * unat ?y" "2 * unat ?y \<le> unat x + 1" "8 \<le> unat ?y" unfolding y using x by simp_all
    have "unat x \<le> unat x' * 2 ^ Suc k" "unat x' * 2 ^ Suc k < unat x + 2 ^ Suc k"
      using b(1,2) k(3,4) by simp_all
    moreover have "8 \<le> unat x'" using k(3,5) b(3) by auto
    ultimately show ?thesis using k(1,2) by (intro exI [of _ "Suc k"]) simp
  qed
qed

lemma fb_fields:
  assumes "0 \<le> m" "m < 8" "0 \<le> n"
  shows "drop_bit 3 (push_bit 3 n OR m) = (n :: int)" "(push_bit 3 n OR m) AND 7 = m"
proof -
  have m: "take_bit 3 m = m" "drop_bit 3 m = 0" using assms by (simp_all add: take_bit_int_eq_self drop_bit_eq_div)
  have n: "drop_bit 3 (push_bit 3 n) = n" "take_bit 3 (push_bit 3 n) = 0"
    by (simp_all add: push_bit_eq_mult drop_bit_eq_div take_bit_eq_mod)
  show "drop_bit 3 (push_bit 3 n OR m) = n" unfolding drop_bit_or m n by simp
  have "(push_bit 3 n OR m) AND 7 = take_bit 3 (push_bit 3 n OR m)" by (simp add: take_bit_eq_mask mask_eq_exp_minus_1)
  also have "\<dots> = m" unfolding take_bit_or m n by simp
  finally show "(push_bit 3 n OR m) AND 7 = m" .
qed

lemma fb_value:
  assumes "8 \<le> m" "m < 16" "k < 28"
  shows "luaO_fb2int (push_bit 3 (int k + 1) OR (int m - 8)) = int (m * 2 ^ k)"
    "0 \<le> push_bit 3 (int k + 1) OR (int m - 8)" "push_bit 3 (int k + 1) OR (int m - 8) < 256"
proof -
  let ?f = "push_bit 3 (int k + 1) OR (int m - 8)"
  have f: "drop_bit 3 ?f = int k + 1" "?f AND 7 = int m - 8" using assms by (intro fb_fields; simp)+
  have "(int k + 1) AND 31 = int k + 1"
    using assms(3) take_bit_int_eq_self [of "int k + 1" 5] by (simp add: take_bit_eq_mask mask_eq_exp_minus_1)
  then show "luaO_fb2int ?f = int (m * 2 ^ k)" unfolding luaO_fb2int_def Let_def f by (simp add: push_bit_eq_mult)
  have "?f div 8 = int k + 1" using f(1) by (simp add: drop_bit_eq_div)
  then show "0 \<le> ?f" "?f < 256" using assms(3) by linarith+
qed

text \<open>
  Sizes as floating-point bytes: for a size up to a billion, \<open>luaO_int2fb\<close> gives a byte whose
  value under \<open>luaO_fb2int\<close> is at least the size and at most a seventh larger, without
  overflow; so a table created from an encoded size is never too small.
\<close>

theorem int2fb_rounds_up:
  assumes "x \<le> 2 ^ 30"
  shows "0 \<le> luaO_int2fb x \<and> luaO_int2fb x < 256 \<and> uint x \<le> luaO_fb2int (luaO_int2fb x) \<and>
    7 * (luaO_fb2int (luaO_int2fb x) - uint x) \<le> uint x \<and> luaO_fb2int (luaO_int2fb x) < 2 ^ 31"
proof -
  have x30: "unat x \<le> 2 ^ 30" using assms by (simp add: word_le_nat_alt)
  obtain x' e' where l: "int2fb_loop x 0 = (x', e')" by force
  from int2fb_loop_ok [OF l] x30 obtain k where k: "e' = k" "unat x' < 16" "unat x \<le> unat x' * 2 ^ k"
    "unat x' * 2 ^ k < unat x + 2 ^ k" "k = 0 \<or> 8 \<le> unat x'" by auto
  have "uint x' < 16" unfolding uint_nat using k(2) by linarith
  moreover have "- (2 ^ 31) \<le> uint x'" by (rule order_trans [of _ 0]) simp_all
  ultimately have s: "sint x' = int (unat x')" unfolding sint_uint uint_nat [symmetric]
    by (subst signed_take_bit_int_eq_self) simp_all
  show ?thesis
  proof (cases "unat x' < 8")
    case True
    then have k0: "k = 0" "unat x' = unat x" using k by auto
    define n where "n = unat x"
    have n: "n < 8" "uint x = int n" using True k0 by (simp_all add: n_def)
    have "luaO_int2fb x = int n" using l True s k0 by (simp add: luaO_int2fb_def word_less_nat_alt n_def)
    moreover have "luaO_fb2int (int n) = int n" using n(1) by (simp add: luaO_fb2int_def drop_bit_eq_div)
    ultimately show ?thesis using n by simp
  next
    case False
    define n m where "n = unat x" and "m = unat x'"
    have u: "uint x = int n" and s: "sint x' = int m" using s by (simp_all add: n_def m_def)
    have k: "n \<le> m * 2 ^ k" "m * 2 ^ k < n + 2 ^ k" "8 \<le> m" "m < 16" "n \<le> 2 ^ 30"
      using k False x30 by (simp_all add: n_def m_def)
    have "8 * 2 ^ k \<le> m * 2 ^ k" using k(3) by simp
    then have x7: "7 * 2 ^ k < n" using k(2) by linarith
    then have "(2 :: nat) ^ k < 2 ^ 28" using k(5) by simp
    then have k28: "k < 28" by (rule power_less_imp_less_exp [rotated]) simp
    have fb: "luaO_int2fb x = push_bit 3 (int k + 1) OR (int m - 8)"
      using l False s \<open>e' = k\<close> by (simp add: luaO_int2fb_def word_less_nat_alt m_def)
    have v: "luaO_fb2int (luaO_int2fb x) = int (m * 2 ^ k)" and r: "0 \<le> luaO_int2fb x" "luaO_int2fb x < 256"
      unfolding fb using fb_value [OF k(3,4) k28] by simp_all
    have "n \<le> m * 2 ^ k" "7 * (m * 2 ^ k) \<le> 8 * n" "m * 2 ^ k < 2 ^ 31" using k x7 by simp_all
    then show ?thesis unfolding v u using r by (simp flip: of_nat_mult of_nat_power)
  qed
qed

theorem int2fb_rounds_up_witness:
  "0 \<le> luaO_int2fb 1000 \<and> luaO_int2fb 1000 < 256 \<and> uint (1000 :: 32 word) \<le> luaO_fb2int (luaO_int2fb 1000) \<and>
    7 * (luaO_fb2int (luaO_int2fb 1000) - uint (1000 :: 32 word)) \<le> uint (1000 :: 32 word) \<and> luaO_fb2int (luaO_int2fb 1000) < 2 ^ 31"
  by (rule int2fb_rounds_up) simp

section \<open>Logarithms and chunk names\<close>

lemma log_2_table: "0 < i \<Longrightarrow> i < 256 \<Longrightarrow> 0 < log_2 ! i \<and> 2 ^ (log_2 ! i - 1) \<le> i \<and> i < 2 ^ (log_2 ! i)"
proof -
  have "list_all (\<lambda>i. 0 < log_2 ! i \<and> 2 ^ (log_2 ! i - 1) \<le> i \<and> i < 2 ^ (log_2 ! i)) [1..<256]"
    by code_simp
  then show "0 < i \<Longrightarrow> i < 256 \<Longrightarrow> ?thesis" by (auto simp: list_all_iff)
qed

lemma log2_loop_ok:
  "log2_loop x l = (x', l') \<Longrightarrow> x \<noteq> 0 \<Longrightarrow>
   \<exists>k. l' = l + 8 * int k \<and> 0 < unat x' \<and> unat x' < 256 \<and> unat x' = unat x div 2 ^ (8 * k)"
proof (induction x l rule: log2_loop.induct)
  case (1 x l)
  show ?case
  proof (cases "256 \<le> x")
    case False
    then have "unat x < 256" "0 < unat x" using 1(3) by (simp_all add: word_le_nat_alt unat_gt_0)
    then show ?thesis using 1(2) False by (subst (asm) log2_loop.simps) (auto intro!: exI [of _ 0])
  next
    case True
    have y: "unat (drop_bit 8 x) = unat x div 256" by (simp add: unat_shift del: drop_bit_eq_div)
    moreover have "256 \<le> unat x" using True by (simp add: word_le_nat_alt)
    ultimately have "0 < unat (drop_bit 8 x)" by (simp add: div_greater_zero_iff)
    then have "drop_bit 8 x \<noteq> 0" by auto
    moreover have "log2_loop (drop_bit 8 x) (l + 8) = (x', l')" using 1(2) True by (subst (asm) log2_loop.simps) simp
    ultimately obtain k where k: "l' = l + 8 + 8 * int k" "0 < unat x'" "unat x' < 256"
      "unat x' = unat (drop_bit 8 x) div 2 ^ (8 * k)" using 1(1) True by blast
    have "unat x' = unat x div (256 * 2 ^ (8 * k))" unfolding k(4) y by (rule div_mult2_eq [symmetric])
    also have "256 * 2 ^ (8 * k) = (2 :: nat) ^ (8 * Suc k)" by (simp add: power_add)
    finally show ?thesis using k by (intro exI [of _ "Suc k"]) simp
  qed
qed

text \<open>
  \<open>luaO_log2\<close>: the table and the loop over bytes compute the integer part of the binary
  logarithm of every positive number.
\<close>

theorem log2_floor:
  assumes "x \<noteq> 0"
  shows "0 \<le> luaO_log2 x \<and> 2 ^ nat (luaO_log2 x) \<le> unat x \<and> unat x < 2 ^ (nat (luaO_log2 x) + 1)"
proof -
  obtain x' l where l: "log2_loop x (- 1) = (x', l)" by force
  from log2_loop_ok [OF l assms] obtain k where k: "l = - 1 + 8 * int k" "0 < unat x'" "unat x' < 256"
    "unat x' = unat x div 2 ^ (8 * k)" by blast
  define t where "t = log_2 ! unat x'"
  have t: "0 < t" "2 ^ (t - 1) \<le> unat x'" "unat x' < 2 ^ t" using log_2_table [OF k(2,3)] by (simp_all add: t_def)
  have r: "luaO_log2 x = int (8 * k + (t - 1))" using l k(1) t(1) by (simp add: luaO_log2_def t_def)
  have "2 ^ (8 * k + (t - 1)) \<le> unat x' * 2 ^ (8 * k)" using t(2) by (simp add: power_add)
  also have "\<dots> \<le> unat x" unfolding k(4) by (rule div_times_less_eq_dividend)
  finally have lo: "2 ^ (8 * k + (t - 1)) \<le> unat x" .
  have "unat x < (unat x' + 1) * 2 ^ (8 * k)"
    using dividend_less_div_times [of "2 ^ (8 * k)" "unat x"] unfolding k(4) by (simp add: algebra_simps)
  also have "\<dots> \<le> 2 ^ t * 2 ^ (8 * k)" using t(3) by (intro mult_le_mono1) simp
  also have "\<dots> = 2 ^ (8 * k + (t - 1) + 1)" using t(1) by (simp flip: power_add)
  finally show ?thesis unfolding r nat_int using lo by simp
qed

theorem log2_floor_witness:
  "0 \<le> luaO_log2 1000 \<and> 2 ^ nat (luaO_log2 1000) \<le> unat (1000 :: 32 word) \<and> unat (1000 :: 32 word) < 2 ^ (nat (luaO_log2 1000) + 1)"
  by (rule log2_floor) simp

lemma strcat_ok [simp]: "rok (strcat_c cap out s) P \<longleftrightarrow> length out + length s + 1 \<le> cap \<and> P (out @ s)"
  by (simp add: strcat_c_def)

text \<open>
  Names of chunks fit: into a buffer of at least 18 bytes \<open>luaO_chunkid\<close> writes in bounds and
  leaves a terminated string, however long the source text is; a source that starts with an equals
  sign is cut off at the end, a file name at the front.
\<close>

theorem chunkid_fits:
  assumes "18 \<le> unat bufflen" and "length source < 2 ^ 63"
  shows "\<exists>out. luaO_chunkid source bufflen = Inr out \<and> length out < unat bufflen"
proof -
  have u: "unat (bufflen - 8) = unat bufflen - 8" "unat (bufflen - 17) = unat bufflen - 17"
    using assms(1) by (simp_all add: unat_sub_if_size word_le_nat_alt)
  have "rok (chunk_string (unat bufflen) bufflen source) (\<lambda>out. length out < unat bufflen)"
  proof -
    let ?l = "length (takeWhile (\<lambda>c. c \<noteq> CHR 0x0A \<and> c \<noteq> CHR 0x0D) source)"
    have l: "unat (of_nat ?l :: size_t) = ?l"
      using length_takeWhile_le [of "\<lambda>c. c \<noteq> CHR 0x0A \<and> c \<noteq> CHR 0x0D" source] assms(2)
      by (simp add: unat_of_nat take_bit_nat_eq_self)
    have "unat (if (of_nat ?l :: size_t) > bufflen - 17 then bufflen - 17 else of_nat ?l) \<le> unat bufflen - 17"
      using u(2) l by (auto simp: word_less_nat_alt not_less)
    then show ?thesis using assms(1) by (auto simp: chunk_string_def Let_def rok_rbind)
  qed
  moreover have "rok (if strlen s > bufflen - 8
      then rbind (strcat_c (unat bufflen) [] ''...'') (\<lambda>out. strcat_c (unat bufflen) out (drop (unat (strlen s - (bufflen - 8))) s))
      else strcat_c (unat bufflen) [] s) (\<lambda>out. length out < unat bufflen)" if "length s < 2 ^ 63" for s
  proof -
    have "unat (strlen s) = length s" using that by (intro strlen_unat) simp
    then show ?thesis using u(1) assms(1) by (auto simp: word_less_nat_alt rok_rbind unat_sub_if_size word_le_nat_alt)
  qed
  ultimately have "rok (luaO_chunkid source bufflen) (\<lambda>out. length out < unat bufflen)"
    using assms by (cases source) (auto simp: luaO_chunkid_def Let_def)
  then show ?thesis by (auto simp: rok_def)
qed

theorem chunkid_fits_witness: "\<exists>out. luaO_chunkid ''@test.lua'' 60 = Inr out \<and> length out < unat (60 :: size_t)"
  by (rule chunkid_fits) simp_all

end
