(* ===== verification/Ldebug.thy ===== *)
theory Ldebug
  imports Lobject Lopcodes
begin

text \<open>
  The checker of virtual-machine code, \<open>liblua/src/ldebug.c\<close>: \<open>symbexec\<close> runs through the
  instructions of a prototype, checks each of them and finds the last one that changed a register;
  \<open>luaG_checkcode\<close> is the check on its own, which a binary chunk must pass when it is loaded.

  A check that fails returns 0 from the function at once; in the parts below that is \<open>None\<close>.
  Reading an array out of its bounds is an error.
\<close>

section \<open>Checks\<close>

definition MAXSTACK :: int where "MAXSTACK = 250"
definition LUA_MULTRET :: int where "LUA_MULTRET = - 1"

abbreviation sizecode :: "Proto \<Rightarrow> int" where "sizecode pt \<equiv> int (length (p_code pt))"
abbreviation sizek :: "Proto \<Rightarrow> int" where "sizek pt \<equiv> int (length (p_k pt))"
abbreviation sizep :: "Proto \<Rightarrow> int" where "sizep pt \<equiv> int (length (p_p pt))"
abbreviation maxstack :: "Proto \<Rightarrow> int" where "maxstack pt \<equiv> uint (p_maxstacksize pt)"

definition get_code :: "Proto \<Rightarrow> int \<Rightarrow> Instruction res" where
  "get_code pt pc = (if 0 \<le> pc \<and> pc < sizecode pt then Inr (p_code pt ! nat pc) else Inl Out_Of_Bounds)"

definition opcode :: "Instruction \<Rightarrow> OpCode option" where
  "opcode i = cast_OpCode (GET_OPCODE i)"

definition precheck :: "Proto \<Rightarrow> bool" where
  "precheck pt \<longleftrightarrow>
     maxstack pt \<le> MAXSTACK \<and>
     uint (p_numparams pt) + uint (p_is_vararg pt AND VARARG_HASARG) \<le> maxstack pt \<and>
     (p_is_vararg pt AND VARARG_NEEDSARG = 0 \<or> p_is_vararg pt AND VARARG_HASARG \<noteq> 0) \<and>
     int (length (p_upvalues pt)) \<le> uint (p_nups pt) \<and>
     (length (p_lineinfo pt) = length (p_code pt) \<or> length (p_lineinfo pt) = 0) \<and>
     p_code pt \<noteq> [] \<and> opcode (p_code pt ! (length (p_code pt) - 1)) = Some OP_RETURN"

definition luaG_checkopenop :: "Instruction \<Rightarrow> bool" where
  "luaG_checkopenop i =
     (case opcode i of
        None \<Rightarrow> False
      | Some op \<Rightarrow> if op \<in> {OP_CALL, OP_TAILCALL, OP_RETURN, OP_SETLIST} then GETARG_B i = 0 else False)"

definition checkreg :: "Proto \<Rightarrow> int \<Rightarrow> bool" where
  "checkreg pt reg \<longleftrightarrow> reg < maxstack pt"

definition checkArgMode :: "Proto \<Rightarrow> int \<Rightarrow> OpArgMask \<Rightarrow> bool" where
  "checkArgMode pt r mode =
     (case mode of
        OpArgN \<Rightarrow> r = 0
      | OpArgU \<Rightarrow> True
      | OpArgR \<Rightarrow> checkreg pt r
      | OpArgK \<Rightarrow> if ISK r then INDEXK r < sizek pt else r < maxstack pt)"

section \<open>Symbolic execution\<close>

definition chk :: "bool \<Rightarrow> 'a option res \<Rightarrow> 'a option res" where
  "chk p m = (if p then m else Inr None)"

definition cbind :: "'a option res \<Rightarrow> ('a \<Rightarrow> 'b option res) \<Rightarrow> 'b option res" where
  "cbind m f = rbind m (\<lambda>r. case r of None \<Rightarrow> Inr None | Some x \<Rightarrow> f x)"

text \<open>A \<open>SETLIST\<close> whose count is in the next word, or a word that looks like one.\<close>

definition setlist0 :: "Instruction \<Rightarrow> bool" where
  "setlist0 d \<longleftrightarrow> opcode d = Some OP_SETLIST \<and> GETARG_C d = 0"

text \<open>How many such words stand in front of a jump's destination.\<close>

primrec setlist_loop :: "Proto \<Rightarrow> int \<Rightarrow> nat \<Rightarrow> int \<Rightarrow> int res" where
  "setlist_loop pt dest 0 j = Inr j"
| "setlist_loop pt dest (Suc m) j =
     rbind (get_code pt (dest - 1 - j)) (\<lambda>d. if setlist0 d then setlist_loop pt dest m (j + 1) else Inr j)"

definition symb_args :: "Proto \<Rightarrow> int \<Rightarrow> Instruction \<Rightarrow> OpCode \<Rightarrow> (int \<times> int) option res" where
  "symb_args pt pc i op =
     (case getOpMode op of
        iABC \<Rightarrow>
          (let b = GETARG_B i; c = GETARG_C i in
           chk (checkArgMode pt b (getBMode op)) (chk (checkArgMode pt c (getCMode op)) (Inr (Some (b, c)))))
      | iABx \<Rightarrow>
          (let b = GETARG_Bx i in
           if getBMode op = OpArgK then chk (b < sizek pt) (Inr (Some (b, 0))) else Inr (Some (b, 0)))
      | iAsBx \<Rightarrow>
          (let b = GETARG_sBx i in
           if getBMode op = OpArgR
           then let dest = pc + 1 + b in
             chk (0 \<le> dest \<and> dest < sizecode pt)
               (if dest > 0
                then rbind (setlist_loop pt dest (nat dest) 0) (\<lambda>j. chk (j AND 1 = 0) (Inr (Some (b, 0))))
                else Inr (Some (b, 0)))
           else Inr (Some (b, 0))))"

definition symb_test :: "Proto \<Rightarrow> int \<Rightarrow> OpCode \<Rightarrow> unit option res" where
  "symb_test pt pc op =
     (if testTMode op
      then chk (pc + 2 < sizecode pt)
        (rbind (get_code pt (pc + 1)) (\<lambda>n. chk (opcode n = Some OP_JMP) (Inr (Some ()))))
      else Inr (Some ()))"

primrec closure_loop :: "Proto \<Rightarrow> int \<Rightarrow> nat \<Rightarrow> unit option res" where
  "closure_loop pt pc 0 = Inr (Some ())"
| "closure_loop pt pc (Suc n) =
     rbind (get_code pt pc) (\<lambda>d. chk (opcode d = Some OP_GETUPVAL \<or> opcode d = Some OP_MOVE) (closure_loop pt (pc + 1) n))"

definition check_open :: "Proto \<Rightarrow> int \<Rightarrow> 'a option res \<Rightarrow> 'a option res" where
  "check_open pt pc m = rbind (get_code pt (pc + 1)) (\<lambda>n. chk (luaG_checkopenop n) m)"

text \<open>The second switch; the result is the new \<open>pc\<close> and the new \<open>last\<close>.\<close>

definition symb_op ::
    "Proto \<Rightarrow> int \<Rightarrow> int \<Rightarrow> int \<Rightarrow> OpCode \<Rightarrow> int \<Rightarrow> int \<Rightarrow> int \<Rightarrow> int \<Rightarrow> (int \<times> int) option res" where
  "symb_op pt lastpc reg pc op a b c lst =
     (let ok = Inr (Some (pc, lst));
        set_last = (\<lambda>p. Inr (Some (pc, if p then pc else lst)));
        jump = (let dest = pc + 1 + b in
          Inr (Some (if reg \<noteq> NO_REG \<and> pc < dest \<and> dest \<le> lastpc then pc + b else pc, lst))) in
      if op = OP_LOADBOOL then
        if c = 1
        then chk (pc + 2 < sizecode pt)
          (rbind (get_code pt (pc + 1)) (\<lambda>n. chk (opcode n \<noteq> Some OP_SETLIST \<or> GETARG_C n \<noteq> 0) ok))
        else ok
      else if op = OP_LOADNIL then set_last (a \<le> reg \<and> reg \<le> b)
      else if op = OP_GETUPVAL \<or> op = OP_SETUPVAL then chk (b < uint (p_nups pt)) ok
      else if op = OP_GETGLOBAL \<or> op = OP_SETGLOBAL then
        if 0 \<le> b \<and> b < sizek pt then chk (ttisstring (p_k pt ! nat b)) ok else Inl Out_Of_Bounds
      else if op = OP_SELF then chk (checkreg pt (a + 1)) (set_last (reg = a + 1))
      else if op = OP_CONCAT then chk (b < c) ok
      else if op = OP_TFORLOOP then chk (c \<ge> 1) (chk (checkreg pt (a + 2 + c)) (set_last (reg \<ge> a + 2)))
      else if op = OP_FORLOOP \<or> op = OP_FORPREP then chk (checkreg pt (a + 3)) jump
      else if op = OP_JMP then jump
      else if op = OP_CALL \<or> op = OP_TAILCALL then
        chk (b \<noteq> 0 \<longrightarrow> checkreg pt (a + b - 1))
          (let c1 = c - 1 in
           if c1 = LUA_MULTRET then check_open pt pc (set_last (reg \<ge> a))
           else chk (c1 \<noteq> 0 \<longrightarrow> checkreg pt (a + c1 - 1)) (set_last (reg \<ge> a)))
      else if op = OP_RETURN then (let b1 = b - 1 in chk (b1 > 0 \<longrightarrow> checkreg pt (a + b1 - 1)) ok)
      else if op = OP_SETLIST then
        chk (b > 0 \<longrightarrow> checkreg pt (a + b))
          (if c = 0 then chk (pc + 1 < sizecode pt - 1) (Inr (Some (pc + 1, lst))) else ok)
      else if op = OP_CLOSURE then
        chk (b < sizep pt)
          (if 0 \<le> b
           then let nup = unat (p_nups (p_p pt ! nat b)) in
             chk (pc + int nup < sizecode pt)
               (cbind (closure_loop pt (pc + 1) nup) (\<lambda>_. Inr (Some (if reg \<noteq> NO_REG then pc + int nup else pc, lst))))
           else Inl Out_Of_Bounds)
      else if op = OP_VARARG then
        chk (p_is_vararg pt AND VARARG_ISVARARG \<noteq> 0 \<and> p_is_vararg pt AND VARARG_NEEDSARG = 0)
          (let b1 = b - 1 in
           if b1 = LUA_MULTRET then check_open pt pc (chk (checkreg pt (a + b1 - 1)) ok)
           else chk (checkreg pt (a + b1 - 1)) ok)
      else ok)"

definition symb_step :: "Proto \<Rightarrow> int \<Rightarrow> int \<Rightarrow> int \<Rightarrow> int \<Rightarrow> (int \<times> int) option res" where
  "symb_step pt lastpc reg pc lst =
     rbind (get_code pt pc) (\<lambda>i.
     case opcode i of
       None \<Rightarrow> Inr None
     | Some op \<Rightarrow>
         (let a = GETARG_A i in
          chk (checkreg pt a)
            (cbind (symb_args pt pc i op) (\<lambda>(b, c).
             let lst1 = (if testAMode op \<and> a = reg then pc else lst) in
             cbind (symb_test pt pc op) (\<lambda>_. symb_op pt lastpc reg pc op a b c lst1)))))"

lemma chk_Some [simp]: "chk p m = Inr (Some x) \<longleftrightarrow> p \<and> m = Inr (Some x)"
  by (simp add: chk_def)

lemma cbind_Some [simp]: "cbind m f = Inr (Some y) \<longleftrightarrow> (\<exists>x. m = Inr (Some x) \<and> f x = Inr (Some y))"
  by (auto simp: cbind_def rbind_Inr_iff split: option.splits)

lemma symb_op_mono: "symb_op pt lastpc reg pc op a b c lst = Inr (Some (pc', lst')) \<Longrightarrow> pc \<le> pc'"
  by (auto simp: symb_op_def Let_def check_open_def rbind_Inr_iff split: if_splits)

lemma symb_step_mono: "symb_step pt lastpc reg pc lst = Inr (Some (pc', lst')) \<Longrightarrow> pc \<le> pc'"
  by (auto simp: symb_step_def Let_def rbind_Inr_iff dest: symb_op_mono split: option.splits)

function symb_loop :: "Proto \<Rightarrow> int \<Rightarrow> int \<Rightarrow> int \<Rightarrow> int \<Rightarrow> Instruction res" where
  "symb_loop pt lastpc reg pc lst =
     (if pc < lastpc
      then case symb_step pt lastpc reg pc lst of
          Inl e \<Rightarrow> Inl e
        | Inr None \<Rightarrow> Inr 0
        | Inr (Some (pc1, lst1)) \<Rightarrow> symb_loop pt lastpc reg (pc1 + 1) lst1
      else get_code pt lst)"
  by pat_completeness auto
termination
  by (relation "measure (\<lambda>(pt, lastpc, reg, pc, lst). nat (lastpc - pc))") (auto dest: symb_step_mono)

declare symb_loop.simps [simp del]

definition symbexec :: "Proto \<Rightarrow> int \<Rightarrow> int \<Rightarrow> Instruction res" where
  "symbexec pt lastpc reg = (if precheck pt then symb_loop pt lastpc reg 0 (sizecode pt - 1) else Inr 0)"

definition luaG_checkcode :: "Proto \<Rightarrow> bool res" where
  "luaG_checkcode pt = rbind (symbexec pt (sizecode pt) NO_REG) (\<lambda>i. Inr (i \<noteq> 0))"

section \<open>The checker reads in bounds\<close>

lemma get_code_in [simp]: "0 \<le> pc \<Longrightarrow> pc < sizecode pt \<Longrightarrow> get_code pt pc = Inr (p_code pt ! nat pc)"
  by (simp add: get_code_def)

lemma rok_chk: "rok (chk p m) P \<longleftrightarrow> (if p then rok m P else P None)"
  by (simp add: chk_def)

lemma rok_cbind: "rok (cbind m f) P \<longleftrightarrow> rok m (\<lambda>r. case r of None \<Rightarrow> P None | Some x \<Rightarrow> rok (f x) P)"
  by (auto simp: cbind_def rok_rbind elim!: rok_mono split: option.splits)

text \<open>What the count of \<open>SETLIST\<close> words in front of a destination tells.\<close>

lemma setlist_loop_ok:
  assumes "0 \<le> j" "dest \<le> sizecode pt" "j + int m \<le> dest"
  shows "rok (setlist_loop pt dest m j) (\<lambda>r. j \<le> r \<and> r \<le> j + int m \<and>
     (\<forall>q. dest - r \<le> q \<and> q < dest - j \<longrightarrow> setlist0 (p_code pt ! nat q)) \<and>
     (r < j + int m \<longrightarrow> \<not> setlist0 (p_code pt ! nat (dest - 1 - r))))"
  using assms
proof (induction m arbitrary: j)
  case (Suc m)
  let ?d = "p_code pt ! nat (dest - 1 - j)"
  have d: "get_code pt (dest - 1 - j) = Inr ?d" using Suc.prems by simp
  show ?case
  proof (cases "setlist0 ?d")
    case True
    have "rok (setlist_loop pt dest m (j + 1)) (\<lambda>r. j + 1 \<le> r \<and> r \<le> j + 1 + int m \<and>
       (\<forall>q. dest - r \<le> q \<and> q < dest - (j + 1) \<longrightarrow> setlist0 (p_code pt ! nat q)) \<and>
       (r < j + 1 + int m \<longrightarrow> \<not> setlist0 (p_code pt ! nat (dest - 1 - r))))"
      using Suc.prems by (intro Suc.IH) auto
    moreover have "setlist0 (p_code pt ! nat q)"
      if "\<forall>q. dest - r \<le> q \<and> q < dest - (j + 1) \<longrightarrow> setlist0 (p_code pt ! nat q)" "dest - r \<le> q" "q < dest - j" for q r
      using that True by (cases "q = dest - 1 - j") auto
    ultimately show ?thesis using d True by (auto elim!: rok_mono)
  qed (use d in auto)
qed auto

definition good_range :: "Proto \<Rightarrow> (int \<times> int) option \<Rightarrow> bool" where
  "good_range pt r \<longleftrightarrow> (case r of None \<Rightarrow> True | Some (pc, lst) \<Rightarrow> 0 \<le> pc \<and> 0 \<le> lst \<and> lst < sizecode pt)"

lemma symb_args_ok:
  assumes "0 \<le> pc"
  shows "rok (symb_args pt pc i op) (\<lambda>r. case r of None \<Rightarrow> True | Some (b, c) \<Rightarrow> getOpMode op = iABx \<longrightarrow>
     0 \<le> b \<and> (getBMode op = OpArgK \<longrightarrow> b < sizek pt))"
proof (cases "getOpMode op")
  case iAsBx
  let ?dest = "pc + 1 + GETARG_sBx i"
  show ?thesis
  proof (cases "0 < ?dest \<and> ?dest < sizecode pt")
    case True
    then have "rok (setlist_loop pt ?dest (nat ?dest) 0) (\<lambda>_. True)"
      using setlist_loop_ok [of 0 ?dest pt "nat ?dest"] by (auto elim: rok_mono)
    then show ?thesis using iAsBx by (auto simp: symb_args_def Let_def rok_chk rok_rbind elim!: rok_mono)
  qed (use iAsBx in \<open>auto simp: symb_args_def Let_def rok_chk\<close>)
qed (auto simp: symb_args_def Let_def rok_chk GETARG_Bx_def GETFIELD_range(1))

lemma symb_test_ok: "0 \<le> pc \<Longrightarrow> rok (symb_test pt pc op) (\<lambda>_. True)"
  by (simp add: symb_test_def rok_chk rok_rbind)

lemma closure_loop_ok: "0 \<le> pc \<Longrightarrow> pc + int n \<le> sizecode pt \<Longrightarrow> rok (closure_loop pt pc n) (\<lambda>_. True)"
  by (induction n arbitrary: pc) (auto simp: rok_chk rok_rbind)

text \<open>An instruction in front of the last one has a successor.\<close>

lemma not_last:
  assumes "precheck pt" "pc < length (p_code pt)" "opcode (p_code pt ! pc) \<noteq> Some OP_RETURN"
  shows "Suc pc < length (p_code pt)"
proof (rule ccontr)
  assume "\<not> Suc pc < length (p_code pt)"
  then have "pc = length (p_code pt) - 1" using assms(2) by simp
  then show False using assms(1,3) by (simp add: precheck_def)
qed

lemma check_open_ok:
  "precheck pt \<Longrightarrow> pc < length (p_code pt) \<Longrightarrow> opcode (p_code pt ! pc) \<noteq> Some OP_RETURN \<Longrightarrow> rok m P \<Longrightarrow> P None \<Longrightarrow>
   rok (check_open pt (int pc) m) P"
  using not_last [of pt pc] by (simp add: check_open_def rok_rbind rok_chk)

lemma symb_op_ok:
  assumes "precheck pt" "pc < length (p_code pt)" "opcode (p_code pt ! pc) = Some op" "0 \<le> lst" "lst < sizecode pt"
    and "getOpMode op = iABx \<Longrightarrow> 0 \<le> b \<and> (getBMode op = OpArgK \<longrightarrow> b < sizek pt)"
  shows "rok (symb_op pt lastpc reg (int pc) op a b c lst) (good_range pt)"
proof -
  have gb: "0 \<le> b \<and> b < sizek pt" if "op = OP_GETGLOBAL \<or> op = OP_SETGLOBAL" using assms(6) that by (auto simp: op_table)
  have cl: "0 \<le> b" if "op = OP_CLOSURE" using assms(6) that by (auto simp: op_table)
  have op: "rok (check_open pt (int pc) m) (good_range pt)" if "op \<noteq> OP_RETURN" "rok m (good_range pt)" for m
    using that assms(3) by (intro check_open_ok [OF assms(1,2)]) (auto simp: good_range_def)
  have g: "good_range pt (Some (int pc, lst))" "good_range pt None" "good_range pt (Some (int pc + 1, lst))"
    "good_range pt (Some (int pc, if p then int pc else lst))" for p
    using assms by (simp_all add: good_range_def)
  have j: "good_range pt (Some (if reg \<noteq> NO_REG \<and> int pc < int pc + 1 + b \<and> int pc + 1 + b \<le> lastpc then int pc + b else int pc, lst))"
    using assms by (simp add: good_range_def)
  have clo: "rok (cbind (closure_loop pt (int pc + 1) nup) (\<lambda>_. Inr (Some (x, lst)))) (good_range pt)"
    if "int pc + int nup < sizecode pt" "0 \<le> x" for nup x
    unfolding rok_cbind using assms that
    by (intro rok_mono [OF closure_loop_ok]) (auto simp: good_range_def split: option.split)
  show ?thesis
    by (cases op) (simp_all only: symb_op_def Let_def OpCode.distinct simp_thms if_True if_False rok_chk rok_rbind g(1,2,3,4) j op gb cl clo
        get_code_in rok_simps split: if_split, insert assms(5) gb cl, auto intro!: op g clo simp: rok_chk)
qed

lemma symb_step_ok:
  assumes "precheck pt" "pc < length (p_code pt)" "0 \<le> lst" "lst < sizecode pt"
  shows "rok (symb_step pt lastpc reg (int pc) lst) (good_range pt)"
proof (cases "opcode (p_code pt ! pc)")
  case None
  then show ?thesis using assms(2) by (simp add: symb_step_def good_range_def)
next
  case (Some op)
  let ?i = "p_code pt ! pc"
  define l where "l = (if testAMode op \<and> GETARG_A ?i = reg then int pc else lst)"
  have l: "0 \<le> l" "l < sizecode pt" using assms by (auto simp: l_def)
  have op: "rok (symb_op pt lastpc reg (int pc) op (GETARG_A ?i) b c l) (good_range pt)" if "getOpMode op = iABx \<longrightarrow> 0 \<le> b \<and> (getBMode op = OpArgK \<longrightarrow> b < sizek pt)" for b c
    using that l by (intro symb_op_ok [OF assms(1,2) Some]) auto
  have "rok (cbind (symb_test pt (int pc) op) (\<lambda>_. symb_op pt lastpc reg (int pc) op (GETARG_A ?i) b c l)) (good_range pt)"
    if "getOpMode op = iABx \<longrightarrow> 0 \<le> b \<and> (getBMode op = OpArgK \<longrightarrow> b < sizek pt)" for b c
    unfolding rok_cbind
    by (rule rok_mono [OF symb_test_ok]) (auto simp: op [OF that] good_range_def [of _ None] split: option.split)
  note rest = this
  have "rok (cbind (symb_args pt (int pc) ?i op) (\<lambda>(b, c). cbind (symb_test pt (int pc) op)
      (\<lambda>_. symb_op pt lastpc reg (int pc) op (GETARG_A ?i) b c l))) (good_range pt)"
    by (subst rok_cbind, rule rok_mono [OF symb_args_ok]) (auto simp: good_range_def [of _ None] intro!: rest split: option.splits)
  then show ?thesis using assms(2) Some unfolding l_def by (simp add: symb_step_def Let_def rok_chk good_range_def [of _ None])
qed

lemma symb_loop_ok:
  assumes "precheck pt" "0 \<le> pc" "lastpc \<le> sizecode pt" "0 \<le> lst" "lst < sizecode pt"
  shows "rok (symb_loop pt lastpc reg pc lst) (\<lambda>_. True)"
  using assms
proof (induction pt lastpc reg pc lst rule: symb_loop.induct)
  case (1 pt lastpc reg pc lst)
  show ?case
  proof (cases "pc < lastpc")
    case True
    have s: "rok (symb_step pt lastpc reg pc lst) (good_range pt)"
      using symb_step_ok [OF "1.prems"(1), of "nat pc" lst lastpc reg] "1.prems" True by simp
    then obtain r where r: "symb_step pt lastpc reg pc lst = Inr r" "good_range pt r" by (auto simp: rok_def)
    show ?thesis
    proof (cases r)
      case None
      then show ?thesis using r True by (subst symb_loop.simps) simp
    next
      case (Some p)
      obtain pc1 lst1 where p: "p = (pc1, lst1)" by (cases p)
      have "rok (symb_loop pt lastpc reg (pc1 + 1) lst1) (\<lambda>_. True)"
        using r Some p "1.prems" True by (intro "1.IH") (auto simp: good_range_def)
      then show ?thesis using r Some p True by (subst symb_loop.simps) simp
    qed
  qed (use "1.prems" in \<open>subst symb_loop.simps, simp\<close>)
qed

section \<open>Where control can go in checked code\<close>

text \<open>The positions the checker looks at as instructions: all but the counts of \<open>SETLIST\<close>.\<close>

definition nxt :: "Proto \<Rightarrow> nat \<Rightarrow> nat" where
  "nxt pt n = (if setlist0 (p_code pt ! n) then n + 2 else n + 1)"

inductive scan :: "Proto \<Rightarrow> nat \<Rightarrow> nat \<Rightarrow> bool" for pt where
  here: "scan pt n n"
| on: "n < length (p_code pt) \<Longrightarrow> scan pt (nxt pt n) q \<Longrightarrow> scan pt n q"

lemma scan_snoc: "scan pt n q \<Longrightarrow> q < length (p_code pt) \<Longrightarrow> scan pt n (nxt pt q)"
  by (induction rule: scan.induct) (auto intro: scan.intros)

definition stepped :: "Proto \<Rightarrow> nat \<Rightarrow> bool" where
  "stepped pt q \<longleftrightarrow> (\<exists>lst r. symb_step pt (sizecode pt) NO_REG (int q) lst = Inr (Some r))"

lemma not_setlist [simp]: "opcode i = Some op \<Longrightarrow> op \<noteq> OP_SETLIST \<Longrightarrow> \<not> setlist0 i"
  by (simp add: setlist0_def)

lemma full_step:
  assumes "q < length (p_code pt)" "symb_step pt (sizecode pt) NO_REG (int q) lst = Inr (Some (pc1, lst1))"
  shows "pc1 + 1 = int (nxt pt q)"
proof -
  let ?i = "p_code pt ! q"
  obtain op b c l where op: "opcode ?i = Some op" and a: "symb_args pt (int q) ?i op = Inr (Some (b, c))"
    and s: "symb_op pt (sizecode pt) NO_REG (int q) op (GETARG_A ?i) b c l = Inr (Some (pc1, lst1))"
    using assms by (auto simp: symb_step_def Let_def split: option.splits)
  show ?thesis
  proof (cases "op = OP_SETLIST")
    case True
    then have "c = GETARG_C ?i" using a by (simp add: symb_args_def op_table Let_def)
    then show ?thesis using s True op by (auto simp: symb_op_def nxt_def setlist0_def split: if_splits)
  next
    case False
    have "pc1 = int q" using s False
      by (auto simp: symb_op_def Let_def check_open_def rbind_Inr_iff split: if_splits)
    then show ?thesis using False op by (simp add: nxt_def)
  qed
qed

lemma loop_scan:
  assumes "symb_loop pt (sizecode pt) NO_REG (int n) lst = Inr v" "v \<noteq> 0" "scan pt n q" "q < length (p_code pt)"
  shows "stepped pt q"
  using assms(3,1,2,4)
proof (induction arbitrary: lst rule: scan.induct)
  case (here n)
  show ?case
  proof (cases "symb_step pt (sizecode pt) NO_REG (int n) lst")
    case (Inr r)
    then show ?thesis using here by (subst (asm) symb_loop.simps) (cases r; auto simp: stepped_def)
  qed (use here in \<open>subst (asm) symb_loop.simps, simp\<close>)
next
  case (on n q)
  from on.prems(1,2) on.hyps(1) obtain pc1 lst1 where s: "symb_step pt (sizecode pt) NO_REG (int n) lst = Inr (Some (pc1, lst1))"
    "symb_loop pt (sizecode pt) NO_REG (pc1 + 1) lst1 = Inr v"
    by (subst (asm) symb_loop.simps) (auto split: sum.splits option.splits)
  then show ?case using on full_step [OF on.hyps(1) s(1)] by simp
qed

lemma checked:
  assumes "luaG_checkcode pt = Inr True"
  shows "precheck pt" "scan pt 0 q \<Longrightarrow> q < length (p_code pt) \<Longrightarrow> stepped pt q"
  using assms loop_scan [of pt 0 "sizecode pt - 1" _ q]
  by (auto simp: luaG_checkcode_def symbexec_def rbind_Inr_iff split: if_splits)

text \<open>Every position is scanned, or it is the count of a scanned \<open>SETLIST\<close>.\<close>

lemma scan_cover:
  "q \<le> length (p_code pt) \<Longrightarrow> scan pt 0 q \<or> (\<exists>p. q = Suc p \<and> scan pt 0 p \<and> setlist0 (p_code pt ! p))"
proof (induction q)
  case 0
  then show ?case by (simp add: scan.here)
next
  case (Suc q)
  from Suc.IH Suc.prems consider "scan pt 0 q" | p where "q = Suc p" "scan pt 0 p" "setlist0 (p_code pt ! p)" by auto
  then show ?case
  proof cases
    case 1
    then show ?thesis using scan_snoc [of pt 0 q] Suc.prems by (auto simp: nxt_def split: if_splits)
  next
    case 2
    then show ?thesis using scan_snoc [of pt 0 p] Suc.prems by (simp add: nxt_def)
  qed
qed

lemma scan_even_run:
  assumes "scan pt 0 p" "\<forall>q. p \<le> q \<and> q < p + 2 * k \<longrightarrow> setlist0 (p_code pt ! q)" "p + 2 * k \<le> length (p_code pt)"
  shows "scan pt 0 (p + 2 * k)"
  using assms(2,3)
proof (induction k)
  case (Suc k)
  then have "scan pt 0 (p + 2 * k)" by simp
  from scan_snoc [OF this] Suc.prems show ?case by (simp add: nxt_def)
qed (use assms(1) in simp)

text \<open>What the check of one instruction has established.\<close>

lemma steppedE:
  assumes "stepped pt q" "q < length (p_code pt)"
  obtains op b c a l r where "opcode (p_code pt ! q) = Some op" "checkreg pt (GETARG_A (p_code pt ! q))"
    "symb_args pt (int q) (p_code pt ! q) op = Inr (Some (b, c))" "symb_test pt (int q) op = Inr (Some ())"
    "symb_op pt (sizecode pt) NO_REG (int q) op a b c l = Inr (Some r)"
  using assms that by (auto simp: stepped_def symb_step_def Let_def split: option.splits)

lemma jump_target:
  assumes "stepped pt q" "q < length (p_code pt)" "opcode (p_code pt ! q) = Some op" "op \<in> {OP_JMP, OP_FORLOOP, OP_FORPREP}"
  obtains d where "int q + 1 + GETARG_sBx (p_code pt ! q) = int d" "d < length (p_code pt)" "scan pt 0 d"
proof -
  let ?dest = "int q + 1 + GETARG_sBx (p_code pt ! q)"
  from assms(1,2) obtain b c where a: "symb_args pt (int q) (p_code pt ! q) op = Inr (Some (b, c))"
    by (rule steppedE) (use assms(3) in auto)
  have m: "getOpMode op = iAsBx" "getBMode op = OpArgR" using assms(4) by (auto simp: op_table)
  then have r: "0 \<le> ?dest" "?dest < sizecode pt"
    and j: "0 < ?dest \<Longrightarrow> \<exists>j. setlist_loop pt ?dest (nat ?dest) 0 = Inr j \<and> j AND 1 = 0"
    using a by (auto simp: symb_args_def Let_def rbind_Inr_iff split: if_splits)
  define d where "d = nat ?dest"
  have d: "?dest = int d" "d < length (p_code pt)" using r by (simp_all add: d_def)
  have "scan pt 0 d"
  proof (cases "d = 0")
    case False
    with j d obtain k where k: "setlist_loop pt (int d) d 0 = Inr k" "k AND 1 = 0" by auto
    have spec: "0 \<le> k" "k \<le> int d" "\<forall>q. int d - k \<le> q \<and> q < int d \<longrightarrow> setlist0 (p_code pt ! nat q)"
      "k < int d \<longrightarrow> \<not> setlist0 (p_code pt ! nat (int d - 1 - k))"
      using setlist_loop_ok [of 0 "int d" pt d] k(1) d(2) by auto
    have "even k" using k(2) by (simp add: even_iff_mod_2_eq_zero and_one_eq)
    then obtain h' where "k = 2 * h'" by (elim evenE)
    then obtain h where h: "k = 2 * int h" using spec(1) by (metis nat_0_le mult_le_0_iff not_le zero_le_mult_iff zero_less_numeral)
    define p where "p = d - 2 * h"
    have p: "d = p + 2 * h" using spec(2) h by (simp add: p_def)
    have run: "setlist0 (p_code pt ! q)" if "p \<le> q" "q < p + 2 * h" for q
      using spec(3) [rule_format, of "int q"] that p h by simp
    have "scan pt 0 p"
    proof (cases p)
      case 0
      then show ?thesis by (simp add: scan.here)
    next
      case (Suc p1)
      have "\<not> setlist0 (p_code pt ! p1)" using spec(4) Suc p h by simp
      then show ?thesis using scan_cover [of p pt] d(2) p Suc by auto
    qed
    then show ?thesis using scan_even_run [of pt p h] run d(2) p by simp
  qed (simp add: scan.here)
  then show thesis using that d by blast
qed

text \<open>Where the virtual machine goes on after an instruction, as \<open>luaV_execute\<close> moves \<open>pc\<close>.\<close>

definition succs :: "Proto \<Rightarrow> nat \<Rightarrow> int list" where
  "succs pt pc =
     (let i = p_code pt ! pc; here = int pc; jump = here + 1 + GETARG_sBx i in
      case opcode i of
        None \<Rightarrow> []
      | Some op \<Rightarrow>
          if op = OP_RETURN then []
          else if op = OP_JMP \<or> op = OP_FORPREP then [jump]
          else if op = OP_FORLOOP then [here + 1, jump]
          else if testTMode op then [here + 2, here + 2 + GETARG_sBx (p_code pt ! (pc + 1))]
          else if op = OP_LOADBOOL \<and> GETARG_C i \<noteq> 0 then [here + 2]
          else if op = OP_SETLIST \<and> GETARG_C i = 0 then [here + 2]
          else if op = OP_CLOSURE then [here + 1 + uint (p_nups (p_p pt ! nat (GETARG_Bx i)))]
          else [here + 1])"

inductive reach :: "Proto \<Rightarrow> int \<Rightarrow> bool" for pt where
  start: "reach pt 0"
| go: "reach pt pc \<Longrightarrow> q \<in> set (succs pt (nat pc)) \<Longrightarrow> reach pt q"

definition narrow_loadbool :: "Proto \<Rightarrow> bool" where
  "narrow_loadbool pt \<longleftrightarrow> (\<forall>i\<in>set (p_code pt). opcode i = Some OP_LOADBOOL \<longrightarrow> GETARG_C i \<le> 1)"

definition lands :: "Proto \<Rightarrow> int \<Rightarrow> bool" where
  "lands pt q \<longleftrightarrow> (\<exists>d. q = int d \<and> d < length (p_code pt) \<and> scan pt 0 d)"

lemma lands_next:
  assumes "precheck pt" "scan pt 0 q" "q < length (p_code pt)" "opcode (p_code pt ! q) = Some op" "op \<noteq> OP_RETURN"
    "\<not> setlist0 (p_code pt ! q)"
  shows "lands pt (int q + 1)"
  using not_last [OF assms(1,3)] assms scan_snoc [OF assms(2,3)] by (auto simp: lands_def nxt_def intro!: exI [of _ "Suc q"])

lemma lands_skip:
  assumes "lands pt (int q + 1)" "\<not> setlist0 (p_code pt ! Suc q)" "int q + 2 < sizecode pt"
  shows "lands pt (int q + 2)"
proof -
  from assms(1) obtain d where "int q + 1 = int d" "d < length (p_code pt)" "scan pt 0 d" by (auto simp: lands_def)
  moreover from this have "d = Suc q" by simp
  ultimately have "scan pt 0 (Suc q)" "Suc q < length (p_code pt)" by simp_all
  from scan_snoc [OF this] assms(2,3) show ?thesis by (auto simp: lands_def nxt_def intro!: exI [of _ "Suc (Suc q)"])
qed

lemma closure_pseudo:
  "closure_loop pt pc n = Inr (Some ()) \<Longrightarrow> 0 \<le> pc \<Longrightarrow> pc + int n \<le> sizecode pt \<Longrightarrow> k < n \<Longrightarrow>
   opcode (p_code pt ! (nat pc + k)) = Some OP_GETUPVAL \<or> opcode (p_code pt ! (nat pc + k)) = Some OP_MOVE"
proof (induction n arbitrary: pc k)
  case (Suc n)
  then have d: "opcode (p_code pt ! nat pc) = Some OP_GETUPVAL \<or> opcode (p_code pt ! nat pc) = Some OP_MOVE"
    and l: "closure_loop pt (pc + 1) n = Inr (Some ())" by auto
  show ?case
  proof (cases k)
    case (Suc k1)
    have "nat (pc + 1) + k1 = nat pc + k" using Suc Suc.prems(2) by simp
    then show ?thesis using Suc.IH [OF l, of k1] Suc Suc.prems by simp
  qed (use d in simp)
qed simp

lemma succs_land:
  assumes c: "luaG_checkcode pt = Inr True" and n: "narrow_loadbool pt" and q: "scan pt 0 q" "q < length (p_code pt)"
    and t: "s \<in> set (succs pt q)"
  shows "lands pt s"
proof -
  let ?i = "p_code pt ! q"
  note pre = checked(1) [OF c] and st = checked(2) [OF c]
  from st [OF q] q(2) obtain op b cc a l r where op: "opcode ?i = Some op"
    and args: "symb_args pt (int q) ?i op = Inr (Some (b, cc))" and test: "symb_test pt (int q) op = Inr (Some ())"
    and act: "symb_op pt (sizecode pt) NO_REG (int q) op a b cc l = Inr (Some r)"
    by (rule steppedE)
  have jump: "lands pt (int d + 1 + GETARG_sBx (p_code pt ! d))"
    if "scan pt 0 d" "d < length (p_code pt)" "opcode (p_code pt ! d) = Some o1" "o1 \<in> {OP_JMP, OP_FORLOOP, OP_FORPREP}" for d o1
    using jump_target [OF st [OF that(1,2)] that(2,3,4)] by (metis lands_def)
  have next1: "lands pt (int q + 1)" if "op \<noteq> OP_RETURN" "op \<noteq> OP_SETLIST \<or> GETARG_C ?i \<noteq> 0"
    using lands_next [OF pre q op] that op by (auto simp: setlist0_def)
  consider "op = OP_RETURN" | "op \<in> {OP_JMP, OP_FORLOOP, OP_FORPREP}" | "testTMode op" | "op = OP_LOADBOOL" "GETARG_C ?i \<noteq> 0"
    | "op = OP_SETLIST" "GETARG_C ?i = 0" | "op = OP_CLOSURE"
    | "op \<noteq> OP_RETURN" "op \<notin> {OP_JMP, OP_FORLOOP, OP_FORPREP}" "\<not> testTMode op" "op \<noteq> OP_LOADBOOL \<or> GETARG_C ?i = 0"
      "op \<noteq> OP_SETLIST \<or> GETARG_C ?i \<noteq> 0" "op \<noteq> OP_CLOSURE" by blast
  then show ?thesis
  proof cases
    case 1
    then show ?thesis using t op by (simp add: succs_def)
  next
    case 2
    then have "s = int q + 1 + GETARG_sBx ?i \<or> s = int q + 1" using t op by (auto simp: succs_def Let_def)
    then show ?thesis using jump [OF q op 2] next1 2 by auto
  next
    case 3
    then have s: "s = int q + 2 \<or> s = int q + 2 + GETARG_sBx (p_code pt ! (q + 1))"
      using t op by (auto simp: succs_def Let_def testTMode_table)
    have k: "int q + 2 < sizecode pt" "opcode (p_code pt ! (q + 1)) = Some OP_JMP"
      using test 3 by (auto simp: symb_test_def nat_add_distrib split: if_splits)
    have l: "lands pt (int q + 1)" using next1 3 by (auto simp: testTMode_table)
    then have "scan pt 0 (q + 1)" by (auto simp: lands_def) (metis add.commute of_nat_Suc of_nat_eq_iff Suc_eq_plus1)
    then have "lands pt (int (q + 1) + 1 + GETARG_sBx (p_code pt ! (q + 1)))" using k by (intro jump) auto
    moreover have "lands pt (int q + 2)" using lands_skip [OF l] k by simp
    ultimately show ?thesis using s by (auto simp: algebra_simps)
  next
    case 4
    then have s: "s = int q + 2" using t op by (auto simp: succs_def Let_def testTMode_table)
    have "?i \<in> set (p_code pt)" using q(2) by simp
    then have "GETARG_C ?i = 1"
      using n 4 op GETFIELD_range(1) [of SIZE_C POS_C ?i] by (fastforce simp: narrow_loadbool_def GETARG_C_def)
    moreover have "cc = GETARG_C ?i" using args 4 by (simp add: symb_args_def op_table Let_def)
    ultimately have "int q + 2 < sizecode pt" "\<not> setlist0 (p_code pt ! Suc q)"
      using act 4 by (auto simp: symb_op_def Let_def nat_add_distrib setlist0_def split: if_splits)
    then show ?thesis using s lands_skip [OF next1] 4 by simp
  next
    case 5
    then have s: "s = int q + 2" using t op by (auto simp: succs_def Let_def testTMode_table)
    have "cc = GETARG_C ?i" using args 5 by (simp add: symb_args_def op_table Let_def)
    then have "int q + 1 < sizecode pt - 1" using act 5 by (auto simp: symb_op_def Let_def split: if_splits)
    moreover have "scan pt 0 (q + 2)" using scan_snoc [OF q] 5 op by (simp add: nxt_def setlist0_def)
    ultimately show ?thesis using s by (auto simp: lands_def intro!: exI [of _ "q + 2"])
  next
    case 6
    let ?n = "unat (p_nups (p_p pt ! nat (GETARG_Bx ?i)))"
    have s: "s = int q + 1 + int ?n" using t op 6 by (auto simp: succs_def Let_def testTMode_table)
    have "b = GETARG_Bx ?i" using args 6 by (simp add: symb_args_def op_table Let_def)
    then have k: "int q + int ?n < sizecode pt" "closure_loop pt (int q + 1) ?n = Inr (Some ())"
      using act 6 by (auto simp: symb_op_def Let_def split: if_splits)
    have "lands pt (int q + 1 + int m)" if "m \<le> ?n" for m
      using that
    proof (induction m)
      case 0
      then show ?case using next1 6 by simp
    next
      case (Suc m)
      then have "lands pt (int q + 1 + int m)" by simp
      then obtain d where d: "int q + 1 + int m = int d" "scan pt 0 d" "d < length (p_code pt)" by (auto simp: lands_def)
      have "d = Suc q + m" using d(1) by simp
      then have o1: "opcode (p_code pt ! d) = Some OP_GETUPVAL \<or> opcode (p_code pt ! d) = Some OP_MOVE"
        using closure_pseudo [OF k(2), of m] k(1) Suc.prems by (simp add: nat_add_distrib)
      then have "lands pt (int d + 1)" using lands_next [OF pre d(2,3)] by auto
      then show ?case using d(1) by (simp add: algebra_simps)
    qed
    from this [OF le_refl] show ?thesis unfolding s .
  next
    case 7
    then have "s = int q + 1" using t op by (auto simp: succs_def Let_def)
    then show ?thesis using next1 7 by simp
  qed
qed

lemma reach_lands:
  assumes "luaG_checkcode pt = Inr True" "narrow_loadbool pt" "reach pt q"
  shows "lands pt q"
  using assms(3)
proof (induction rule: reach.induct)
  case start
  have "p_code pt \<noteq> []" using checked(1) [OF assms(1)] by (simp add: precheck_def)
  then show ?case by (auto simp: lands_def intro: scan.here)
next
  case (go pc q)
  from go.IH obtain d where "pc = int d" "d < length (p_code pt)" "scan pt 0 d" by (auto simp: lands_def)
  with succs_land [OF assms(1,2), of d q] go.hyps(2) show ?case by simp
qed

section \<open>Properties\<close>

text \<open>
  The checker itself is memory safe: whatever a prototype holds, and whichever register and
  position a trace is asked for, \<open>symbexec\<close> reads the arrays of the prototype in bounds and ends.
\<close>

theorem symbexec_in_bounds:
  assumes "lastpc \<le> sizecode pt"
  shows "\<exists>i. symbexec pt lastpc reg = Inr i"
proof (cases "precheck pt")
  case True
  then have "0 \<le> sizecode pt - 1" by (cases "p_code pt") (auto simp: precheck_def)
  then show ?thesis using symb_loop_ok [OF True, of 0 lastpc "sizecode pt - 1" reg] assms True
    by (auto simp: symbexec_def rok_def)
qed (simp add: symbexec_def)

definition proto_of :: "Instruction list \<Rightarrow> Proto" where
  "proto_of code = Proto [] code [] [] [] [] None 0 0 0 0 0 2"

abbreviation op_abc :: "OpCode \<Rightarrow> int \<Rightarrow> int \<Rightarrow> int \<Rightarrow> Instruction" where
  "op_abc op a b c \<equiv> CREATE_ABC (int (op_number op)) a b c"

theorem symbexec_in_bounds_witness: "\<exists>i. symbexec (proto_of [op_abc OP_LOADNIL 0 1 0, op_abc OP_RETURN 0 1 0]) 1 0 = Inr i"
  by (rule symbexec_in_bounds) (simp add: proto_of_def)

text \<open>
  C21. Checked code keeps control inside the code: if \<open>luaG_checkcode\<close> accepts a prototype whose
  \<open>LOADBOOL\<close> instructions have C at most 1, then every position that execution can reach
  from the first instruction is inside the code and holds an instruction with a known opcode and a
  register A in the frame; in particular no jump leads out of the code or into the
  count word of a \<open>SETLIST\<close>.
\<close>

theorem checkcode_control_flow:
  assumes "luaG_checkcode pt = Inr True" and "narrow_loadbool pt" and "reach pt pc"
  shows "0 \<le> pc \<and> pc < sizecode pt \<and> scan pt 0 (nat pc) \<and>
    (\<exists>op. opcode (p_code pt ! nat pc) = Some op) \<and> GETARG_A (p_code pt ! nat pc) < maxstack pt"
proof -
  from reach_lands [OF assms] obtain d where d: "pc = int d" "d < length (p_code pt)" "scan pt 0 d" by (auto simp: lands_def)
  from checked(2) [OF assms(1) d(3,2)] d(2) show ?thesis
    by (rule steppedE) (use d in \<open>auto simp: checkreg_def\<close>)
qed

definition demo :: Proto where
  "demo = proto_of [op_abc OP_LOADNIL 0 1 0, op_abc OP_RETURN 0 1 0]"

lemma demo_checked: "luaG_checkcode demo = Inr True" "narrow_loadbool demo" "reach demo 1"
proof -
  show "luaG_checkcode demo = Inr True" by code_simp
  show "narrow_loadbool demo" by code_simp
  show "reach demo 1" by (rule reach.go [OF reach.start]) code_simp
qed

theorem checkcode_control_flow_witness:
  "0 \<le> (1 :: int) \<and> 1 < sizecode demo \<and> scan demo 0 (nat 1) \<and>
    (\<exists>op. opcode (p_code demo ! nat 1) = Some op) \<and> GETARG_A (p_code demo ! nat 1) < maxstack demo"
  by (rule checkcode_control_flow [OF demo_checked])


end
