(* ===== verification/Lzio.thy ===== *)
theory Lzio
  imports Prelude
begin

text \<open>
  Buffered streams, \<open>liblua/src/lzio.c\<close> and \<open>liblua/src/lzio.h\<close>. The reader function that
  feeds a stream is given by the list of its results: blocks of bytes, or \<open>None\<close> for a null
  pointer. A stream knows the current block, the position in it and the number of bytes that are
  left; the last one is of type \<open>size_t\<close> and wraps in \<open>zgetc\<close>.
\<close>

section \<open>Streams\<close>

record ZIO =
  z_n :: nat
  z_buf :: string
  z_p :: nat
  z_reader :: "string option list"

definition EOZ :: int where "EOZ = - 1"

definition char2int :: "char \<Rightarrow> int" where
  "char2int c = of_char c"

definition luaZ_init :: "string option list \<Rightarrow> ZIO" where
  "luaZ_init reader = \<lparr>z_n = 0, z_buf = [], z_p = 0, z_reader = reader\<rparr>"

definition luaZ_fill :: "ZIO \<Rightarrow> int \<times> ZIO" where
  "luaZ_fill z =
     (case z_reader z of
        [] \<Rightarrow> (EOZ, z)
      | r # rs \<Rightarrow>
          (let z1 = z\<lparr>z_reader := rs\<rparr> in
           case r of
             None \<Rightarrow> (EOZ, z1)
           | Some buff \<Rightarrow>
               if length buff = 0 then (EOZ, z1)
               else (char2int (buff ! 0), z1\<lparr>z_n := length buff - 1, z_buf := buff, z_p := 1\<rparr>)))"

text \<open>The byte at the current position.\<close>

definition z_char :: "ZIO \<Rightarrow> int res" where
  "z_char z = (if z_p z < length (z_buf z) then Inr (char2int (z_buf z ! z_p z)) else Inl Out_Of_Bounds)"

definition luaZ_lookahead :: "ZIO \<Rightarrow> (int \<times> ZIO) res" where
  "luaZ_lookahead z =
     (if z_n z = 0
      then case luaZ_fill z of (c, z1) \<Rightarrow>
        if c = EOZ then Inr (EOZ, z1)
        else let z2 = z1\<lparr>z_n := z_n z1 + 1, z_p := z_p z1 - 1\<rparr> in rbind (z_char z2) (\<lambda>ch. Inr (ch, z2))
      else rbind (z_char z) (\<lambda>ch. Inr (ch, z)))"

definition zgetc :: "ZIO \<Rightarrow> (int \<times> ZIO) res" where
  "zgetc z =
     (let z1 = z\<lparr>z_n := (if z_n z = 0 then 2 ^ 64 - 1 else z_n z - 1)\<rparr> in
      if z_n z > 0 then rbind (z_char z) (\<lambda>ch. Inr (ch, z1\<lparr>z_p := z_p z + 1\<rparr>))
      else Inr (luaZ_fill z1))"

lemma char2int_not_EOZ [simp]: "char2int c \<noteq> EOZ"
  by (simp add: char2int_def EOZ_def) (metis neg_0_le_iff_le not_one_le_zero of_char_of of_nat_0_le_iff of_nat_of_char)

lemma luaZ_fill_cases:
  obtains z1 where "luaZ_fill z = (EOZ, z1)"
  | c cs rs where "z_reader z = Some (c # cs) # rs"
    "luaZ_fill z = (char2int c, z\<lparr>z_reader := rs, z_n := length cs, z_buf := c # cs, z_p := 1\<rparr>)"
  by (cases "z_reader z"; cases "hd (z_reader z)"; cases "the (hd (z_reader z))") (auto simp: luaZ_fill_def Let_def)

lemma lookahead_pos: "luaZ_lookahead z = Inr (c, z1) \<Longrightarrow> c \<noteq> EOZ \<Longrightarrow> 0 < z_n z1"
  by (cases z rule: luaZ_fill_cases) (auto simp: luaZ_lookahead_def Let_def rbind_Inr_iff split: if_splits)

function luaZ_read :: "ZIO \<Rightarrow> nat \<Rightarrow> (nat \<times> string \<times> ZIO) res" where
  "luaZ_read z n =
     (if n = 0 then Inr (0, [], z)
      else case luaZ_lookahead z of
        Inl e \<Rightarrow> Inl e
      | Inr (c, z1) \<Rightarrow>
          if c = EOZ then Inr (n, [], z1)
          else
            let m = (if n \<le> z_n z1 then n else z_n z1) in
            if z_p z1 + m \<le> length (z_buf z1)
            then rbind (luaZ_read (z1\<lparr>z_n := z_n z1 - m, z_p := z_p z1 + m\<rparr>) (n - m)) (\<lambda>(r, b, z2).
              Inr (r, take m (drop (z_p z1) (z_buf z1)) @ b, z2))
            else Inl Out_Of_Bounds)"
  by pat_completeness auto
termination
  by (relation "measure (\<lambda>(z, n). n)") (auto dest: lookahead_pos)

declare luaZ_read.simps [simp del]

section \<open>Buffers\<close>

definition LUA_MINBUFFER :: nat where "LUA_MINBUFFER = 32"
definition MAX_SIZET :: nat where "MAX_SIZET = 2 ^ 64 - 3"

text \<open>The new size of a buffer that must hold \<open>n\<close> bytes.\<close>

definition luaZ_openspace :: "nat \<Rightarrow> nat \<Rightarrow> nat" where
  "luaZ_openspace buffsize n =
     (if n > buffsize then (if n < LUA_MINBUFFER then LUA_MINBUFFER else n) else buffsize)"

section \<open>What a stream holds\<close>

definition wf_zio :: "ZIO \<Rightarrow> bool" where
  "wf_zio z \<longleftrightarrow> z_p z + z_n z = length (z_buf z)"

primrec blocks :: "string option list \<Rightarrow> string" where
  "blocks [] = []"
| "blocks (r # rs) = (case r of None \<Rightarrow> [] | Some b \<Rightarrow> if b = [] then [] else b @ blocks rs)"

definition pending :: "ZIO \<Rightarrow> string" where
  "pending z = drop (z_p z) (z_buf z) @ blocks (z_reader z)"

lemma init_stream: "wf_zio (luaZ_init rs)" "pending (luaZ_init rs) = blocks rs"
  by (simp_all add: luaZ_init_def wf_zio_def pending_def)

lemma lookahead_spec:
  assumes "wf_zio z"
  shows "if pending z = [] then (\<exists>z1. luaZ_lookahead z = Inr (EOZ, z1) \<and> wf_zio z1)
    else \<exists>z1. luaZ_lookahead z = Inr (char2int (hd (pending z)), z1) \<and> wf_zio z1 \<and> pending z1 = pending z \<and> 0 < z_n z1"
proof (cases "z_n z = 0")
  case True
  then have d: "drop (z_p z) (z_buf z) = []" using assms by (simp add: wf_zio_def)
  show ?thesis
  proof (cases "z_reader z")
    case Nil
    then show ?thesis using True d assms by (simp add: pending_def luaZ_lookahead_def luaZ_fill_def)
  next
    case (Cons r rs)
    then show ?thesis using True d assms
      by (cases r) (auto simp: pending_def luaZ_lookahead_def luaZ_fill_def wf_zio_def z_char_def hd_conv_nth nth_append)
  qed
next
  case False
  then have "z_p z < length (z_buf z)" using assms by (simp add: wf_zio_def)
  moreover from this have "drop (z_p z) (z_buf z) = z_buf z ! z_p z # drop (Suc (z_p z)) (z_buf z)"
    by (simp add: Cons_nth_drop_Suc)
  ultimately show ?thesis using False assms by (simp add: pending_def luaZ_lookahead_def z_char_def)
qed

lemma luaZ_read_ok:
  assumes "wf_zio z"
  shows "rok (luaZ_read z n) (\<lambda>(r, b, z1). wf_zio z1 \<and> r = n - length (pending z) \<and> b = take n (pending z) \<and>
     (r = 0 \<longrightarrow> pending z1 = drop n (pending z)))"
  using assms
proof (induction n arbitrary: z rule: less_induct)
  case (less n)
  show ?case
  proof (cases "n = 0")
    case True
    then show ?thesis using less.prems by (simp add: luaZ_read.simps)
  next
    case n: False
    note la = lookahead_spec [OF less.prems]
    show ?thesis
    proof (cases "pending z = []")
      case True
      then show ?thesis using la n by (auto simp: luaZ_read.simps [of z n])
    next
      case False
      with la obtain z1 where z1: "luaZ_lookahead z = Inr (char2int (hd (pending z)), z1)" "wf_zio z1"
        "pending z1 = pending z" "0 < z_n z1" by auto
      define m where "m = (if n \<le> z_n z1 then n else z_n z1)"
      let ?z2 = "z1\<lparr>z_n := z_n z1 - m, z_p := z_p z1 + m\<rparr>"
      have m: "0 < m" "m \<le> n" "m \<le> z_n z1" using n z1(4) by (auto simp: m_def)
      have fit: "z_p z1 + m \<le> length (z_buf z1)" using z1(2) m by (simp add: wf_zio_def)
      have w: "wf_zio ?z2" using z1(2) m by (simp add: wf_zio_def)
      have p: "pending z = take m (drop (z_p z1) (z_buf z1)) @ pending ?z2"
        unfolding z1(3) [symmetric] by (simp add: pending_def add.commute [of _ m] flip: drop_drop append_assoc)
      have len: "length (take m (drop (z_p z1) (z_buf z1))) = m" using fit by simp
      have "rok (luaZ_read ?z2 (n - m)) (\<lambda>(r, b, z3). wf_zio z3 \<and> r = n - m - length (pending ?z2) \<and>
          b = take (n - m) (pending ?z2) \<and> (r = 0 \<longrightarrow> pending z3 = drop (n - m) (pending ?z2)))"
        using m w n by (intro less.IH) auto
      moreover have "luaZ_read z n = rbind (luaZ_read ?z2 (n - m)) (\<lambda>(r, b, z2).
          Inr (r, take m (drop (z_p z1) (z_buf z1)) @ b, z2))"
        using n z1(1) fit by (subst luaZ_read.simps) (simp add: Let_def flip: m_def)
      ultimately show ?thesis unfolding p using len m
        by (auto simp: rok_rbind elim!: rok_mono)
    qed
  qed
qed

section \<open>A stream as a source of characters\<close>

text \<open>
  What a client of a stream relies on: \<open>getc\<close> delivers the characters that are left one by one, and then
  the mark of the end; behind the end nothing is promised.
\<close>

locale char_stream =
  fixes getc :: "'s \<Rightarrow> (int \<times> 's) res" and inv :: "'s \<Rightarrow> bool" and left :: "'s \<Rightarrow> string"
  assumes getc_end: "inv s \<Longrightarrow> left s = [] \<Longrightarrow> \<exists>s1. getc s = Inr (EOZ, s1)"
    and getc_char: "inv s \<Longrightarrow> left s = c # cs \<Longrightarrow> \<exists>s1. getc s = Inr (char2int c, s1) \<and> inv s1 \<and> left s1 = cs"
begin

lemma getc_not_fault: "inv s \<Longrightarrow> \<exists>c s1. getc s = Inr (c, s1)"
  using getc_end getc_char by (cases "left s") blast+

lemma getc_EOZ_iff: "inv s \<Longrightarrow> getc s = Inr (c, s1) \<Longrightarrow> c = EOZ \<longleftrightarrow> left s = []"
  using getc_end [of s] getc_char [of s] by (cases "left s") force+

end

lemma zgetc_end: "wf_zio z \<Longrightarrow> pending z = [] \<Longrightarrow> \<exists>z1. zgetc z = Inr (EOZ, z1)"
  by (cases z rule: luaZ_fill_cases)
    (auto simp: zgetc_def Let_def luaZ_fill_def pending_def wf_zio_def split: list.splits option.splits if_splits)

lemma zgetc_char:
  assumes "wf_zio z" "pending z = c # cs"
  shows "\<exists>z1. zgetc z = Inr (char2int c, z1) \<and> wf_zio z1 \<and> pending z1 = cs"
proof (cases "0 < z_n z")
  case True
  then have "z_p z < length (z_buf z)" using assms(1) by (simp add: wf_zio_def)
  then show ?thesis using assms True
    by (auto simp: zgetc_def z_char_def Let_def pending_def wf_zio_def Cons_nth_drop_Suc [symmetric])
next
  case False
  then have "blocks (z_reader z) = c # cs" using assms by (simp add: pending_def wf_zio_def)
  then obtain bs rs where "z_reader z = Some (c # bs) # rs" "cs = bs @ blocks rs"
    by (cases "z_reader z") (auto split: option.splits if_splits simp: append_eq_Cons_conv)
  then show ?thesis using False by (auto simp: zgetc_def Let_def luaZ_fill_def pending_def wf_zio_def)
qed

interpretation zio: char_stream zgetc wf_zio pending
  by unfold_locales (rule zgetc_end zgetc_char; assumption)+

section \<open>Properties\<close>

text \<open>
  C40. Reading from a stream: whatever the sizes of the blocks the reader delivers, \<open>luaZ_read\<close>
  returns the next \<open>n\<close> bytes of their concatenation, or all that is left and the number of missing
  bytes, and it never reads outside a block.
\<close>

theorem luaZ_read_takes:
  assumes "wf_zio z"
  shows "\<exists>z1. luaZ_read z n = Inr (n - length (pending z), take n (pending z), z1) \<and> wf_zio z1 \<and>
    (n \<le> length (pending z) \<longrightarrow> pending z1 = drop n (pending z))"
  using luaZ_read_ok [OF assms, of n] by (auto simp: rok_def)

theorem luaZ_read_takes_witness:
  "\<exists>z1. luaZ_read (luaZ_init [Some ''ab'', Some ''cde'']) 4 =
    Inr (4 - length (pending (luaZ_init [Some ''ab'', Some ''cde''])), take 4 (pending (luaZ_init [Some ''ab'', Some ''cde''])), z1) \<and>
    wf_zio z1 \<and> pending z1 = drop 4 (pending (luaZ_init [Some ''ab'', Some ''cde'']))"
  using luaZ_read_takes [OF init_stream(1) [of "[Some ''ab'', Some ''cde'']"], of 4] by (simp add: init_stream(2))

text \<open>
  The end of a stream: \<open>zgetc\<close> decrements the number of unread bytes before it looks at it.
  At the end of the stream it returns \<open>EOZ\<close>, but the number has wrapped to the largest
  one, and another call reads behind the block.
\<close>

theorem zgetc_after_end:
  "zgetc (luaZ_init []) = Inr (EOZ, (luaZ_init [])\<lparr>z_n := 2 ^ 64 - 1\<rparr>) \<and>
   zgetc ((luaZ_init [])\<lparr>z_n := 2 ^ 64 - 1\<rparr>) = Inl Out_Of_Bounds"
  by (simp add: zgetc_def luaZ_init_def luaZ_fill_def z_char_def)

end
