(* ===== verification/Lundump.thy ===== *)
theory Lundump
  imports Ldebug Lzio
begin

text \<open>
  Binary chunks, \<open>liblua/src/ldump.c\<close> and \<open>liblua/src/lundump.c\<close>, in the memory layout of a
  64-bit little-endian machine: \<open>int\<close> and instructions have 4 bytes, \<open>size_t\<close> and numbers 8.

  The writer that receives a dump is a function on a state of its own. Loading works on a stream
  and may fail with the error that Lua raises. Whether the allocator provides a block of so many
  bytes is the parameter \<open>alloc\<close>; objects of fixed size are taken to be allocated. The number that
  bounds the nesting of functions when loading is what is left of \<open>LUAI_MAXCCALLS\<close> nested calls.
\<close>

section \<open>Memory layout\<close>

primrec le :: "nat \<Rightarrow> nat \<Rightarrow> string" where
  "le 0 n = []"
| "le (Suc k) n = char_of (n mod 256) # le k (n div 256)"

primrec unle :: "string \<Rightarrow> nat" where
  "unle [] = 0"
| "unle (c # cs) = of_char c + 256 * unle cs"

text \<open>The elements of an array of which each takes \<open>k\<close> bytes.\<close>

primrec elems :: "nat \<Rightarrow> nat \<Rightarrow> string \<Rightarrow> nat list" where
  "elems k 0 b = []"
| "elems k (Suc n) b = unle (take k b) # elems k n (drop k b)"

definition LUA_SIGNATURE :: string where "LUA_SIGNATURE = CHR 0x1B # ''Lua''"

definition LUAC_VERSION :: nat where "LUAC_VERSION = 0x51"
definition LUAC_FORMAT :: nat where "LUAC_FORMAT = 0"
definition LUAC_HEADERSIZE :: nat where "LUAC_HEADERSIZE = 12"

definition luaU_header :: string where
  "luaU_header = LUA_SIGNATURE @ map char_of [LUAC_VERSION, LUAC_FORMAT, 1, 4, 8, 4, 8, 0]"

section \<open>Dumping\<close>

type_synonym 'w writer = "'w \<Rightarrow> string \<Rightarrow> int \<times> 'w"

record 'w DumpState =
  d_data :: 'w
  d_strip :: bool
  d_status :: int

definition DumpBlock :: "'w writer \<Rightarrow> string \<Rightarrow> 'w DumpState \<Rightarrow> 'w DumpState" where
  "DumpBlock writer b D =
     (if d_status D = 0 then case writer (d_data D) b of (st, w) \<Rightarrow> D\<lparr>d_status := st, d_data := w\<rparr> else D)"

definition DumpChar :: "'w writer \<Rightarrow> int \<Rightarrow> 'w DumpState \<Rightarrow> 'w DumpState" where
  "DumpChar writer y D = DumpBlock writer (le 1 (nat (y mod 256))) D"

definition DumpInt :: "'w writer \<Rightarrow> c_int \<Rightarrow> 'w DumpState \<Rightarrow> 'w DumpState" where
  "DumpInt writer x D = DumpBlock writer (le 4 (unat x)) D"

definition DumpNumber :: "'w writer \<Rightarrow> 64 word \<Rightarrow> 'w DumpState \<Rightarrow> 'w DumpState" where
  "DumpNumber writer x D = DumpBlock writer (le 8 (unat x)) D"

definition DumpVector :: "'w writer \<Rightarrow> 32 word list \<Rightarrow> 'w DumpState \<Rightarrow> 'w DumpState" where
  "DumpVector writer b D =
     DumpBlock writer (concat (map (\<lambda>x. le 4 (unat x)) b)) (DumpInt writer (of_nat (length b)) D)"

definition DumpString :: "'w writer \<Rightarrow> TString option \<Rightarrow> 'w DumpState \<Rightarrow> 'w DumpState" where
  "DumpString writer s D =
     (case s of
        None \<Rightarrow> DumpBlock writer (le 8 0) D
      | Some str \<Rightarrow>
          let size = of_nat (length str) + 1 :: size_t in
          DumpBlock writer (str @ [NUL]) (DumpBlock writer (le 8 (unat size)) D))"

definition DumpCode :: "'w writer \<Rightarrow> Proto \<Rightarrow> 'w DumpState \<Rightarrow> 'w DumpState" where
  "DumpCode writer f D = DumpVector writer (p_code f) D"

definition DumpConstant :: "'w writer \<Rightarrow> TValue \<Rightarrow> 'w DumpState \<Rightarrow> 'w DumpState" where
  "DumpConstant writer v D =
     (let D1 = DumpChar writer (ttype v) D in
      case v of
        TNil \<Rightarrow> D1
      | TBoolean b \<Rightarrow> DumpChar writer (if b then 1 else 0) D1
      | TNumber n \<Rightarrow> DumpNumber writer n D1
      | TStr s \<Rightarrow> DumpString writer s D1)"

text \<open>The constants, and the number of functions inside, which \<open>DumpFunction\<close> dumps next.\<close>

definition DumpConstants :: "'w writer \<Rightarrow> Proto \<Rightarrow> 'w DumpState \<Rightarrow> 'w DumpState" where
  "DumpConstants writer f D =
     DumpInt writer (of_nat (length (p_p f)))
       (fold (DumpConstant writer) (p_k f) (DumpInt writer (of_nat (length (p_k f))) D))"

definition DumpLocVar :: "'w writer \<Rightarrow> LocVar \<Rightarrow> 'w DumpState \<Rightarrow> 'w DumpState" where
  "DumpLocVar writer v D = DumpInt writer (endpc v) (DumpInt writer (startpc v) (DumpString writer (varname v) D))"

definition DumpDebug :: "'w writer \<Rightarrow> Proto \<Rightarrow> 'w DumpState \<Rightarrow> 'w DumpState" where
  "DumpDebug writer f D =
     (let lineinfo = (if d_strip D then [] else p_lineinfo f);
        locvars = (if d_strip D then [] else p_locvars f);
        upvalues = (if d_strip D then [] else p_upvalues f) in
      fold (DumpString writer) upvalues
        (DumpInt writer (of_nat (length upvalues))
          (fold (DumpLocVar writer) locvars
            (DumpInt writer (of_nat (length locvars)) (DumpVector writer lineinfo D)))))"

lemma size_p_p: "g \<in> set (p_p f) \<Longrightarrow> size g < size f"
  using size_list_estimation' [of g "p_p f" "size g" size] by (cases f) auto

function DumpFunction :: "'w writer \<Rightarrow> Proto \<Rightarrow> TString option \<Rightarrow> 'w DumpState \<Rightarrow> 'w DumpState" where
  "DumpFunction writer f p D =
     DumpDebug writer f
     (fold (\<lambda>g D1. DumpFunction writer g (p_source f) D1) (p_p f)
     (DumpConstants writer f
     (DumpCode writer f
     (DumpChar writer (uint (p_maxstacksize f))
     (DumpChar writer (uint (p_is_vararg f))
     (DumpChar writer (uint (p_numparams f))
     (DumpChar writer (uint (p_nups f))
     (DumpInt writer (p_lastlinedefined f)
     (DumpInt writer (p_linedefined f)
     (DumpString writer (if p_source f = p \<or> d_strip D then None else p_source f) D))))))))))"
  by pat_completeness auto
termination
  by (relation "measure (\<lambda>(writer, f, p, D). size f)") (auto simp: size_p_p)

declare DumpFunction.simps [simp del]

definition DumpHeader :: "'w writer \<Rightarrow> 'w DumpState \<Rightarrow> 'w DumpState" where
  "DumpHeader writer D = DumpBlock writer luaU_header D"

definition luaU_dump :: "Proto \<Rightarrow> 'w writer \<Rightarrow> 'w \<Rightarrow> bool \<Rightarrow> int \<times> 'w" where
  "luaU_dump f writer data strip =
     (let D = DumpFunction writer f None (DumpHeader writer \<lparr>d_data = data, d_strip = strip, d_status = 0\<rparr>) in
      (d_status D, d_data D))"

section \<open>Loading\<close>

record LoadState =
  S_Z :: ZIO
  S_buffsize :: nat
  S_name :: string

type_synonym 'a load = "LoadState \<Rightarrow> lerror + 'a \<times> LoadState"

definition lret :: "'a \<Rightarrow> 'a load" where
  "lret x S = Inr (x, S)"

definition lbind :: "'a load \<Rightarrow> ('a \<Rightarrow> 'b load) \<Rightarrow> 'b load" where
  "lbind m f S = (case m S of Inl e \<Rightarrow> Inl e | Inr (x, S1) \<Rightarrow> f x S1)"

definition load_error :: "string \<Rightarrow> 'a load" where
  "load_error why S = Inl (Syntax (S_name S @ '': '' @ why @ '' in precompiled chunk''))"

primrec repeat_load :: "nat \<Rightarrow> 'a load \<Rightarrow> 'a list load" where
  "repeat_load 0 m = lret []"
| "repeat_load (Suc n) m = lbind m (\<lambda>x. lbind (repeat_load n m) (\<lambda>xs. lret (x # xs)))"

definition LoadBlock :: "nat \<Rightarrow> string load" where
  "LoadBlock sz S =
     (case luaZ_read (S_Z S) sz of
        Inl e \<Rightarrow> Inl (Fault e)
      | Inr (r, b, z) \<Rightarrow> if r \<noteq> 0 then load_error ''unexpected end'' S else Inr (b, S\<lparr>S_Z := z\<rparr>))"

definition LoadChar :: "int load" where
  "LoadChar = lbind (LoadBlock 1) (\<lambda>b. lret (sint (of_nat (unle b) :: 8 word)))"

definition LoadByte :: "8 word load" where
  "LoadByte = lbind LoadChar (\<lambda>x. lret (word_of_int x))"

definition LoadInt :: "c_int load" where
  "LoadInt = lbind (LoadBlock 4) (\<lambda>b.
     let x = of_nat (unle b) :: c_int in if sint x < 0 then load_error ''bad integer'' else lret x)"

definition LoadNumber :: "64 word load" where
  "LoadNumber = lbind (LoadBlock 8) (\<lambda>b. lret (of_nat (unle b)))"

definition openspace :: "(nat \<Rightarrow> bool) \<Rightarrow> nat \<Rightarrow> unit load" where
  "openspace alloc n S =
     (let sz = luaZ_openspace (S_buffsize S) n in
      if sz \<noteq> S_buffsize S \<and> \<not> alloc sz then Inl Memory else Inr ((), S\<lparr>S_buffsize := sz\<rparr>))"

definition LoadString :: "(nat \<Rightarrow> bool) \<Rightarrow> TString option load" where
  "LoadString alloc =
     lbind (LoadBlock 8) (\<lambda>b.
     let sz = unle b in
     if sz = 0 then lret None
     else lbind (openspace alloc sz) (\<lambda>_. lbind (LoadBlock sz) (\<lambda>s. lret (Some (take (sz - 1) s)))))"

text \<open>A new array; the sum in the test is one of \<open>int\<close>s and wraps for the largest number.\<close>

definition luaM_newvector :: "(nat \<Rightarrow> bool) \<Rightarrow> c_int \<Rightarrow> nat \<Rightarrow> unit load" where
  "luaM_newvector alloc n e S =
     (if unat (scast (n + 1) :: size_t) \<le> MAX_SIZET div e
      then if unat n * e \<noteq> 0 \<and> \<not> alloc (unat n * e) then Inl Memory else Inr ((), S)
      else Inl (Runtime ''memory allocation error: block too big''))"

definition LoadVector :: "nat \<Rightarrow> 32 word list load" where
  "LoadVector n = lbind (LoadBlock (n * 4)) (\<lambda>b. lret (map of_nat (elems 4 n b)))"

definition LoadCode :: "(nat \<Rightarrow> bool) \<Rightarrow> 32 word list load" where
  "LoadCode alloc = lbind LoadInt (\<lambda>n. lbind (luaM_newvector alloc n 4) (\<lambda>_. LoadVector (unat n)))"

definition LoadConstant :: "(nat \<Rightarrow> bool) \<Rightarrow> TValue load" where
  "LoadConstant alloc =
     lbind LoadChar (\<lambda>t.
     if t = LUA_TNIL then lret TNil
     else if t = LUA_TBOOLEAN then lbind LoadChar (\<lambda>b. lret (TBoolean (b \<noteq> 0)))
     else if t = LUA_TNUMBER then lbind LoadNumber (\<lambda>n. lret (TNumber n))
     else if t = LUA_TSTRING then lbind (LoadString alloc) (\<lambda>s. lret (TStr s))
     else load_error ''bad constant'')"

text \<open>The constants and the functions; \<open>function\<close> loads one of them.\<close>

definition LoadConstants :: "(nat \<Rightarrow> bool) \<Rightarrow> Proto load \<Rightarrow> (TValue list \<times> Proto list) load" where
  "LoadConstants alloc function =
     lbind LoadInt (\<lambda>n.
     lbind (luaM_newvector alloc n 16) (\<lambda>_.
     lbind (repeat_load (unat n) (LoadConstant alloc)) (\<lambda>k.
     lbind LoadInt (\<lambda>m.
     lbind (luaM_newvector alloc m 8) (\<lambda>_.
     lbind (repeat_load (unat m) function) (\<lambda>p. lret (k, p)))))))"

definition LoadLocVar :: "(nat \<Rightarrow> bool) \<Rightarrow> LocVar load" where
  "LoadLocVar alloc =
     lbind (LoadString alloc) (\<lambda>s. lbind LoadInt (\<lambda>a. lbind LoadInt (\<lambda>b.
     lret \<lparr>varname = s, startpc = a, endpc = b\<rparr>)))"

definition LoadDebug :: "(nat \<Rightarrow> bool) \<Rightarrow> (c_int list \<times> LocVar list \<times> TString option list) load" where
  "LoadDebug alloc =
     lbind LoadInt (\<lambda>n.
     lbind (luaM_newvector alloc n 4) (\<lambda>_.
     lbind (LoadVector (unat n)) (\<lambda>lineinfo.
     lbind LoadInt (\<lambda>m.
     lbind (luaM_newvector alloc m 16) (\<lambda>_.
     lbind (repeat_load (unat m) (LoadLocVar alloc)) (\<lambda>locvars.
     lbind LoadInt (\<lambda>l.
     lbind (luaM_newvector alloc l 8) (\<lambda>_.
     lbind (repeat_load (unat l) (LoadString alloc)) (\<lambda>upvalues.
     lret (lineinfo, locvars, upvalues))))))))))"

primrec LoadFunction :: "(nat \<Rightarrow> bool) \<Rightarrow> nat \<Rightarrow> TString option \<Rightarrow> Proto load" where
  "LoadFunction alloc 0 p = load_error ''code too deep''"
| "LoadFunction alloc (Suc calls) p =
     lbind (LoadString alloc) (\<lambda>s.
     let source = (if s = None then p else s) in
     lbind LoadInt (\<lambda>linedefined.
     lbind LoadInt (\<lambda>lastlinedefined.
     lbind LoadByte (\<lambda>nups.
     lbind LoadByte (\<lambda>numparams.
     lbind LoadByte (\<lambda>is_vararg.
     lbind LoadByte (\<lambda>maxstacksize.
     lbind (LoadCode alloc) (\<lambda>code.
     lbind (LoadConstants alloc (LoadFunction alloc calls source)) (\<lambda>(k, ps).
     lbind (LoadDebug alloc) (\<lambda>(lineinfo, locvars, upvalues).
     let f = Proto k code ps lineinfo locvars upvalues source linedefined lastlinedefined nups numparams is_vararg maxstacksize in
     case luaG_checkcode f of
       Inl e \<Rightarrow> (\<lambda>S. Inl (Fault e))
     | Inr ok \<Rightarrow> if ok then lret f else load_error ''bad code''))))))))))"

definition LoadHeader :: "unit load" where
  "LoadHeader = lbind (LoadBlock LUAC_HEADERSIZE) (\<lambda>s. if s \<noteq> luaU_header then load_error ''bad header'' else lret ())"

definition LUAI_MAXCCALLS :: nat where "LUAI_MAXCCALLS = 200"

definition luaU_undump :: "(nat \<Rightarrow> bool) \<Rightarrow> nat \<Rightarrow> ZIO \<Rightarrow> nat \<Rightarrow> string \<Rightarrow> lerror + Proto \<times> LoadState" where
  "luaU_undump alloc nCcalls z buffsize name =
     (let name1 =
        (case name of
           c # cs \<Rightarrow> if c = CHR ''@'' \<or> c = CHR ''='' then cs else if c = CHR 0x1B then ''binary string'' else name
         | [] \<Rightarrow> name) in
      lbind LoadHeader (\<lambda>_. LoadFunction alloc (LUAI_MAXCCALLS - nCcalls) (Some ''=?''))
        \<lparr>S_Z = z, S_buffsize = buffsize, S_name = name1\<rparr>)"

section \<open>Bytes of numbers\<close>

lemma length_le [simp]: "length (le k n) = k"
  by (induction k arbitrary: n) auto

lemma unle_le: "unle (le k n) = n mod 256 ^ k"
  by (induction k arbitrary: n) (auto simp: mod_mult2_eq)

lemma unat_bounds: "unat (x :: 32 word) < 2 ^ 32" "unat (y :: 64 word) < 2 ^ 64" "unat (b :: 8 word) < 2 ^ 8"
proof -
  have u: "unat w < 2 ^ LENGTH('a)" for w :: "'a::len word" by (rule unsigned_less)
  show "unat x < 2 ^ 32" "unat y < 2 ^ 64" "unat b < 2 ^ 8" using u [of x] u [of y] u [of b] by simp_all
qed

lemma elems_concat: "elems 4 (length xs) (concat (map (\<lambda>x. le 4 (unat (x :: 32 word))) xs)) = map unat xs"
proof (induction xs)
  case (Cons x xs)
  have "unat x mod 256 ^ 4 = unat x" using unat_bounds(1) [of x] by simp
  then show ?case using Cons unle_le [of 4 "unat x"] by simp
qed simp

lemma length_vec [simp]: "length (concat (map (\<lambda>x. le 4 (unat (x :: 32 word))) xs)) = 4 * length xs"
  by (induction xs) auto

section \<open>Reading what was written\<close>

text \<open>A loader that takes exactly the bytes \<open>bs\<close> from the stream and returns \<open>x\<close>.\<close>

definition reads :: "'a load \<Rightarrow> string \<Rightarrow> 'a \<Rightarrow> bool" where
  "reads m bs x \<longleftrightarrow> (\<forall>S more. wf_zio (S_Z S) \<and> pending (S_Z S) = bs @ more \<longrightarrow>
     (\<exists>S1. m S = Inr (x, S1) \<and> wf_zio (S_Z S1) \<and> pending (S_Z S1) = more))"

lemma reads_ret: "reads (lret x) [] x"
  by (simp add: reads_def lret_def)

lemma reads_bind: "reads m bs x \<Longrightarrow> reads (f x) cs y \<Longrightarrow> reads (lbind m f) (bs @ cs) y"
  unfolding reads_def lbind_def by (fastforce split: sum.splits)

lemma reads_bind0: "reads m bs x \<Longrightarrow> reads (f x) [] y \<Longrightarrow> reads (lbind m f) bs y"
  using reads_bind [of m bs x f "[]" y] by simp

lemma reads_LoadBlock: "length bs = n \<Longrightarrow> reads (LoadBlock n) bs bs"
  unfolding reads_def
proof (intro allI impI, elim conjE)
  fix S :: LoadState and more assume a: "length bs = n" "wf_zio (S_Z S)" "pending (S_Z S) = bs @ more"
  have "rok (luaZ_read (S_Z S) n) (\<lambda>(r, b, z1). wf_zio z1 \<and> r = 0 \<and> b = bs \<and> pending z1 = more)"
    using luaZ_read_ok [OF a(2), of n] a(1,3) by (auto elim!: rok_mono)
  then obtain z1 where "luaZ_read (S_Z S) n = Inr (0, bs, z1)" "wf_zio z1" "pending z1 = more" by (auto simp: rok_def)
  then show "\<exists>S1. LoadBlock n S = Inr (bs, S1) \<and> wf_zio (S_Z S1) \<and> pending (S_Z S1) = more"
    by (simp add: LoadBlock_def)
qed

lemma sint_of_nat_small: "n < 2 ^ 7 \<Longrightarrow> sint (of_nat n :: 8 word) = int n" "m < 2 ^ 31 \<Longrightarrow> sint (of_nat m :: 32 word) = int m"
  by (simp_all add: signed_of_nat signed_take_bit_int_eq_self)

lemma reads_LoadByte: "reads LoadByte (le 1 (nat (uint b mod 256))) b"
proof -
  have "uint b < 256" using uint_lt2p [of b] by simp
  then have "uint b mod 256 = uint b" by simp
  then have u: "unle (le 1 (nat (uint b mod 256))) = unat b"
    using unat_bounds(3) [of b] by (simp only: unle_le unat_eq_nat_uint [symmetric]) simp
  show ?thesis unfolding LoadByte_def LoadChar_def
    by (rule reads_bind0 [OF reads_bind0 [OF reads_LoadBlock]]) (simp_all only: u length_le, rule reads_ret, simp add: reads_ret)
qed

lemma reads_LoadChar: "n < 2 ^ 7 \<Longrightarrow> reads LoadChar (le 1 (nat (int n mod 256))) (int n)"
proof -
  assume n: "n < 2 ^ 7"
  have "nat (int n mod 256) = n" using n by (simp add: nat_mod_distrib)
  then have "unle (le 1 (nat (int n mod 256))) = n" using n by (simp only: unle_le) simp
  then have "sint (of_nat (unle (le 1 (nat (int n mod 256)))) :: 8 word) = int n" using sint_of_nat_small(1) [OF n] by (simp only:)
  then show ?thesis unfolding LoadChar_def by (intro reads_bind0 [OF reads_LoadBlock]) (simp_all only: length_le reads_ret)
qed

lemma reads_LoadInt: "0 \<le> sint x \<Longrightarrow> reads LoadInt (le 4 (unat x)) x"
proof -
  assume x: "0 \<le> sint x"
  have "unle (le 4 (unat x)) = unat x" using unat_bounds(1) [of x] by (simp only: unle_le) simp
  then show ?thesis using x unfolding LoadInt_def by (intro reads_bind0 [OF reads_LoadBlock]) (simp_all add: Let_def reads_ret)
qed

lemma reads_LoadNumber: "reads LoadNumber (le 8 (unat x)) x"
proof -
  have "unle (le 8 (unat x)) = unat x" using unat_bounds(2) [of x] by (simp only: unle_le) simp
  then show ?thesis unfolding LoadNumber_def by (intro reads_bind0 [OF reads_LoadBlock]) (simp_all add: reads_ret)
qed

abbreviation all_ok :: "nat \<Rightarrow> bool" where "all_ok \<equiv> \<lambda>n. True"

lemma reads_openspace: "reads (openspace all_ok n) [] ()"
  by (simp add: reads_def openspace_def Let_def)

lemma reads_newvector: "n < 2 ^ 31 - 1 \<Longrightarrow> 0 < e \<Longrightarrow> e \<le> 16 \<Longrightarrow> reads (luaM_newvector all_ok (of_nat n) e) [] ()"
proof -
  assume n: "n < 2 ^ 31 - 1" and e: "0 < e" "e \<le> 16"
  have "of_nat n + 1 = (of_nat (n + 1) :: c_int)" by simp
  then have "scast (of_nat n + 1 :: c_int) = (of_nat (n + 1) :: size_t)"
    unfolding scast_eq using sint_of_nat_small(2) [of "n + 1"] n by (simp only: of_int_of_nat_eq)
  then have "unat (scast (of_nat n + 1 :: c_int) :: size_t) = n + 1" using n unat_of_nat_size_t [of "n + 1"] by (simp only:) simp
  moreover have "(n + 1) * e \<le> 2 ^ 31 * 16" using n e by (intro mult_le_mono) simp_all
  then have "n + 1 \<le> MAX_SIZET div e"
    unfolding less_eq_div_iff_mult_less_eq [OF e(1)] by (rule order_trans) (simp add: MAX_SIZET_def)
  ultimately show ?thesis by (simp add: reads_def luaM_newvector_def)
qed

section \<open>The encoding\<close>

definition enc_int :: "c_int \<Rightarrow> string" where "enc_int x = le 4 (unat x)"
definition enc_byte :: "int \<Rightarrow> string" where "enc_byte y = le 1 (nat (y mod 256))"

definition enc_str :: "TString option \<Rightarrow> string" where
  "enc_str s = (case s of None \<Rightarrow> le 8 0 | Some t \<Rightarrow> le 8 (unat (of_nat (length t) + 1 :: size_t)) @ t @ [NUL])"

definition enc_list :: "('a \<Rightarrow> string) \<Rightarrow> 'a list \<Rightarrow> string" where
  "enc_list enc xs = enc_int (of_nat (length xs)) @ concat (map enc xs)"

definition enc_const :: "TValue \<Rightarrow> string" where
  "enc_const v = enc_byte (ttype v) @
     (case v of TNil \<Rightarrow> [] | TBoolean b \<Rightarrow> enc_byte (if b then 1 else 0) | TNumber n \<Rightarrow> le 8 (unat n) | TStr s \<Rightarrow> enc_str s)"

definition enc_locvar :: "LocVar \<Rightarrow> string" where
  "enc_locvar v = enc_str (varname v) @ enc_int (startpc v) @ enc_int (endpc v)"

definition enc_debug :: "bool \<Rightarrow> Proto \<Rightarrow> string" where
  "enc_debug strip f =
     enc_list enc_int (if strip then [] else p_lineinfo f) @ enc_list enc_locvar (if strip then [] else p_locvars f) @
     enc_list enc_str (if strip then [] else p_upvalues f)"

definition enc_head :: "bool \<Rightarrow> Proto \<Rightarrow> TString option \<Rightarrow> string" where
  "enc_head strip f p =
     enc_str (if p_source f = p \<or> strip then None else p_source f) @ enc_int (p_linedefined f) @ enc_int (p_lastlinedefined f) @
     enc_byte (uint (p_nups f)) @ enc_byte (uint (p_numparams f)) @ enc_byte (uint (p_is_vararg f)) @
     enc_byte (uint (p_maxstacksize f)) @ enc_list enc_int (p_code f)"

function enc_proto :: "bool \<Rightarrow> Proto \<Rightarrow> TString option \<Rightarrow> string" where
  "enc_proto strip f p =
     enc_head strip f p @ enc_list enc_const (p_k f) @
     enc_list (\<lambda>g. g) (map (\<lambda>g. enc_proto strip g (p_source f)) (p_p f)) @ enc_debug strip f"
  by pat_completeness auto
termination
  by (relation "measure (\<lambda>(strip, f, p). size f)") (auto simp: size_p_p)

declare enc_proto.simps [simp del]

text \<open>The writer that appends to a string receives this encoding.\<close>

definition append_to :: "string writer" where
  "append_to w b = (0, w @ b)"

definition put :: "string \<Rightarrow> string DumpState \<Rightarrow> string DumpState" where
  "put b D = D\<lparr>d_data := d_data D @ b\<rparr>"

lemma put_simps [simp]: "d_status (put b D) = d_status D" "d_strip (put b D) = d_strip D" "d_data (put b D) = d_data D @ b"
  "put b (put a D) = put (a @ b) D" "put [] D = D"
  by (simp_all add: put_def)

lemma DumpBlock_put: "d_status D = 0 \<Longrightarrow> DumpBlock append_to b D = put b D"
  by (cases D) (simp add: DumpBlock_def append_to_def put_def)

lemma dump_basic:
  assumes "d_status D = 0"
  shows "DumpChar append_to y D = put (enc_byte y) D" "DumpInt append_to x D = put (enc_int x) D"
    "DumpNumber append_to n D = put (le 8 (unat n)) D" "DumpString append_to s D = put (enc_str s) D"
    "DumpVector append_to b D = put (enc_list enc_int b) D"
  using assms by (auto simp: DumpChar_def DumpInt_def DumpNumber_def DumpString_def DumpVector_def DumpBlock_put enc_byte_def
      enc_int_def [abs_def] enc_str_def enc_list_def Let_def split: option.split)

lemma fold_put:
  assumes "\<And>x D. x \<in> set xs \<Longrightarrow> d_status D = 0 \<Longrightarrow> d_strip D = s \<Longrightarrow> dump x D = put (enc x) D" "d_status D = 0" "d_strip D = s"
  shows "fold dump xs D = put (concat (map enc xs)) D"
  using assms by (induction xs arbitrary: D) auto

lemma dump_const: "d_status D = 0 \<Longrightarrow> DumpConstant append_to v D = put (enc_const v) D"
  by (cases v) (auto simp: DumpConstant_def enc_const_def dump_basic Let_def)

lemma dump_locvar: "d_status D = 0 \<Longrightarrow> DumpLocVar append_to v D = put (enc_locvar v) D"
  by (simp add: DumpLocVar_def enc_locvar_def dump_basic)

lemma dump_debug: "d_status D = 0 \<Longrightarrow> DumpDebug append_to f D = put (enc_debug (d_strip D) f) D"
  by (simp add: DumpDebug_def Let_def dump_basic enc_debug_def enc_list_def fold_put [where s = "d_strip D" and enc = enc_str]
      fold_put [where s = "d_strip D" and enc = enc_locvar] dump_locvar)

lemma dump_proto: "d_status D = 0 \<Longrightarrow> DumpFunction append_to f p D = put (enc_proto (d_strip D) f p) D"
proof (induction "size f" arbitrary: f p D rule: less_induct)
  case less
  let ?s = "d_strip D"
  let ?D = "put (enc_head ?s f p @ enc_list enc_const (p_k f) @ enc_int (of_nat (length (p_p f)))) D"
  have "fold (\<lambda>g. DumpFunction append_to g (p_source f)) (p_p f) ?D = put (concat (map (\<lambda>g. enc_proto ?s g (p_source f)) (p_p f))) ?D"
    using less by (intro fold_put [where s = ?s]) (auto simp: size_p_p)
  moreover have "DumpConstants append_to f (DumpCode append_to f (DumpChar append_to (uint (p_maxstacksize f))
      (DumpChar append_to (uint (p_is_vararg f)) (DumpChar append_to (uint (p_numparams f)) (DumpChar append_to (uint (p_nups f))
      (DumpInt append_to (p_lastlinedefined f) (DumpInt append_to (p_linedefined f)
      (DumpString append_to (if p_source f = p \<or> d_strip D then None else p_source f) D)))))))) = ?D"
    using less.prems
    by (simp add: DumpConstants_def DumpCode_def dump_basic enc_head_def enc_list_def fold_put [where s = ?s and enc = enc_const] dump_const)
  ultimately show ?case using less.prems
    by (subst DumpFunction.simps, subst enc_proto.simps) (simp add: dump_debug enc_list_def comp_def)
qed

section \<open>The check does not look at debug information\<close>

definition same_code :: "Proto \<Rightarrow> Proto \<Rightarrow> bool" where
  "same_code g f \<longleftrightarrow> p_code g = p_code f \<and> p_k g = p_k f \<and> map p_nups (p_p g) = map p_nups (p_p f) \<and>
     p_nups g = p_nups f \<and> p_numparams g = p_numparams f \<and> p_is_vararg g = p_is_vararg f \<and> p_maxstacksize g = p_maxstacksize f"

lemma same_code_parts:
  assumes "same_code g f"
  shows "get_code g = get_code f" "setlist_loop g dest n j = setlist_loop f dest n j" "closure_loop g pc m = closure_loop f pc m"
    "checkArgMode g = checkArgMode f" "checkreg g = checkreg f" "length (p_p g) = length (p_p f)"
    "b < length (p_p f) \<Longrightarrow> p_nups (p_p g ! b) = p_nups (p_p f ! b)"
proof -
  show code: "get_code g = get_code f" using assms by (auto simp: fun_eq_iff get_code_def same_code_def)
  show "checkreg g = checkreg f" using assms by (auto simp: fun_eq_iff checkreg_def same_code_def)
  then show "checkArgMode g = checkArgMode f"
    using assms by (auto simp: fun_eq_iff checkArgMode_def same_code_def split: OpArgMask.split)
  show "setlist_loop g dest n j = setlist_loop f dest n j" by (induction n arbitrary: j) (simp_all add: code cong: if_cong)
  show "closure_loop g pc m = closure_loop f pc m" by (induction m arbitrary: pc) (simp_all add: code)
  have m: "map p_nups (p_p g) = map p_nups (p_p f)" using assms by (simp add: same_code_def)
  from map_eq_imp_length_eq [OF this] show l: "length (p_p g) = length (p_p f)" .
  show "p_nups (p_p g ! b) = p_nups (p_p f ! b)" if "b < length (p_p f)"
    using arg_cong [OF m, of "\<lambda>xs. xs ! b"] that l by simp
qed

lemma same_code_step:
  assumes "same_code g f"
  shows "symb_step g lastpc reg pc lst = symb_step f lastpc reg pc lst"
proof -
  note parts = same_code_parts [OF assms]
  have f: "p_code g = p_code f" "p_k g = p_k f" "p_nups g = p_nups f" "p_is_vararg g = p_is_vararg f"
    using assms by (simp_all add: same_code_def)
  have a: "symb_args g pc i op = symb_args f pc i op" for i op
    unfolding symb_args_def parts(2,4) f ..
  have t: "symb_test g pc op = symb_test f pc op" for op
    unfolding symb_test_def parts(1) f ..
  have c: "check_open g pc m = check_open f pc m" for m :: "(int \<times> int) option res"
    unfolding check_open_def parts(1) ..
  have o: "symb_op g lastpc reg pc op a b c l = symb_op f lastpc reg pc op a b c l" for op a b c l
  proof (cases "op = OP_CLOSURE")
    case True
    then show ?thesis using parts(3,7) by (simp add: symb_op_def Let_def parts(6) f chk_def)
  next
    case False
    then show ?thesis unfolding symb_op_def Let_def parts(1,5,6) f c by simp
  qed
  show ?thesis unfolding symb_step_def parts(1,5) a t o ..
qed

lemma same_code_loop:
  assumes "same_code g f"
  shows "symb_loop g lastpc reg pc lst = symb_loop f lastpc reg pc lst"
proof (induction "nat (lastpc - pc)" arbitrary: pc lst rule: less_induct)
  case less
  show ?case
  proof (cases "pc < lastpc")
    case False
    then show ?thesis by (simp add: symb_loop.simps same_code_parts(1) [OF assms])
  next
    case True
    have "symb_loop g lastpc reg (pc1 + 1) lst1 = symb_loop f lastpc reg (pc1 + 1) lst1"
      if "symb_step f lastpc reg pc lst = Inr (Some (pc1, lst1))" for pc1 lst1
      using symb_step_mono [OF that] True by (intro less.hyps) simp
    then show ?thesis
      by (auto simp: symb_loop.simps [of g lastpc reg pc lst] symb_loop.simps [of f lastpc reg pc lst]
          same_code_step [OF assms] same_code_parts(1) [OF assms] split: sum.split option.split)
  qed
qed

primrec strip_proto :: "Proto \<Rightarrow> Proto" where
  "strip_proto (Proto k code p li lv up s ld ll nups np va ms) =
     Proto k code (map strip_proto p) [] [] [] (Some ''=?'') ld ll nups np va ms"

lemma strip_nups [simp]: "p_nups (strip_proto f) = p_nups f"
  by (cases f) simp

lemma same_code_strip: "same_code (strip_proto f) f"
  by (cases f) (simp add: same_code_def)

lemma checkcode_strip:
  assumes "luaG_checkcode f = Inr True"
  shows "luaG_checkcode (strip_proto f) = Inr True"
proof -
  have "precheck f" by (rule checked(1) [OF assms])
  then have "precheck (strip_proto f)" by (cases f) (simp add: precheck_def)
  moreover have "p_code (strip_proto f) = p_code f" by (cases f) simp
  ultimately show ?thesis using assms \<open>precheck f\<close>
    by (simp add: luaG_checkcode_def symbexec_def same_code_loop [OF same_code_strip])
qed

section \<open>Loading a dump\<close>

definition wf_str :: "TString option \<Rightarrow> bool" where
  "wf_str s \<longleftrightarrow> (case s of None \<Rightarrow> True | Some t \<Rightarrow> length t < 2 ^ 63)"

definition wf_const :: "TValue \<Rightarrow> bool" where
  "wf_const v \<longleftrightarrow> (case v of TStr s \<Rightarrow> wf_str s | _ \<Rightarrow> True)"

definition wf_locvar :: "LocVar \<Rightarrow> bool" where
  "wf_locvar v \<longleftrightarrow> wf_str (varname v) \<and> 0 \<le> sint (startpc v) \<and> 0 \<le> sint (endpc v)"

text \<open>
  The prototypes the compiler makes: arrays and strings of sizes that fit, positions that are not
  negative, a source name, code that passes the check, and functions nested less than \<open>d\<close> deep.
\<close>

primrec wf_proto :: "nat \<Rightarrow> Proto \<Rightarrow> bool" where
  "wf_proto 0 f \<longleftrightarrow> False"
| "wf_proto (Suc d) f \<longleftrightarrow>
     length (p_k f) < 2 ^ 31 - 1 \<and> length (p_code f) < 2 ^ 31 - 1 \<and> length (p_p f) < 2 ^ 31 - 1 \<and>
     length (p_lineinfo f) < 2 ^ 31 - 1 \<and> length (p_locvars f) < 2 ^ 31 - 1 \<and> length (p_upvalues f) < 2 ^ 31 - 1 \<and>
     0 \<le> sint (p_linedefined f) \<and> 0 \<le> sint (p_lastlinedefined f) \<and> p_source f \<noteq> None \<and> wf_str (p_source f) \<and>
     (\<forall>v\<in>set (p_k f). wf_const v) \<and> (\<forall>v\<in>set (p_locvars f). wf_locvar v) \<and> (\<forall>s\<in>set (p_upvalues f). wf_str s) \<and>
     luaG_checkcode f = Inr True \<and> (\<forall>g\<in>set (p_p f). wf_proto d g)"

lemma reads_LoadString: "wf_str s \<Longrightarrow> reads (LoadString all_ok) (enc_str s) s"
proof (cases s)
  case None
  have "unle (le 8 0) = 0" by (simp only: unle_le) simp
  then show ?thesis using None unfolding LoadString_def enc_str_def
    by (simp only: option.case) (rule reads_bind0 [OF reads_LoadBlock], simp, simp add: Let_def reads_ret)
next
  case (Some t)
  assume "wf_str s"
  then have t: "length t < 2 ^ 63" using Some by (simp add: wf_str_def)
  let ?n = "unat (of_nat (length t) + 1 :: size_t)"
  have n: "?n = length t + 1" using t unat_of_nat_size_t [of "length t + 1"] by (simp add: add.commute)
  have "unle (le 8 ?n) = ?n" using unat_bounds(2) [of "of_nat (length t) + 1"] by (simp only: unle_le) simp
  then have u: "unle (le 8 ?n) = length t + 1" using n by (simp only:)
  have "reads (LoadString all_ok) (le 8 ?n @ [] @ (t @ [NUL])) (Some t)"
    unfolding LoadString_def
  proof (rule reads_bind [OF reads_LoadBlock])
    have "reads (lbind (openspace all_ok (length t + 1)) (\<lambda>_. lbind (LoadBlock (length t + 1)) (\<lambda>s. lret (Some (take (length t + 1 - 1) s)))))
      ([] @ (t @ [NUL])) (Some t)"
      by (rule reads_bind [OF reads_openspace], rule reads_bind0 [OF reads_LoadBlock]) (simp_all add: reads_ret)
    then show "reads (let sz = unle (le 8 ?n) in if sz = 0 then lret None
      else lbind (openspace all_ok sz) (\<lambda>_. lbind (LoadBlock sz) (\<lambda>s. lret (Some (take (sz - 1) s))))) ([] @ (t @ [NUL])) (Some t)"
      unfolding Let_def u by simp
  qed simp
  then show ?thesis using Some by (simp add: enc_str_def)
qed

lemma reads_repeat:
  "\<forall>x\<in>set xs. reads m (enc x) (r x) \<Longrightarrow> reads (repeat_load (length xs) m) (concat (map enc xs)) (map r xs)"
proof (induction xs)
  case (Cons x xs)
  then show ?case by (auto intro!: reads_bind reads_bind0 [where bs = "concat (map enc xs)"] simp: reads_ret)
qed (simp add: reads_ret)

lemma reads_length:
  assumes "n < 2 ^ 31 - 1"
  shows "reads LoadInt (enc_int (of_nat n)) (of_nat n)" "unat (of_nat n :: c_int) = n"
  using assms reads_LoadInt [of "of_nat n"] sint_of_nat_small(2) [of n] by (simp_all add: enc_int_def unat_of_nat take_bit_nat_eq_self)

lemma reads_vector: "reads (LoadVector (length xs)) (concat (map enc_int xs)) xs"
  unfolding LoadVector_def enc_int_def [abs_def]
  by (rule reads_bind0 [OF reads_LoadBlock]) (simp_all add: elems_concat reads_ret o_def)

lemma reads_tag: "0 \<le> y \<Longrightarrow> y < 128 \<Longrightarrow> reads LoadChar (enc_byte y) y"
  using reads_LoadChar [of "nat y"] by (simp add: enc_byte_def nat_less_iff)

lemma ttype_range: "0 \<le> ttype v" "ttype v < 128"
  by (cases v; simp add: LUA_TNIL_def LUA_TBOOLEAN_def LUA_TNUMBER_def LUA_TSTRING_def)+

lemma reads_const: "wf_const v \<Longrightarrow> reads (LoadConstant all_ok) (enc_const v) v"
proof -
  assume w: "wf_const v"
  have "reads (if ttype v = LUA_TNIL then lret TNil
     else if ttype v = LUA_TBOOLEAN then lbind LoadChar (\<lambda>b. lret (TBoolean (b \<noteq> 0)))
     else if ttype v = LUA_TNUMBER then lbind LoadNumber (\<lambda>n. lret (TNumber n))
     else if ttype v = LUA_TSTRING then lbind (LoadString all_ok) (\<lambda>s. lret (TStr s))
     else load_error ''bad constant'')
     (case v of TNil \<Rightarrow> [] | TBoolean b \<Rightarrow> enc_byte (if b then 1 else 0) | TNumber n \<Rightarrow> le 8 (unat n) | TStr s \<Rightarrow> enc_str s) v"
  proof (cases v)
    case (TBoolean b)
    have "reads (lbind LoadChar (\<lambda>b. lret (TBoolean (b \<noteq> 0)))) (enc_byte (if b then 1 else 0)) (TBoolean b)"
      by (rule reads_bind0 [OF reads_tag]) (auto simp: reads_ret)
    then show ?thesis using TBoolean by (simp add: LUA_TNIL_def LUA_TBOOLEAN_def)
  next
    case (TNumber n)
    then show ?thesis using reads_bind0 [OF reads_LoadNumber reads_ret]
      by (simp add: LUA_TNIL_def LUA_TBOOLEAN_def LUA_TNUMBER_def)
  next
    case (TStr s)
    then show ?thesis using reads_bind0 [OF reads_LoadString reads_ret, of s TStr] w
      by (simp add: LUA_TNIL_def LUA_TBOOLEAN_def LUA_TNUMBER_def LUA_TSTRING_def wf_const_def)
  qed (simp add: reads_ret)
  then show ?thesis unfolding LoadConstant_def enc_const_def
    using ttype_range [of v] by (intro reads_bind [OF reads_tag]) simp_all
qed

lemma reads_locvar: "wf_locvar v \<Longrightarrow> reads (LoadLocVar all_ok) (enc_locvar v) v"
proof -
  assume w: "wf_locvar v"
  have v: "\<lparr>varname = varname v, startpc = startpc v, endpc = endpc v\<rparr> = v" by simp
  show ?thesis unfolding LoadLocVar_def enc_locvar_def enc_int_def
    by (rule reads_bind [OF reads_LoadString], use w in \<open>simp add: wf_locvar_def\<close>,
        rule reads_bind [OF reads_LoadInt], use w in \<open>simp add: wf_locvar_def\<close>,
        rule reads_bind0 [OF reads_LoadInt], use w in \<open>simp add: wf_locvar_def\<close>, simp only: v, rule reads_ret)
qed

text \<open>An array: its length, the memory for it, its elements.\<close>

lemma reads_array:
  assumes "length xs < 2 ^ 31 - 1" "0 < e" "e \<le> 16" "reads (m (length xs)) (concat (map enc xs)) ys" "reads (f ys) cs z"
  shows "reads (lbind LoadInt (\<lambda>n. lbind (luaM_newvector all_ok n e) (\<lambda>_. lbind (m (unat n)) f))) (enc_list enc xs @ cs) z"
proof -
  have "reads (lbind (luaM_newvector all_ok (of_nat (length xs)) e) (\<lambda>_. lbind (m (unat (of_nat (length xs) :: c_int))) f))
      ([] @ concat (map enc xs) @ cs) z"
    using assms by (intro reads_bind [OF reads_newvector] reads_bind) (simp_all only: reads_length(2))
  then have "reads (lbind LoadInt (\<lambda>n. lbind (luaM_newvector all_ok n e) (\<lambda>_. lbind (m (unat n)) f)))
      (enc_int (of_nat (length xs)) @ [] @ concat (map enc xs) @ cs) z"
    by (rule reads_bind [OF reads_length(1) [OF assms(1)]])
  then show ?thesis by (simp add: enc_list_def)
qed

lemma reads_debug_lists:
  assumes "length l < 2 ^ 31 - 1" "length v < 2 ^ 31 - 1" "length u < 2 ^ 31 - 1" "\<forall>x\<in>set v. wf_locvar x" "\<forall>s\<in>set u. wf_str s"
  shows "reads (LoadDebug all_ok) (enc_list enc_int l @ enc_list enc_locvar v @ enc_list enc_str u @ []) (l, v, u)"
proof -
  have v: "reads (repeat_load (length v) (LoadLocVar all_ok)) (concat (map enc_locvar v)) (map (\<lambda>x. x) v)"
    and u: "reads (repeat_load (length u) (LoadString all_ok)) (concat (map enc_str u)) (map (\<lambda>x. x) u)"
    using assms(4,5) by (intro reads_repeat; simp add: reads_locvar reads_LoadString)+
  have "reads (lbind LoadInt (\<lambda>n. lbind (luaM_newvector all_ok n 8) (\<lambda>_. lbind (repeat_load (unat n) (LoadString all_ok)) (\<lambda>us. lret (l, v, us)))))
      (enc_list enc_str u @ []) (l, v, u)"
    using u assms(3) by (intro reads_array [where m = "\<lambda>n. repeat_load n (LoadString all_ok)"]) (simp_all, rule reads_ret)
  then have "reads (lbind LoadInt (\<lambda>n. lbind (luaM_newvector all_ok n 16) (\<lambda>_. lbind (repeat_load (unat n) (LoadLocVar all_ok)) (\<lambda>vs.
      lbind LoadInt (\<lambda>n. lbind (luaM_newvector all_ok n 8) (\<lambda>_. lbind (repeat_load (unat n) (LoadString all_ok)) (\<lambda>us. lret (l, vs, us))))))))
      (enc_list enc_locvar v @ enc_list enc_str u @ []) (l, v, u)"
    using v assms(2) by (intro reads_array [where m = "\<lambda>n. repeat_load n (LoadLocVar all_ok)"]) simp_all
  then show ?thesis unfolding LoadDebug_def using assms(1)
    by (intro reads_array [where m = LoadVector, OF _ _ _ reads_vector]) simp_all
qed

lemma reads_debug:
  assumes "wf_proto (Suc d) f"
  shows "reads (LoadDebug all_ok) (enc_debug strip f)
    (if strip then [] else p_lineinfo f, if strip then [] else p_locvars f, if strip then [] else p_upvalues f)"
  using reads_debug_lists [of "if strip then [] else p_lineinfo f" "if strip then [] else p_locvars f" "if strip then [] else p_upvalues f"]
    assms by (simp add: enc_debug_def split: if_splits)

text \<open>Constants and functions; a function is loaded as \<open>r\<close> of what was dumped.\<close>

lemma reads_constants:
  assumes "wf_proto (Suc d) f" "\<forall>g\<in>set (p_p f). reads function (enc g) (r g)"
  shows "reads (LoadConstants all_ok function) (enc_list enc_const (p_k f) @ enc_list (\<lambda>g. g) (map enc (p_p f)) @ [])
    (p_k f, map r (p_p f))"
proof -
  have k: "reads (repeat_load (length (p_k f)) (LoadConstant all_ok)) (concat (map enc_const (p_k f))) (map (\<lambda>x. x) (p_k f))"
    using assms(1) by (intro reads_repeat) (simp add: reads_const)
  have p: "reads (repeat_load (length (p_p f)) function) (concat (map enc (p_p f))) (map r (p_p f))"
    using assms(2) by (rule reads_repeat)
  have "reads (lbind LoadInt (\<lambda>m. lbind (luaM_newvector all_ok m 8) (\<lambda>_. lbind (repeat_load (unat m) function) (\<lambda>p. lret (p_k f, p)))))
      (enc_list (\<lambda>g. g) (map enc (p_p f)) @ []) (p_k f, map r (p_p f))"
    using p assms(1) by (intro reads_array [where m = "\<lambda>n. repeat_load n function"]) (simp_all, rule reads_ret)
  then show ?thesis unfolding LoadConstants_def using k assms(1)
    by (intro reads_array [where m = "\<lambda>n. repeat_load n (LoadConstant all_ok)"]) simp_all
qed

text \<open>
  What stands for the source name when a function is dumped inside one of source \<open>pd\<close> and loaded
  inside one of source \<open>pl\<close>: a stripped dump has no names.
\<close>

definition src_ok :: "bool \<Rightarrow> Proto \<Rightarrow> TString option \<Rightarrow> TString option \<Rightarrow> bool" where
  "src_ok strip f pd pl \<longleftrightarrow> (if strip then pl = Some ''=?'' else p_source f = pd \<longrightarrow> pl = pd)"

definition restored :: "bool \<Rightarrow> Proto \<Rightarrow> Proto" where
  "restored strip f = (if strip then strip_proto f else f)"

lemma restored_eq:
  "restored strip f = Proto (p_k f) (p_code f) (map (restored strip) (p_p f)) (if strip then [] else p_lineinfo f)
     (if strip then [] else p_locvars f) (if strip then [] else p_upvalues f) (if strip then Some ''=?'' else p_source f)
     (p_linedefined f) (p_lastlinedefined f) (p_nups f) (p_numparams f) (p_is_vararg f) (p_maxstacksize f)"
proof -
  have "restored True = strip_proto" "restored False = (\<lambda>f. f)" by (simp_all add: fun_eq_iff restored_def)
  then show ?thesis by (cases f; cases strip) simp_all
qed

lemma restored_checked: "luaG_checkcode f = Inr True \<Longrightarrow> luaG_checkcode (restored strip f) = Inr True"
  by (simp add: restored_def checkcode_strip)

lemma reads_byte: "reads LoadByte (enc_byte (uint b)) b"
  unfolding enc_byte_def by (rule reads_LoadByte)

lemma lbind_lret: "lbind m lret = m"
  by (auto simp: fun_eq_iff lbind_def lret_def split: sum.split)

lemma enc_proto_eq:
  "enc_proto strip f p =
     enc_str (if p_source f = p \<or> strip then None else p_source f) @ enc_int (p_linedefined f) @ enc_int (p_lastlinedefined f) @
     enc_byte (uint (p_nups f)) @ enc_byte (uint (p_numparams f)) @ enc_byte (uint (p_is_vararg f)) @
     enc_byte (uint (p_maxstacksize f)) @ enc_list enc_int (p_code f) @
     (enc_list enc_const (p_k f) @ enc_list (\<lambda>g. g) (map (\<lambda>g. enc_proto strip g (p_source f)) (p_p f)) @ []) @ enc_debug strip f"
  by (subst enc_proto.simps) (simp add: enc_head_def)

lemma reads_function:
  "wf_proto d f \<Longrightarrow> src_ok strip f pd pl \<Longrightarrow> d \<le> calls \<Longrightarrow>
   reads (LoadFunction all_ok calls pl) (enc_proto strip f pd) (restored strip f)"
proof (induction d arbitrary: f pd pl calls)
  case (Suc d)
  note w = Suc.prems(1)
  obtain c where c: "calls = Suc c" "d \<le> c" using Suc.prems(3) by (cases calls) auto
  let ?s = "if p_source f = pd \<or> strip then None else p_source f"
  let ?src = "if strip then Some ''=?'' else p_source f"
  have s: "wf_str ?s" "(if ?s = None then pl else ?s) = ?src"
    using w Suc.prems(2) by (auto simp: wf_str_def src_ok_def split: if_splits)
  have inner: "\<forall>g\<in>set (p_p f). reads (LoadFunction all_ok c ?src) (enc_proto strip g (p_source f)) (restored strip g)"
    using Suc.IH [OF _ _ c(2)] w by (simp add: src_ok_def)
  have code: "reads (LoadCode all_ok) (enc_list enc_int (p_code f)) (p_code f)"
    using reads_array [of "p_code f" 4 LoadVector enc_int "p_code f" lret "[]" "p_code f", OF _ _ _ reads_vector reads_ret] w
    by (simp add: LoadCode_def lbind_lret)
  have pos: "reads LoadInt (enc_int (p_linedefined f)) (p_linedefined f)" "reads LoadInt (enc_int (p_lastlinedefined f)) (p_lastlinedefined f)"
    using w unfolding enc_int_def by (simp_all add: reads_LoadInt)
  have ok: "luaG_checkcode (restored strip f) = Inr True" using w by (simp add: restored_checked)
  show ?case unfolding c(1)
    apply (subst LoadFunction.simps(2), subst enc_proto_eq)
    apply (rule reads_bind [OF reads_LoadString [OF s(1)]])
    apply (simp only: s(2) Let_def)
    apply (rule reads_bind [OF pos(1)], rule reads_bind [OF pos(2)])
    apply (rule reads_bind [OF reads_byte], rule reads_bind [OF reads_byte], rule reads_bind [OF reads_byte], rule reads_bind [OF reads_byte])
    apply (rule reads_bind [OF code], rule reads_bind [OF reads_constants [OF w inner]])
    apply (simp only: prod.case)
    apply (rule reads_bind0 [OF reads_debug [OF w]])
    apply (simp only: prod.case restored_eq [symmetric] ok sum.case if_True)
    apply (rule reads_ret)
    done
qed simp

section \<open>Any bytes\<close>

text \<open>Loading that does not read outside its blocks, whatever the stream holds, and what it yields.\<close>

definition safe :: "'a load \<Rightarrow> ('a \<Rightarrow> bool) \<Rightarrow> bool" where
  "safe m P \<longleftrightarrow> (\<forall>S. wf_zio (S_Z S) \<longrightarrow>
     (case m S of Inl e \<Rightarrow> (\<forall>c. e \<noteq> Fault c) | Inr (x, S1) \<Rightarrow> wf_zio (S_Z S1) \<and> P x))"

named_theorems safe_intros

lemma safe_ret [safe_intros]: "P x \<Longrightarrow> safe (lret x) P"
  by (simp add: safe_def lret_def)

lemma safe_error [safe_intros]: "safe (load_error why) P"
  by (simp add: safe_def load_error_def)

lemma safe_bind: "safe m Q \<Longrightarrow> (\<And>x. Q x \<Longrightarrow> safe (f x) P) \<Longrightarrow> safe (lbind m f) P"
  unfolding safe_def lbind_def
proof (intro allI impI)
  fix S :: LoadState
  assume m: "\<forall>S. wf_zio (S_Z S) \<longrightarrow> (case m S of Inl e \<Rightarrow> \<forall>c. e \<noteq> Fault c | Inr (x, S1) \<Rightarrow> wf_zio (S_Z S1) \<and> Q x)"
    and f: "\<And>x. Q x \<Longrightarrow> \<forall>S. wf_zio (S_Z S) \<longrightarrow> (case f x S of Inl e \<Rightarrow> \<forall>c. e \<noteq> Fault c | Inr (x, S1) \<Rightarrow> wf_zio (S_Z S1) \<and> P x)"
    and w: "wf_zio (S_Z S)"
  show "case (case m S of Inl e \<Rightarrow> Inl e | Inr (x, xa) \<Rightarrow> f x xa) of Inl e \<Rightarrow> \<forall>c. e \<noteq> Fault c | Inr (x, S1) \<Rightarrow> wf_zio (S_Z S1) \<and> P x"
  proof (cases "m S")
    case (Inl e)
    then show ?thesis using m [rule_format, OF w] by simp
  next
    case (Inr r)
    obtain x S1 where r: "r = (x, S1)" by (cases r)
    then have "wf_zio (S_Z S1)" "Q x" using m [rule_format, OF w] Inr by simp_all
    then show ?thesis using f [rule_format, of x S1] Inr r by simp
  qed
qed

lemma safe_bind_any: "safe m (\<lambda>x. True) \<Longrightarrow> (\<And>x. safe (f x) P) \<Longrightarrow> safe (lbind m f) P"
  by (rule safe_bind) auto

lemma safe_let [safe_intros]: "(\<And>y. y = x \<Longrightarrow> safe (f y) P) \<Longrightarrow> safe (let y = x in f y) P"
  by (simp add: Let_def)

lemma safe_if [safe_intros]: "(b \<Longrightarrow> safe m P) \<Longrightarrow> (\<not> b \<Longrightarrow> safe n P) \<Longrightarrow> safe (if b then m else n) P"
  by simp

lemma safe_LoadBlock [safe_intros]: "safe (LoadBlock n) (\<lambda>x. True)"
  unfolding safe_def
proof (intro allI impI)
  fix S :: LoadState assume "wf_zio (S_Z S)"
  from luaZ_read_ok [OF this, of n] obtain r b z where "luaZ_read (S_Z S) n = Inr (r, b, z)" "wf_zio z" by (auto simp: rok_def)
  then show "case LoadBlock n S of Inl e \<Rightarrow> \<forall>c. e \<noteq> Fault c | Inr (x, S1) \<Rightarrow> wf_zio (S_Z S1) \<and> True"
    by (simp add: LoadBlock_def load_error_def)
qed

lemma safe_alloc [safe_intros]: "safe (openspace alloc n) (\<lambda>x. True)" "safe (luaM_newvector alloc m e) (\<lambda>x. True)"
  by (simp_all add: safe_def openspace_def luaM_newvector_def Let_def)

lemma safe_basic [safe_intros]:
  "safe LoadChar (\<lambda>x. True)" "safe LoadInt (\<lambda>x. True)" "safe LoadNumber (\<lambda>x. True)" "safe (LoadVector n) (\<lambda>x. True)"
  unfolding LoadChar_def LoadInt_def LoadNumber_def LoadVector_def by (intro safe_bind_any safe_intros TrueI)+

lemma safe_strings [safe_intros]: "safe LoadByte (\<lambda>x. True)" "safe (LoadString alloc) (\<lambda>x. True)" "safe (LoadCode alloc) (\<lambda>x. True)"
  unfolding LoadByte_def LoadString_def LoadCode_def by (intro safe_bind_any safe_intros TrueI)+

lemma safe_parts [safe_intros]: "safe (LoadConstant alloc) (\<lambda>x. True)" "safe (LoadLocVar alloc) (\<lambda>x. True)"
  unfolding LoadConstant_def LoadLocVar_def by (intro safe_bind_any safe_intros TrueI)+

lemma safe_repeat: "safe m P \<Longrightarrow> safe (repeat_load n m) (\<lambda>xs. \<forall>x\<in>set xs. P x)"
proof (induction n)
  case (Suc n)
  show ?case unfolding repeat_load.simps
    by (rule safe_bind [OF Suc.prems], rule safe_bind [OF Suc.IH [OF Suc.prems]], rule safe_ret) simp
qed (simp, rule safe_ret, simp)

lemma safe_repeat_any: "safe m (\<lambda>x. True) \<Longrightarrow> safe (repeat_load n m) (\<lambda>xs. True)"
  using safe_repeat [of m "\<lambda>x. True" n] by (simp add: safe_def)

lemma safe_LoadDebug: "safe (LoadDebug alloc) (\<lambda>x. True)"
  unfolding LoadDebug_def by (intro safe_bind_any safe_repeat_any safe_intros TrueI)

lemma safe_LoadConstants:
  assumes "safe function P"
  shows "safe (LoadConstants alloc function) (\<lambda>(k, ps). \<forall>g\<in>set ps. P g)"
  unfolding LoadConstants_def
  by (rule safe_bind_any [OF safe_basic(2)], rule safe_bind_any [OF safe_alloc(2)], rule safe_bind_any [OF safe_repeat_any [OF safe_parts(1)]],
      rule safe_bind_any [OF safe_basic(2)], rule safe_bind_any [OF safe_alloc(2)], rule safe_bind [OF safe_repeat [OF assms]], rule safe_ret) simp

text \<open>A prototype that passed the check, with all functions inside, nested less than \<open>d\<close> deep.\<close>

primrec all_checked :: "nat \<Rightarrow> Proto \<Rightarrow> bool" where
  "all_checked 0 f \<longleftrightarrow> False"
| "all_checked (Suc d) f \<longleftrightarrow> luaG_checkcode f = Inr True \<and> (\<forall>g\<in>set (p_p f). all_checked d g)"

lemma checkcode_total: "\<exists>b. luaG_checkcode f = Inr b"
proof (cases "precheck f")
  case True
  then have "0 \<le> sizecode f - 1" by (cases "p_code f") (auto simp: precheck_def)
  then show ?thesis using symb_loop_ok [OF True, of 0 "sizecode f" "sizecode f - 1" "NO_REG"] True
    by (auto simp: luaG_checkcode_def symbexec_def rok_def)
qed (rule exI [of _ False], simp add: luaG_checkcode_def symbexec_def)

lemma safe_LoadFunction: "safe (LoadFunction alloc d p) (all_checked d)"
proof (induction d arbitrary: p)
  case (Suc d)
  have last: "safe (case luaG_checkcode f of Inl e \<Rightarrow> (\<lambda>S. Inl (Fault e)) | Inr ok \<Rightarrow> if ok then lret f else load_error why) (all_checked (Suc d))"
    if "\<forall>g\<in>set (p_p f). all_checked d g" for f why
  proof -
    obtain b where "luaG_checkcode f = Inr b" using checkcode_total [of f] by blast
    then show ?thesis using that safe_error safe_ret [of "all_checked (Suc d)" f] by (cases b) simp_all
  qed
  show ?case unfolding LoadFunction.simps
    apply (rule safe_bind_any [OF safe_strings(2)], rule safe_let)
    apply (rule safe_bind_any [OF safe_basic(2)])+
    apply (rule safe_bind_any [OF safe_strings(1)])+
    apply (rule safe_bind_any [OF safe_strings(3)])
    apply (rule safe_bind [OF safe_LoadConstants [OF Suc.IH]], simp only: split_beta)
    apply (rule safe_bind_any [OF safe_LoadDebug], simp only: split_beta, rule safe_let, rule last)
    apply simp
    done
qed (simp add: safe_error)

section \<open>Properties\<close>

lemma undump_eq:
  obtains nm where "luaU_undump alloc nCcalls z buffsize name =
    lbind LoadHeader (\<lambda>_. LoadFunction alloc (LUAI_MAXCCALLS - nCcalls) (Some ''=?'')) \<lparr>S_Z = z, S_buffsize = buffsize, S_name = nm\<rparr>"
  unfolding luaU_undump_def Let_def by blast

lemma reads_header: "reads LoadHeader luaU_header ()"
  unfolding LoadHeader_def
  by (rule reads_bind0 [OF reads_LoadBlock]) (simp_all add: LUAC_HEADERSIZE_def luaU_header_def LUA_SIGNATURE_def reads_ret)

text \<open>
  C22. A dump loads again: take a prototype of the shape the compiler makes, dumped with a writer
  that keeps all bytes. Dumping reports success, and loading from any stream that first yields
  those bytes, in blocks of any size and followed by anything, returns the prototype (without its
  debug information when it was stripped) and takes exactly the bytes of the dump.
\<close>

theorem dump_undump:
  assumes "wf_proto (LUAI_MAXCCALLS - nCcalls) f" "luaU_dump f append_to [] strip = (st, bytes)"
    and "wf_zio z" "pending z = bytes @ rst"
  shows "st = 0 \<and> (\<exists>S. luaU_undump all_ok nCcalls z buffsize name = Inr (if strip then strip_proto f else f, S) \<and>
    pending (S_Z S) = rst)"
proof -
  obtain d where d: "LUAI_MAXCCALLS - nCcalls = Suc d" using assms(1) by (cases "LUAI_MAXCCALLS - nCcalls") auto
  have b: "st = 0" "bytes = luaU_header @ enc_proto strip f None"
    using assms(2) by (auto simp: luaU_dump_def DumpHeader_def DumpBlock_put dump_proto Let_def)
  have "src_ok strip f None (Some ''=?'')" using assms(1) d by (simp add: src_ok_def)
  then have "reads (lbind LoadHeader (\<lambda>_. LoadFunction all_ok (LUAI_MAXCCALLS - nCcalls) (Some ''=?''))) bytes (restored strip f)"
    unfolding b(2) by (intro reads_bind [OF reads_header] reads_function [OF assms(1)]) simp_all
  from this [unfolded reads_def restored_def, rule_format, of "\<lparr>S_Z = z, S_buffsize = buffsize, S_name = _\<rparr>" rst]
  show ?thesis using assms(3,4) b(1) undump_eq [of all_ok nCcalls z buffsize name] by simp metis
qed

definition two_functions :: Proto where
  "two_functions =
     Proto [TNumber 7, TStr (Some ''x''), TNil, TBoolean True] [op_abc OP_CLOSURE 0 0 0, op_abc OP_RETURN 0 1 0]
       [Proto [] [op_abc OP_RETURN 0 1 0] [] [3] [\<lparr>varname = Some ''i'', startpc = 0, endpc = 1\<rparr>] [] (Some ''=x'') 2 4 0 0 0 2]
       [1, 4] [] [] (Some ''=x'') 0 0 0 0 2 2"

lemma two_functions_wf: "wf_proto (LUAI_MAXCCALLS - 198) two_functions"
proof -
  have c: "luaG_checkcode two_functions = Inr True" "luaG_checkcode (hd (p_p two_functions)) = Inr True" by code_simp+
  have "LUAI_MAXCCALLS - 198 = Suc (Suc 0)" by (simp add: LUAI_MAXCCALLS_def)
  then show ?thesis using c by (simp add: two_functions_def wf_str_def wf_const_def wf_locvar_def)
qed

theorem dump_undump_witness:
  "\<exists>S. luaU_undump all_ok 198 (luaZ_init [Some (snd (luaU_dump two_functions append_to [] False)), Some ''rest'']) 0 ''=x'' =
    Inr (two_functions, S) \<and> pending (S_Z S) = ''rest''"
proof -
  obtain st bytes where d: "luaU_dump two_functions append_to [] False = (st, bytes)" by fastforce
  moreover have "bytes \<noteq> []"
    using d by (auto simp: luaU_dump_def DumpHeader_def DumpBlock_put dump_proto Let_def luaU_header_def LUA_SIGNATURE_def)
  ultimately show ?thesis
    using dump_undump [OF two_functions_wf, of False st bytes "luaZ_init [Some bytes, Some ''rest'']" "''rest''" 0 "''=x''"]
    by (auto simp: init_stream)
qed



end
