(* ===== verification/Lpattern.thy ===== *)
theory Lpattern
  imports Lobject
begin

text \<open>
  Pattern matching of the string library, \<open>liblua/src/lstrlib.c\<close>. Strings have a null character
  behind their last character; a pointer into the subject or the pattern is an index, and reading
  behind the terminator is a fault. The character classes are those of the "C" locale.

  The subject (\<open>src_init\<close> to \<open>src_end\<close>) never changes while a pattern is matched and is the
  argument \<open>src\<close>; what changes is the number of captures and the array of them. The functions that
  call \<open>match\<close> back take it as an argument; it is called at later positions of the pattern only,
  which is why matching ends.
\<close>

section \<open>Characters\<close>

definition isdigit :: "char \<Rightarrow> bool" where
  "isdigit c \<longleftrightarrow> 48 \<le> (of_char c :: nat) \<and> (of_char c :: nat) \<le> 57"

definition islower :: "char \<Rightarrow> bool" where
  "islower c \<longleftrightarrow> 97 \<le> (of_char c :: nat) \<and> (of_char c :: nat) \<le> 122"

definition isupper :: "char \<Rightarrow> bool" where
  "isupper c \<longleftrightarrow> 65 \<le> (of_char c :: nat) \<and> (of_char c :: nat) \<le> 90"

definition isalpha :: "char \<Rightarrow> bool" where
  "isalpha c \<longleftrightarrow> islower c \<or> isupper c"

definition isalnum :: "char \<Rightarrow> bool" where
  "isalnum c \<longleftrightarrow> isalpha c \<or> isdigit c"

definition iscntrl :: "char \<Rightarrow> bool" where
  "iscntrl c \<longleftrightarrow> (of_char c :: nat) < 32 \<or> (of_char c :: nat) = 127"

definition ispunct :: "char \<Rightarrow> bool" where
  "ispunct c \<longleftrightarrow> 33 \<le> (of_char c :: nat) \<and> (of_char c :: nat) \<le> 126 \<and> \<not> isalnum c"

definition isxdigit :: "char \<Rightarrow> bool" where
  "isxdigit c \<longleftrightarrow> isdigit c \<or> 65 \<le> (of_char c :: nat) \<and> (of_char c :: nat) \<le> 70 \<or>
     97 \<le> (of_char c :: nat) \<and> (of_char c :: nat) \<le> 102"

definition tolower :: "char \<Rightarrow> char" where
  "tolower c = (if isupper c then char_of (of_char c + 32 :: nat) else c)"

definition toupper :: "char \<Rightarrow> char" where
  "toupper c = (if islower c then char_of (of_char c - 32 :: nat) else c)"

section \<open>Items of a pattern\<close>

definition rd :: "string \<Rightarrow> nat \<Rightarrow> char lres" where
  "rd s i = (if i < length s then Inr (s ! i) else if i = length s then Inr NUL else Inl (Fault Out_Of_Bounds))"

abbreviation L_ESC :: char where "L_ESC \<equiv> CHR ''%''"

lemma rd_le: "rd s i = Inr c \<Longrightarrow> i \<le> length s"
  by (simp add: rd_def split: if_splits)

lemma rd_less: "rd s i = Inr c \<Longrightarrow> c \<noteq> NUL \<Longrightarrow> i < length s"
  by (auto simp: rd_def split: if_splits)

lemma nofault_rd [simp]: "nofault (rd s i) P \<longleftrightarrow> i \<le> length s \<and> P (if i < length s then s ! i else NUL)"
  by (simp add: rd_def)

function class_loop :: "string \<Rightarrow> nat \<Rightarrow> nat lres" where
  "class_loop pat p =
     ebind (rd pat p) (\<lambda>c.
       if c = NUL then Inl (Runtime ''malformed pattern (missing ']')'')
       else ebind (rd pat (p + 1)) (\<lambda>d.
         if c = L_ESC \<and> d \<noteq> NUL
         then ebind (rd pat (p + 2)) (\<lambda>e. if e = CHR '']'' then Inr (p + 3) else class_loop pat (p + 2))
         else if d = CHR '']'' then Inr (p + 2) else class_loop pat (p + 1)))"
  by pat_completeness auto
termination
  by (relation "measure (\<lambda>(pat, p). length pat - p)") (auto dest: rd_less)

declare class_loop.simps [simp del]

definition classend :: "string \<Rightarrow> nat \<Rightarrow> nat lres" where
  "classend pat p =
     ebind (rd pat p) (\<lambda>c.
       if c = L_ESC
       then ebind (rd pat (p + 1)) (\<lambda>d.
         if d = NUL then Inl (Runtime ''malformed pattern (ends with '%')'') else Inr (p + 2))
       else if c = CHR ''[''
       then ebind (rd pat (p + 1)) (\<lambda>d. class_loop pat (if d = CHR ''^'' then p + 2 else p + 1))
       else Inr (p + 1))"

definition match_class :: "char \<Rightarrow> char \<Rightarrow> bool" where
  "match_class c cl =
     (let l = tolower cl; ret = (\<lambda>res. if islower cl then res else \<not> res) in
      if l = CHR ''a'' then ret (isalpha c)
      else if l = CHR ''c'' then ret (iscntrl c)
      else if l = CHR ''d'' then ret (isdigit c)
      else if l = CHR ''l'' then ret (islower c)
      else if l = CHR ''p'' then ret (ispunct c)
      else if l = CHR ''s'' then ret (isspace (of_char c))
      else if l = CHR ''u'' then ret (isupper c)
      else if l = CHR ''w'' then ret (isalnum c)
      else if l = CHR ''x'' then ret (isxdigit c)
      else if l = CHR ''z'' then ret (c = NUL)
      else cl = c)"

text \<open>The loop of \<open>matchbracketclass\<close>, about to step to the position after \<open>p\<close>.\<close>

function bracket_loop :: "string \<Rightarrow> char \<Rightarrow> bool \<Rightarrow> nat \<Rightarrow> nat \<Rightarrow> bool lres" where
  "bracket_loop pat c sig p ec =
     (if p + 1 < ec then
        ebind (rd pat (p + 1)) (\<lambda>x.
          if x = L_ESC then
            ebind (rd pat (p + 2)) (\<lambda>y. if match_class c y then Inr sig else bracket_loop pat c sig (p + 2) ec)
          else ebind (rd pat (p + 2)) (\<lambda>d.
            if d = CHR ''-'' \<and> p + 3 < ec then
              ebind (rd pat (p + 3)) (\<lambda>y.
                if (of_char x :: nat) \<le> of_char c \<and> (of_char c :: nat) \<le> of_char y then Inr sig
                else bracket_loop pat c sig (p + 3) ec)
            else if x = c then Inr sig
            else bracket_loop pat c sig (p + 1) ec))
      else Inr (\<not> sig))"
  by pat_completeness auto
termination
  by (relation "measure (\<lambda>(pat, c, sig, p, ec). ec - p)") auto

declare bracket_loop.simps [simp del]

definition matchbracketclass :: "string \<Rightarrow> char \<Rightarrow> nat \<Rightarrow> nat \<Rightarrow> bool lres" where
  "matchbracketclass pat c p ec =
     ebind (rd pat (p + 1)) (\<lambda>d.
       if d = CHR ''^'' then bracket_loop pat c False (p + 1) ec else bracket_loop pat c True p ec)"

definition singlematch :: "string \<Rightarrow> char \<Rightarrow> nat \<Rightarrow> nat \<Rightarrow> bool lres" where
  "singlematch pat c p ep =
     ebind (rd pat p) (\<lambda>x.
       if x = CHR ''.'' then Inr True
       else if x = L_ESC then ebind (rd pat (p + 1)) (\<lambda>y. Inr (match_class c y))
       else if x = CHR ''['' then matchbracketclass pat c p (ep - 1)
       else Inr (x = c))"

function bal_loop :: "string \<Rightarrow> char \<Rightarrow> char \<Rightarrow> nat \<Rightarrow> int \<Rightarrow> nat option" where
  "bal_loop src b e s cont =
     (if s + 1 < length src then
        if src ! (s + 1) = e then (if cont - 1 = 0 then Some (s + 2) else bal_loop src b e (s + 1) (cont - 1))
        else if src ! (s + 1) = b then bal_loop src b e (s + 1) (cont + 1)
        else bal_loop src b e (s + 1) cont
      else None)"
  by pat_completeness auto
termination
  by (relation "measure (\<lambda>(src, b, e, s, cont). length src - s)") auto

declare bal_loop.simps [simp del]

definition matchbalance :: "string \<Rightarrow> string \<Rightarrow> nat \<Rightarrow> nat \<Rightarrow> nat option lres" where
  "matchbalance pat src s p =
     ebind (rd pat p) (\<lambda>b.
     if b = NUL then Inl (Runtime ''unbalanced pattern'')
     else ebind (rd pat (p + 1)) (\<lambda>e.
       if e = NUL then Inl (Runtime ''unbalanced pattern'')
       else ebind (rd src s) (\<lambda>x. if x \<noteq> b then Inr None else Inr (bal_loop src b e s 1))))"

section \<open>Captures\<close>

definition CAP_UNFINISHED :: int where "CAP_UNFINISHED = -1"
definition CAP_POSITION :: int where "CAP_POSITION = -2"
definition LUA_MAXCAPTURES :: nat where "LUA_MAXCAPTURES = 32"

record MatchState =
  level :: nat
  capture :: "(nat \<times> int) list"

definition cap_at :: "MatchState \<Rightarrow> nat \<Rightarrow> (nat \<times> int) lres" where
  "cap_at ms l = (if l < length (capture ms) then Inr (capture ms ! l) else Inl (Fault Out_Of_Bounds))"

definition check_capture :: "MatchState \<Rightarrow> char \<Rightarrow> nat lres" where
  "check_capture ms c =
     (let l = of_char c - 49 :: int in
      if l < 0 \<or> l \<ge> int (level ms) then Inl (Runtime ''invalid capture index'')
      else ebind (cap_at ms (nat l)) (\<lambda>(i, n).
        if n = CAP_UNFINISHED then Inl (Runtime ''invalid capture index'') else Inr (nat l)))"

primrec close_loop :: "MatchState \<Rightarrow> nat \<Rightarrow> nat lres" where
  "close_loop ms 0 = Inl (Runtime ''invalid pattern capture'')"
| "close_loop ms (Suc l) = ebind (cap_at ms l) (\<lambda>(i, n). if n = CAP_UNFINISHED then Inr l else close_loop ms l)"

definition capture_to_close :: "MatchState \<Rightarrow> nat lres" where
  "capture_to_close ms = close_loop ms (level ms)"

definition memcmp_at :: "string \<Rightarrow> nat \<Rightarrow> nat \<Rightarrow> nat \<Rightarrow> bool lres" where
  "memcmp_at src i j n =
     (if i + n \<le> length src + 1 \<and> j + n \<le> length src + 1
      then Inr (take n (drop i (src @ [NUL])) = take n (drop j (src @ [NUL]))) else Inl (Fault Out_Of_Bounds))"

definition match_capture :: "string \<Rightarrow> MatchState \<Rightarrow> nat \<Rightarrow> char \<Rightarrow> nat option lres" where
  "match_capture src ms s c =
     ebind (check_capture ms c) (\<lambda>l. ebind (cap_at ms l) (\<lambda>(i, n).
       let len = unat (word_of_int n :: size_t) in
       if length src - s \<ge> len then ebind (memcmp_at src i s len) (\<lambda>same. Inr (if same then Some (s + len) else None))
       else Inr None))"

section \<open>Matching\<close>

type_synonym mres = "(nat option \<times> MatchState) lres"

text \<open>The matcher that the functions below call back: captures, subject position, pattern position.\<close>

type_synonym matcher = "MatchState \<Rightarrow> nat \<Rightarrow> nat \<Rightarrow> mres"

definition start_capture :: "matcher \<Rightarrow> MatchState \<Rightarrow> nat \<Rightarrow> nat \<Rightarrow> int \<Rightarrow> mres" where
  "start_capture k ms s p what =
     (if level ms \<ge> LUA_MAXCAPTURES then Inl (Runtime ''too many captures'')
      else if level ms \<ge> length (capture ms) then Inl (Fault Out_Of_Bounds)
      else ebind (k (ms\<lparr>capture := (capture ms)[level ms := (s, what)], level := level ms + 1\<rparr>) s p) (\<lambda>(res, ms1).
        if res = None then Inr (None, ms1\<lparr>level := level ms1 - 1\<rparr>) else Inr (res, ms1)))"

definition end_capture :: "matcher \<Rightarrow> MatchState \<Rightarrow> nat \<Rightarrow> nat \<Rightarrow> mres" where
  "end_capture k ms s p =
     ebind (capture_to_close ms) (\<lambda>l. ebind (cap_at ms l) (\<lambda>(i, _).
       ebind (k (ms\<lparr>capture := (capture ms)[l := (i, int s - int i)]\<rparr>) s p) (\<lambda>(res, ms1).
         if res = None then ebind (cap_at ms1 l) (\<lambda>(i1, _). Inr (None, ms1\<lparr>capture := (capture ms1)[l := (i1, CAP_UNFINISHED)]\<rparr>))
         else Inr (res, ms1))))"

function max_count :: "string \<Rightarrow> string \<Rightarrow> nat \<Rightarrow> nat \<Rightarrow> nat \<Rightarrow> nat \<Rightarrow> nat lres" where
  "max_count pat src s p ep i =
     (if s + i < length src
      then ebind (singlematch pat (src ! (s + i)) p ep) (\<lambda>m. if m then max_count pat src s p ep (i + 1) else Inr i)
      else Inr i)"
  by pat_completeness auto
termination
  by (relation "measure (\<lambda>(pat, src, s, p, ep, i). length src - (s + i))") auto

declare max_count.simps [simp del]

primrec max_try :: "matcher \<Rightarrow> MatchState \<Rightarrow> nat \<Rightarrow> nat \<Rightarrow> nat \<Rightarrow> mres" where
  "max_try k ms s p 0 = k ms s p"
| "max_try k ms s p (Suc i) =
     ebind (k ms (s + Suc i) p) (\<lambda>(res, ms1). if res \<noteq> None then Inr (res, ms1) else max_try k ms1 s p i)"

definition max_expand :: "matcher \<Rightarrow> string \<Rightarrow> string \<Rightarrow> MatchState \<Rightarrow> nat \<Rightarrow> nat \<Rightarrow> nat \<Rightarrow> mres" where
  "max_expand k pat src ms s p ep = ebind (max_count pat src s p ep 0) (\<lambda>i. max_try k ms s (ep + 1) i)"

function min_expand :: "matcher \<Rightarrow> string \<Rightarrow> string \<Rightarrow> MatchState \<Rightarrow> nat \<Rightarrow> nat \<Rightarrow> nat \<Rightarrow> mres" where
  "min_expand k pat src ms s p ep =
     ebind (k ms s (ep + 1)) (\<lambda>(res, ms1).
       if res \<noteq> None then Inr (res, ms1)
       else if s < length src
       then ebind (singlematch pat (src ! s) p ep) (\<lambda>m.
         if m then min_expand k pat src ms1 (s + 1) p ep else Inr (None, ms1))
       else Inr (None, ms1))"
  by pat_completeness auto
termination
  by (relation "measure (\<lambda>(k, pat, src, ms, s, p, ep). length src - s)") auto

declare min_expand.simps [simp del]

text \<open>The label \<open>dflt\<close> of \<open>match\<close>: a single pattern item and what follows it.\<close>

definition dflt :: "matcher \<Rightarrow> string \<Rightarrow> string \<Rightarrow> MatchState \<Rightarrow> nat \<Rightarrow> nat \<Rightarrow> mres" where
  "dflt k pat src ms s p =
     ebind (classend pat p) (\<lambda>ep.
     ebind (if s < length src then singlematch pat (src ! s) p ep else Inr False) (\<lambda>m.
     ebind (rd pat ep) (\<lambda>c.
       if c = CHR ''?'' then
         (if m then ebind (k ms (s + 1) (ep + 1)) (\<lambda>(res, ms1).
            if res \<noteq> None then Inr (res, ms1) else k ms1 s (ep + 1))
          else k ms s (ep + 1))
       else if c = CHR ''*'' then max_expand k pat src ms s p ep
       else if c = CHR ''+'' then (if m then max_expand k pat src ms (s + 1) p ep else Inr (None, ms))
       else if c = CHR ''-'' then min_expand k pat src ms s p ep
       else if m then k ms (s + 1) ep else Inr (None, ms))))"

text \<open>The case \<open>%f\<close> of \<open>match\<close>: whether the position is a frontier, and where the set ends.\<close>

definition frontier :: "string \<Rightarrow> string \<Rightarrow> nat \<Rightarrow> nat \<Rightarrow> (bool \<times> nat) lres" where
  "frontier pat src s p =
     ebind (rd pat p) (\<lambda>x.
     if x \<noteq> CHR ''['' then Inl (Runtime ''missing '[' after '%f' in pattern'')
     else ebind (classend pat p) (\<lambda>ep.
       ebind (if s = 0 then Inr NUL else rd src (s - 1)) (\<lambda>previous.
       ebind (matchbracketclass pat previous p (ep - 1)) (\<lambda>a.
         if a then Inr (False, ep)
         else ebind (rd src s) (\<lambda>c. ebind (matchbracketclass pat c p (ep - 1)) (\<lambda>b. Inr (b, ep)))))))"

section \<open>Where an item ends\<close>

lemma rd_nz: "rd s i = Inr c \<Longrightarrow> c \<noteq> NUL \<Longrightarrow> Suc i \<le> length s"
  using rd_less [of s i c] by simp

lemma class_loop_gt: "class_loop pat p = Inr ep \<Longrightarrow> p + 1 < ep \<and> ep \<le> length pat"
proof (induction "length pat - p" arbitrary: p rule: less_induct)
  case less
  from less.prems obtain c where c: "rd pat p = Inr c" "c \<noteq> NUL"
    by (cases "rd pat p") (auto simp: class_loop.simps [of pat p] split: if_splits)
  from less.prems c obtain d where d: "rd pat (p + 1) = Inr d"
    by (cases "rd pat (p + 1)") (auto simp: class_loop.simps [of pat p])
  note l = rd_nz [OF c]
  show ?case
  proof (cases "c = L_ESC \<and> d \<noteq> NUL")
    case True
    with less.prems c d obtain e where e: "rd pat (p + 2) = Inr e" "(if e = CHR '']'' then Inr (p + 3) else class_loop pat (p + 2)) = Inr ep"
      by (cases "rd pat (p + 2)") (auto simp: class_loop.simps [of pat p])
    show ?thesis
    proof (cases "e = CHR '']''")
      case True
      then show ?thesis using e rd_nz [OF e(1)] by simp
    next
      case False
      have "length pat - (p + 2) < length pat - p" using l by simp
      then show ?thesis using less.hyps [of "p + 2"] e(2) False by simp
    qed
  next
    case False
    then have r: "(if d = CHR '']'' then Inr (p + 2) else class_loop pat (p + 1)) = Inr ep"
      using less.prems c d by (simp add: class_loop.simps [of pat p] split: if_splits)
    show ?thesis
    proof (cases "d = CHR '']''")
      case True
      then show ?thesis using r rd_nz [OF d] by simp
    next
      case False
      have "length pat - (p + 1) < length pat - p" using l by simp
      then show ?thesis using less.hyps [of "p + 1"] r False by simp
    qed
  qed
qed

lemma classend_bounds: "classend pat p = Inr ep \<Longrightarrow> p < ep \<and> (rd pat p \<noteq> Inr NUL \<longrightarrow> ep \<le> length pat)"
proof -
  assume r: "classend pat p = Inr ep"
  then obtain c where c: "rd pat p = Inr c" by (cases "rd pat p") (auto simp: classend_def)
  consider (esc) d where "c = L_ESC" "rd pat (p + 1) = Inr d" "d \<noteq> NUL" "ep = p + 2"
    | (set) q where "c = CHR ''[''" "class_loop pat q = Inr ep" "p < q"
    | (other) "ep = p + 1"
    using r c by (force simp: classend_def ebind_Inr_iff split: if_splits)
  then show ?thesis
  proof cases
    case esc
    then show ?thesis using rd_nz [OF esc(2,3)] by simp
  next
    case set
    then show ?thesis using class_loop_gt [OF set(2)] by simp
  next
    case other
    then show ?thesis using rd_nz [OF c] c by auto
  qed
qed

lemma frontier_bounds:
  assumes "frontier pat src s p = Inr (b, ep)"
  shows "p < ep \<and> ep \<le> length pat"
proof -
  from assms obtain c where c: "rd pat p = Inr c" "c = CHR ''[''"
    by (cases "rd pat p") (auto simp: frontier_def split: if_splits)
  moreover from this assms have "classend pat p = Inr ep"
    by (auto simp: frontier_def ebind_Inr_iff split: if_splits)
  ultimately show ?thesis using classend_bounds [of pat p ep] by simp
qed

section \<open>The matcher calls itself at later positions only\<close>

lemma max_try_cong: "(\<And>ms s. k ms s p = k' ms s p) \<Longrightarrow> max_try k ms s p i = max_try k' ms s p i"
  by (induction i arbitrary: ms) (auto intro!: ebind_cong)

lemma min_expand_cong: "(\<And>ms s. k ms s (ep + 1) = k' ms s (ep + 1)) \<Longrightarrow> min_expand k pat src ms s p ep = min_expand k' pat src ms s p ep"
proof (induction "length src - s" arbitrary: ms s rule: less_induct)
  case less
  show ?case unfolding min_expand.simps [of k pat src ms s] min_expand.simps [of k' pat src ms s] less.prems
    by (intro ebind_cong refl) (auto intro!: ebind_cong less.hyps less.prems diff_less_mono2)
qed

lemma dflt_cong [fundef_cong]:
  assumes "pat = pat'" "src = src'" "ms = ms'" "s = s'" "p = p'" "\<And>ms s q. p' < q \<Longrightarrow> k ms s q = k' ms s q"
  shows "dflt k pat src ms s p = dflt k' pat' src' ms' s' p'"
  unfolding assms(1-5) dflt_def
proof (rule ebind_cong [OF refl])
  fix ep assume "classend pat' p' = Inr ep"
  then have "p' < ep" using classend_bounds by blast
  then have k: "k ms s ep = k' ms s ep" "k ms s (ep + 1) = k' ms s (ep + 1)" for ms s using assms(6) by simp_all
  have a: "max_expand k pat' src' ms s p' ep = max_expand k' pat' src' ms s p' ep" for ms s
    unfolding max_expand_def by (intro ebind_cong refl max_try_cong k)
  have b: "min_expand k pat' src' ms s p' ep = min_expand k' pat' src' ms s p' ep" for ms s
    by (rule min_expand_cong) (rule k)
  show "ebind (if s' < length src' then singlematch pat' (src' ! s') p' ep else Inr False) (\<lambda>m. ebind (rd pat' ep) (\<lambda>c.
       if c = CHR ''?'' then (if m then ebind (k ms' (s' + 1) (ep + 1)) (\<lambda>(res, ms1). if res \<noteq> None then Inr (res, ms1) else k ms1 s' (ep + 1)) else k ms' s' (ep + 1))
       else if c = CHR ''*'' then max_expand k pat' src' ms' s' p' ep
       else if c = CHR ''+'' then (if m then max_expand k pat' src' ms' (s' + 1) p' ep else Inr (None, ms'))
       else if c = CHR ''-'' then min_expand k pat' src' ms' s' p' ep
       else if m then k ms' (s' + 1) ep else Inr (None, ms'))) =
    ebind (if s' < length src' then singlematch pat' (src' ! s') p' ep else Inr False) (\<lambda>m. ebind (rd pat' ep) (\<lambda>c.
       if c = CHR ''?'' then (if m then ebind (k' ms' (s' + 1) (ep + 1)) (\<lambda>(res, ms1). if res \<noteq> None then Inr (res, ms1) else k' ms1 s' (ep + 1)) else k' ms' s' (ep + 1))
       else if c = CHR ''*'' then max_expand k' pat' src' ms' s' p' ep
       else if c = CHR ''+'' then (if m then max_expand k' pat' src' ms' (s' + 1) p' ep else Inr (None, ms'))
       else if c = CHR ''-'' then min_expand k' pat' src' ms' s' p' ep
       else if m then k' ms' (s' + 1) ep else Inr (None, ms')))"
    unfolding k a b ..
qed

lemma capture_cong [fundef_cong]:
  assumes "ms = ms'" "s = s'" "p = p'" "what = what'" "\<And>ms. k ms s' p' = k' ms s' p'"
  shows "start_capture k ms s p what = start_capture k' ms' s' p' what'" "end_capture k ms s p = end_capture k' ms' s' p'"
  unfolding assms(1-4) start_capture_def end_capture_def assms(5) by (rule refl)+

function match :: "string \<Rightarrow> string \<Rightarrow> MatchState \<Rightarrow> nat \<Rightarrow> nat \<Rightarrow> mres" where
  "match pat src ms s p =
     ebind (rd pat p) (\<lambda>c.
     if c = CHR ''('' then
       ebind (rd pat (p + 1)) (\<lambda>d.
         if d = CHR '')'' then start_capture (match pat src) ms s (p + 2) CAP_POSITION
         else start_capture (match pat src) ms s (p + 1) CAP_UNFINISHED)
     else if c = CHR '')'' then end_capture (match pat src) ms s (p + 1)
     else if c = L_ESC then
       ebind (rd pat (p + 1)) (\<lambda>d.
         if d = CHR ''b'' then
           ebind (matchbalance pat src s (p + 2)) (\<lambda>r. case r of None \<Rightarrow> Inr (None, ms) | Some s1 \<Rightarrow> match pat src ms s1 (p + 4))
         else if d = CHR ''f'' then
           ebind (frontier pat src s (p + 2)) (\<lambda>(b, ep). if b then match pat src ms s ep else Inr (None, ms))
         else if isdigit d then
           ebind (match_capture src ms s d) (\<lambda>r. case r of None \<Rightarrow> Inr (None, ms) | Some s1 \<Rightarrow> match pat src ms s1 (p + 2))
         else dflt (match pat src) pat src ms s p)
     else if c = NUL then Inr (Some s, ms)
     else if c = CHR ''$'' then
       ebind (rd pat (p + 1)) (\<lambda>d.
         if d = NUL then Inr (if s = length src then Some s else None, ms)
         else dflt (match pat src) pat src ms s p)
     else dflt (match pat src) pat src ms s p)"
  by pat_completeness auto
termination
  by (relation "measure (\<lambda>(pat, src, ms, s, p). Suc (length pat) - p)") (auto dest!: rd_le frontier_bounds)

declare match.simps [simp del]

section \<open>What a pattern matches\<close>

text \<open>
  The meaning of patterns, without any order of search: \<open>mt pat src caps s p caps' e\<close> says that the
  pattern from position \<open>p\<close> on can match the subject from \<open>s\<close> to \<open>e\<close>, where the captures made
  before are \<open>caps\<close> and those after the match \<open>caps'\<close>.
\<close>

type_synonym caps = "(nat \<times> int) list"

definition last_open :: "caps \<Rightarrow> nat \<Rightarrow> bool" where
  "last_open caps l \<longleftrightarrow> l < length caps \<and> snd (caps ! l) = CAP_UNFINISHED \<and>
     (\<forall>j. l < j \<and> j < length caps \<longrightarrow> snd (caps ! j) \<noteq> CAP_UNFINISHED)"

text \<open>At \<open>p\<close> stands an item that matches a single character, not one of the special forms.\<close>

definition item_start :: "string \<Rightarrow> nat \<Rightarrow> bool" where
  "item_start pat p \<longleftrightarrow> (\<exists>c d. rd pat p = Inr c \<and> c \<noteq> NUL \<and> rd pat (p + 1) = Inr d \<and> c \<noteq> CHR ''('' \<and> c \<noteq> CHR '')'' \<and>
     (c = L_ESC \<longrightarrow> d \<noteq> CHR ''b'' \<and> d \<noteq> CHR ''f'' \<and> \<not> isdigit d) \<and> (c = CHR ''$'' \<longrightarrow> d \<noteq> NUL))"

definition item :: "string \<Rightarrow> nat \<Rightarrow> nat \<Rightarrow> char \<Rightarrow> bool" where
  "item pat p ep c \<longleftrightarrow> item_start pat p \<and> classend pat p = Inr ep \<and> rd pat ep = Inr c"

definition one :: "string \<Rightarrow> string \<Rightarrow> nat \<Rightarrow> nat \<Rightarrow> nat \<Rightarrow> bool" where
  "one pat src p ep s \<longleftrightarrow> s < length src \<and> singlematch pat (src ! s) p ep = Inr True"

inductive mt :: "string \<Rightarrow> string \<Rightarrow> caps \<Rightarrow> nat \<Rightarrow> nat \<Rightarrow> caps \<Rightarrow> nat \<Rightarrow> bool" for pat src where
  mt_end: "rd pat p = Inr NUL \<Longrightarrow> mt pat src caps s p caps s"
| mt_position: "rd pat p = Inr CHR ''('' \<Longrightarrow> rd pat (p + 1) = Inr CHR '')'' \<Longrightarrow>
    mt pat src (caps @ [(s, CAP_POSITION)]) s (p + 2) caps' e \<Longrightarrow> mt pat src caps s p caps' e"
| mt_open: "rd pat p = Inr CHR ''('' \<Longrightarrow> rd pat (p + 1) = Inr d \<Longrightarrow> d \<noteq> CHR '')'' \<Longrightarrow>
    mt pat src (caps @ [(s, CAP_UNFINISHED)]) s (p + 1) caps' e \<Longrightarrow> mt pat src caps s p caps' e"
| mt_close: "rd pat p = Inr CHR '')'' \<Longrightarrow> last_open caps l \<Longrightarrow>
    mt pat src (caps[l := (fst (caps ! l), int s - int (fst (caps ! l)))]) s (p + 1) caps' e \<Longrightarrow> mt pat src caps s p caps' e"
| mt_balance: "rd pat p = Inr L_ESC \<Longrightarrow> rd pat (p + 1) = Inr CHR ''b'' \<Longrightarrow> matchbalance pat src s (p + 2) = Inr (Some s1) \<Longrightarrow>
    mt pat src caps s1 (p + 4) caps' e \<Longrightarrow> mt pat src caps s p caps' e"
| mt_frontier: "rd pat p = Inr L_ESC \<Longrightarrow> rd pat (p + 1) = Inr CHR ''f'' \<Longrightarrow> frontier pat src s (p + 2) = Inr (True, ep) \<Longrightarrow>
    mt pat src caps s ep caps' e \<Longrightarrow> mt pat src caps s p caps' e"
| mt_backref: "rd pat p = Inr L_ESC \<Longrightarrow> rd pat (p + 1) = Inr d \<Longrightarrow> isdigit d \<Longrightarrow> of_char d = l + (49 :: nat) \<Longrightarrow> l < length caps \<Longrightarrow>
    caps ! l = (i, int n) \<Longrightarrow> s + n \<le> length src \<Longrightarrow> take n (drop i src) = take n (drop s src) \<Longrightarrow>
    mt pat src caps (s + n) (p + 2) caps' e \<Longrightarrow> mt pat src caps s p caps' e"
| mt_dollar: "rd pat p = Inr CHR ''$'' \<Longrightarrow> rd pat (p + 1) = Inr NUL \<Longrightarrow> mt pat src caps (length src) p caps (length src)"
| mt_one: "item pat p ep c \<Longrightarrow> c \<notin> set ''?*+-'' \<Longrightarrow> one pat src p ep s \<Longrightarrow> mt pat src caps (s + 1) ep caps' e \<Longrightarrow> mt pat src caps s p caps' e"
| mt_opt: "item pat p ep CHR ''?'' \<Longrightarrow> k \<le> 1 \<Longrightarrow> (\<forall>j<k. one pat src p ep (s + j)) \<Longrightarrow>
    mt pat src caps (s + k) (ep + 1) caps' e \<Longrightarrow> mt pat src caps s p caps' e"
| mt_star: "item pat p ep c \<Longrightarrow> c = CHR ''*'' \<or> c = CHR ''-'' \<Longrightarrow> (\<forall>j<k. one pat src p ep (s + j)) \<Longrightarrow>
    mt pat src caps (s + k) (ep + 1) caps' e \<Longrightarrow> mt pat src caps s p caps' e"
| mt_plus: "item pat p ep CHR ''+'' \<Longrightarrow> 0 < k \<Longrightarrow> (\<forall>j<k. one pat src p ep (s + j)) \<Longrightarrow>
    mt pat src caps (s + k) (ep + 1) caps' e \<Longrightarrow> mt pat src caps s p caps' e"

lemma item_not:
  "item pat p ep c \<Longrightarrow> rd pat p \<noteq> Inr CHR ''('' \<and> rd pat p \<noteq> Inr CHR '')'' \<and> rd pat p \<noteq> Inr NUL"
  "item pat p ep c \<Longrightarrow> rd pat p = Inr L_ESC \<Longrightarrow> rd pat (p + 1) = Inr d \<Longrightarrow> d \<noteq> CHR ''b'' \<and> d \<noteq> CHR ''f'' \<and> \<not> isdigit d"
  "item pat p ep c \<Longrightarrow> rd pat p = Inr CHR ''$'' \<Longrightarrow> rd pat (p + 1) \<noteq> Inr NUL"
  by (auto simp: item_def item_start_def)

lemma isdigit_bf [simp]: "\<not> isdigit CHR ''b''" "\<not> isdigit CHR ''f''"
  by (simp_all add: isdigit_def)

lemma mt_at_end: "rd pat p = Inr NUL \<Longrightarrow> mt pat src caps s p caps' e \<longleftrightarrow> caps' = caps \<and> e = s"
  by (subst mt.simps) (auto dest: item_not(1))

lemma mt_at_position: "rd pat p = Inr CHR ''('' \<Longrightarrow> rd pat (p + 1) = Inr CHR '')'' \<Longrightarrow>
  mt pat src caps s p caps' e \<longleftrightarrow> mt pat src (caps @ [(s, CAP_POSITION)]) s (p + 2) caps' e"
  by (subst mt.simps) (auto dest: item_not(1))

lemma mt_at_open: "rd pat p = Inr CHR ''('' \<Longrightarrow> rd pat (p + 1) = Inr d \<Longrightarrow> d \<noteq> CHR '')'' \<Longrightarrow>
  mt pat src caps s p caps' e \<longleftrightarrow> mt pat src (caps @ [(s, CAP_UNFINISHED)]) s (p + 1) caps' e"
  by (subst mt.simps) (auto dest: item_not(1))

lemma last_open_unique: "last_open caps l \<Longrightarrow> last_open caps m \<Longrightarrow> l = m"
  unfolding last_open_def by (metis linorder_neqE_nat)

lemma mt_at_close: "rd pat p = Inr CHR '')'' \<Longrightarrow> last_open caps l \<Longrightarrow>
  mt pat src caps s p caps' e \<longleftrightarrow> mt pat src (caps[l := (fst (caps ! l), int s - int (fst (caps ! l)))]) s (p + 1) caps' e"
proof -
  assume a: "rd pat p = Inr CHR '')''" "last_open caps l"
  then have u: "last_open caps m \<longleftrightarrow> m = l" for m using last_open_unique by blast
  show ?thesis using a(1) by (subst mt.simps) (auto simp: u dest: item_not(1))
qed

lemma mt_at_balance: "rd pat p = Inr L_ESC \<Longrightarrow> rd pat (p + 1) = Inr CHR ''b'' \<Longrightarrow>
  mt pat src caps s p caps' e \<longleftrightarrow> (\<exists>s1. matchbalance pat src s (p + 2) = Inr (Some s1) \<and> mt pat src caps s1 (p + 4) caps' e)"
  by (subst mt.simps) (auto dest: item_not(2))

lemma mt_at_frontier: "rd pat p = Inr L_ESC \<Longrightarrow> rd pat (p + 1) = Inr CHR ''f'' \<Longrightarrow>
  mt pat src caps s p caps' e \<longleftrightarrow> (\<exists>ep. frontier pat src s (p + 2) = Inr (True, ep) \<and> mt pat src caps s ep caps' e)"
  by (subst mt.simps) (auto dest: item_not(2))

lemma mt_at_backref: "rd pat p = Inr L_ESC \<Longrightarrow> rd pat (p + 1) = Inr d \<Longrightarrow> isdigit d \<Longrightarrow>
  mt pat src caps s p caps' e \<longleftrightarrow> (\<exists>l i n. of_char d = l + (49 :: nat) \<and> l < length caps \<and> caps ! l = (i, int n) \<and>
    s + n \<le> length src \<and> take n (drop i src) = take n (drop s src) \<and> mt pat src caps (s + n) (p + 2) caps' e)"
  by (subst mt.simps) (auto dest: item_not(2))

lemma mt_at_dollar: "rd pat p = Inr CHR ''$'' \<Longrightarrow> rd pat (p + 1) = Inr NUL \<Longrightarrow>
  mt pat src caps s p caps' e \<longleftrightarrow> s = length src \<and> caps' = caps \<and> e = length src"
  by (subst mt.simps) (auto dest: item_not(3))

definition reps :: "char \<Rightarrow> nat \<Rightarrow> bool" where
  "reps c k \<longleftrightarrow> (if c = CHR ''?'' then k \<le> 1 else if c = CHR ''*'' \<or> c = CHR ''-'' then True else if c = CHR ''+'' then 0 < k else k = 1)"

lemma mt_at_item: "item pat p ep c \<Longrightarrow>
  mt pat src caps s p caps' e \<longleftrightarrow> (\<exists>k. reps c k \<and> (\<forall>j<k. one pat src p ep (s + j)) \<and>
    mt pat src caps (s + k) (if c \<in> set ''?*+-'' then ep + 1 else ep) caps' e)"
  (is "_ \<Longrightarrow> _ \<longleftrightarrow> ?r")
proof
  assume i: "item pat p ep c"
  have u: "ep' = ep \<and> c' = c" if "item pat p ep' c'" for ep' c' using that i by (simp add: item_def)
  show ?r if "mt pat src caps s p caps' e" using that
  proof cases
    case mt_end then show ?thesis using item_not(1) [OF i] by simp
  next
    case mt_position then show ?thesis using item_not(1) [OF i] by simp
  next
    case mt_open then show ?thesis using item_not(1) [OF i] by simp
  next
    case mt_close then show ?thesis using item_not(1) [OF i] by simp
  next
    case mt_balance then show ?thesis using item_not(2) [OF i] by simp
  next
    case mt_frontier then show ?thesis using item_not(2) [OF i] by simp
  next
    case mt_backref then show ?thesis using item_not(2) [OF i] by simp
  next
    case mt_dollar then show ?thesis using item_not(3) [OF i] by simp
  next
    case mt_one then show ?thesis using u [OF mt_one(1)] by (intro exI [of _ 1]) (auto simp: reps_def)
  next
    case mt_opt then show ?thesis using u [OF mt_opt(1)] by (auto simp: reps_def)
  next
    case mt_star then show ?thesis using u [OF mt_star(1)] by (auto simp: reps_def)
  next
    case mt_plus then show ?thesis using u [OF mt_plus(1)] by (auto simp: reps_def)
  qed
  assume ?r
  then obtain k where k: "reps c k" "\<forall>j<k. one pat src p ep (s + j)" "mt pat src caps (s + k) (if c \<in> set ''?*+-'' then ep + 1 else ep) caps' e"
    by blast
  consider "c = CHR ''?''" | "c = CHR ''*'' \<or> c = CHR ''-''" | "c = CHR ''+''" | "c \<notin> set ''?*+-''" by auto
  then show "mt pat src caps s p caps' e"
  proof cases
    case 1 then show ?thesis using k i by (intro mt_opt [of pat p ep k]) (auto simp: reps_def)
  next
    case 2 then show ?thesis using k i by (intro mt_star [of pat p ep c k]) (auto simp: reps_def)
  next
    case 3 then show ?thesis using k i by (intro mt_plus [of pat p ep k]) (auto simp: reps_def)
  next
    case 4 then show ?thesis using k i by (intro mt_one [of pat p ep c]) (auto simp: reps_def)
  qed
qed

end
