(* ===== verification/Lmatch.thy ===== *)
theory Lmatch
  imports Lpattern
begin

text \<open>
  Correctness of pattern matching: \<open>match\<close> reads and writes nothing outside the subject, the
  pattern and the array of captures, and it decides the relation \<open>mt\<close>.
\<close>

section \<open>Items\<close>

lemma nofault_rdI: "i \<le> length s \<Longrightarrow> (\<And>c. rd s i = Inr c \<Longrightarrow> c \<noteq> NUL \<longrightarrow> i < length s \<Longrightarrow> nofault (f c) P) \<Longrightarrow> nofault (ebind (rd s i) f) P"
  by (simp add: rd_def split: if_splits)

lemma nofault_ifI: "(b \<Longrightarrow> nofault m P) \<Longrightarrow> (\<not> b \<Longrightarrow> nofault n P) \<Longrightarrow> nofault (if b then m else n) P"
  by simp

lemma rd_ok: "i \<le> length s \<Longrightarrow> \<exists>c. rd s i = Inr c"
  by (cases "i < length s") (simp_all add: rd_def)

lemma bracket_loop_safe: "ec \<le> length pat \<Longrightarrow> nofault (bracket_loop pat c sig p ec) (\<lambda>x. True)"
proof (induction "ec - p" arbitrary: p rule: less_induct)
  case less
  have IH: "nofault (bracket_loop pat c sig q ec) (\<lambda>x. True)" if "p < q" "p + 1 < ec" for q
    using less.hyps [of q] less.prems that by simp
  show ?case unfolding bracket_loop.simps [of pat c sig p]
    using less.prems by (intro nofault_rdI nofault_ifI IH; linarith?; simp)
qed

lemma matchbracketclass_safe: "p < length pat \<Longrightarrow> ec \<le> length pat \<Longrightarrow> nofault (matchbracketclass pat c p ec) (\<lambda>x. True)"
  unfolding matchbracketclass_def by (auto simp: nofault_ebind bracket_loop_safe)

lemma singlematch_safe: "p < length pat \<Longrightarrow> ep \<le> length pat \<Longrightarrow> nofault (singlematch pat c p ep) (\<lambda>x. True)"
  unfolding singlematch_def by (auto simp: nofault_ebind matchbracketclass_safe)

lemma class_loop_safe: "p \<le> length pat \<Longrightarrow> nofault (class_loop pat p) (\<lambda>x. True)"
proof (induction "length pat - p" arbitrary: p rule: less_induct)
  case less
  have IH: "nofault (class_loop pat q) (\<lambda>x. True)" if "p < q" "q \<le> length pat" for q
    using less.hyps [of q] less.prems that by simp
  show ?case unfolding class_loop.simps [of pat p]
    using less.prems by (intro nofault_rdI nofault_ifI IH) auto
qed

lemma classend_safe: "p < length pat \<Longrightarrow> pat ! p \<noteq> NUL \<Longrightarrow> nofault (classend pat p) (\<lambda>x. True)"
  unfolding classend_def by (auto simp: nofault_ebind intro!: class_loop_safe split: if_splits)

lemma frontier_safe: "p \<le> length pat \<Longrightarrow> s \<le> length src \<Longrightarrow> nofault (frontier pat src s p) (\<lambda>x. True)"
proof -
  assume a: "p \<le> length pat" "s \<le> length src"
  have "nofault (classend pat p) (\<lambda>ep. ep - 1 \<le> length pat)" if "p < length pat" "pat ! p = CHR ''[''"
    using classend_safe [OF that(1)] that classend_bounds [of pat p] by (fastforce elim!: nofault_mono simp: rd_def)
  then show ?thesis unfolding frontier_def using a
    by (auto simp: nofault_ebind intro!: matchbracketclass_safe elim!: nofault_mono intro: nofault_mono [OF matchbracketclass_safe] split: if_splits)
qed

lemma bal_loop_gt: "bal_loop src b e s cont = Some s1 \<Longrightarrow> s < s1 \<and> s1 \<le> length src"
proof (induction "length src - s" arbitrary: s cont rule: less_induct)
  case less
  have IH: "s + 1 < s1 \<and> s1 \<le> length src" if "bal_loop src b e (s + 1) n = Some s1" "s + 1 < length src" for n
    using less.hyps [OF _ that(1)] that(2) by simp
  show ?case
  proof (cases "s + 1 < length src")
    case True
    with less.prems consider "s1 = s + 2" | n where "bal_loop src b e (s + 1) n = Some s1"
      unfolding bal_loop.simps [of src b e s] by (metis option.inject)
    then show ?thesis using True by cases (simp_all, use IH in fastforce)
  qed (use less.prems in \<open>simp add: bal_loop.simps [of src b e s]\<close>)
qed

lemma matchbalance_safe:
  "p \<le> length pat \<Longrightarrow> s \<le> length src \<Longrightarrow>
   nofault (matchbalance pat src s p) (\<lambda>r. p + 2 \<le> length pat \<and> (case r of None \<Rightarrow> True | Some s1 \<Rightarrow> s \<le> s1 \<and> s1 \<le> length src))"
  unfolding matchbalance_def by (auto simp: nofault_ebind split: option.split dest!: bal_loop_gt)

section \<open>Captures\<close>

definition live :: "MatchState \<Rightarrow> caps" where
  "live ms = take (level ms) (capture ms)"

definition cap_ok :: "string \<Rightarrow> nat \<Rightarrow> nat \<times> int \<Rightarrow> bool" where
  "cap_ok src s x \<longleftrightarrow> (case x of (i, n) \<Rightarrow> i \<le> length src \<and>
     (n = CAP_UNFINISHED \<and> i \<le> s \<or> n = CAP_POSITION \<or> 0 \<le> n \<and> int i + n \<le> int (length src)))"

definition good :: "string \<Rightarrow> MatchState \<Rightarrow> nat \<Rightarrow> bool" where
  "good src ms s \<longleftrightarrow> level ms \<le> LUA_MAXCAPTURES \<and> length (capture ms) = LUA_MAXCAPTURES \<and> s \<le> length src \<and>
     length src < 2 ^ 63 \<and> (\<forall>x\<in>set (live ms). cap_ok src s x)"

lemma length_live [simp]: "good src ms s \<Longrightarrow> length (live ms) = level ms"
  by (simp add: good_def live_def)

lemma cap_ok_mono: "cap_ok src s x \<Longrightarrow> s \<le> s' \<Longrightarrow> cap_ok src s' x"
  by (auto simp: cap_ok_def split: prod.splits)

lemma good_mono: "good src ms s \<Longrightarrow> s \<le> s' \<Longrightarrow> s' \<le> length src \<Longrightarrow> good src ms s'"
  by (auto simp: good_def intro: cap_ok_mono)

lemma good_cong: "good src ms s \<Longrightarrow> level ms1 = level ms \<Longrightarrow> length (capture ms1) = LUA_MAXCAPTURES \<Longrightarrow> live ms1 = live ms \<Longrightarrow> good src ms1 s"
  by (simp add: good_def)

lemma cap_at_live: "good src ms s \<Longrightarrow> l < level ms \<Longrightarrow> cap_at ms l = Inr (live ms ! l)"
  by (simp add: cap_at_def live_def good_def)

text \<open>The outcome of matching from \<open>s\<close> and \<open>p\<close>, against what the pattern can match there.\<close>

definition outcome :: "string \<Rightarrow> MatchState \<Rightarrow> nat \<Rightarrow> (caps \<Rightarrow> nat \<Rightarrow> bool) \<Rightarrow> mres \<Rightarrow> bool" where
  "outcome src ms s M r \<longleftrightarrow> nofault r (\<lambda>(res, ms1). case res of
     None \<Rightarrow> level ms1 = level ms \<and> length (capture ms1) = LUA_MAXCAPTURES \<and> live ms1 = live ms \<and> (\<forall>c e. \<not> M c e)
   | Some e \<Rightarrow> s \<le> e \<and> good src ms1 e \<and> M (live ms1) e)"

definition correct :: "matcher \<Rightarrow> string \<Rightarrow> string \<Rightarrow> nat \<Rightarrow> bool" where
  "correct k pat src q \<longleftrightarrow> (\<forall>ms s. good src ms s \<longrightarrow> outcome src ms s (mt pat src (live ms) s q) (k ms s q))"

lemma correctD: "correct k pat src q \<Longrightarrow> good src ms s \<Longrightarrow> outcome src ms s (mt pat src (live ms) s q) (k ms s q)"
  by (simp add: correct_def)

lemma outcome_none: "good src ms s \<Longrightarrow> (\<And>c e. \<not> M c e) \<Longrightarrow> outcome src ms s M (Inr (None, ms))"
  by (simp add: outcome_def good_def)

lemma outcome_error [simp]: "outcome src ms s M (Inl (Runtime w))"
  by (simp add: outcome_def)

lemma outcome_weaken: "outcome src ms s M r \<Longrightarrow> s0 \<le> s \<Longrightarrow> (\<And>c e. N c e \<longleftrightarrow> M c e) \<Longrightarrow> outcome src ms s0 N r"
  unfolding outcome_def by (erule nofault_mono) (auto split: option.splits)

text \<open>First one way, then, where it fails, another.\<close>

lemma outcome_or:
  assumes g: "good src ms s" and first: "outcome src ms s1 A r" and s: "s \<le> s1"
    and second: "\<And>ms1. good src ms1 s \<Longrightarrow> live ms1 = live ms \<Longrightarrow> outcome src ms1 s B (k ms1)"
    and N: "\<And>c e. N c e \<longleftrightarrow> A c e \<or> B c e"
  shows "outcome src ms s N (ebind r (\<lambda>(res, ms1). if res \<noteq> None then Inr (res, ms1) else k ms1))"
proof -
  have "nofault (ebind r (\<lambda>(res, ms1). if res \<noteq> None then Inr (res, ms1) else k ms1)) (\<lambda>(res, ms1). case res of
     None \<Rightarrow> level ms1 = level ms \<and> length (capture ms1) = LUA_MAXCAPTURES \<and> live ms1 = live ms \<and> (\<forall>c e. \<not> N c e)
   | Some e \<Rightarrow> s \<le> e \<and> good src ms1 e \<and> N (live ms1) e)"
  proof (rule nofault_ebindI [OF first [unfolded outcome_def]])
    fix x assume x: "case x of (res, ms1) \<Rightarrow> (case res of
     None \<Rightarrow> level ms1 = level ms \<and> length (capture ms1) = LUA_MAXCAPTURES \<and> live ms1 = live ms \<and> (\<forall>c e. \<not> A c e)
   | Some e \<Rightarrow> s1 \<le> e \<and> good src ms1 e \<and> A (live ms1) e)"
    obtain res ms1 where [simp]: "x = (res, ms1)" by (cases x)
    show "nofault (case x of (res, ms1) \<Rightarrow> if res \<noteq> None then Inr (res, ms1) else k ms1) (\<lambda>(res, ms1). case res of
     None \<Rightarrow> level ms1 = level ms \<and> length (capture ms1) = LUA_MAXCAPTURES \<and> live ms1 = live ms \<and> (\<forall>c e. \<not> N c e)
   | Some e \<Rightarrow> s \<le> e \<and> good src ms1 e \<and> N (live ms1) e)"
    proof (cases res)
      case None
      with x have y: "level ms1 = level ms" "length (capture ms1) = LUA_MAXCAPTURES" "live ms1 = live ms" "\<forall>c e. \<not> A c e" by simp_all
      from second [OF good_cong [OF g y(1-3)] y(3), unfolded outcome_def] None y N show ?thesis
        by simp (erule nofault_mono, auto split: option.splits)
    next
      case (Some e)
      with x s N show ?thesis by simp
    qed
  qed
  then show ?thesis unfolding outcome_def .
qed

lemma start_capture_correct:
  assumes g: "good src ms s" and k: "correct k pat src q" and what: "what = CAP_UNFINISHED \<or> what = CAP_POSITION"
    and M: "\<And>c e. M c e \<longleftrightarrow> mt pat src (live ms @ [(s, what)]) s q c e"
  shows "outcome src ms s M (start_capture k ms s q what)"
proof (cases "level ms < LUA_MAXCAPTURES")
  case True
  let ?ms = "ms\<lparr>capture := (capture ms)[level ms := (s, what)], level := level ms + 1\<rparr>"
  have len: "level ms < length (capture ms)" using g True by (simp add: good_def)
  then have l: "live ?ms = live ms @ [(s, what)]" by (simp add: live_def take_Suc_conv_app_nth)
  have g1: "good src ?ms s" using g True what unfolding good_def l by (auto simp: cap_ok_def)
  have k1: "outcome src ?ms s M (k ?ms s q)" by (rule outcome_weaken [OF correctD [OF k g1]]) (simp_all only: M l order_refl)
  have undo: "live (ms1\<lparr>level := level ms\<rparr>) = live ms" if "level ms1 = level ms + 1" "live ms1 = live ?ms" for ms1
  proof -
    have "take (level ms) (live ms1) = take (level ms) (live ms @ [(s, what)])" unfolding that(2) l ..
    then show ?thesis using that(1) len by (simp add: live_def min_def)
  qed
  have "start_capture k ms s q what = ebind (k ?ms s q) (\<lambda>(res, ms1).
      if res = None then Inr (None, ms1\<lparr>level := level ms1 - 1\<rparr>) else Inr (res, ms1))"
    using len True by (simp add: start_capture_def)
  then show ?thesis unfolding outcome_def
    by (simp only:) (rule nofault_ebindI [OF k1 [unfolded outcome_def]], auto simp: undo split: option.splits if_splits)
next
  case False
  then show ?thesis by (simp add: start_capture_def)
qed

lemma close_loop_spec:
  assumes "good src ms s" "n \<le> level ms"
  shows "nofault (close_loop ms n) (\<lambda>l. l < n \<and> snd (live ms ! l) = CAP_UNFINISHED \<and>
    (\<forall>j. l < j \<and> j < n \<longrightarrow> snd (live ms ! j) \<noteq> CAP_UNFINISHED))"
  using assms(2)
proof (induction n)
  case (Suc n)
  then show ?case using cap_at_live [OF assms(1), of n]
    by (auto simp: split_beta less_Suc_eq elim!: nofault_mono)
qed simp

lemma end_capture_correct:
  assumes g: "good src ms s" and k: "correct k pat src q" and M: "\<And>l c e. last_open (live ms) l \<Longrightarrow>
    M c e \<longleftrightarrow> mt pat src ((live ms)[l := (fst (live ms ! l), int s - int (fst (live ms ! l)))]) s q c e"
  shows "outcome src ms s M (end_capture k ms s q)"
proof -
  have "nofault (capture_to_close ms) (last_open (live ms))"
    unfolding capture_to_close_def last_open_def length_live [OF g] using close_loop_spec [OF g order_refl] .
  then have "nofault (end_capture k ms s q) (\<lambda>(res, ms1). case res of
      None \<Rightarrow> level ms1 = level ms \<and> length (capture ms1) = LUA_MAXCAPTURES \<and> live ms1 = live ms \<and> (\<forall>c e. \<not> M c e)
    | Some e \<Rightarrow> s \<le> e \<and> good src ms1 e \<and> M (live ms1) e)"
    unfolding end_capture_def
  proof (rule nofault_ebindI)
    fix l assume l: "last_open (live ms) l"
    then have less: "l < level ms" "l < length (live ms)" using g by (simp_all add: last_open_def)
    then have lc: "l < length (capture ms)" using g by (simp add: good_def)
    obtain i n where x: "live ms ! l = (i, n)" by fastforce
    have n: "n = CAP_UNFINISHED" using l x by (simp add: last_open_def)
    have ok: "cap_ok src s (i, n)" using g x less(2) unfolding good_def by (metis nth_mem)
    let ?ms = "ms\<lparr>capture := (capture ms)[l := (i, int s - int i)]\<rparr>"
    have lv: "live ?ms = (live ms)[l := (i, int s - int i)]" by (simp add: live_def take_update_swap)
    have g1: "good src ?ms s" using g ok n unfolding good_def lv
      by (auto simp: cap_ok_def CAP_UNFINISHED_def CAP_POSITION_def dest!: set_update_subset_insert [THEN subsetD])
    have k1: "outcome src ?ms s M (k ?ms s q)" by (rule outcome_weaken [OF correctD [OF k g1]]) (simp_all only: M [OF l] lv x order_refl fst_conv)
    have undo: "live (ms1\<lparr>capture := (capture ms1)[l := (fst (capture ms1 ! l), CAP_UNFINISHED)]\<rparr>) = live ms"
      if "level ms1 = level ms" "live ms1 = live ?ms" for ms1
    proof -
      have "fst (capture ms1 ! l) = fst (live ms1 ! l)" using less(1) that(1) by (simp add: live_def)
      also have "\<dots> = i" unfolding that(2) lv using less(2) by simp
      finally have "fst (capture ms1 ! l) = i" .
      moreover have "live (ms1\<lparr>capture := (capture ms1)[l := (i, CAP_UNFINISHED)]\<rparr>) = (live ms1)[l := (i, CAP_UNFINISHED)]"
        by (simp add: live_def take_update_swap)
      ultimately show ?thesis unfolding that(2) lv using x n by (simp add: list_update_same_conv less(2))
    qed
    have cap: "cap_at ms1 l = Inr (capture ms1 ! l)" if "length (capture ms1) = LUA_MAXCAPTURES" for ms1
      using that lc g by (simp add: cap_at_def good_def)
    show "nofault (ebind (cap_at ms l) (\<lambda>(i, _). ebind (k (ms\<lparr>capture := (capture ms)[l := (i, int s - int i)]\<rparr>) s q) (\<lambda>(res, ms1).
         if res = None then ebind (cap_at ms1 l) (\<lambda>(i1, _). Inr (None, ms1\<lparr>capture := (capture ms1)[l := (i1, CAP_UNFINISHED)]\<rparr>))
         else Inr (res, ms1)))) (\<lambda>(res, ms1). case res of
      None \<Rightarrow> level ms1 = level ms \<and> length (capture ms1) = LUA_MAXCAPTURES \<and> live ms1 = live ms \<and> (\<forall>c e. \<not> M c e)
    | Some e \<Rightarrow> s \<le> e \<and> good src ms1 e \<and> M (live ms1) e)"
      unfolding cap_at_live [OF g less(1)] x ebind_simps prod.case
      by (rule nofault_ebindI [OF k1 [unfolded outcome_def]]) (auto simp: cap undo split_beta split: option.splits if_splits)
  qed
  then show ?thesis unfolding outcome_def .
qed

section \<open>Repetitions\<close>

lemma max_count_spec:
  assumes "p < length pat" "ep \<le> length pat" "s + i \<le> length src"
  shows "nofault (max_count pat src s p ep i) (\<lambda>n. i \<le> n \<and> s + n \<le> length src \<and> (\<forall>j. i \<le> j \<and> j < n \<longrightarrow> one pat src p ep (s + j)) \<and>
    \<not> one pat src p ep (s + n))"
  using assms(3)
proof (induction "length src - (s + i)" arbitrary: i rule: less_induct)
  case less
  show ?case
  proof (cases "s + i < length src")
    case True
    have "nofault (ebind (singlematch pat (src ! (s + i)) p ep) (\<lambda>m. if m then max_count pat src s p ep (i + 1) else Inr i))
      (\<lambda>n. i \<le> n \<and> s + n \<le> length src \<and> (\<forall>j. i \<le> j \<and> j < n \<longrightarrow> one pat src p ep (s + j)) \<and> \<not> one pat src p ep (s + n))"
    proof (rule nofault_ebindI [OF singlematch_safe [OF assms(1,2)]], rule nofault_ifI)
      fix m assume m: "singlematch pat (src ! (s + i)) p ep = Inr m"
      { assume m1: "m"
        have o: "one pat src p ep (s + i)" using m m1 True by (simp add: one_def)
        have "nofault (max_count pat src s p ep (i + 1)) (\<lambda>n. i + 1 \<le> n \<and> s + n \<le> length src \<and>
            (\<forall>j. i + 1 \<le> j \<and> j < n \<longrightarrow> one pat src p ep (s + j)) \<and> \<not> one pat src p ep (s + n))"
          using True by (intro less.hyps) auto
        then show "nofault (max_count pat src s p ep (i + 1)) (\<lambda>n. i \<le> n \<and> s + n \<le> length src \<and>
            (\<forall>j. i \<le> j \<and> j < n \<longrightarrow> one pat src p ep (s + j)) \<and> \<not> one pat src p ep (s + n))"
          by (rule nofault_mono) (use o in \<open>auto, metis Suc_leI le_neq_implies_less\<close>) }
      { assume "\<not> m"
        then show "nofault (Inr i) (\<lambda>n. i \<le> n \<and> s + n \<le> length src \<and> (\<forall>j. i \<le> j \<and> j < n \<longrightarrow> one pat src p ep (s + j)) \<and>
            \<not> one pat src p ep (s + n))" using m True by (auto simp: one_def) }
    qed
    then show ?thesis using True by (simp add: max_count.simps [of pat src s p ep i])
  next
    case False
    then show ?thesis using less.prems by (simp add: max_count.simps [of pat src s p ep i] one_def)
  qed
qed

lemma max_try_correct:
  assumes k: "correct k pat src q"
  shows "good src ms s \<Longrightarrow> s + i \<le> length src \<Longrightarrow>
    outcome src ms s (\<lambda>c e. \<exists>j\<le>i. mt pat src (live ms) (s + j) q c e) (max_try k ms s q i)"
proof (induction i arbitrary: ms)
  case 0
  then show ?case using correctD [OF k 0(1)] by simp
next
  case (Suc i)
  have "outcome src ms (s + Suc i) (mt pat src (live ms) (s + Suc i) q) (k ms (s + Suc i) q)"
    using Suc.prems by (intro correctD [OF k] good_mono [OF Suc.prems(1)]) simp_all
  then show ?case unfolding max_try.simps
  proof (rule outcome_or [OF Suc.prems(1)])
    show "outcome src ms1 s (\<lambda>c e. \<exists>j\<le>i. mt pat src (live ms) (s + j) q c e) (max_try k ms1 s q i)"
      if "good src ms1 s" "live ms1 = live ms" for ms1
      using Suc.IH [OF that(1)] Suc.prems(2) that(2) by simp
  qed (auto simp: le_Suc_eq)
qed

text \<open>Some number of repetitions of the item, then the rest of the pattern.\<close>

definition rep_mt :: "string \<Rightarrow> string \<Rightarrow> nat \<Rightarrow> nat \<Rightarrow> caps \<Rightarrow> nat \<Rightarrow> caps \<Rightarrow> nat \<Rightarrow> bool" where
  "rep_mt pat src p ep caps s c e \<longleftrightarrow>
     (\<exists>k. (\<forall>j<k. one pat src p ep (s + j)) \<and> mt pat src caps (s + k) (ep + 1) c e)"

lemma rep_mt_step: "rep_mt pat src p ep caps s c e \<longleftrightarrow>
  mt pat src caps s (ep + 1) c e \<or> one pat src p ep s \<and> rep_mt pat src p ep caps (s + 1) c e"
proof
  assume "rep_mt pat src p ep caps s c e"
  then obtain k where k: "\<forall>j<k. one pat src p ep (s + j)" "mt pat src caps (s + k) (ep + 1) c e" by (auto simp: rep_mt_def)
  show "mt pat src caps s (ep + 1) c e \<or> one pat src p ep s \<and> rep_mt pat src p ep caps (s + 1) c e"
  proof (cases k)
    case 0
    then show ?thesis using k by simp
  next
    case (Suc m)
    then show ?thesis using k(2) k(1) [rule_format, of 0] k(1) [rule_format, of "Suc _"]
      unfolding rep_mt_def by (intro disjI2 conjI exI [of _ m]) auto
  qed
next
  assume "mt pat src caps s (ep + 1) c e \<or> one pat src p ep s \<and> rep_mt pat src p ep caps (s + 1) c e"
  then consider "mt pat src caps s (ep + 1) c e"
    | k where "one pat src p ep s" "\<forall>j<k. one pat src p ep (s + 1 + j)" "mt pat src caps (s + 1 + k) (ep + 1) c e"
    by (auto simp: rep_mt_def)
  then show "rep_mt pat src p ep caps s c e"
  proof cases
    case 1
    then show ?thesis by (auto simp: rep_mt_def intro!: exI [of _ 0])
  next
    case 2
    then have "\<forall>j<Suc k. one pat src p ep (s + j)" by (auto simp: less_Suc_eq_0_disj)
    then show ?thesis using 2(3) by (auto simp: rep_mt_def intro!: exI [of _ "Suc k"])
  qed
qed

lemma max_expand_correct:
  assumes "correct k pat src (ep + 1)" "good src ms s" "p < length pat" "ep \<le> length pat"
  shows "outcome src ms s (rep_mt pat src p ep (live ms) s) (max_expand k pat src ms s p ep)"
proof -
  have "s \<le> length src" using assms(2) by (simp add: good_def)
  then have "nofault (max_count pat src s p ep 0) (\<lambda>n. s + n \<le> length src \<and> (\<forall>j<n. one pat src p ep (s + j)) \<and> \<not> one pat src p ep (s + n))"
    using max_count_spec [OF assms(3,4), of s 0 src] by simp
  then show ?thesis unfolding outcome_def max_expand_def
  proof (rule nofault_ebindI)
    fix n assume n: "s + n \<le> length src \<and> (\<forall>j<n. one pat src p ep (s + j)) \<and> \<not> one pat src p ep (s + n)"
    have "rep_mt pat src p ep (live ms) s c e \<longleftrightarrow> (\<exists>j\<le>n. mt pat src (live ms) (s + j) (ep + 1) c e)" for c e
      unfolding rep_mt_def using n by (meson leI less_le_trans)
    then show "nofault (max_try k ms s (ep + 1) n) (\<lambda>(res, ms1). case res of
       None \<Rightarrow> level ms1 = level ms \<and> length (capture ms1) = LUA_MAXCAPTURES \<and> live ms1 = live ms \<and> (\<forall>c e. \<not> rep_mt pat src p ep (live ms) s c e)
     | Some e \<Rightarrow> s \<le> e \<and> good src ms1 e \<and> rep_mt pat src p ep (live ms) s (live ms1) e)"
      using max_try_correct [OF assms(1,2), of n] n unfolding outcome_def by (simp only:)
  qed
qed

lemma min_expand_correct:
  assumes k: "correct k pat src (ep + 1)" and p: "p < length pat" "ep \<le> length pat"
  shows "good src ms s \<Longrightarrow> outcome src ms s (rep_mt pat src p ep (live ms) s) (min_expand k pat src ms s p ep)"
proof (induction "length src - s" arbitrary: ms s rule: less_induct)
  case less
  show ?case unfolding min_expand.simps [of k pat src ms s]
  proof (rule outcome_or [OF less.prems correctD [OF k less.prems] order_refl])
    fix ms1 assume g: "good src ms1 s" "live ms1 = live ms"
    let ?B = "\<lambda>c e. one pat src p ep s \<and> rep_mt pat src p ep (live ms) (s + 1) c e"
    have "outcome src ms1 s ?B (ebind (singlematch pat (src ! s) p ep) (\<lambda>m. if m then min_expand k pat src ms1 (s + 1) p ep else Inr (None, ms1)))"
      if s: "s < length src" unfolding outcome_def
    proof (rule nofault_ebindI [OF singlematch_safe [OF p]], rule nofault_ifI)
      fix m assume m: "singlematch pat (src ! s) p ep = Inr m"
      { assume m1: "m"
        have "outcome src ms1 (s + 1) (rep_mt pat src p ep (live ms1) (s + 1)) (min_expand k pat src ms1 (s + 1) p ep)"
          using s by (intro less.hyps good_mono [OF g(1)]) auto
        then have "outcome src ms1 s ?B (min_expand k pat src ms1 (s + 1) p ep)"
          by (rule outcome_weaken) (use m m1 s g(2) in \<open>simp_all add: one_def\<close>)
        then show "nofault (min_expand k pat src ms1 (s + 1) p ep) (\<lambda>(res, ms1'). case res of
           None \<Rightarrow> level ms1' = level ms1 \<and> length (capture ms1') = LUA_MAXCAPTURES \<and> live ms1' = live ms1 \<and> (\<forall>c e. \<not> ?B c e)
         | Some e \<Rightarrow> s \<le> e \<and> good src ms1' e \<and> ?B (live ms1') e)" unfolding outcome_def . }
      { assume "\<not> m"
        then have "outcome src ms1 s ?B (Inr (None, ms1))" using m by (intro outcome_none g) (simp add: one_def)
        then show "nofault (Inr (None, ms1)) (\<lambda>(res, ms1'). case res of
           None \<Rightarrow> level ms1' = level ms1 \<and> length (capture ms1') = LUA_MAXCAPTURES \<and> live ms1' = live ms1 \<and> (\<forall>c e. \<not> ?B c e)
         | Some e \<Rightarrow> s \<le> e \<and> good src ms1' e \<and> ?B (live ms1') e)" unfolding outcome_def . }
    qed
    then show "outcome src ms1 s ?B (if s < length src then ebind (singlematch pat (src ! s) p ep) (\<lambda>m.
         if m then min_expand k pat src ms1 (s + 1) p ep else Inr (None, ms1)) else Inr (None, ms1))"
      using outcome_none [OF g(1), of ?B] by (auto simp: one_def)
  qed (rule rep_mt_step)
qed

section \<open>The matcher\<close>

lemma outcome_bind:
  assumes "nofault m P" "\<And>x. m = Inr x \<Longrightarrow> P x \<Longrightarrow> outcome src ms s M (f x)"
  shows "outcome src ms s M (ebind m f)"
  using assms unfolding outcome_def by (rule nofault_ebindI)

lemma dflt_correct:
  assumes g: "good src ms s" and k: "\<And>q. p < q \<Longrightarrow> q \<le> length pat \<Longrightarrow> correct k pat src q" and i: "item_start pat p"
  shows "outcome src ms s (mt pat src (live ms) s p) (dflt k pat src ms s p)"
proof -
  obtain c0 where c0: "rd pat p = Inr c0" "c0 \<noteq> NUL" using i unfolding item_start_def by blast
  have p: "p < length pat" "pat ! p \<noteq> NUL" using rd_less [OF c0] c0 by (simp_all add: rd_def)
  show ?thesis unfolding dflt_def
  proof (rule outcome_bind [OF classend_safe [OF p]], rule outcome_bind)
    fix ep assume ep: "classend pat p = Inr ep"
    then have b: "p < ep" "ep \<le> length pat" using classend_bounds [of pat p ep] p by (simp_all add: rd_def)
    show "nofault (if s < length src then singlematch pat (src ! s) p ep else Inr False) (\<lambda>x. True)"
      using singlematch_safe [OF p(1) b(2)] by simp
    fix m assume m: "(if s < length src then singlematch pat (src ! s) p ep else Inr False) = Inr m"
    then have one: "one pat src p ep s \<longleftrightarrow> m" by (auto simp: one_def split: if_splits)
    obtain c where c: "rd pat ep = Inr c" using rd_ok [OF b(2)] by blast
    have it: "item pat p ep c" using i ep c by (simp add: item_def)
    have next_: "correct k pat src (ep + 1)" if "c \<noteq> NUL" using rd_less [OF c that] b(1) by (intro k) simp_all
    have g1: "good src ms (s + 1)" if m
    proof -
      have "s < length src" using that one by (simp add: one_def)
      then show ?thesis by (intro good_mono [OF g]) simp_all
    qed
    let ?M = "mt pat src (live ms) s p"
    consider (opt) "c = CHR ''?''" | (star) "c = CHR ''*''" | (plus) "c = CHR ''+''" | (minus) "c = CHR ''-''" | (single) "c \<notin> set ''?*+-''"
      by auto
    then show "outcome src ms s ?M (ebind (rd pat ep) (\<lambda>c.
       if c = CHR ''?'' then
         (if m then ebind (k ms (s + 1) (ep + 1)) (\<lambda>(res, ms1). if res \<noteq> None then Inr (res, ms1) else k ms1 s (ep + 1))
          else k ms s (ep + 1))
       else if c = CHR ''*'' then max_expand k pat src ms s p ep
       else if c = CHR ''+'' then (if m then max_expand k pat src ms (s + 1) p ep else Inr (None, ms))
       else if c = CHR ''-'' then min_expand k pat src ms s p ep
       else if m then k ms (s + 1) ep else Inr (None, ms)))"
    proof cases
      case opt
      have n: "correct k pat src (ep + 1)" using next_ opt by simp
      have M: "?M d e \<longleftrightarrow> m \<and> mt pat src (live ms) (s + 1) (ep + 1) d e \<or> mt pat src (live ms) s (ep + 1) d e" for d e
      proof -
        have "?M d e \<longleftrightarrow> (\<exists>k\<le>1. (\<forall>j<k. one pat src p ep (s + j)) \<and> mt pat src (live ms) (s + k) (ep + 1) d e)"
          using opt by (simp add: mt_at_item [OF it] reps_def)
        also have "\<dots> \<longleftrightarrow> m \<and> mt pat src (live ms) (s + 1) (ep + 1) d e \<or> mt pat src (live ms) s (ep + 1) d e"
          by (auto simp: le_Suc_eq one intro: exI [of _ "Suc 0"])
        finally show ?thesis .
      qed
      show ?thesis
      proof (cases m)
        case True
        have "outcome src ms s ?M (ebind (k ms (s + 1) (ep + 1)) (\<lambda>(res, ms1). if res \<noteq> None then Inr (res, ms1) else k ms1 s (ep + 1)))"
        proof (rule outcome_or [OF g correctD [OF n g1 [OF True]]])
          show "outcome src ms1 s (mt pat src (live ms) s (ep + 1)) (k ms1 s (ep + 1))" if "good src ms1 s" "live ms1 = live ms" for ms1
            using correctD [OF n that(1)] that(2) by simp
        qed (use M True in simp_all)
        then show ?thesis using opt c True by simp
      next
        case False
        have "outcome src ms s ?M (k ms s (ep + 1))" by (rule outcome_weaken [OF correctD [OF n g]]) (use M False in simp_all)
        then show ?thesis using opt c False by simp
      qed
    next
      case star
      have "outcome src ms s ?M (max_expand k pat src ms s p ep)"
        by (rule outcome_weaken [OF max_expand_correct [OF next_ g p(1) b(2)]])
          (use star in \<open>simp_all add: mt_at_item [OF it] reps_def rep_mt_def\<close>)
      then show ?thesis using star c by simp
    next
      case minus
      have "outcome src ms s ?M (min_expand k pat src ms s p ep)"
        by (rule outcome_weaken [OF min_expand_correct [OF next_ p(1) b(2) g]])
          (use minus in \<open>simp_all add: mt_at_item [OF it] reps_def rep_mt_def\<close>)
      then show ?thesis using minus c by simp
    next
      case plus
      have M: "?M d e \<longleftrightarrow> m \<and> rep_mt pat src p ep (live ms) (s + 1) d e" for d e
      proof -
        have "?M d e \<longleftrightarrow> (\<exists>k>0. (\<forall>j<k. one pat src p ep (s + j)) \<and> mt pat src (live ms) (s + k) (ep + 1) d e)"
          using plus by (simp add: mt_at_item [OF it] reps_def)
        also have "\<dots> \<longleftrightarrow> (\<exists>k. (\<forall>j<Suc k. one pat src p ep (s + j)) \<and> mt pat src (live ms) (s + Suc k) (ep + 1) d e)"
          by (metis gr0_conv_Suc)
        also have "\<dots> \<longleftrightarrow> m \<and> rep_mt pat src p ep (live ms) (s + 1) d e"
          unfolding rep_mt_def All_less_Suc2 using one by auto
        finally show ?thesis .
      qed
      have "outcome src ms s ?M (if m then max_expand k pat src ms (s + 1) p ep else Inr (None, ms))"
      proof (cases m)
        case True
        then show ?thesis using outcome_weaken [OF max_expand_correct [OF next_ g1 p(1) b(2)], of s ?M] M plus by simp
      next
        case False
        then show ?thesis using outcome_none [OF g, of ?M] M by simp
      qed
      then show ?thesis using plus c by simp
    next
      case single
      have M: "?M d e \<longleftrightarrow> m \<and> mt pat src (live ms) (s + 1) ep d e" for d e
        unfolding mt_at_item [OF it] using single one by (auto simp: reps_def)
      have "outcome src ms s ?M (if m then k ms (s + 1) ep else Inr (None, ms))"
      proof (cases m)
        case True
        then show ?thesis using outcome_weaken [OF correctD [OF k [OF b] g1], of s ?M] M by simp
      next
        case False
        then show ?thesis using outcome_none [OF g, of ?M] M by simp
      qed
      then show ?thesis using single c by simp
    qed
  qed
qed

lemma match_capture_spec:
  assumes g: "good src ms s" and d: "isdigit d"
  shows "nofault (match_capture src ms s d) (\<lambda>r. \<forall>s1. r = Some s1 \<longleftrightarrow> (\<exists>l i n. of_char d = l + (49 :: nat) \<and> l < level ms \<and>
    live ms ! l = (i, int n) \<and> s1 = s + n \<and> s + n \<le> length src \<and> take n (drop i src) = take n (drop s src)))"
proof (cases "(of_char d :: int) - 49 < 0 \<or> int (level ms) \<le> of_char d - 49")
  case True
  then show ?thesis by (simp add: match_capture_def check_capture_def)
next
  case False
  define l where "l = of_char d - (49 :: nat)"
  have n: "(of_char d :: int) = int (of_char d)" by (simp only: of_nat_of_char)
  have l: "of_char d = l + (49 :: nat)" "nat (of_char d - 49) = l" "l < level ms"
    using False unfolding l_def n by linarith+
  obtain i m where x: "live ms ! l = (i, m)" by fastforce
  have at: "cap_at ms l = Inr (i, m)" using cap_at_live [OF g l(3)] x by simp
  have "cap_ok src s (i, m)" using g x l(3) length_live [OF g] unfolding good_def by (metis nth_mem)
  moreover have sl: "s \<le> length src" "length src < 2 ^ 63" using g by (simp_all add: good_def)
  ultimately consider (unf) "m = CAP_UNFINISHED" | (pos) "m = CAP_POSITION" | (val) k where "m = int k" "i + k \<le> length src"
    unfolding cap_ok_def by (auto dest!: zero_le_imp_eq_int)
  then show ?thesis
  proof cases
    case unf
    then show ?thesis using False at l(2) by (simp add: match_capture_def check_capture_def)
  next
    case pos
    have w: "unat (word_of_int CAP_POSITION :: size_t) = 2 ^ 64 - 2" "CAP_POSITION \<noteq> CAP_UNFINISHED"
      by (simp_all add: CAP_POSITION_def CAP_UNFINISHED_def take_bit_minus_one_eq_mask)
    have "\<not> 2 ^ 64 - 2 \<le> length src - s" using sl by simp
    then have "match_capture src ms s d = Inr None"
      using False at l(2) pos by (simp add: match_capture_def check_capture_def w)
    moreover have "live ms ! l' \<noteq> (j, int k)" if "of_char d = l' + (49 :: nat)" for l' j k
      using that l(1) x pos by (auto simp: CAP_POSITION_def)
    ultimately show ?thesis by (simp add: nofault_def)
  next
    case val
    have "k < 2 ^ 64" using val(2) sl(2) by simp
    then have w: "unat (of_nat k :: size_t) = k" by (rule unat_of_nat_size_t)
    have t: "take k (drop j (src @ [NUL])) = take k (drop j src)" if "j + k \<le> length src" for j using that by simp
    have "match_capture src ms s d = Inr (if s + k \<le> length src \<and> take k (drop i src) = take k (drop s src) then Some (s + k) else None)"
    proof -
      have "check_capture ms d = Inr l" using False at l(2) val(1) by (simp add: check_capture_def CAP_UNFINISHED_def)
      then have "match_capture src ms s d =
          (if k \<le> length src - s then ebind (memcmp_at src i s k) (\<lambda>same. Inr (if same then Some (s + k) else None)) else Inr None)"
        unfolding match_capture_def using at val(1) by (simp add: Let_def w cong: if_cong)
      moreover have "k \<le> length src - s \<longleftrightarrow> s + k \<le> length src" using sl(1) by auto
      ultimately show ?thesis using val(2) t [of i] t [of s] by (cases "s + k \<le> length src") (simp_all add: memcmp_at_def)
    qed
    moreover have "(\<exists>l' j n. of_char d = l' + (49 :: nat) \<and> l' < level ms \<and> live ms ! l' = (j, int n) \<and> s1 = s + n \<and> s + n \<le> length src \<and>
        take n (drop j src) = take n (drop s src)) \<longleftrightarrow> s1 = s + k \<and> s + k \<le> length src \<and> take k (drop i src) = take k (drop s src)" for s1
      using l(1,3) x val(1) by auto
    ultimately show ?thesis by auto
  qed
qed

lemma match_esc_correct:
  assumes g: "good src ms s" and k: "\<And>q. p < q \<Longrightarrow> q \<le> length pat \<Longrightarrow> correct (match pat src) pat src q"
    and c: "rd pat p = Inr L_ESC" and d': "rd pat (p + 1) = Inr d"
  shows "outcome src ms s (mt pat src (live ms) s p) (match pat src ms s p)" (is "outcome src ms s ?M _")
proof -
  have s: "s \<le> length src" using g by (simp add: good_def)
  have p2: "p + 2 \<le> length pat" if "d \<noteq> NUL" using rd_nz [OF d' that] by simp
  consider (bal) "d = CHR ''b''" | (frontier) "d = CHR ''f''" | (digit) "isdigit d" | (item) "d \<notin> {CHR ''b'', CHR ''f''}" "\<not> isdigit d"
    by blast
  then show ?thesis
  proof cases
    case bal
    note b2 = p2 [unfolded bal, simplified]
    have "outcome src ms s ?M (ebind (matchbalance pat src s (p + 2)) (\<lambda>r. case r of None \<Rightarrow> Inr (None, ms) | Some s1 \<Rightarrow> match pat src ms s1 (p + 4)))"
    proof (rule outcome_bind [OF matchbalance_safe [OF p2 s]])
      show "d \<noteq> NUL" using bal by simp
      fix r assume r: "matchbalance pat src s (p + 2) = Inr r"
        "p + 2 + 2 \<le> length pat \<and> (case r of None \<Rightarrow> True | Some s1 \<Rightarrow> s \<le> s1 \<and> s1 \<le> length src)"
      note M = mt_at_balance [of pat p src "live ms" s, unfolded r(1)]
      show "outcome src ms s ?M (case r of None \<Rightarrow> Inr (None, ms) | Some s1 \<Rightarrow> match pat src ms s1 (p + 4))"
      proof (cases r)
        case None
        then show ?thesis using outcome_none [OF g, of ?M] M c d' bal by simp
      next
        case (Some s1)
        then have "outcome src ms s1 (mt pat src (live ms) s1 (p + 4)) (match pat src ms s1 (p + 4))"
          using r(2) by (intro correctD [OF k] good_mono [OF g]) simp_all
        then have "outcome src ms s ?M (match pat src ms s1 (p + 4))"
          by (rule outcome_weaken) (use M r(2) Some c d' bal in simp_all)
        then show ?thesis using Some by simp
      qed
    qed
    then show ?thesis using c d' bal by (simp add: match.simps [of pat src ms s p])
  next
    case frontier
    have "outcome src ms s ?M (ebind (frontier pat src s (p + 2)) (\<lambda>(b, ep). if b then match pat src ms s ep else Inr (None, ms)))"
    proof (rule outcome_bind [OF frontier_safe [OF p2 s]])
      show "d \<noteq> NUL" using frontier by simp
      fix x assume x: "Lpattern.frontier pat src s (p + 2) = Inr x"
      obtain b ep where [simp]: "x = (b, ep)" by (cases x)
      note M = mt_at_frontier [of pat p src "live ms" s, unfolded x]
      have ep: "p < ep" "ep \<le> length pat" using frontier_bounds [of pat src s "p + 2" b ep] x by simp_all
      show "outcome src ms s ?M (case x of (b, ep) \<Rightarrow> if b then match pat src ms s ep else Inr (None, ms))"
      proof (cases b)
        case True
        then show ?thesis using outcome_weaken [OF correctD [OF k [OF ep] g], of s ?M] M c d' frontier by simp
      next
        case False
        then show ?thesis using outcome_none [OF g, of ?M] M c d' frontier by simp
      qed
    qed
    then show ?thesis using c d' frontier by (simp add: match.simps [of pat src ms s p])
  next
    case digit
    have nn: "d \<noteq> NUL" "d \<noteq> CHR ''b''" "d \<noteq> CHR ''f''" using digit by (auto simp: isdigit_def)
    have "outcome src ms s ?M (ebind (match_capture src ms s d) (\<lambda>r. case r of None \<Rightarrow> Inr (None, ms) | Some s1 \<Rightarrow> match pat src ms s1 (p + 2)))"
    proof (rule outcome_bind [OF match_capture_spec [OF g digit]])
      fix r assume r: "\<forall>s1. r = Some s1 \<longleftrightarrow> (\<exists>l i n. of_char d = l + (49 :: nat) \<and> l < level ms \<and>
        live ms ! l = (i, int n) \<and> s1 = s + n \<and> s + n \<le> length src \<and> take n (drop i src) = take n (drop s src))"
      have M: "?M x e \<longleftrightarrow> (\<exists>s1. r = Some s1 \<and> mt pat src (live ms) s1 (p + 2) x e)" for x e
        using mt_at_backref [of pat p d src "live ms" s] c d' digit r length_live [OF g] by auto
      show "outcome src ms s ?M (case r of None \<Rightarrow> Inr (None, ms) | Some s1 \<Rightarrow> match pat src ms s1 (p + 2))"
      proof (cases r)
        case None
        then show ?thesis using outcome_none [OF g, of ?M] M by simp
      next
        case (Some s1)
        then have s1: "s \<le> s1" "s1 \<le> length src" using r by auto
        then have "outcome src ms s1 (mt pat src (live ms) s1 (p + 2)) (match pat src ms s1 (p + 2))"
          using p2 [OF nn(1)] by (intro correctD [OF k] good_mono [OF g]) simp_all
        then have "outcome src ms s ?M (match pat src ms s1 (p + 2))" by (rule outcome_weaken) (use M Some s1 in simp_all)
        then show ?thesis using Some by simp
      qed
    qed
    then show ?thesis using c d' digit nn by (simp add: match.simps [of pat src ms s p] del: add_2_eq_Suc')
  next
    case item
    then have "item_start pat p" using c d' by (simp add: item_start_def)
    then show ?thesis using dflt_correct [OF g k] c d' item
      by (simp add: match.simps [of pat src ms s p])
  qed
qed

lemma match_correct: "p \<le> length pat \<Longrightarrow> correct (match pat src) pat src p"
proof (induction "Suc (length pat) - p" arbitrary: p rule: less_induct)
  case less
  have k: "correct (match pat src) pat src q" if "p < q" "q \<le> length pat" for q
    using less.hyps [of q] that less.prems by simp
  show ?case unfolding correct_def
  proof (intro allI impI)
    fix ms s assume g: "good src ms s"
    then have s: "s \<le> length src" by (simp add: good_def)
    obtain c where c: "rd pat p = Inr c" using rd_ok [OF less.prems] by blast
    have p1: "p + 1 \<le> length pat" if "c \<noteq> NUL" using rd_nz [OF c that] by simp
    then obtain d where d: "c \<noteq> NUL \<Longrightarrow> rd pat (p + 1) = Inr d" using rd_ok by blast
    let ?M = "mt pat src (live ms) s p"
    have item: "outcome src ms s ?M (dflt (match pat src) pat src ms s p)" if "item_start pat p"
      using dflt_correct [OF g k that] .
    consider (paren) "c = CHR ''(''" | (close) "c = CHR '')''" | (esc) "c = L_ESC" | (nul) "c = NUL" | (dollar) "c = CHR ''$''"
      | (other) "c \<notin> {CHR ''('', CHR '')'', L_ESC, NUL, CHR ''$''}" by blast
    then show "outcome src ms s ?M (match pat src ms s p)"
    proof cases
      case paren
      note d' = d [unfolded paren, simplified]
      show ?thesis
      proof (cases "d = CHR '')''")
        case True
        have "p + 2 \<le> length pat" using rd_nz [OF d'] True by simp
        then have "outcome src ms s ?M (start_capture (match pat src) ms s (p + 2) CAP_POSITION)"
          using mt_at_position [of pat p src "live ms" s] c d' paren True by (intro start_capture_correct [OF g k]) simp_all
        then show ?thesis using c d' paren True by (simp add: match.simps [of pat src ms s p])
      next
        case False
        have "outcome src ms s ?M (start_capture (match pat src) ms s (p + 1) CAP_UNFINISHED)"
          using mt_at_open [of pat p d src "live ms" s] c d' paren False p1 by (intro start_capture_correct [OF g k]) simp_all
        then show ?thesis using c d' paren False by (simp add: match.simps [of pat src ms s p])
      qed
    next
      case close
      have "outcome src ms s ?M (end_capture (match pat src) ms s (p + 1))"
        using mt_at_close [of pat p "live ms" _ src s] c close p1 by (intro end_capture_correct [OF g k]) simp_all
      then show ?thesis using c close by (simp add: match.simps [of pat src ms s p])
    next
      case nul
      have "outcome src ms s ?M (Inr (Some s, ms))" using g c nul by (simp add: outcome_def mt_at_end)
      then show ?thesis using c nul by (simp add: match.simps [of pat src ms s p])
    next
      case dollar
      note d' = d [unfolded dollar, simplified]
      show ?thesis
      proof (cases "d = NUL")
        case True
        have M: "?M x e \<longleftrightarrow> s = length src \<and> x = live ms \<and> e = length src" for x e
          using mt_at_dollar [of pat p src "live ms" s] c d' dollar True by simp
        have "outcome src ms s ?M (Inr (if s = length src then Some s else None, ms))"
          using g M outcome_none [OF g, of ?M] by (cases "s = length src") (simp_all add: outcome_def)
        then show ?thesis using c d' dollar True by (simp add: match.simps [of pat src ms s p])
      next
        case False
        then have "item_start pat p" using c d' dollar by (simp add: item_start_def)
        then show ?thesis using item c d' dollar False by (simp add: match.simps [of pat src ms s p])
      qed
    next
      case other
      then have "item_start pat p" using c d by (auto simp: item_start_def)
      then show ?thesis using item c other by (simp add: match.simps [of pat src ms s p])
    next
      case esc
      then show ?thesis using match_esc_correct [OF g k] c d by simp
    qed
  qed
qed

section \<open>Properties\<close>

text \<open>
  C25. Matching stays inside its data: from any position of the pattern and of the subject, with
  captures that lie in the subject, \<open>match\<close> reads no character behind the terminators of pattern
  and subject and no capture outside the array; it ends, with an error of Lua, a failure, or a match
  that ends inside the subject and leaves captures that lie in it.
\<close>

theorem match_in_bounds:
  assumes "p \<le> length pat" and "good src ms s"
  shows "case match pat src ms s p of
      Inl e \<Rightarrow> (case e of Fault c \<Rightarrow> False | _ \<Rightarrow> True)
    | Inr (res, ms1) \<Rightarrow> (case res of None \<Rightarrow> good src ms1 s | Some e \<Rightarrow> s \<le> e \<and> e \<le> length src \<and> good src ms1 e)"
  using correctD [OF match_correct [OF assms(1)] assms(2)] good_cong [OF assms(2)]
  by (auto simp: outcome_def nofault_def split: sum.splits lerror.splits option.splits) (simp add: good_def)

definition match_start :: MatchState where
  "match_start = \<lparr>level = 0, capture = replicate LUA_MAXCAPTURES (0, 0)\<rparr>"

lemma good_start: "length src < 2 ^ 63 \<Longrightarrow> s \<le> length src \<Longrightarrow> good src match_start s" "live match_start = []"
  by (simp_all add: good_def match_start_def live_def)

theorem match_in_bounds_witness:
  "case match ''(%a+)=(%d*)'' ''key=12;'' match_start 0 0 of
      Inl e \<Rightarrow> (case e of Fault c \<Rightarrow> False | _ \<Rightarrow> True)
    | Inr (res, ms1) \<Rightarrow> (case res of None \<Rightarrow> good ''key=12;'' ms1 0
        | Some e \<Rightarrow> 0 \<le> e \<and> e \<le> length ''key=12;'' \<and> good ''key=12;'' ms1 e)"
  by (rule match_in_bounds) (simp_all add: good_start)

text \<open>
  C24. Matching is sound and complete: when \<open>match\<close> returns a position, the pattern can match the
  subject up to there with the captures that are left, in the sense of the relation \<open>mt\<close>, which
  knows no order of search; when it returns none, the pattern matches no part of the subject from
  there in any way, and the captures are those from before.
\<close>

theorem match_decides:
  assumes "p \<le> length pat" and "good src ms s" and "match pat src ms s p = Inr (res, ms1)"
  shows "case res of Some e \<Rightarrow> mt pat src (live ms) s p (live ms1) e
    | None \<Rightarrow> live ms1 = live ms \<and> \<not> (\<exists>c e. mt pat src (live ms) s p c e)"
  using correctD [OF match_correct [OF assms(1)] assms(2)] assms(3) by (auto simp: outcome_def split: option.splits)

lemma match_example:
  "match ''(a*)(b?)%1$'' ''aabaa'' match_start 0 0 =
     Inr (Some 5, \<lparr>level = 2, capture = (0, 2) # (2, 1) # replicate 30 (0, 0)\<rparr>)"
  by code_simp

theorem match_decides_witness:
  "mt ''(a*)(b?)%1$'' ''aabaa'' [] 0 0 [(0, 2), (2, 1)] 5"
proof -
  have "good ''aabaa'' match_start 0" by (rule good_start(1)) simp_all
  then show ?thesis using match_decides [OF _ _ match_example] by (simp add: live_def match_start_def)
qed

end
