(* ===== verification/Lstrlib.thy ===== *)
theory Lstrlib
  imports Lmatch
begin

text \<open>
  The functions of the string library, \<open>liblua/src/lstrlib.c\<close>, on the arguments they take from the
  Lua stack: strings, integers of 64 bits, \<open>None\<close> for an optional argument that is missing. They
  return the values they push. Parameters stand for what the code asks of the rest of the
  interpreter: \<open>room\<close> is the number of values that the stack can still grow by, \<open>num2str\<close> turns a
  number into a string, and a replacement of \<open>gsub\<close> that is a function or a table is a function
  of the captures. The message of an argument error is its explanation.
\<close>

section \<open>Basic functions\<close>

type_synonym lua_Integer = int

abbreviation opt :: "'a option \<Rightarrow> 'a \<Rightarrow> 'a" where
  "opt x d \<equiv> case x of None \<Rightarrow> d | Some y \<Rightarrow> y"

text \<open>The conversion to \<open>int\<close>.\<close>

definition int32 :: "int \<Rightarrow> int" where
  "int32 x = sint (word_of_int x :: c_int)"

definition checkstack :: "nat \<Rightarrow> int \<Rightarrow> string \<Rightarrow> unit lres" where
  "checkstack room n msg = (if n > int room then Inl (Runtime (''stack overflow ('' @ msg @ '')'')) else Inr ())"

definition str_len :: "string \<Rightarrow> lua_Integer" where
  "str_len s = int (length s)"

definition posrelat :: "lua_Integer \<Rightarrow> nat \<Rightarrow> lua_Integer" where
  "posrelat pos len = (let pos = (if pos < 0 then pos + int len + 1 else pos) in if pos \<ge> 0 then pos else 0)"

definition str_sub :: "string \<Rightarrow> lua_Integer \<Rightarrow> lua_Integer option \<Rightarrow> string" where
  "str_sub s i j =
     (let l = length s;
        start = posrelat i l;
        fin = posrelat (opt j (-1)) l;
        start = (if start < 1 then 1 else start);
        fin = (if fin > int l then int l else fin) in
      if start \<le> fin then take (nat (fin - start + 1)) (drop (nat (start - 1)) s) else [])"

primrec reverse_loop :: "string \<Rightarrow> nat \<Rightarrow> string \<Rightarrow> string" where
  "reverse_loop s 0 b = b"
| "reverse_loop s (Suc l) b = reverse_loop s l (b @ [s ! l])"

definition str_reverse :: "string \<Rightarrow> string" where
  "str_reverse s = reverse_loop s (length s) []"

definition str_lower :: "string \<Rightarrow> string" where
  "str_lower s = fold (\<lambda>c b. b @ [tolower c]) s []"

definition str_upper :: "string \<Rightarrow> string" where
  "str_upper s = fold (\<lambda>c b. b @ [toupper c]) s []"

function rep_loop :: "string \<Rightarrow> int \<Rightarrow> string \<Rightarrow> string" where
  "rep_loop s n b = (if n > 0 then rep_loop s (n - 1) (b @ s) else b)"
  by pat_completeness auto
termination
  by (relation "measure (\<lambda>(s, n, b). nat n)") auto

declare rep_loop.simps [simp del]

definition str_rep :: "string \<Rightarrow> lua_Integer \<Rightarrow> string" where
  "str_rep s n = rep_loop s (int32 n) []"

definition str_byte :: "nat \<Rightarrow> string \<Rightarrow> lua_Integer option \<Rightarrow> lua_Integer option \<Rightarrow> lua_Integer list lres" where
  "str_byte room s i j =
     (let l = length s;
        posi = posrelat (opt i 1) l;
        pose = posrelat (opt j posi) l;
        posi = (if posi \<le> 0 then 1 else posi);
        pose = (if pose > int l then int l else pose) in
      if posi > pose then Inr []
      else let n = int32 (pose - posi + 1) in
        if posi + n \<le> pose then Inl (Runtime ''string slice too long'')
        else ebind (checkstack room n ''string slice too long'') (\<lambda>_.
          Inr (map (\<lambda>k. of_char (s ! nat (posi + int k - 1))) [0..<nat n])))"

primrec char_loop :: "lua_Integer list \<Rightarrow> string \<Rightarrow> string lres" where
  "char_loop [] b = Inr b"
| "char_loop (x # xs) b =
     (let c = int32 x in if c mod 256 = c then char_loop xs (b @ [char_of (nat c)]) else Inl (Runtime ''invalid value''))"

definition str_char :: "lua_Integer list \<Rightarrow> string lres" where
  "str_char args = char_loop args []"

section \<open>Captures and searching\<close>

datatype lval = LNil | LInt lua_Integer | LString string

definition substr :: "string \<Rightarrow> nat \<Rightarrow> nat \<Rightarrow> string" where
  "substr src s n = take n (drop s src)"

text \<open>The first position of a character, as \<open>memchr\<close> finds it.\<close>

primrec memchr :: "string \<Rightarrow> char \<Rightarrow> nat option" where
  "memchr [] c = None"
| "memchr (x # xs) c = (if x = c then Some 0 else map_option Suc (memchr xs c))"

function lmemfind_loop :: "string \<Rightarrow> nat \<Rightarrow> string \<Rightarrow> nat \<Rightarrow> nat \<Rightarrow> nat option" where
  "lmemfind_loop s1 l1 s2 l2 off =
     (if l1 > 0 then
        case memchr (take l1 s1) (hd s2) of
          None \<Rightarrow> None
        | Some i \<Rightarrow>
            let init = i + 1 in
            if take l2 (drop init s1) = take l2 (tl s2) then Some (off + init - 1)
            else lmemfind_loop (drop init s1) (l1 - init) s2 l2 (off + init)
      else None)"
  by pat_completeness auto
termination
  by (relation "measure (\<lambda>(s1, l1, s2, l2, off). l1)") auto

declare lmemfind_loop.simps [simp del]

definition lmemfind :: "string \<Rightarrow> string \<Rightarrow> nat option" where
  "lmemfind s1 s2 =
     (if length s2 = 0 then Some 0
      else if length s2 > length s1 then None
      else lmemfind_loop s1 (length s1 - (length s2 - 1)) s2 (length s2 - 1) 0)"

text \<open>The whole match \<open>s\<close> to \<open>e\<close> is \<open>None\<close> where the code passes a null pointer.\<close>

definition push_onecapture :: "string \<Rightarrow> MatchState \<Rightarrow> nat \<Rightarrow> (nat \<times> nat) option \<Rightarrow> lval lres" where
  "push_onecapture src ms i whole =
     (if i \<ge> level ms then
        if i = 0 then (case whole of Some (s, e) \<Rightarrow> Inr (LString (substr src s (e - s))) | None \<Rightarrow> Inl (Fault Null_Deref))
        else Inl (Runtime ''invalid capture index'')
      else ebind (cap_at ms i) (\<lambda>(init, l).
        if l = CAP_UNFINISHED then Inl (Runtime ''unfinished capture'')
        else if l = CAP_POSITION then Inr (LInt (int init + 1))
        else if 0 \<le> l \<and> int init + l \<le> int (length src) then Inr (LString (substr src init (nat l)))
        else Inl (Fault Out_Of_Bounds)))"

primrec push_loop :: "string \<Rightarrow> MatchState \<Rightarrow> (nat \<times> nat) option \<Rightarrow> nat \<Rightarrow> lval list lres" where
  "push_loop src ms whole 0 = Inr []"
| "push_loop src ms whole (Suc i) =
     ebind (push_loop src ms whole i) (\<lambda>vs. ebind (push_onecapture src ms i whole) (\<lambda>v. Inr (vs @ [v])))"

definition push_captures :: "nat \<Rightarrow> string \<Rightarrow> MatchState \<Rightarrow> (nat \<times> nat) option \<Rightarrow> lval list lres" where
  "push_captures room src ms whole =
     (let nlevels = (if level ms = 0 \<and> whole \<noteq> None then 1 else level ms) in
      ebind (checkstack room (int nlevels) ''too many captures'') (\<lambda>_. push_loop src ms whole nlevels))"

abbreviation SPECIALS :: string where "SPECIALS \<equiv> ''^$*+?.([%-''"

text \<open>The loop of \<open>str_find_aux\<close>: the first start from \<open>s1\<close> on at which the pattern matches.\<close>

function search :: "string \<Rightarrow> string \<Rightarrow> MatchState \<Rightarrow> nat \<Rightarrow> bool \<Rightarrow> nat \<Rightarrow> ((nat \<times> nat) option \<times> MatchState) lres" where
  "search pat src ms p anchor s1 =
     ebind (match pat src (ms\<lparr>level := 0\<rparr>) s1 p) (\<lambda>(res, ms1).
       case res of
         Some e \<Rightarrow> Inr (Some (s1, e), ms1)
       | None \<Rightarrow> if s1 < length src \<and> \<not> anchor then search pat src ms1 p anchor (s1 + 1) else Inr (None, ms1))"
  by pat_completeness auto
termination
  by (relation "measure (\<lambda>(pat, src, ms, p, anchor, s1). length src - s1)") auto

declare search.simps [simp del]

definition find_init :: "lua_Integer option \<Rightarrow> nat \<Rightarrow> nat" where
  "find_init i l = (let init = posrelat (opt i 1) l - 1 in if init < 0 then 0 else if init > int l then l else nat init)"

text \<open>Whether the pattern is anchored, and where matching starts in it.\<close>

definition anchored :: "string \<Rightarrow> bool \<times> nat" where
  "anchored p = (if rd p 0 = Inr CHR ''^'' then (True, 1) else (False, 0))"

text \<open>The captures are an uninitialised array, \<open>ms\<close>, before the first match.\<close>

definition str_find_aux ::
  "nat \<Rightarrow> MatchState \<Rightarrow> bool \<Rightarrow> string \<Rightarrow> string \<Rightarrow> lua_Integer option \<Rightarrow> bool \<Rightarrow> lval list lres" where
  "str_find_aux room ms fnd s p i plain =
     (let init = find_init i (length s) in
      if fnd \<and> (plain \<or> (\<forall>c\<in>set (cstr p). c \<notin> set SPECIALS)) then
        (case lmemfind (drop init s) p of
           Some k \<Rightarrow> Inr [LInt (int (init + k) + 1), LInt (int (init + k) + int (length p))]
         | None \<Rightarrow> Inr [LNil])
      else case anchored p of (anchor, p0) \<Rightarrow>
        ebind (search p s ms p0 anchor init) (\<lambda>(res, ms1).
          case res of
            Some (s1, e) \<Rightarrow>
              if fnd then ebind (push_captures room s ms1 None) (\<lambda>vs. Inr (LInt (int s1 + 1) # LInt (int e) # vs))
              else push_captures room s ms1 (Some (s1, e))
          | None \<Rightarrow> Inr [LNil]))"

definition str_find :: "nat \<Rightarrow> MatchState \<Rightarrow> string \<Rightarrow> string \<Rightarrow> lua_Integer option \<Rightarrow> bool \<Rightarrow> lval list lres" where
  "str_find room ms s p i plain = str_find_aux room ms True s p i plain"

definition str_match :: "nat \<Rightarrow> MatchState \<Rightarrow> string \<Rightarrow> string \<Rightarrow> lua_Integer option \<Rightarrow> lval list lres" where
  "str_match room ms s p i = str_find_aux room ms False s p i False"

text \<open>An iterator made by \<open>gmatch\<close>: subject, pattern and the position to go on from.\<close>

record gmatch_state =
  gm_s :: string
  gm_p :: string
  gm_start :: nat

definition gmatch :: "string \<Rightarrow> string \<Rightarrow> gmatch_state" where
  "gmatch s p = \<lparr>gm_s = s, gm_p = p, gm_start = 0\<rparr>"

function gmatch_loop :: "string \<Rightarrow> string \<Rightarrow> MatchState \<Rightarrow> nat \<Rightarrow> ((nat \<times> nat) option \<times> MatchState) lres" where
  "gmatch_loop pat src ms s =
     (if s \<le> length src then
        ebind (match pat src (ms\<lparr>level := 0\<rparr>) s 0) (\<lambda>(res, ms1).
          case res of Some e \<Rightarrow> Inr (Some (s, e), ms1) | None \<Rightarrow> gmatch_loop pat src ms1 (s + 1))
      else Inr (None, ms))"
  by pat_completeness auto
termination
  by (relation "measure (\<lambda>(pat, src, ms, s). Suc (length src) - s)") auto

declare gmatch_loop.simps [simp del]

definition gmatch_aux :: "nat \<Rightarrow> MatchState \<Rightarrow> gmatch_state \<Rightarrow> (lval list \<times> gmatch_state) lres" where
  "gmatch_aux room ms g =
     ebind (gmatch_loop (gm_p g) (gm_s g) ms (gm_start g)) (\<lambda>(res, ms1).
       case res of
         None \<Rightarrow> Inr ([], g)
       | Some (s, e) \<Rightarrow>
           let newstart = (if e = s then e + 1 else e) in
           ebind (push_captures room (gm_s g) ms1 (Some (s, e))) (\<lambda>vs. Inr (vs, g\<lparr>gm_start := newstart\<rparr>)))"

section \<open>Substitution\<close>

text \<open>What \<open>luaL_addvalue\<close> appends for a capture.\<close>

definition capture_text :: "(lua_Integer \<Rightarrow> string) \<Rightarrow> lval \<Rightarrow> string" where
  "capture_text num2str v = (case v of LString x \<Rightarrow> x | LInt n \<Rightarrow> num2str n | LNil \<Rightarrow> [])"

function add_s_loop :: "(lua_Integer \<Rightarrow> string) \<Rightarrow> string \<Rightarrow> MatchState \<Rightarrow> string \<Rightarrow> nat \<Rightarrow> nat \<Rightarrow> nat \<Rightarrow> string \<Rightarrow> string lres" where
  "add_s_loop num2str src ms news s e i b =
     (if i < length news then
        if news ! i \<noteq> L_ESC then add_s_loop num2str src ms news s e (i + 1) (b @ [news ! i])
        else ebind (rd news (i + 1)) (\<lambda>d.
          if \<not> isdigit d then add_s_loop num2str src ms news s e (i + 2) (b @ [d])
          else if d = CHR ''0'' then add_s_loop num2str src ms news s e (i + 2) (b @ substr src s (e - s))
          else ebind (push_onecapture src ms (of_char d - 49) (Some (s, e))) (\<lambda>v.
            add_s_loop num2str src ms news s e (i + 2) (b @ capture_text num2str v)))
      else Inr b)"
  by pat_completeness auto
termination
  by (relation "measure (\<lambda>(num2str, src, ms, news, s, e, i, b). length news - i)") auto

declare add_s_loop.simps [simp del]

definition add_s :: "(lua_Integer \<Rightarrow> string) \<Rightarrow> string \<Rightarrow> MatchState \<Rightarrow> string \<Rightarrow> nat \<Rightarrow> nat \<Rightarrow> string \<Rightarrow> string lres" where
  "add_s num2str src ms news s e b = add_s_loop num2str src ms news s e 0 b"

text \<open>What a function or a table gives for a match: nil or false, a string or number, something else.\<close>

datatype rval = R_false | R_string string | R_other string

datatype repl = Repl_string string | Repl_function "lval list \<Rightarrow> rval lres" | Repl_table "lval \<Rightarrow> rval lres"

definition add_result :: "string \<Rightarrow> nat \<Rightarrow> nat \<Rightarrow> string \<Rightarrow> rval \<Rightarrow> string lres" where
  "add_result src s e b v =
     (case v of
        R_false \<Rightarrow> Inr (b @ substr src s (e - s))
      | R_string x \<Rightarrow> Inr (b @ x)
      | R_other t \<Rightarrow> Inl (Runtime (''invalid replacement value (a '' @ t @ '')'')))"

definition add_value :: "nat \<Rightarrow> (lua_Integer \<Rightarrow> string) \<Rightarrow> repl \<Rightarrow> string \<Rightarrow> MatchState \<Rightarrow> nat \<Rightarrow> nat \<Rightarrow> string \<Rightarrow> string lres" where
  "add_value room num2str r src ms s e b =
     (case r of
        Repl_string news \<Rightarrow> add_s num2str src ms news s e b
      | Repl_function f \<Rightarrow> ebind (push_captures room src ms (Some (s, e))) (\<lambda>vs. ebind (f vs) (add_result src s e b))
      | Repl_table t \<Rightarrow> ebind (push_onecapture src ms 0 (Some (s, e))) (\<lambda>v. ebind (t v) (add_result src s e b)))"

text \<open>The loop of \<open>str_gsub\<close>; a position behind the subject would be a fault.\<close>

function gsub_loop ::
  "(MatchState \<Rightarrow> nat \<Rightarrow> nat \<Rightarrow> string \<Rightarrow> string lres) \<Rightarrow> string \<Rightarrow> string \<Rightarrow> nat \<Rightarrow> bool \<Rightarrow> int \<Rightarrow>
   MatchState \<Rightarrow> nat \<Rightarrow> int \<Rightarrow> string \<Rightarrow> (nat \<times> int \<times> string) lres" where
  "gsub_loop add pat src p anchor max_s ms s n b =
     (if s > length src then Inl (Fault Out_Of_Bounds)
      else if n < max_s then
        ebind (match pat src (ms\<lparr>level := 0\<rparr>) s p) (\<lambda>(res, ms1).
        ebind (case res of Some e \<Rightarrow> ebind (add ms1 s e b) (\<lambda>b1. Inr (n + 1, b1)) | None \<Rightarrow> Inr (n, b)) (\<lambda>(n1, b1).
          if res \<noteq> None \<and> the res > s then
            (if anchor then Inr (the res, n1, b1) else gsub_loop add pat src p anchor max_s ms1 (the res) n1 b1)
          else if s < length src then
            (if anchor then Inr (s + 1, n1, b1 @ [src ! s])
             else gsub_loop add pat src p anchor max_s ms1 (s + 1) n1 (b1 @ [src ! s]))
          else Inr (s, n1, b1)))
      else Inr (s, n, b))"
  by pat_completeness auto
termination
  by (relation "measure (\<lambda>(add, pat, src, p, anchor, max_s, ms, s, n, b). Suc (length src) - s)") auto

declare gsub_loop.simps [simp del]

definition str_gsub ::
  "nat \<Rightarrow> (lua_Integer \<Rightarrow> string) \<Rightarrow> MatchState \<Rightarrow> string \<Rightarrow> string \<Rightarrow> repl \<Rightarrow> lua_Integer option \<Rightarrow> (string \<times> int) lres" where
  "str_gsub room num2str ms src p r max_s =
     (case anchored p of (anchor, p0) \<Rightarrow>
      ebind (gsub_loop (add_value room num2str r src) p src p0 anchor
          (int32 (opt max_s (int (length src) + 1))) ms 0 0 [])
        (\<lambda>(s, n, b). Inr (b @ drop s src, n)))"

section \<open>Plain searching\<close>

text \<open>The string \<open>s2\<close> stands in \<open>s1\<close> at position \<open>i\<close>.\<close>

definition occurs :: "string \<Rightarrow> string \<Rightarrow> nat \<Rightarrow> bool" where
  "occurs s1 s2 i \<longleftrightarrow> i + length s2 \<le> length s1 \<and> take (length s2) (drop i s1) = s2"

lemma memchr_Some: "memchr xs c = Some i \<Longrightarrow> i < length xs \<and> xs ! i = c \<and> (\<forall>j<i. xs ! j \<noteq> c)"
proof (induction xs arbitrary: i)
  case (Cons x xs)
  show ?case
  proof (cases "x = c")
    case False
    then obtain k where k: "i = Suc k" "memchr xs c = Some k" using Cons.prems by auto
    then show ?thesis using Cons.IH [OF k(2)] False by (simp add: nth_Cons split: nat.split)
  qed (use Cons.prems in simp)
qed simp

lemma memchr_None: "memchr xs c = None \<longleftrightarrow> c \<notin> set xs"
  by (induction xs) auto

lemma occurs_Cons: "occurs s1 (c # t) i \<longleftrightarrow> i + length t < length s1 \<and> s1 ! i = c \<and> take (length t) (drop (i + 1) s1) = t"
  by (auto simp: occurs_def Cons_nth_drop_Suc [symmetric])

lemma occurs_drop: "k \<le> length s1 \<Longrightarrow> occurs (drop k s1) s2 j \<longleftrightarrow> occurs s1 s2 (k + j)"
  by (auto simp: occurs_def add.commute)

text \<open>The first occurrence, if any, at distance \<open>off\<close> from the start.\<close>

definition first_at :: "string \<Rightarrow> string \<Rightarrow> nat \<Rightarrow> nat option \<Rightarrow> bool" where
  "first_at s1 s2 off r \<longleftrightarrow> (case r of
     Some k \<Rightarrow> (\<exists>i. k = off + i \<and> occurs s1 s2 i \<and> (\<forall>j<i. \<not> occurs s1 s2 j))
   | None \<Rightarrow> \<forall>j. \<not> occurs s1 s2 j)"

lemma first_at_skip:
  assumes "first_at (drop k s1) s2 (off + k) r" "k \<le> length s1" "\<forall>j<k. \<not> occurs s1 s2 j"
  shows "first_at s1 s2 off r"
proof (cases r)
  case None
  then have "\<not> occurs s1 s2 j" for j
    using assms occurs_drop [OF assms(2), of s2 "j - k"] by (cases "j < k") (auto simp: first_at_def)
  then show ?thesis using None by (simp add: first_at_def)
next
  case (Some m)
  then obtain i where i: "m = off + k + i" "occurs (drop k s1) s2 i" "\<forall>j<i. \<not> occurs (drop k s1) s2 j"
    using assms(1) by (auto simp: first_at_def)
  have "\<not> occurs s1 s2 j" if "j < k + i" for j
    using that assms(3) i(3) occurs_drop [OF assms(2), of s2 "j - k"] by (cases "j < k") auto
  then show ?thesis using Some i occurs_drop [OF assms(2), of s2 i] by (auto simp: first_at_def intro!: exI [of _ "k + i"])
qed

lemma lmemfind_loop_first: "l1 + length t = length s1 \<Longrightarrow> first_at s1 (c # t) off (lmemfind_loop s1 l1 (c # t) (length t) off)"
proof (induction l1 arbitrary: s1 off rule: less_induct)
  case (less l1)
  show ?case
  proof (cases "memchr (take l1 s1) c")
    case None
    have "\<not> occurs s1 (c # t) j" for j
    proof
      assume o: "occurs s1 (c # t) j"
      then have "j < l1" "s1 ! j = c" using less.prems by (simp_all add: occurs_Cons)
      then have "c \<in> set (take l1 s1)" using less.prems by (auto simp: in_set_conv_nth intro!: exI [of _ j])
      then show False using None memchr_None by auto
    qed
    moreover have "lmemfind_loop s1 l1 (c # t) (length t) off = None"
      using None by (simp add: lmemfind_loop.simps [of s1])
    ultimately show ?thesis by (simp add: first_at_def)
  next
    case (Some i)
    have "length (take l1 s1) = l1" using less.prems by simp
    then have i: "i < l1" "s1 ! i = c" "\<forall>j<i. s1 ! j \<noteq> c" using memchr_Some [OF Some] by auto
    then have before: "\<forall>j<i. \<not> occurs s1 (c # t) j" by (auto simp: occurs_Cons)
    show ?thesis
    proof (cases "take (length t) (drop (i + 1) s1) = t")
      case True
      then have "occurs s1 (c # t) i" using i less.prems by (simp add: occurs_Cons)
      moreover have "lmemfind_loop s1 l1 (c # t) (length t) off = Some (off + i)"
        using Some True i by (simp add: lmemfind_loop.simps [of s1])
      ultimately show ?thesis using before by (auto simp: first_at_def)
    next
      case False
      then have "\<not> occurs s1 (c # t) i" by (simp add: occurs_Cons)
      then have "\<forall>j<i + 1. \<not> occurs s1 (c # t) j" using before by (auto simp: less_Suc_eq)
      moreover have "lmemfind_loop s1 l1 (c # t) (length t) off =
          lmemfind_loop (drop (i + 1) s1) (l1 - (i + 1)) (c # t) (length t) (off + (i + 1))"
        using Some False i by (simp add: lmemfind_loop.simps [of s1])
      moreover have "first_at (drop (i + 1) s1) (c # t) (off + (i + 1))
          (lmemfind_loop (drop (i + 1) s1) (l1 - (i + 1)) (c # t) (length t) (off + (i + 1)))"
        using less.prems i by (intro less.IH) auto
      ultimately show ?thesis using first_at_skip [of "i + 1"] i less.prems by simp
    qed
  qed
qed

lemma lmemfind_first_at: "first_at s1 s2 0 (lmemfind s1 s2)"
proof (cases s2)
  case Nil
  then show ?thesis by (simp add: lmemfind_def first_at_def occurs_def)
next
  case (Cons c t)
  show ?thesis
  proof (cases "length s1 < length s2")
    case True
    then show ?thesis by (auto simp: lmemfind_def first_at_def occurs_def)
  next
    case False
    then show ?thesis using lmemfind_loop_first [of "length s1 - length t" t s1 c 0] Cons by (simp add: lmemfind_def)
  qed
qed

section \<open>Searching with patterns\<close>

text \<open>What \<open>match\<close> gives when it starts with no captures, whatever the array held before.\<close>

lemma match_fresh:
  assumes "p \<le> length pat" "s \<le> length src" "length src < 2 ^ 63" "length (capture ms) = LUA_MAXCAPTURES"
  shows "nofault (match pat src (ms\<lparr>level := 0\<rparr>) s p) (\<lambda>(res, ms1). length (capture ms1) = LUA_MAXCAPTURES \<and>
    (case res of None \<Rightarrow> \<forall>c e. \<not> mt pat src [] s p c e | Some e \<Rightarrow> s \<le> e \<and> good src ms1 e \<and> mt pat src [] s p (live ms1) e))"
proof -
  have "good src (ms\<lparr>level := 0\<rparr>) s" "live (ms\<lparr>level := 0\<rparr>) = []" using assms by (simp_all add: good_def live_def)
  then have "outcome src (ms\<lparr>level := 0\<rparr>) s (mt pat src [] s p) (match pat src (ms\<lparr>level := 0\<rparr>) s p)"
    using correctD [OF match_correct [OF assms(1)]] by metis
  then show ?thesis unfolding outcome_def by (rule nofault_mono) (auto simp: good_def split: option.splits)
qed

lemma search_leftmost:
  assumes "p \<le> length pat" "length src < 2 ^ 63"
  shows "s1 \<le> length src \<Longrightarrow> length (capture ms) = LUA_MAXCAPTURES \<Longrightarrow>
    nofault (search pat src ms p anchor s1) (\<lambda>(res, ms1). case res of
      None \<Rightarrow> \<forall>b c e. s1 \<le> b \<and> b \<le> length src \<and> (anchor \<longrightarrow> b = s1) \<longrightarrow> \<not> mt pat src [] b p c e
    | Some (a, e) \<Rightarrow> s1 \<le> a \<and> a \<le> e \<and> (anchor \<longrightarrow> a = s1) \<and> good src ms1 e \<and> mt pat src [] a p (live ms1) e \<and>
        (\<forall>b c e. s1 \<le> b \<and> b < a \<longrightarrow> \<not> mt pat src [] b p c e))"
proof (induction "length src - s1" arbitrary: s1 ms rule: less_induct)
  case less
  show ?case unfolding search.simps [of pat src ms p anchor s1]
  proof (rule nofault_ebindI [OF match_fresh [OF assms(1) less.prems(1) assms(2) less.prems(2)]])
    fix x assume x: "case x of (res, ms1) \<Rightarrow> length (capture ms1) = LUA_MAXCAPTURES \<and>
      (case res of None \<Rightarrow> \<forall>c e. \<not> mt pat src [] s1 p c e | Some e \<Rightarrow> s1 \<le> e \<and> good src ms1 e \<and> mt pat src [] s1 p (live ms1) e)"
    obtain res ms1 where [simp]: "x = (res, ms1)" by (cases x)
    let ?P = "\<lambda>s1 (res, ms1). case res of
        None \<Rightarrow> \<forall>b c e. s1 \<le> b \<and> b \<le> length src \<and> (anchor \<longrightarrow> b = s1) \<longrightarrow> \<not> mt pat src [] b p c e
      | Some (a, e) \<Rightarrow> s1 \<le> a \<and> a \<le> e \<and> (anchor \<longrightarrow> a = s1) \<and> good src ms1 e \<and> mt pat src [] a p (live ms1) e \<and>
          (\<forall>b c e. s1 \<le> b \<and> b < a \<longrightarrow> \<not> mt pat src [] b p c e)"
    show "nofault (case x of (res, ms1) \<Rightarrow> case res of Some e \<Rightarrow> Inr (Some (s1, e), ms1)
       | None \<Rightarrow> if s1 < length src \<and> \<not> anchor then search pat src ms1 p anchor (s1 + 1) else Inr (None, ms1)) (?P s1)"
    proof (cases res)
      case (Some e)
      then show ?thesis using x by auto
    next
      case None
      then have no: "\<not> mt pat src [] s1 p c e" and ms1: "length (capture ms1) = LUA_MAXCAPTURES" for c e using x by simp_all
      show ?thesis
      proof (cases "s1 < length src \<and> \<not> anchor")
        case True
        then have "nofault (search pat src ms1 p anchor (s1 + 1)) (?P (s1 + 1))" using ms1 by (intro less.hyps) auto
        then have "nofault (search pat src ms1 p anchor (s1 + 1)) (?P s1)"
        proof (rule nofault_mono)
          have later: "s1 + 1 \<le> b" if "mt pat src [] b p c e" "s1 \<le> b" for b c e
            using no [of c e] that by (cases "s1 = b") auto
          fix y assume y: "?P (s1 + 1) y"
          obtain r m where [simp]: "y = (r, m)" by (cases y)
          show "?P s1 y"
          proof (cases r)
            case None
            then show ?thesis using y later True by simp blast
          next
            case (Some ae)
            then show ?thesis using y later True by (cases ae) (simp, meson Suc_leD)
          qed
        qed
        then show ?thesis using None True by simp
      next
        case False
        then have "?P s1 (None, ms1)" using no less.prems(1) by auto
        then show ?thesis using None False by (auto split: if_splits)
      qed
    qed
  qed
qed

section \<open>Captures as values\<close>

lemma push_onecapture_safe:
  "good src ms e \<Longrightarrow> whole \<noteq> None \<or> i < level ms \<Longrightarrow> nofault (push_onecapture src ms i whole) (\<lambda>v. True)"
proof -
  assume g: "good src ms e" and w: "whole \<noteq> None \<or> i < level ms"
  show ?thesis
  proof (cases "i < level ms")
    case True
    obtain a l where x: "live ms ! i = (a, l)" by fastforce
    have "cap_ok src e (a, l)" using g x True length_live [OF g] unfolding good_def by (metis nth_mem)
    then show ?thesis using cap_at_live [OF g True] x True by (auto simp: push_onecapture_def cap_ok_def)
  next
    case False
    then show ?thesis using w by (auto simp: push_onecapture_def)
  qed
qed

lemma push_loop_safe:
  "good src ms e \<Longrightarrow> whole \<noteq> None \<or> n \<le> level ms \<Longrightarrow> nofault (push_loop src ms whole n) (\<lambda>vs. length vs = n)"
proof (induction n)
  case (Suc n)
  then have "nofault (push_onecapture src ms n whole) (\<lambda>v. True)" by (intro push_onecapture_safe) auto
  moreover have "nofault (push_loop src ms whole n) (\<lambda>vs. length vs = n)" using Suc by auto
  ultimately show ?case unfolding push_loop.simps by (auto intro!: nofault_ebindI)
qed simp

lemma push_captures_safe:
  assumes "good src ms e"
  shows "nofault (push_captures room src ms whole) (\<lambda>vs. whole \<noteq> None \<longrightarrow> vs \<noteq> [])"
proof -
  let ?n = "if level ms = 0 \<and> whole \<noteq> None then 1 else level ms"
  have "nofault (push_loop src ms whole ?n) (\<lambda>vs. length vs = ?n)" by (rule push_loop_safe [OF assms]) auto
  then have "nofault (push_loop src ms whole ?n) (\<lambda>vs. whole \<noteq> None \<longrightarrow> vs \<noteq> [])"
    by (rule nofault_mono) (auto split: if_splits)
  then show ?thesis unfolding push_captures_def Let_def nofault_ebind checkstack_def by simp
qed

section \<open>Properties of searching\<close>

text \<open>
  Plain search finds the first occurrence: \<open>lmemfind\<close>, which jumps from one candidate to the
  next with \<open>memchr\<close>, returns the least position at which the string occurs, and nothing exactly if
  there is none.
\<close>

theorem lmemfind_first:
  "case lmemfind s1 s2 of
     Some i \<Rightarrow> occurs s1 s2 i \<and> (\<forall>j<i. \<not> occurs s1 s2 j)
   | None \<Rightarrow> \<forall>j. \<not> occurs s1 s2 j"
  using lmemfind_first_at [of s1 s2] by (auto simp: first_at_def split: option.splits)

theorem lmemfind_first_witness: "occurs ''aabab'' ''ab'' 1 \<and> \<not> occurs ''aabab'' ''ab'' 0"
proof -
  have "lmemfind ''aabab'' ''ab'' = Some 1" by code_simp
  then show ?thesis using lmemfind_first [of "''aabab''" "''ab''"] by simp
qed

lemma anchored_le: "anchored p = (anchor, p0) \<Longrightarrow> p0 \<le> length p"
  using rd_less [of p 0 "CHR ''^''"] by (auto simp: anchored_def Suc_le_eq split: if_splits)

lemma find_init_le: "find_init i l \<le> l"
  by (auto simp: find_init_def Let_def)

text \<open>The values that \<open>find\<close> returns, for a search from \<open>init\<close> on.\<close>

definition matches_at :: "string \<Rightarrow> string \<Rightarrow> nat \<Rightarrow> nat \<Rightarrow> bool" where
  "matches_at p s p0 a \<longleftrightarrow> (\<exists>caps e. mt p s [] a p0 caps e)"

definition find_result :: "string \<Rightarrow> string \<Rightarrow> nat \<Rightarrow> bool \<Rightarrow> nat \<Rightarrow> lval list \<Rightarrow> bool" where
  "find_result p s p0 anchor init vs \<longleftrightarrow>
     vs = [LNil] \<and> (\<forall>a. init \<le> a \<and> a \<le> length s \<and> (anchor \<longrightarrow> a = init) \<longrightarrow> \<not> matches_at p s p0 a) \<or>
     (\<exists>a e caps vs1. vs = LInt (int a + 1) # LInt (int e) # vs1 \<and> init \<le> a \<and> a \<le> e \<and> e \<le> length s \<and> (anchor \<longrightarrow> a = init) \<and>
        mt p s [] a p0 caps e \<and> (\<forall>b. init \<le> b \<and> b < a \<longrightarrow> \<not> matches_at p s p0 b))"


lemma find_example: "str_find 10 match_start ''key = value'' ''%s*=%s*(%a+)'' None False = Inr [LInt 4, LInt 11, LString ''value'']"
  by code_simp


section \<open>Properties of iteration and substitution\<close>

lemma gmatch_loop_spec:
  assumes "length src < 2 ^ 63"
  shows "length (capture ms) = LUA_MAXCAPTURES \<Longrightarrow> nofault (gmatch_loop pat src ms s) (\<lambda>(res, ms1). case res of
    None \<Rightarrow> True | Some (a, e) \<Rightarrow> s \<le> a \<and> a \<le> e \<and> e \<le> length src \<and> good src ms1 e)"
proof (induction "Suc (length src) - s" arbitrary: s ms rule: less_induct)
  case less
  show ?case
  proof (cases "s \<le> length src")
    case True
    show ?thesis unfolding gmatch_loop.simps [of pat src ms s] if_P [OF True]
    proof (rule nofault_ebindI [OF match_fresh [OF le0 True assms less.prems]])
      fix x assume x: "case x of (res, ms1) \<Rightarrow> length (capture ms1) = LUA_MAXCAPTURES \<and>
        (case res of None \<Rightarrow> \<forall>c e. \<not> mt pat src [] s 0 c e | Some e \<Rightarrow> s \<le> e \<and> good src ms1 e \<and> mt pat src [] s 0 (live ms1) e)"
      obtain res ms1 where [simp]: "x = (res, ms1)" by (cases x)
      have "nofault (gmatch_loop pat src ms1 (s + 1)) (\<lambda>(res, ms1). case res of
          None \<Rightarrow> True | Some (a, e) \<Rightarrow> s + 1 \<le> a \<and> a \<le> e \<and> e \<le> length src \<and> good src ms1 e)"
        using True x by (intro less.hyps) auto
      then have "nofault (gmatch_loop pat src ms1 (s + 1)) (\<lambda>(res, ms1). case res of
          None \<Rightarrow> True | Some (a, e) \<Rightarrow> s \<le> a \<and> a \<le> e \<and> e \<le> length src \<and> good src ms1 e)"
        by (rule nofault_mono) (auto split: option.splits)
      then show "nofault (case x of (res, ms1) \<Rightarrow> case res of None \<Rightarrow> gmatch_loop pat src ms1 (s + 1) | Some e \<Rightarrow> Inr (Some (s, e), ms1))
          (\<lambda>(res, ms1). case res of None \<Rightarrow> True | Some (a, e) \<Rightarrow> s \<le> a \<and> a \<le> e \<and> e \<le> length src \<and> good src ms1 e)"
        using x by (auto simp: good_def split: option.split)
    qed
  next
    case False
    then show ?thesis by (simp add: gmatch_loop.simps [of pat src ms s])
  qed
qed

lemma gmatch_aux_progress:
  assumes "length (gm_s g) < 2 ^ 63" "length (capture ms) = LUA_MAXCAPTURES"
  shows "nofault (gmatch_aux room ms g) (\<lambda>(vs, g1). vs = [] \<and> g1 = g \<or>
    vs \<noteq> [] \<and> gm_s g1 = gm_s g \<and> gm_p g1 = gm_p g \<and> gm_start g < gm_start g1 \<and> gm_start g1 \<le> length (gm_s g) + 1)"
  unfolding gmatch_aux_def
proof (rule nofault_ebindI [OF gmatch_loop_spec [OF assms]])
  let ?Q = "\<lambda>(vs, g1). vs = [] \<and> g1 = g \<or>
    vs \<noteq> [] \<and> gm_s g1 = gm_s g \<and> gm_p g1 = gm_p g \<and> gm_start g < gm_start g1 \<and> gm_start g1 \<le> length (gm_s g) + 1"
  fix x assume x: "case x of (res, ms1) \<Rightarrow> case res of
    None \<Rightarrow> True | Some (a, e) \<Rightarrow> gm_start g \<le> a \<and> a \<le> e \<and> e \<le> length (gm_s g) \<and> good (gm_s g) ms1 e"
  obtain res ms1 where [simp]: "x = (res, ms1)" by (cases x)
  show "nofault (case x of (res, ms1) \<Rightarrow> case res of None \<Rightarrow> Inr ([], g) | Some (s, e) \<Rightarrow>
      let newstart = (if e = s then e + 1 else e) in
      ebind (push_captures room (gm_s g) ms1 (Some (s, e))) (\<lambda>vs. Inr (vs, g\<lparr>gm_start := newstart\<rparr>))) ?Q"
  proof (cases res)
    case (Some ae)
    obtain a e where [simp]: "ae = (a, e)" by (cases ae)
    have r: "gm_start g \<le> a" "a \<le> e" "e \<le> length (gm_s g)" "good (gm_s g) ms1 e" using x Some by simp_all
    have "nofault (ebind (push_captures room (gm_s g) ms1 (Some (a, e)))
        (\<lambda>vs. Inr (vs, g\<lparr>gm_start := if e = a then e + 1 else e\<rparr>))) ?Q"
      using push_captures_safe [OF r(4)] by (rule nofault_ebindI) (use r in auto)
    then show ?thesis using Some by (simp add: Let_def)
  qed simp
qed

text \<open>A loop over an iterator: the values of its first \<open>n\<close> calls, up to the one that returns none.\<close>

primrec gmatch_calls :: "nat \<Rightarrow> nat \<Rightarrow> MatchState \<Rightarrow> gmatch_state \<Rightarrow> lval list list lres" where
  "gmatch_calls 0 room ms g = Inr []"
| "gmatch_calls (Suc n) room ms g =
     ebind (gmatch_aux room ms g) (\<lambda>(vs, g1). if vs = [] then Inr [[]] else ebind (gmatch_calls n room ms g1) (\<lambda>vss. Inr (vs # vss)))"

lemma gmatch_calls_end:
  assumes "length (capture ms) = LUA_MAXCAPTURES"
  shows "length (gm_s g) < 2 ^ 63 \<Longrightarrow> gm_start g \<le> length (gm_s g) + 1 \<Longrightarrow> length (gm_s g) + 1 < n + gm_start g \<Longrightarrow>
    nofault (gmatch_calls n room ms g) (\<lambda>vss. vss \<noteq> [] \<and> last vss = [])"
proof (induction n arbitrary: g)
  case (Suc n)
  show ?case unfolding gmatch_calls.simps
  proof (rule nofault_ebindI [OF gmatch_aux_progress [OF Suc.prems(1) assms]])
    fix x :: "lval list \<times> gmatch_state"
    assume x: "case x of (vs, g1) \<Rightarrow> vs = [] \<and> g1 = g \<or>
      vs \<noteq> [] \<and> gm_s g1 = gm_s g \<and> gm_p g1 = gm_p g \<and> gm_start g < gm_start g1 \<and> gm_start g1 \<le> length (gm_s g) + 1"
    obtain vs g1 where [simp]: "x = (vs, g1)" by (cases x)
    show "nofault (case x of (vs, g1) \<Rightarrow> if vs = [] then Inr [[]] else ebind (gmatch_calls n room ms g1) (\<lambda>vss. Inr (vs # vss)))
      (\<lambda>vss. vss \<noteq> [] \<and> last vss = [])"
    proof (cases "vs = []")
      case False
      then have "nofault (gmatch_calls n room ms g1) (\<lambda>vss. vss \<noteq> [] \<and> last vss = [])"
        using x Suc.prems by (intro Suc.IH) auto
      then have "nofault (ebind (gmatch_calls n room ms g1) (\<lambda>vss. Inr (vs # vss))) (\<lambda>vss. vss \<noteq> [] \<and> last vss = [])"
        by (rule nofault_ebindI) simp
      then show ?thesis using False by simp
    qed simp
  qed
qed simp

text \<open>
  A loop over \<open>gmatch\<close> ends: whatever the pattern, also one that matches the empty string, every
  call that returns values moves on in the subject, so that the call that returns none comes at
  the latest as number \<open>length s + 2\<close>, unless a call raises an error of Lua.
\<close>

theorem gmatch_ends:
  assumes "length s < 2 ^ 63" "length (capture ms) = LUA_MAXCAPTURES" "length s + 2 \<le> n"
  shows "nofault (gmatch_calls n room ms (gmatch s p)) (\<lambda>vss. vss \<noteq> [] \<and> last vss = [])"
  using assms by (intro gmatch_calls_end) (simp_all add: gmatch_def)

theorem gmatch_ends_witness:
  "nofault (gmatch_calls 5 10 match_start (gmatch ''a,b'' ''%a*'')) (\<lambda>vss. vss \<noteq> [] \<and> last vss = []) \<and>
   gmatch_calls 5 10 match_start (gmatch ''a,b'' ''%a*'') = Inr [[LString ''a''], [LString []], [LString ''b''], [LString []], []]"
proof
  show "nofault (gmatch_calls 5 10 match_start (gmatch ''a,b'' ''%a*'')) (\<lambda>vss. vss \<noteq> [] \<and> last vss = [])"
    by (rule gmatch_ends) (simp_all add: match_start_def)
qed code_simp

text \<open>The loop of \<open>gsub\<close> when every match is replaced by itself.\<close>

lemma gsub_loop_keeps:
  assumes "p \<le> length pat" "length src < 2 ^ 63"
    and add: "\<And>ms1 s e b. s \<le> e \<Longrightarrow> e \<le> length src \<Longrightarrow> good src ms1 e \<Longrightarrow> nofault (add ms1 s e b) (\<lambda>b1. b1 = b @ substr src s (e - s))"
  shows "s \<le> length src \<Longrightarrow> length (capture ms) = LUA_MAXCAPTURES \<Longrightarrow> b = take s src \<Longrightarrow> 0 \<le> n \<Longrightarrow> n \<le> max 0 max_s \<Longrightarrow>
    nofault (gsub_loop add pat src p anchor max_s ms s n b)
      (\<lambda>(s1, n1, b1). s1 \<le> length src \<and> b1 = take s1 src \<and> 0 \<le> n1 \<and> n1 \<le> max 0 max_s)"
proof (induction "Suc (length src) - s" arbitrary: s ms n b rule: less_induct)
  case less
  let ?P = "\<lambda>(s1, n1, b1). s1 \<le> length src \<and> b1 = take s1 src \<and> 0 \<le> n1 \<and> n1 \<le> max 0 max_s"
  show ?case
  proof (cases "n < max_s")
    case False
    then have "gsub_loop add pat src p anchor max_s ms s n b = Inr (s, n, b)"
      using less.prems(1) by (simp add: gsub_loop.simps [of add pat src p anchor max_s ms s n b])
    then show ?thesis using less.prems by simp
  next
    case True
    show ?thesis unfolding gsub_loop.simps [of add pat src p anchor max_s ms s n b] if_not_P [OF leD [OF less.prems(1)]] if_P [OF True]
    proof (rule nofault_ebindI [OF match_fresh [OF assms(1) less.prems(1) assms(2) less.prems(2)]])
      fix x assume x: "case x of (res, ms1) \<Rightarrow> length (capture ms1) = LUA_MAXCAPTURES \<and>
        (case res of None \<Rightarrow> \<forall>c e. \<not> mt pat src [] s p c e | Some e \<Rightarrow> s \<le> e \<and> good src ms1 e \<and> mt pat src [] s p (live ms1) e)"
      obtain res ms1 where [simp]: "x = (res, ms1)" by (cases x)
      define e where "e = (case res of None \<Rightarrow> s | Some e \<Rightarrow> e)"
      have ms1: "length (capture ms1) = LUA_MAXCAPTURES" and e: "s \<le> e" "e \<le> length src"
        using x less.prems(1) by (auto simp: e_def good_def split: option.splits)
      have step: "nofault (case res of Some e \<Rightarrow> ebind (add ms1 s e b) (\<lambda>b1. Inr (n + 1, b1)) | None \<Rightarrow> Inr (n, b))
        (\<lambda>(n1, b1). b1 = take e src \<and> 0 \<le> n1 \<and> n1 \<le> max 0 max_s)"
      proof (cases res)
        case None
        then show ?thesis using less.prems by (simp add: e_def)
      next
        case (Some e')
        then have g: "good src ms1 e" "e' = e" using x by (simp_all add: e_def)
        have "take s src @ substr src s (e - s) = take e src"
          using e(1) by (simp add: substr_def flip: take_add)
        then show ?thesis using Some g(2) add [OF e g(1), of b] less.prems(3,4) True
          by (auto intro!: nofault_ebindI elim!: nofault_mono)
      qed
      show "nofault (case x of (res, ms1) \<Rightarrow>
        ebind (case res of None \<Rightarrow> Inr (n, b) | Some e \<Rightarrow> ebind (add ms1 s e b) (\<lambda>b1. Inr (n + 1, b1))) (\<lambda>(n1, b1).
          if res \<noteq> None \<and> the res > s then
            (if anchor then Inr (the res, n1, b1) else gsub_loop add pat src p anchor max_s ms1 (the res) n1 b1)
          else if s < length src then
            (if anchor then Inr (s + 1, n1, b1 @ [src ! s])
             else gsub_loop add pat src p anchor max_s ms1 (s + 1) n1 (b1 @ [src ! s]))
          else Inr (s, n1, b1))) ?P"
        unfolding \<open>x = (res, ms1)\<close> prod.case
      proof (rule nofault_ebindI [OF step])
        fix y :: "int \<times> string" assume y: "case y of (n1, b1) \<Rightarrow> b1 = take e src \<and> 0 \<le> n1 \<and> n1 \<le> max 0 max_s"
        obtain n1 b1 where [simp]: "y = (n1, b1)" by (cases y)
        have IH: "nofault (gsub_loop add pat src p anchor max_s ms1 s1 n1 b2) ?P"
          if "s < s1" "s1 \<le> length src" "b2 = take s1 src" for s1 b2
          using that ms1 y by (intro less.hyps) auto
        show "nofault (case y of (n1, b1) \<Rightarrow> if res \<noteq> None \<and> the res > s then
            (if anchor then Inr (the res, n1, b1) else gsub_loop add pat src p anchor max_s ms1 (the res) n1 b1)
          else if s < length src then
            (if anchor then Inr (s + 1, n1, b1 @ [src ! s])
             else gsub_loop add pat src p anchor max_s ms1 (s + 1) n1 (b1 @ [src ! s]))
          else Inr (s, n1, b1)) ?P"
        proof (cases "res \<noteq> None \<and> the res > s")
          case True
          then have "the res = e" by (auto simp: e_def)
          then show ?thesis using True y e IH [of e b1] by auto
        next
          case False
          then have "e = s" using e(1) by (auto simp: e_def split: option.splits)
          then show ?thesis using False y less.prems(1) IH [of "s + 1" "b1 @ [src ! s]"] by (auto simp: take_Suc_conv_app_nth)
        qed
      qed
    qed
  qed
qed

lemma add_s_whole: "add_s num2str src ms ''%0'' s e b = Inr (b @ substr src s (e - s))"
proof -
  have d: "isdigit CHR ''0''" "rd ''%0'' (Suc 0) = Inr CHR ''0''" by code_simp+
  show ?thesis by (simp add: add_s_def add_s_loop.simps [of num2str src ms "''%0''"] d)
qed

text \<open>
  Replacing every match by itself changes nothing: \<open>string.gsub\<close> with the replacement \<open>%0\<close>
  returns its subject, for every pattern, also one that matches the empty string, and every limit;
  it reports at most as many replacements as the limit allows; or it raises an error of Lua.
\<close>

theorem gsub_identity:
  assumes "length src < 2 ^ 63" "length (capture ms) = LUA_MAXCAPTURES"
  shows "nofault (str_gsub room num2str ms src p (Repl_string ''%0'') max_s)
    (\<lambda>(out, n). out = src \<and> 0 \<le> n \<and> n \<le> max 0 (int32 (opt max_s (int (length src) + 1))))"
proof -
  obtain anchor p0 where a: "anchored p = (anchor, p0)" by (cases "anchored p")
  let ?max = "int32 (opt max_s (int (length src) + 1))"
  have "nofault (gsub_loop (add_value room num2str (Repl_string ''%0'') src) p src p0 anchor ?max ms 0 0 [])
      (\<lambda>(s1, n1, b1). s1 \<le> length src \<and> b1 = take s1 src \<and> 0 \<le> n1 \<and> n1 \<le> max 0 ?max)"
    using assms by (intro gsub_loop_keeps [OF anchored_le [OF a]]) (simp_all add: add_value_def add_s_whole)
  then show ?thesis unfolding str_gsub_def a prod.case by (rule nofault_ebindI) auto
qed

theorem gsub_identity_witness:
  "nofault (str_gsub 10 (\<lambda>n. []) match_start ''hello world'' ''%w*'' (Repl_string ''%0'') None)
    (\<lambda>(out, n). out = ''hello world'' \<and> 0 \<le> n \<and> n \<le> max 0 (int32 (opt None (int (length ''hello world'') + 1))))"
  by (rule gsub_identity) (simp_all add: match_start_def)

section \<open>Bytes and characters\<close>

lemma int32_id: "- (2 ^ 31) \<le> x \<Longrightarrow> x < 2 ^ 31 \<Longrightarrow> int32 x = x"
  by (simp add: int32_def signed_of_int signed_take_bit_int_eq_self)

lemma char_loop_bytes: "char_loop (map of_char s) b = Inr (b @ s)"
proof (induction s arbitrary: b)
  case (Cons c s)
  have "int32 (of_char c) = of_char c" using of_char_int_bounds [of c] by (intro int32_id) auto
  moreover have "nat (of_char c) = of_char c" by (metis nat_int of_nat_of_char)
  ultimately show ?case using Cons of_char_int_bounds [of c] by (simp add: Let_def)
qed simp

text \<open>
  \<open>string.char\<close> undoes \<open>string.byte\<close>: the codes of all bytes of a string, as \<open>byte (s, 1, -1)\<close>
  returns them when the stack has room for them, give the string back.
\<close>

theorem byte_char:
  assumes "length s < 2 ^ 31" "length s \<le> room"
  shows "ebind (str_byte room s (Some 1) (Some (- 1))) str_char = Inr s"
proof (cases s)
  case Nil
  then show ?thesis by (simp add: str_byte_def str_char_def posrelat_def)
next
  case (Cons c t)
  let ?l = "int (length s)"
  have l: "1 \<le> ?l" "?l < 2 ^ 31" using Cons assms(1) by simp_all
  have "int32 ?l = ?l" using l by (intro int32_id) simp_all
  moreover have "map (\<lambda>k. of_char (s ! k) :: int) [0..<length s] = map of_char s" by (rule nth_equalityI) auto
  ultimately have "str_byte room s (Some 1) (Some (- 1)) = Inr (map of_char s)"
    using l assms(2) by (simp add: str_byte_def posrelat_def checkstack_def Let_def)
  then show ?thesis by (simp add: str_char_def char_loop_bytes)
qed

theorem byte_char_witness: "ebind (str_byte 8 ''Lua'' (Some 1) (Some (- 1))) str_char = Inr ''Lua''"
  by (rule byte_char) simp_all

end
