(* ===== verification/Llex.thy ===== *)
theory Llex
  imports Lzio Lpattern
begin

text \<open>
  The lexical analyser of Lua, \<open>liblua/src/llex.c\<close>.

  The stream it reads is the sequence of characters that are still to come, as \<open>Lzio.pending\<close>
  defines them; a read behind the end of the stream is a fault, because \<open>zgetc\<close> then wraps its
  counter (\<open>Lzio.zgetc_after_end\<close>). The token buffer is its contents and its size, a write behind
  its end is a fault, and the allocator is taken to provide the blocks it asks for. Parameters stand for
  the conversion of numbers, \<open>luaO_str2d\<close>, and for the decimal point of the locale. A syntax error
  is its message before the position and the offending token are added. A token without a value has
  \<open>Sem_none\<close>, where the code leaves the union as it was.
\<close>

section \<open>State\<close>

definition FIRST_RESERVED :: int where "FIRST_RESERVED = 257"

definition luaX_tokens :: "string list" where
  "luaX_tokens = [
    ''and'', ''break'', ''do'', ''else'', ''elseif'',
    ''end'', ''false'', ''for'', ''function'', ''if'',
    ''in'', ''local'', ''nil'', ''not'', ''or'', ''repeat'',
    ''return'', ''then'', ''true'', ''until'', ''while'',
    ''..'', ''...'', ''=='', ''>='', ''<='', ''~='',
    ''<number>'', ''<name>'', ''<string>'', ''<eof>'']"

definition NUM_RESERVED :: nat where "NUM_RESERVED = 21"

definition TK_CONCAT :: int where "TK_CONCAT = 278"
definition TK_DOTS :: int where "TK_DOTS = 279"
definition TK_EQ :: int where "TK_EQ = 280"
definition TK_GE :: int where "TK_GE = 281"
definition TK_LE :: int where "TK_LE = 282"
definition TK_NE :: int where "TK_NE = 283"
definition TK_NUMBER :: int where "TK_NUMBER = 284"
definition TK_NAME :: int where "TK_NAME = 285"
definition TK_STRING :: int where "TK_STRING = 286"
definition TK_EOS :: int where "TK_EOS = 287"

datatype SemInfo = Sem_none | Sem_r "64 word" | Sem_ts TString

record Token =
  token :: int
  seminfo :: SemInfo

record LexState =
  current :: int
  linenumber :: int
  lastline :: int
  ls_t :: Token
  lookahead :: Token
  ls_z :: string
  buff :: string
  buffsize :: nat
  decpoint :: char

definition luaX_lexerror :: "string \<Rightarrow> 'a lres" where
  "luaX_lexerror msg = Inl (Syntax msg)"

definition read_char :: "LexState \<Rightarrow> LexState" where
  "read_char ls = (case ls_z ls of
     [] \<Rightarrow> ls\<lparr>current := EOZ\<rparr>
   | c # cs \<Rightarrow> ls\<lparr>current := char2int c, ls_z := cs\<rparr>)"

definition next_c :: "LexState \<Rightarrow> LexState lres" where
  "next_c ls = (if current ls = EOZ then Inl (Fault Out_Of_Bounds) else Inr (read_char ls))"

definition currIsNewline :: "LexState \<Rightarrow> bool" where
  "currIsNewline ls \<longleftrightarrow> current ls = char2int CHR 0x0A \<or> current ls = char2int CHR 0x0D"

definition save :: "LexState \<Rightarrow> int \<Rightarrow> LexState lres" where
  "save ls c =
     ebind (if length (buff ls) + 1 > buffsize ls then
        if buffsize ls \<ge> MAX_SIZET div 2 then luaX_lexerror ''lexical element too long'' else Inr (buffsize ls * 2)
      else Inr (buffsize ls)) (\<lambda>newsize.
      if length (buff ls) < newsize then Inr (ls\<lparr>buffsize := newsize, buff := buff ls @ [char_of_int c]\<rparr>)
      else Inl (Fault Out_Of_Bounds))"

definition save_and_next :: "LexState \<Rightarrow> LexState lres" where
  "save_and_next ls = ebind (save ls (current ls)) next_c"

definition luaX_token2str :: "(int \<Rightarrow> string) \<Rightarrow> int \<Rightarrow> string" where
  "luaX_token2str num2str tok =
     (if tok < FIRST_RESERVED then
        if iscntrl (char_of_int tok) then ''char('' @ num2str tok @ '')'' else [char_of_int tok]
      else luaX_tokens ! nat (tok - FIRST_RESERVED))"

definition inclinenumber :: "LexState \<Rightarrow> LexState lres" where
  "inclinenumber ls =
     (let old = current ls in
      ebind (next_c ls) (\<lambda>ls1.
      ebind (if currIsNewline ls1 \<and> current ls1 \<noteq> old then next_c ls1 else Inr ls1) (\<lambda>ls2.
      let ls3 = ls2\<lparr>linenumber := linenumber ls2 + 1\<rparr> in
      if linenumber ls3 \<ge> MAX_INT then luaX_lexerror ''chunk has too many lines'' else Inr ls3)))"

definition luaX_setinput :: "LexState \<Rightarrow> string \<Rightarrow> LexState" where
  "luaX_setinput ls z =
     read_char (ls\<lparr>decpoint := CHR ''.'', lookahead := (lookahead ls)\<lparr>token := TK_EOS\<rparr>, ls_z := z,
       linenumber := 1, lastline := 1, buffsize := LUA_MINBUFFER\<rparr>)"

section \<open>How much is left to read\<close>

definition rem_c :: "LexState \<Rightarrow> nat" where
  "rem_c ls = length (ls_z ls) + (if current ls = EOZ then 0 else 1)"

lemma next_rem: "next_c ls = Inr ls1 \<Longrightarrow> rem_c ls1 < rem_c ls"
  by (auto simp: next_c_def read_char_def rem_c_def split: if_splits list.splits)

lemma save_rem: "save ls c = Inr ls1 \<Longrightarrow> rem_c ls1 = rem_c ls"
  by (auto simp: save_def rem_c_def luaX_lexerror_def split: if_splits)

lemma save_and_next_rem: "save_and_next ls = Inr ls1 \<Longrightarrow> rem_c ls1 < rem_c ls"
  unfolding save_and_next_def ebind_Inr_iff using save_rem next_rem by fastforce

lemma inclinenumber_rem: "inclinenumber ls = Inr ls1 \<Longrightarrow> rem_c ls1 < rem_c ls"
proof -
  assume "inclinenumber ls = Inr ls1"
  then obtain a b where a: "next_c ls = Inr a" and b: "(if currIsNewline a \<and> current a \<noteq> current ls then next_c a else Inr a) = Inr b"
    and l: "ls1 = b\<lparr>linenumber := linenumber b + 1\<rparr>"
    unfolding inclinenumber_def Let_def ebind_Inr_iff luaX_lexerror_def
    by (metis (no_types, lifting) LexState.select_convs(2) sum.distinct(1) sum.inject(2))
  have "rem_c ls1 = rem_c b" using l by (simp add: rem_c_def)
  moreover have "rem_c b \<le> rem_c a" using b next_rem by (fastforce split: if_splits)
  ultimately show ?thesis using next_rem [OF a] by simp
qed

section \<open>Reading parts of a token\<close>

text \<open>A test of the current character, false at the end of the stream.\<close>

definition cur_is :: "(char \<Rightarrow> bool) \<Rightarrow> LexState \<Rightarrow> bool" where
  "cur_is P ls \<longleftrightarrow> current ls \<noteq> EOZ \<and> P (char_of_int (current ls))"

abbreviation cur :: "LexState \<Rightarrow> char \<Rightarrow> bool" where
  "cur ls c \<equiv> current ls = char2int c"

text \<open>\<open>strchr\<close> finds the null character at the end of every set.\<close>

definition check_next :: "LexState \<Rightarrow> string \<Rightarrow> (bool \<times> LexState) lres" where
  "check_next ls s =
     (let c = char_of_int (current ls) in
      if \<not> (c \<in> set s \<or> c = NUL) then Inr (False, ls)
      else ebind (save_and_next ls) (\<lambda>ls1. Inr (True, ls1)))"

function save_while :: "(char \<Rightarrow> bool) \<Rightarrow> LexState \<Rightarrow> LexState lres" where
  "save_while P ls = (if cur_is P ls then ebind (save_and_next ls) (save_while P) else Inr ls)"
  by pat_completeness auto
termination
  by (relation "measure (\<lambda>(P, ls). rem_c ls)") (auto dest: save_and_next_rem)

declare save_while.simps [simp del]

definition buffreplace :: "LexState \<Rightarrow> char \<Rightarrow> char \<Rightarrow> LexState" where
  "buffreplace ls from to = ls\<lparr>buff := map (\<lambda>c. if c = from then to else c) (buff ls)\<rparr>"

definition trydecpoint :: "(string \<Rightarrow> 64 word option) \<Rightarrow> char \<Rightarrow> LexState \<Rightarrow> (64 word \<times> LexState) lres" where
  "trydecpoint str2d point ls =
     (let old = decpoint ls;
        ls1 = buffreplace (ls\<lparr>decpoint := point\<rparr>) old point in
      case str2d (cstr (buff ls1)) of
        None \<Rightarrow> luaX_lexerror ''malformed number''
      | Some r \<Rightarrow> Inr (r, ls1))"

definition read_numeral :: "(string \<Rightarrow> 64 word option) \<Rightarrow> char \<Rightarrow> LexState \<Rightarrow> (64 word \<times> LexState) lres" where
  "read_numeral str2d point ls =
     ebind (save_and_next ls) (\<lambda>ls.
     ebind (save_while (\<lambda>c. isdigit c \<or> c = CHR ''.'') ls) (\<lambda>ls.
     ebind (check_next ls ''Ee'') (\<lambda>(e, ls).
     ebind (if e then ebind (check_next ls ''+-'') (\<lambda>(_, ls). Inr ls) else Inr ls) (\<lambda>ls.
     ebind (save_while (\<lambda>c. isalnum c \<or> c = CHR ''_'') ls) (\<lambda>ls.
     ebind (save ls 0) (\<lambda>ls.
     let ls = buffreplace ls CHR ''.'' (decpoint ls) in
     case str2d (cstr (buff ls)) of None \<Rightarrow> trydecpoint str2d point ls | Some r \<Rightarrow> Inr (r, ls)))))))"

function skip_eq :: "LexState \<Rightarrow> int \<Rightarrow> (int \<times> LexState) lres" where
  "skip_eq ls n = (if cur ls CHR ''='' then ebind (save_and_next ls) (\<lambda>ls1. skip_eq ls1 (n + 1)) else Inr (n, ls))"
  by pat_completeness auto
termination
  by (relation "measure (\<lambda>(ls, n). rem_c ls)") (auto dest: save_and_next_rem)

declare skip_eq.simps [simp del]

definition skip_sep :: "LexState \<Rightarrow> (int \<times> LexState) lres" where
  "skip_sep ls =
     (let s = current ls in
      ebind (save_and_next ls) (\<lambda>ls1. ebind (skip_eq ls1 0) (\<lambda>(n, ls2).
        Inr (if current ls2 = s then n else - n - 1, ls2))))"

lemma skip_eq_rem: "skip_eq ls n = Inr (m, ls1) \<Longrightarrow> rem_c ls1 \<le> rem_c ls"
proof (induction ls n rule: skip_eq.induct)
  case (1 ls n)
  show ?case
  proof (cases "cur ls CHR ''=''")
    case True
    then obtain a where a: "save_and_next ls = Inr a" "skip_eq a (n + 1) = Inr (m, ls1)"
      using 1(2) by (auto simp: skip_eq.simps [of ls n] ebind_Inr_iff)
    then show ?thesis using 1(1) [OF True a] save_and_next_rem [OF a(1)] by simp
  qed (use 1(2) in \<open>simp add: skip_eq.simps [of ls n]\<close>)
qed

lemma skip_sep_rem: "skip_sep ls = Inr (n, ls1) \<Longrightarrow> rem_c ls1 < rem_c ls"
  unfolding skip_sep_def Let_def ebind_Inr_iff
  by (auto simp: ebind_Inr_iff dest!: save_and_next_rem skip_eq_rem)

text \<open>The loop of \<open>read_long_string\<close>; \<open>str\<close> is false when a comment is skipped.\<close>

function long_loop :: "bool \<Rightarrow> int \<Rightarrow> LexState \<Rightarrow> LexState lres" where
  "long_loop str sep ls =
     (if current ls = EOZ then luaX_lexerror (if str then ''unfinished long string'' else ''unfinished long comment'')
      else if cur ls CHR ''['' then
        ebind (skip_sep ls) (\<lambda>(n, ls1).
          if n = sep then
            ebind (save_and_next ls1) (\<lambda>ls2.
              if sep = 0 then luaX_lexerror ''nesting of [[...]] is deprecated'' else long_loop str sep ls2)
          else long_loop str sep ls1)
      else if cur ls CHR '']'' then
        ebind (skip_sep ls) (\<lambda>(n, ls1). if n = sep then save_and_next ls1 else long_loop str sep ls1)
      else if currIsNewline ls then
        ebind (save ls (char2int CHR 0x0A)) (\<lambda>ls1. ebind (inclinenumber ls1) (\<lambda>ls2.
          long_loop str sep (if str then ls2 else ls2\<lparr>buff := []\<rparr>)))
      else ebind (if str then save_and_next ls else next_c ls) (long_loop str sep))"
  by pat_completeness auto
termination
  apply (relation "measure (\<lambda>(str, sep, ls). rem_c ls)")
  apply (auto dest!: skip_sep_rem save_and_next_rem save_rem inclinenumber_rem next_rem split: if_splits)
  apply (simp_all add: rem_c_def split: if_splits)
  done

declare long_loop.simps [simp del]

definition read_long_string :: "bool \<Rightarrow> int \<Rightarrow> LexState \<Rightarrow> (TString \<times> LexState) lres" where
  "read_long_string str sep ls =
     ebind (save_and_next ls) (\<lambda>ls.
     ebind (if currIsNewline ls then inclinenumber ls else Inr ls) (\<lambda>ls.
     ebind (long_loop str sep ls) (\<lambda>ls.
     let k = nat (2 + sep); n = length (buff ls) in
     Inr (if str then take (n - 2 * k) (drop k (buff ls)) else [], ls))))"

text \<open>Up to \<open>n\<close> decimal digits of an escape sequence.\<close>

primrec read_escape :: "nat \<Rightarrow> int \<Rightarrow> LexState \<Rightarrow> (int \<times> LexState) lres" where
  "read_escape 0 c ls = Inr (c, ls)"
| "read_escape (Suc n) c ls =
     (if cur_is isdigit ls
      then ebind (next_c ls) (read_escape n (10 * c + (current ls - 48)))
      else Inr (c, ls))"

definition UCHAR_MAX :: int where "UCHAR_MAX = 255"

lemma read_escape_rem: "read_escape n c ls = Inr (m, ls1) \<Longrightarrow> rem_c ls1 \<le> rem_c ls"
proof (induction n arbitrary: c ls)
  case (Suc n)
  show ?case
  proof (cases "cur_is isdigit ls")
    case True
    then obtain a where a: "next_c ls = Inr a" "read_escape n (10 * c + (current ls - 48)) a = Inr (m, ls1)"
      using Suc.prems by (auto simp: ebind_Inr_iff)
    then show ?thesis using Suc.IH [OF a(2)] next_rem [OF a(1)] by simp
  qed (use Suc.prems in simp)
qed simp

text \<open>The character that a single-letter escape stands for.\<close>

definition escape_letter :: "int \<Rightarrow> int option" where
  "escape_letter c =
     (if c = char2int CHR ''a'' then Some 7
      else if c = char2int CHR ''b'' then Some 8
      else if c = char2int CHR ''f'' then Some 12
      else if c = char2int CHR ''n'' then Some 10
      else if c = char2int CHR ''r'' then Some 13
      else if c = char2int CHR ''t'' then Some 9
      else if c = char2int CHR ''v'' then Some 11
      else None)"

text \<open>What follows a backslash, which has been read.\<close>

definition escape :: "LexState \<Rightarrow> LexState lres" where
  "escape ls =
     (case escape_letter (current ls) of
        Some c \<Rightarrow> ebind (save ls c) next_c
      | None \<Rightarrow>
          if currIsNewline ls then ebind (save ls (char2int CHR 0x0A)) inclinenumber
          else if current ls = EOZ then Inr ls
          else if \<not> cur_is isdigit ls then save_and_next ls
          else ebind (read_escape 3 0 ls) (\<lambda>(c, ls1).
            if c > UCHAR_MAX then luaX_lexerror ''escape sequence too large'' else save ls1 c))"

lemma escape_rem: "escape ls = Inr ls1 \<Longrightarrow> rem_c ls1 \<le> rem_c ls"
proof -
  assume e: "escape ls = Inr ls1"
  show ?thesis
  proof (cases "escape_letter (current ls)")
    case (Some c)
    then show ?thesis using e save_rem next_rem by (fastforce simp: escape_def ebind_Inr_iff)
  next
    case None
    consider "currIsNewline ls" | "\<not> currIsNewline ls" "current ls = EOZ" | "\<not> currIsNewline ls" "current ls \<noteq> EOZ" "\<not> cur_is isdigit ls"
      | "\<not> currIsNewline ls" "current ls \<noteq> EOZ" "cur_is isdigit ls" by blast
    then show ?thesis
    proof cases
      case 1
      then show ?thesis using e None save_rem inclinenumber_rem by (fastforce simp: escape_def ebind_Inr_iff)
    next
      case 2
      then show ?thesis using e None by (simp add: escape_def)
    next
      case 3
      then show ?thesis using e None save_and_next_rem by (fastforce simp: escape_def)
    next
      case 4
      then obtain c a where "read_escape 3 0 ls = Inr (c, a)" "save a c = Inr ls1"
        using e None by (auto simp: escape_def ebind_Inr_iff luaX_lexerror_def split: if_splits)
      then show ?thesis using read_escape_rem save_rem by fastforce
    qed
  qed
qed

function string_loop :: "int \<Rightarrow> LexState \<Rightarrow> LexState lres" where
  "string_loop del ls =
     (if current ls = del then Inr ls
      else if current ls = EOZ \<or> currIsNewline ls then luaX_lexerror ''unfinished string''
      else if cur ls CHR 0x5C then ebind (next_c ls) (\<lambda>ls1. ebind (escape ls1) (string_loop del))
      else ebind (save_and_next ls) (string_loop del))"
  by pat_completeness auto
termination
  by (relation "measure (\<lambda>(del, ls). rem_c ls)") (auto dest!: next_rem escape_rem save_and_next_rem)

declare string_loop.simps [simp del]

definition read_string :: "int \<Rightarrow> LexState \<Rightarrow> (TString \<times> LexState) lres" where
  "read_string del ls =
     ebind (save_and_next ls) (\<lambda>ls.
     ebind (string_loop del ls) (\<lambda>ls.
     ebind (save_and_next ls) (\<lambda>ls. Inr (take (length (buff ls) - 2) (drop 1 (buff ls)), ls))))"

section \<open>Tokens\<close>

function skip_line :: "LexState \<Rightarrow> LexState lres" where
  "skip_line ls = (if \<not> currIsNewline ls \<and> current ls \<noteq> EOZ then ebind (next_c ls) skip_line else Inr ls)"
  by pat_completeness auto
termination
  by (relation "measure rem_c") (auto dest: next_rem)

declare skip_line.simps [simp del]

text \<open>A run that leaves at most \<open>n\<close> characters to read.\<close>

definition le_rem :: "nat \<Rightarrow> LexState lres \<Rightarrow> bool" where
  "le_rem n r \<longleftrightarrow> (\<forall>ls1. r = Inr ls1 \<longrightarrow> rem_c ls1 \<le> n)"

named_theorems le_rem_intros

lemma le_rem_basic [le_rem_intros]: "le_rem n (luaX_lexerror msg)" "rem_c ls \<le> n \<Longrightarrow> le_rem n (Inr ls)"
  "(b \<Longrightarrow> le_rem n r1) \<Longrightarrow> (\<not> b \<Longrightarrow> le_rem n r2) \<Longrightarrow> le_rem n (if b then r1 else r2)"
  by (simp_all add: le_rem_def luaX_lexerror_def)

lemma le_rem_steps [le_rem_intros]:
  "(\<And>a. rem_c a < rem_c ls \<Longrightarrow> le_rem n (f a)) \<Longrightarrow> le_rem n (ebind (next_c ls) f)"
  "(\<And>a. rem_c a = rem_c ls \<Longrightarrow> le_rem n (f a)) \<Longrightarrow> le_rem n (ebind (save ls c) f)"
  "(\<And>a. rem_c a < rem_c ls \<Longrightarrow> le_rem n (f a)) \<Longrightarrow> le_rem n (ebind (save_and_next ls) f)"
  "(\<And>a. rem_c a < rem_c ls \<Longrightarrow> le_rem n (f a)) \<Longrightarrow> le_rem n (ebind (inclinenumber ls) f)"
  "(\<And>k a. rem_c a < rem_c ls \<Longrightarrow> le_rem n (g (k, a))) \<Longrightarrow> le_rem n (ebind (skip_sep ls) g)"
  by (auto simp: le_rem_def ebind_Inr_iff dest: next_rem save_rem save_and_next_rem inclinenumber_rem skip_sep_rem)

lemma le_rem_save_and_next [le_rem_intros]: "rem_c ls \<le> n \<Longrightarrow> le_rem n (save_and_next ls)"
  using save_and_next_rem [of ls] by (fastforce simp: le_rem_def)

lemma skip_line_rem: "rem_c ls \<le> n \<Longrightarrow> le_rem n (skip_line ls)"
proof (induction "rem_c ls" arbitrary: ls rule: less_induct)
  case less
  show ?case unfolding skip_line.simps [of ls] by (intro le_rem_intros less.hyps) (use less.prems in auto)
qed

lemma long_loop_rem: "rem_c ls \<le> n \<Longrightarrow> le_rem n (long_loop str sep ls)"
proof (induction "rem_c ls" arbitrary: ls rule: less_induct)
  case less
  have IH: "le_rem n (long_loop str sep a)" if "rem_c a < rem_c ls" for a using less.hyps [OF that] less.prems that by simp
  have reset: "rem_c (if str then a else a\<lparr>buff := []\<rparr>) = rem_c a" for a by (simp add: rem_c_def)
  have skip: "le_rem n (ebind (if str then save_and_next ls else next_c ls) (long_loop str sep))"
    using le_rem_steps(1,3) [of ls n "long_loop str sep"] IH by (cases str) auto
  show ?case unfolding long_loop.simps [of str sep ls] split_beta
    by (intro le_rem_intros skip IH) (use less.prems in \<open>auto simp: reset\<close>)
qed

text \<open>A comment, behind its two dashes.\<close>

definition comment :: "LexState \<Rightarrow> LexState lres" where
  "comment ls =
     (if cur ls CHR ''['' then
        ebind (skip_sep ls) (\<lambda>(sep, ls1).
          let ls2 = ls1\<lparr>buff := []\<rparr> in
          if sep \<ge> 0 then ebind (read_long_string False sep ls2) (\<lambda>(_, ls3). Inr (ls3\<lparr>buff := []\<rparr>))
          else skip_line ls2)
      else skip_line ls)"

lemma comment_rem: "comment ls = Inr ls1 \<Longrightarrow> rem_c ls1 \<le> rem_c ls"
proof -
  have reset: "rem_c (a\<lparr>buff := []\<rparr>) = rem_c a" for a by (simp add: rem_c_def)
  have long: "le_rem (rem_c ls) (ebind (read_long_string False sep (a\<lparr>buff := []\<rparr>)) (\<lambda>(_, b). Inr (b\<lparr>buff := []\<rparr>)))"
    if a: "rem_c a < rem_c ls" for a sep
  proof -
    have l: "le_rem (rem_c ls) (ebind (long_loop False sep b) (\<lambda>c. Inr (c\<lparr>buff := []\<rparr>)))" if "rem_c b < rem_c ls" for b
      using long_loop_rem [of b "rem_c ls" False sep] that by (auto simp: le_rem_def ebind_Inr_iff reset)
    have "le_rem (rem_c ls) (ebind (save_and_next (a\<lparr>buff := []\<rparr>)) (\<lambda>b. ebind (if currIsNewline b then inclinenumber b else Inr b)
        (\<lambda>b. ebind (long_loop False sep b) (\<lambda>c. Inr (c\<lparr>buff := []\<rparr>)))))"
    proof (rule le_rem_steps(3))
      fix b assume b: "rem_c b < rem_c (a\<lparr>buff := []\<rparr>)"
      then have b1: "rem_c b < rem_c ls" using a by (simp add: reset)
      show "le_rem (rem_c ls) (ebind (if currIsNewline b then inclinenumber b else Inr b)
          (\<lambda>b. ebind (long_loop False sep b) (\<lambda>c. Inr (c\<lparr>buff := []\<rparr>))))"
        using le_rem_steps(4) [of b "rem_c ls" "\<lambda>b. ebind (long_loop False sep b) (\<lambda>c. Inr (c\<lparr>buff := []\<rparr>))"] l b1 by auto
    qed
    then show ?thesis by (auto simp: le_rem_def read_long_string_def ebind_Inr_iff Let_def)
  qed
  have "le_rem (rem_c ls) (comment ls)"
    unfolding comment_def split_beta Let_def
    by (intro le_rem_intros skip_line_rem) (use long [unfolded split_beta] in \<open>auto simp: reset\<close>)
  then show "comment ls = Inr ls1 \<Longrightarrow> rem_c ls1 \<le> rem_c ls" by (simp add: le_rem_def)
qed

text \<open>The number of a reserved word, from 1, or 0 (the field \<open>reserved\<close> of an interned string).\<close>

primrec index_in :: "string list \<Rightarrow> string \<Rightarrow> nat option" where
  "index_in [] s = None"
| "index_in (x # xs) s = (if x = s then Some 0 else map_option Suc (index_in xs s))"

definition reserved :: "string \<Rightarrow> nat" where
  "reserved s = (case index_in (take NUM_RESERVED luaX_tokens) s of None \<Rightarrow> 0 | Some i \<Rightarrow> i + 1)"

text \<open>A token that has a second character \<open>=\<close>, or not.\<close>

definition with_eq :: "LexState \<Rightarrow> int \<Rightarrow> int \<Rightarrow> (Token \<times> LexState) lres" where
  "with_eq ls t1 t2 =
     ebind (next_c ls) (\<lambda>ls1.
       if \<not> cur ls1 CHR ''='' then Inr (\<lparr>token = t1, seminfo = Sem_none\<rparr>, ls1)
       else ebind (next_c ls1) (\<lambda>ls2. Inr (\<lparr>token = t2, seminfo = Sem_none\<rparr>, ls2)))"

definition lex_name :: "LexState \<Rightarrow> (Token \<times> LexState) lres" where
  "lex_name ls =
     ebind (save_and_next ls) (\<lambda>ls1. ebind (save_while (\<lambda>c. isalnum c \<or> c = CHR ''_'') ls1) (\<lambda>ls2.
       let ts = buff ls2 in
       Inr (if reserved ts > 0 then \<lparr>token = int (reserved ts) - 1 + FIRST_RESERVED, seminfo = Sem_none\<rparr>
         else \<lparr>token = TK_NAME, seminfo = Sem_ts ts\<rparr>, ls2)))"

definition lex_dot :: "(string \<Rightarrow> 64 word option) \<Rightarrow> char \<Rightarrow> LexState \<Rightarrow> (Token \<times> LexState) lres" where
  "lex_dot str2d point ls =
     ebind (save_and_next ls) (\<lambda>ls1. ebind (check_next ls1 ''.'') (\<lambda>(d, ls2).
       if d then ebind (check_next ls2 ''.'') (\<lambda>(d2, ls3).
         Inr (\<lparr>token = (if d2 then TK_DOTS else TK_CONCAT), seminfo = Sem_none\<rparr>, ls3))
       else if \<not> cur_is isdigit ls2 then Inr (\<lparr>token = char2int CHR ''.'', seminfo = Sem_none\<rparr>, ls2)
       else ebind (read_numeral str2d point ls2) (\<lambda>(r, ls3). Inr (\<lparr>token = TK_NUMBER, seminfo = Sem_r r\<rparr>, ls3))))"

text \<open>The loop of \<open>llex\<close>.\<close>

function llex_loop :: "(string \<Rightarrow> 64 word option) \<Rightarrow> char \<Rightarrow> LexState \<Rightarrow> (Token \<times> LexState) lres" where
  "llex_loop str2d point ls =
     (if currIsNewline ls then ebind (inclinenumber ls) (llex_loop str2d point)
      else if cur ls CHR ''-'' then
        ebind (next_c ls) (\<lambda>ls1.
          if \<not> cur ls1 CHR ''-'' then Inr (\<lparr>token = char2int CHR ''-'', seminfo = Sem_none\<rparr>, ls1)
          else ebind (next_c ls1) (\<lambda>ls2. ebind (comment ls2) (llex_loop str2d point)))
      else if cur ls CHR ''['' then
        ebind (skip_sep ls) (\<lambda>(sep, ls1).
          if sep \<ge> 0 then ebind (read_long_string True sep ls1) (\<lambda>(s, ls2). Inr (\<lparr>token = TK_STRING, seminfo = Sem_ts s\<rparr>, ls2))
          else if sep = - 1 then Inr (\<lparr>token = char2int CHR ''['', seminfo = Sem_none\<rparr>, ls1)
          else luaX_lexerror ''invalid long string delimiter'')
      else if cur ls CHR ''='' then with_eq ls (char2int CHR ''='') TK_EQ
      else if cur ls CHR ''<'' then with_eq ls (char2int CHR ''<'') TK_LE
      else if cur ls CHR ''>'' then with_eq ls (char2int CHR ''>'') TK_GE
      else if cur ls CHR ''~'' then with_eq ls (char2int CHR ''~'') TK_NE
      else if cur ls CHR 0x22 \<or> cur ls CHR 0x27 then
        ebind (read_string (current ls) ls) (\<lambda>(s, ls1). Inr (\<lparr>token = TK_STRING, seminfo = Sem_ts s\<rparr>, ls1))
      else if cur ls CHR ''.'' then lex_dot str2d point ls
      else if current ls = EOZ then Inr (\<lparr>token = TK_EOS, seminfo = Sem_none\<rparr>, ls)
      else if isspace (current ls) then ebind (next_c ls) (llex_loop str2d point)
      else if cur_is isdigit ls then
        ebind (read_numeral str2d point ls) (\<lambda>(r, ls1). Inr (\<lparr>token = TK_NUMBER, seminfo = Sem_r r\<rparr>, ls1))
      else if cur_is isalpha ls \<or> cur ls CHR ''_'' then lex_name ls
      else let c = current ls in ebind (next_c ls) (\<lambda>ls1. Inr (\<lparr>token = c, seminfo = Sem_none\<rparr>, ls1)))"
  by pat_completeness auto
termination
  by (relation "measure (\<lambda>(str2d, point, ls). rem_c ls)") (auto dest!: inclinenumber_rem next_rem comment_rem)

declare llex_loop.simps [simp del]

definition llex :: "(string \<Rightarrow> 64 word option) \<Rightarrow> char \<Rightarrow> LexState \<Rightarrow> (Token \<times> LexState) lres" where
  "llex str2d point ls = llex_loop str2d point (ls\<lparr>buff := []\<rparr>)"

definition luaX_next :: "(string \<Rightarrow> 64 word option) \<Rightarrow> char \<Rightarrow> LexState \<Rightarrow> LexState lres" where
  "luaX_next str2d point ls =
     (let ls = ls\<lparr>lastline := linenumber ls\<rparr> in
      if token (lookahead ls) \<noteq> TK_EOS
      then Inr (ls\<lparr>ls_t := lookahead ls, lookahead := (lookahead ls)\<lparr>token := TK_EOS\<rparr>\<rparr>)
      else ebind (llex str2d point ls) (\<lambda>(tok, ls1). Inr (ls1\<lparr>ls_t := tok\<rparr>)))"

definition luaX_lookahead :: "(string \<Rightarrow> 64 word option) \<Rightarrow> char \<Rightarrow> LexState \<Rightarrow> LexState lres" where
  "luaX_lookahead str2d point ls =
     ebind (llex str2d point ls) (\<lambda>(tok, ls1). Inr (ls1\<lparr>lookahead := tok\<rparr>))"

section \<open>The analyser stays inside its data\<close>

text \<open>
  The states of the analyser: a character of the stream or its end, and a buffer that is not empty and
  holds its contents.
\<close>

definition wf_lex :: "LexState \<Rightarrow> bool" where
  "wf_lex ls \<longleftrightarrow> (current ls = EOZ \<longrightarrow> ls_z ls = []) \<and> current ls < FIRST_RESERVED \<and> 0 < buffsize ls \<and> length (buff ls) \<le> buffsize ls"

lemma char2int_small: "char2int c < FIRST_RESERVED"
proof -
  have "(of_char c :: nat) < 256" by (metis nat_of_char_less_256)
  then have "int (of_char c) < 257" by linarith
  then show ?thesis unfolding char2int_def FIRST_RESERVED_def by (simp only: of_nat_of_char)
qed

lemma wf_read: "wf_lex ls \<Longrightarrow> wf_lex (read_char ls)"
proof -
  assume "wf_lex ls"
  moreover have "EOZ < FIRST_RESERVED" by (simp add: EOZ_def FIRST_RESERVED_def)
  ultimately show ?thesis by (auto simp: wf_lex_def read_char_def char2int_small split: list.splits)
qed

lemma wf_fields [simp]: "wf_lex (ls\<lparr>linenumber := n\<rparr>) = wf_lex ls" "wf_lex (ls\<lparr>lastline := n\<rparr>) = wf_lex ls"
  "wf_lex (ls\<lparr>decpoint := c\<rparr>) = wf_lex ls" "wf_lex (ls\<lparr>ls_t := tk\<rparr>) = wf_lex ls" "wf_lex (ls\<lparr>lookahead := tk\<rparr>) = wf_lex ls"
  "wf_lex ls \<Longrightarrow> wf_lex (ls\<lparr>buff := []\<rparr>)"
  by (auto simp: wf_lex_def)

named_theorems lex_safe

lemma next_safe: "wf_lex ls \<Longrightarrow> current ls \<noteq> EOZ \<Longrightarrow> nofault (next_c ls) wf_lex"
  by (simp add: next_c_def wf_read)

lemma save_safe: "wf_lex ls \<Longrightarrow> nofault (save ls c) (\<lambda>ls1. wf_lex ls1 \<and> current ls1 = current ls)"
  by (auto simp: save_def wf_lex_def luaX_lexerror_def nofault_ebind)

lemma save_and_next_safe: "wf_lex ls \<Longrightarrow> current ls \<noteq> EOZ \<Longrightarrow> nofault (save_and_next ls) wf_lex"
  unfolding save_and_next_def by (rule nofault_ebindI [OF save_safe]) (auto intro: next_safe)

lemma EOZ_not_char [simp]: "EOZ \<noteq> char2int c"
  using char2int_not_EOZ by metis

lemma newline_not_EOZ: "currIsNewline ls \<Longrightarrow> current ls \<noteq> EOZ"
  by (auto simp: currIsNewline_def)

lemma inclinenumber_safe: "wf_lex ls \<Longrightarrow> current ls \<noteq> EOZ \<Longrightarrow> nofault (inclinenumber ls) wf_lex"
  unfolding inclinenumber_def Let_def
proof (rule nofault_ebindI [OF next_safe], assumption+)
  fix a assume a: "wf_lex a"
  have "nofault (if currIsNewline a \<and> current a \<noteq> current ls then next_c a else Inr a) wf_lex"
    using a next_safe [OF a] newline_not_EOZ by auto
  then show "nofault (ebind (if currIsNewline a \<and> current a \<noteq> current ls then next_c a else Inr a)
     (\<lambda>ls2. if linenumber (ls2\<lparr>linenumber := linenumber ls2 + 1\<rparr>) \<ge> MAX_INT then luaX_lexerror ''chunk has too many lines''
        else Inr (ls2\<lparr>linenumber := linenumber ls2 + 1\<rparr>))) wf_lex"
    by (rule nofault_ebindI) (auto simp: luaX_lexerror_def)
qed

lemma nofault_lexerror [simp]: "nofault (luaX_lexerror msg) P"
  by (simp add: luaX_lexerror_def)

lemma nofault_bind_same:
  "nofault r wf_lex \<Longrightarrow> (\<And>a. wf_lex a \<Longrightarrow> r = Inr a \<Longrightarrow> nofault (f a) P) \<Longrightarrow> nofault (ebind r f) P"
  by (rule nofault_ebindI) auto

lemma save_while_safe: "wf_lex ls \<Longrightarrow> nofault (save_while P ls) wf_lex"
proof (induction "rem_c ls" arbitrary: ls rule: less_induct)
  case less
  show ?case unfolding save_while.simps [of P ls]
    using less.prems by (auto simp: cur_is_def intro!: nofault_bind_same save_and_next_safe less.hyps dest: save_and_next_rem)
qed

lemma skip_eq_safe: "wf_lex ls \<Longrightarrow> nofault (skip_eq ls n) (\<lambda>(n, ls1). wf_lex ls1)"
proof (induction "rem_c ls" arbitrary: ls n rule: less_induct)
  case less
  show ?case unfolding skip_eq.simps [of ls n]
    using less.prems by (auto intro!: nofault_bind_same save_and_next_safe less.hyps dest: save_and_next_rem)
qed

lemma skip_sep_safe: "wf_lex ls \<Longrightarrow> current ls \<noteq> EOZ \<Longrightarrow> nofault (skip_sep ls) (\<lambda>(n, ls1). wf_lex ls1 \<and> (0 \<le> n \<longrightarrow> current ls1 = current ls))"
  unfolding skip_sep_def Let_def
proof (rule nofault_bind_same [OF save_and_next_safe], assumption+)
  fix a assume "wf_lex a"
  have nonneg: "skip_eq ls n = Inr (m, ls1) \<Longrightarrow> 0 \<le> n \<Longrightarrow> 0 \<le> m" for ls n m ls1
  proof (induction ls n rule: skip_eq.induct)
    case (1 ls n)
    then show ?case by (cases "cur ls CHR ''=''") (auto simp: skip_eq.simps [of ls n] ebind_Inr_iff)
  qed
  show "nofault (ebind (skip_eq a 0) (\<lambda>(n, ls2). Inr (if current ls2 = current ls then n else - n - 1, ls2)))
      (\<lambda>(n, ls1). wf_lex ls1 \<and> (0 \<le> n \<longrightarrow> current ls1 = current ls))"
    by (rule nofault_ebindI [OF skip_eq_safe [OF \<open>wf_lex a\<close>]]) (auto dest: nonneg)
qed

lemma long_loop_safe: "0 \<le> sep \<Longrightarrow> wf_lex ls \<Longrightarrow> nofault (long_loop str sep ls) wf_lex"
proof (induction "rem_c ls" arbitrary: ls rule: less_induct)
  case less
  have IH: "nofault (long_loop str sep a) wf_lex" if "wf_lex a" "rem_c a < rem_c ls" for a using less.hyps [OF that(2) less.prems(1) that(1)] .
  have reset: "rem_c (a\<lparr>buff := []\<rparr>) = rem_c a" for a by (simp add: rem_c_def)
  show ?case
  proof (cases "current ls = EOZ")
    case True
    then show ?thesis by (simp add: long_loop.simps [of str sep ls])
  next
    case False
    have skip: "nofault (ebind (skip_sep ls) f) wf_lex"
      if "\<And>n a. wf_lex a \<Longrightarrow> 0 \<le> n \<longrightarrow> current a \<noteq> EOZ \<Longrightarrow> rem_c a < rem_c ls \<Longrightarrow> nofault (f (n, a)) wf_lex" for f
      by (rule nofault_ebindI [OF skip_sep_safe [OF less.prems(2) False]]) (use that False skip_sep_rem in auto)
    have step: "nofault (ebind (save_and_next a) f) wf_lex"
      if "wf_lex a" "current a \<noteq> EOZ" "\<And>b. wf_lex b \<Longrightarrow> rem_c b < rem_c a \<Longrightarrow> nofault (f b) wf_lex" for a f
      by (rule nofault_bind_same [OF save_and_next_safe]) (use that save_and_next_rem in auto)
    consider (lbr) "cur ls CHR ''[''" | (rbr) "\<not> cur ls CHR ''[''" "cur ls CHR '']''"
      | (line) "\<not> cur ls CHR ''[''" "\<not> cur ls CHR '']''" "currIsNewline ls"
      | (other) "\<not> cur ls CHR ''[''" "\<not> cur ls CHR '']''" "\<not> currIsNewline ls" by blast
    then show ?thesis
    proof cases
      case lbr
      have "nofault (ebind (skip_sep ls) (\<lambda>(n, a). if n = sep then ebind (save_and_next a) (\<lambda>b.
          if sep = 0 then luaX_lexerror ''nesting of [[...]] is deprecated'' else long_loop str sep b) else long_loop str sep a)) wf_lex"
        by (rule skip) (use less.prems(1) IH in \<open>auto intro!: step\<close>)
      then show ?thesis using False lbr by (simp add: long_loop.simps [of str sep ls])
    next
      case rbr
      have "nofault (ebind (skip_sep ls) (\<lambda>(n, a). if n = sep then save_and_next a else long_loop str sep a)) wf_lex"
        by (rule skip) (use less.prems(1) IH in \<open>auto intro!: save_and_next_safe\<close>)
      then show ?thesis using False rbr by (simp add: long_loop.simps [of str sep ls])
    next
      case line
      have "nofault (ebind (save ls (char2int CHR 0x0A)) (\<lambda>a. ebind (inclinenumber a) (\<lambda>b.
          long_loop str sep (if str then b else b\<lparr>buff := []\<rparr>)))) wf_lex"
      proof (rule nofault_ebindI [OF save_safe [OF less.prems(2)]], rule nofault_bind_same)
        fix a assume a: "save ls (char2int CHR 0x0A) = Inr a" "wf_lex a \<and> current a = current ls"
        then show "nofault (inclinenumber a) wf_lex" using False by (intro inclinenumber_safe) auto
        fix b assume b: "wf_lex b" "inclinenumber a = Inr b"
        then show "nofault (long_loop str sep (if str then b else b\<lparr>buff := []\<rparr>)) wf_lex"
          using inclinenumber_rem [OF b(2)] save_rem [OF a(1)] by (intro IH) (auto simp: reset)
      qed
      then show ?thesis using False line by (simp add: long_loop.simps [of str sep ls])
    next
      case other
      have "nofault (ebind (if str then save_and_next ls else next_c ls) (long_loop str sep)) wf_lex"
        by (rule nofault_bind_same)
          (use less.prems(2) False save_and_next_safe next_safe save_and_next_rem next_rem IH in \<open>auto split: if_splits\<close>)
      then show ?thesis using False other by (simp add: long_loop.simps [of str sep ls])
    qed
  qed
qed

lemma read_long_string_safe:
  assumes "0 \<le> sep" "wf_lex ls" "current ls \<noteq> EOZ"
  shows "nofault (read_long_string str sep ls) (\<lambda>(s, ls1). wf_lex ls1)"
  unfolding read_long_string_def
proof (rule nofault_bind_same [OF save_and_next_safe [OF assms(2,3)]], rule nofault_bind_same)
  fix a assume a: "wf_lex a"
  then show "nofault (if currIsNewline a then inclinenumber a else Inr a) wf_lex"
    using inclinenumber_safe newline_not_EOZ by auto
  fix b assume "wf_lex b"
  then show "nofault (ebind (long_loop str sep b) (\<lambda>ls. let k = nat (2 + sep); n = length (buff ls) in
      Inr (if str then take (n - 2 * k) (drop k (buff ls)) else [], ls))) (\<lambda>(s, ls1). wf_lex ls1)"
    by (rule nofault_bind_same [OF long_loop_safe [OF assms(1)]]) (simp add: Let_def)
qed

lemma read_escape_safe: "wf_lex ls \<Longrightarrow> nofault (read_escape n c ls) (\<lambda>(c, ls1). wf_lex ls1)"
proof (induction n arbitrary: c ls)
  case (Suc n)
  then show ?case by (auto simp: cur_is_def intro!: nofault_bind_same next_safe)
qed simp

lemma escape_safe: "wf_lex ls \<Longrightarrow> nofault (escape ls) wf_lex"
proof -
  assume w: "wf_lex ls"
  have l: "escape_letter (current ls) = Some c \<Longrightarrow> current ls \<noteq> EOZ" for c by (auto simp: escape_letter_def split: if_splits)
  have save: "nofault (ebind (save ls c) f) wf_lex" if "current ls \<noteq> EOZ" "\<And>a. wf_lex a \<Longrightarrow> current a \<noteq> EOZ \<Longrightarrow> nofault (f a) wf_lex" for c f
    by (rule nofault_ebindI [OF save_safe [OF w]]) (use that in auto)
  have "nofault (ebind (read_escape 3 0 ls) (\<lambda>(c, a). if c > UCHAR_MAX then luaX_lexerror ''escape sequence too large'' else save a c)) wf_lex"
    by (rule nofault_ebindI [OF read_escape_safe [OF w]]) (auto intro: nofault_mono [OF save_safe])
  then show ?thesis using w l save [OF _ next_safe] save [OF _ inclinenumber_safe] save_and_next_safe [OF w]
    by (auto simp: escape_def dest: newline_not_EOZ split: option.split)
qed

lemma string_loop_safe: "wf_lex ls \<Longrightarrow> nofault (string_loop del ls) (\<lambda>ls1. wf_lex ls1 \<and> current ls1 = del)"
proof (induction "rem_c ls" arbitrary: ls rule: less_induct)
  case less
  have IH: "nofault (string_loop del a) (\<lambda>ls1. wf_lex ls1 \<and> current ls1 = del)" if "wf_lex a" "rem_c a < rem_c ls" for a
    using less.hyps [OF that(2,1)] .
  show ?case
  proof (cases "current ls = EOZ")
    case True
    then show ?thesis using less.prems by (simp add: string_loop.simps [of del ls])
  next
    case False
    have "nofault (ebind (next_c ls) (\<lambda>a. ebind (escape a) (string_loop del))) (\<lambda>ls1. wf_lex ls1 \<and> current ls1 = del)"
    proof (rule nofault_bind_same [OF next_safe [OF less.prems False]], rule nofault_bind_same [OF escape_safe], assumption)
      fix a b assume "next_c ls = Inr a" "wf_lex b" "escape a = Inr b"
      then show "nofault (string_loop del b) (\<lambda>ls1. wf_lex ls1 \<and> current ls1 = del)" using next_rem escape_rem by (intro IH) force+
    qed
    moreover have "nofault (ebind (save_and_next ls) (string_loop del)) (\<lambda>ls1. wf_lex ls1 \<and> current ls1 = del)"
      by (rule nofault_bind_same [OF save_and_next_safe [OF less.prems False]]) (use IH save_and_next_rem in auto)
    ultimately show ?thesis using less.prems by (simp add: string_loop.simps [of del ls])
  qed
qed

lemma read_string_safe: "wf_lex ls \<Longrightarrow> current ls \<noteq> EOZ \<Longrightarrow> del \<noteq> EOZ \<Longrightarrow> nofault (read_string del ls) (\<lambda>(s, ls1). wf_lex ls1)"
  unfolding read_string_def
  by (rule nofault_bind_same [OF save_and_next_safe], assumption+, rule nofault_ebindI [OF string_loop_safe], assumption,
      rule nofault_bind_same [OF save_and_next_safe]) auto

lemma save_while_rem: "rem_c ls \<le> n \<Longrightarrow> le_rem n (save_while P ls)"
proof (induction "rem_c ls" arbitrary: ls rule: less_induct)
  case less
  show ?case unfolding save_while.simps [of P ls] by (intro le_rem_intros less.hyps) (use less.prems in auto)
qed

lemma string_loop_rem: "rem_c ls \<le> n \<Longrightarrow> le_rem n (string_loop del ls)"
proof (induction "rem_c ls" arbitrary: ls rule: less_induct)
  case less
  have "le_rem n (ebind (escape a) (string_loop del))" if "rem_c a < rem_c ls" for a
  proof -
    have "le_rem n (string_loop del b)" if "escape a = Inr b" for b
      using escape_rem [OF that] \<open>rem_c a < rem_c ls\<close> less.prems by (intro less.hyps) auto
    then show ?thesis by (auto simp: le_rem_def ebind_Inr_iff)
  qed
  then show ?case unfolding string_loop.simps [of del ls] by (intro le_rem_intros less.hyps) (use less.prems in auto)
qed

text \<open>A step that is safe and leaves at most \<open>n\<close> characters.\<close>

definition lexed :: "nat \<Rightarrow> LexState \<Rightarrow> bool" where
  "lexed n ls \<longleftrightarrow> wf_lex ls \<and> rem_c ls \<le> n"

lemma nofault_le_rem: "nofault r wf_lex \<Longrightarrow> le_rem n r \<Longrightarrow> nofault r (lexed n)"
  by (auto simp: le_rem_def lexed_def intro: nofault_mono)

lemma save_and_next_lexed: "wf_lex ls \<Longrightarrow> current ls \<noteq> EOZ \<Longrightarrow> nofault (save_and_next ls) (lexed (rem_c ls - 1))"
  by (rule nofault_mono [OF save_and_next_safe]) (auto simp: lexed_def dest: save_and_next_rem)

lemma next_lexed: "wf_lex ls \<Longrightarrow> current ls \<noteq> EOZ \<Longrightarrow> nofault (next_c ls) (lexed (rem_c ls - 1))"
  by (rule nofault_mono [OF next_safe]) (auto simp: lexed_def dest: next_rem)

lemma save_while_lexed: "lexed n ls \<Longrightarrow> nofault (save_while P ls) (lexed n)"
  by (auto simp: lexed_def [of n ls] intro!: nofault_le_rem save_while_safe save_while_rem)

lemma lexed_mono: "lexed m ls \<Longrightarrow> m \<le> n \<Longrightarrow> lexed n ls"
  by (simp add: lexed_def)

lemma rem_pos: "current ls \<noteq> EOZ \<Longrightarrow> 0 < rem_c ls"
  by (simp add: rem_c_def)

lemma char_of_EOZ: "char_of_int EOZ = CHR 0xFF"
  by code_simp

lemma check_next_lexed:
  assumes "lexed n ls" "CHR 0xFF \<notin> set s"
  shows "nofault (check_next ls s) (\<lambda>(b, ls1). lexed n ls1)"
proof (cases "char_of_int (current ls) \<in> set s \<or> char_of_int (current ls) = NUL")
  case True
  then have c: "current ls \<noteq> EOZ" using assms(2) char_of_EOZ by auto
  have w: "wf_lex ls" "rem_c ls - 1 \<le> n" using assms(1) by (auto simp: lexed_def)
  have "nofault (ebind (save_and_next ls) (\<lambda>a. Inr (True, a))) (\<lambda>(b, ls1). lexed n ls1)"
    by (rule nofault_ebindI [OF save_and_next_lexed [OF w(1) c]]) (use w(2) in \<open>auto intro: lexed_mono\<close>)
  moreover have "check_next ls s = ebind (save_and_next ls) (\<lambda>a. Inr (True, a))" using True unfolding check_next_def Let_def by simp
  ultimately show ?thesis by simp
next
  case False
  then show ?thesis using assms(1) by (simp add: check_next_def)
qed

lemma buffreplace_lexed [simp]: "lexed n (buffreplace ls a b) = lexed n ls"
  by (simp add: lexed_def wf_lex_def buffreplace_def rem_c_def)

lemma decpoint_lexed [simp]: "lexed n (ls\<lparr>decpoint := c\<rparr>) = lexed n ls"
  by (simp add: lexed_def rem_c_def)

lemma numeral_end_lexed: "lexed n ls \<Longrightarrow> nofault (let ls = buffreplace ls CHR ''.'' (decpoint ls) in
    case str2d (cstr (buff ls)) of None \<Rightarrow> trydecpoint str2d point ls | Some r \<Rightarrow> Inr (r, ls)) (\<lambda>(r, ls1). lexed n ls1)"
  by (auto simp: Let_def trydecpoint_def split: option.split)

text \<open>The part of \<open>read_numeral\<close> behind the exponent.\<close>

abbreviation numeral_tail :: "(string \<Rightarrow> 64 word option) \<Rightarrow> char \<Rightarrow> LexState \<Rightarrow> (64 word \<times> LexState) lres" where
  "numeral_tail str2d point ls \<equiv> ebind (save_while (\<lambda>c. isalnum c \<or> c = CHR ''_'') ls) (\<lambda>ls. ebind (save ls 0) (\<lambda>ls.
     let ls = buffreplace ls CHR ''.'' (decpoint ls) in
     case str2d (cstr (buff ls)) of None \<Rightarrow> trydecpoint str2d point ls | Some r \<Rightarrow> Inr (r, ls)))"

lemma save_lexed: "lexed n ls \<Longrightarrow> nofault (save ls c) (lexed n)"
  by (rule nofault_mono [OF save_safe]) (auto simp: lexed_def dest: save_rem)

lemma numeral_tail_lexed: "lexed n ls \<Longrightarrow> nofault (numeral_tail str2d point ls) (\<lambda>(r, ls1). lexed n ls1)"
  by (rule nofault_ebindI [OF save_while_lexed], assumption, rule nofault_ebindI [OF save_lexed], assumption, rule numeral_end_lexed)

lemma numeral_exp_lexed: "lexed n ls \<Longrightarrow>
    nofault (if e then ebind (check_next ls ''+-'') (\<lambda>(_, ls). Inr ls) else Inr ls) (lexed n)"
  by (cases e) (auto intro!: nofault_ebindI [OF check_next_lexed])

lemma read_numeral_lexed:
  assumes "wf_lex ls" "current ls \<noteq> EOZ"
  shows "nofault (read_numeral str2d point ls) (\<lambda>(r, ls1). lexed (rem_c ls - 1) ls1)"
  unfolding read_numeral_def
proof (rule nofault_ebindI [OF save_and_next_lexed [OF assms]], rule nofault_ebindI [OF save_while_lexed], assumption)
  let ?n = "rem_c ls - 1"
  fix b assume b: "lexed ?n b"
  show "nofault (ebind (check_next b ''Ee'') (\<lambda>(e, ls).
      ebind (if e then ebind (check_next ls ''+-'') (\<lambda>(_, ls). Inr ls) else Inr ls) (numeral_tail str2d point))) (\<lambda>(r, ls1). lexed ?n ls1)"
  proof (rule nofault_ebindI [OF check_next_lexed [OF b]], simp, clarify)
    fix e c assume c: "lexed ?n c"
    show "nofault (ebind (if e then ebind (check_next c ''+-'') (\<lambda>(_, ls). Inr ls) else Inr c) (numeral_tail str2d point))
        (\<lambda>(r, ls1). lexed ?n ls1)"
      by (rule nofault_ebindI [OF numeral_exp_lexed [OF c]]) (rule numeral_tail_lexed)
  qed
qed

lemma le_rem_next [le_rem_intros]: "rem_c ls \<le> n \<Longrightarrow> le_rem n (next_c ls)"
  using next_rem [of ls] by (fastforce simp: le_rem_def)

lemma skip_line_safe: "wf_lex ls \<Longrightarrow> nofault (skip_line ls) wf_lex"
proof (induction "rem_c ls" arbitrary: ls rule: less_induct)
  case less
  show ?case unfolding skip_line.simps [of ls]
    using less.prems by (auto intro!: nofault_bind_same next_safe less.hyps dest: next_rem)
qed

lemma comment_safe: "wf_lex ls \<Longrightarrow> nofault (comment ls) wf_lex"
proof -
  assume w: "wf_lex ls"
  have "nofault (ebind (skip_sep ls) (\<lambda>(sep, a). let b = a\<lparr>buff := []\<rparr> in
      if sep \<ge> 0 then ebind (read_long_string False sep b) (\<lambda>(_, c). Inr (c\<lparr>buff := []\<rparr>)) else skip_line b)) wf_lex"
    if "current ls \<noteq> EOZ"
  proof (rule nofault_ebindI [OF skip_sep_safe [OF w that]], clarsimp simp: Let_def skip_line_safe)
    fix sep a assume "wf_lex a" "0 \<le> (sep::int)" "current a = current ls"
    then have "nofault (read_long_string False sep (a\<lparr>buff := []\<rparr>)) (\<lambda>(s, b). wf_lex b)" using that by (intro read_long_string_safe) auto
    then show "nofault (ebind (read_long_string False sep (a\<lparr>buff := []\<rparr>)) (\<lambda>(_, c). Inr (c\<lparr>buff := []\<rparr>))) wf_lex"
      by (rule nofault_ebindI) auto
  qed
  then show ?thesis using skip_line_safe [OF w] by (auto simp: comment_def)
qed

section \<open>A token is safe and leaves less to read\<close>

text \<open>Every token but the end of the stream leaves less than \<open>n\<close> characters.\<close>

definition lex_post :: "nat \<Rightarrow> Token \<times> LexState \<Rightarrow> bool" where
  "lex_post n = (\<lambda>(tok, ls1). wf_lex ls1 \<and> (if token tok = TK_EOS then current ls1 = EOZ else rem_c ls1 < n))"

lemmas token_codes = TK_CONCAT_def TK_DOTS_def TK_EQ_def TK_GE_def TK_LE_def TK_NE_def TK_NUMBER_def TK_NAME_def
  TK_STRING_def TK_EOS_def FIRST_RESERVED_def

lemma lex_post_mono: "lex_post m r \<Longrightarrow> m \<le> n \<Longrightarrow> lex_post n r"
  by (auto simp: lex_post_def split: prod.splits if_splits)

lemma lexed_post: "lexed (n - 1) ls1 \<Longrightarrow> 0 < n \<Longrightarrow> token tok \<noteq> TK_EOS \<Longrightarrow> lex_post n (tok, ls1)"
  by (auto simp: lexed_def lex_post_def)

lemma lexed_post_bind:
  "nofault r (\<lambda>(v, ls1). lexed (n - 1) ls1) \<Longrightarrow> 0 < n \<Longrightarrow> (\<And>v. token (f v) \<noteq> TK_EOS) \<Longrightarrow>
   nofault (ebind r (\<lambda>(v, ls1). Inr (f v, ls1))) (lex_post n)"
  by (erule nofault_ebindI) (auto simp: lexed_def lex_post_def)

lemma with_eq_safe:
  assumes "wf_lex ls" "current ls \<noteq> EOZ" "t1 \<noteq> TK_EOS" "t2 \<noteq> TK_EOS"
  shows "nofault (with_eq ls t1 t2) (lex_post (rem_c ls))"
  unfolding with_eq_def
proof (rule nofault_ebindI [OF next_lexed [OF assms(1,2)]])
  fix a assume a: "lexed (rem_c ls - 1) a"
  have "nofault (ebind (next_c a) (\<lambda>b. Inr (\<lparr>token = t2, seminfo = Sem_none\<rparr>, b))) (lex_post (rem_c ls))" if "current a \<noteq> EOZ"
    by (rule nofault_ebindI [OF next_lexed]) (use a that assms(4) rem_pos [OF assms(2)] in \<open>auto simp: lexed_def lex_post_def\<close>)
  then show "nofault (if \<not> cur a CHR ''='' then Inr (\<lparr>token = t1, seminfo = Sem_none\<rparr>, a)
      else ebind (next_c a) (\<lambda>b. Inr (\<lparr>token = t2, seminfo = Sem_none\<rparr>, b))) (lex_post (rem_c ls))"
    using lexed_post [OF a rem_pos [OF assms(2)]] assms(3) by auto
qed

lemma index_in_less: "index_in xs s = Some i \<Longrightarrow> i < length xs"
  by (induction xs arbitrary: i) (auto split: if_splits)

lemma reserved_le: "reserved s \<le> 21"
  using index_in_less [of "take NUM_RESERVED luaX_tokens" s] by (auto simp: reserved_def NUM_RESERVED_def split: option.split)

lemma lex_name_safe:
  assumes "wf_lex ls" "current ls \<noteq> EOZ"
  shows "nofault (lex_name ls) (lex_post (rem_c ls))"
  unfolding lex_name_def
proof (rule nofault_ebindI [OF save_and_next_lexed [OF assms]], rule nofault_ebindI [OF save_while_lexed], assumption)
  fix b assume "lexed (rem_c ls - 1) b"
  then show "nofault (let ts = buff b in Inr (if reserved ts > 0 then \<lparr>token = int (reserved ts) - 1 + FIRST_RESERVED, seminfo = Sem_none\<rparr>
      else \<lparr>token = TK_NAME, seminfo = Sem_ts ts\<rparr>, b)) (lex_post (rem_c ls))"
    using reserved_le [of "buff b"] by (auto simp: Let_def token_codes intro!: lexed_post rem_pos [OF assms(2)])
qed

lemma dot_lexed: "lexed n ls \<Longrightarrow> nofault (check_next ls ''.'') (\<lambda>(b, ls1). lexed n ls1)"
  by (rule check_next_lexed) auto

lemma numeral_post:
  assumes "wf_lex ls" "current ls \<noteq> EOZ" "rem_c ls \<le> n"
  shows "nofault (ebind (read_numeral str2d point ls) (\<lambda>(r, ls1). Inr (\<lparr>token = TK_NUMBER, seminfo = Sem_r r\<rparr>, ls1))) (lex_post n)"
  by (rule nofault_mono [OF lexed_post_bind [OF read_numeral_lexed [OF assms(1,2)]]])
    (use assms(3) rem_pos [OF assms(2)] in \<open>auto simp: token_codes intro: lex_post_mono\<close>)

lemma lex_dot_safe:
  assumes "wf_lex ls" "current ls \<noteq> EOZ"
  shows "nofault (lex_dot str2d point ls) (lex_post (rem_c ls))"
  unfolding lex_dot_def
proof (rule nofault_ebindI [OF save_and_next_lexed [OF assms]], rule nofault_ebindI [OF dot_lexed], assumption, clarify)
  fix d b assume b: "lexed (rem_c ls - 1) b"
  have dots: "nofault (ebind (check_next b ''.'') (\<lambda>(d2, ls3). Inr (\<lparr>token = (if d2 then TK_DOTS else TK_CONCAT), seminfo = Sem_none\<rparr>, ls3)))
      (lex_post (rem_c ls))"
    by (rule lexed_post_bind [OF dot_lexed [OF b] rem_pos [OF assms(2)]]) (simp add: token_codes)
  have num: "nofault (ebind (read_numeral str2d point b) (\<lambda>(r, ls3). Inr (\<lparr>token = TK_NUMBER, seminfo = Sem_r r\<rparr>, ls3))) (lex_post (rem_c ls))"
    if "cur_is isdigit b" by (rule numeral_post) (use b that in \<open>auto simp: lexed_def cur_is_def\<close>)
  have dot: "lex_post (rem_c ls) (\<lparr>token = char2int CHR ''.'', seminfo = Sem_none\<rparr>, b)"
    by (rule lexed_post [OF b rem_pos [OF assms(2)]]) (use char2int_small [of "CHR ''.''"] in \<open>simp add: token_codes\<close>)
  show "nofault (if d then ebind (check_next b ''.'') (\<lambda>(d2, ls3). Inr (\<lparr>token = (if d2 then TK_DOTS else TK_CONCAT), seminfo = Sem_none\<rparr>, ls3))
      else if \<not> cur_is isdigit b then Inr (\<lparr>token = char2int CHR ''.'', seminfo = Sem_none\<rparr>, b)
      else ebind (read_numeral str2d point b) (\<lambda>(r, ls3). Inr (\<lparr>token = TK_NUMBER, seminfo = Sem_r r\<rparr>, ls3))) (lex_post (rem_c ls))"
    using dots num dot by auto
qed

text \<open>A long string leaves less than its opening bracket did.\<close>

lemma read_long_string_rem: "read_long_string str sep ls = Inr (s, ls1) \<Longrightarrow> rem_c ls1 \<le> rem_c ls"
proof -
  assume "read_long_string str sep ls = Inr (s, ls1)"
  then obtain a b where a: "save_and_next ls = Inr a" and b: "(if currIsNewline a then inclinenumber a else Inr a) = Inr b"
    and c: "long_loop str sep b = Inr ls1"
    by (auto simp: read_long_string_def ebind_Inr_iff Let_def)
  have "rem_c b \<le> rem_c a" using b inclinenumber_rem by (fastforce split: if_splits)
  moreover have "rem_c ls1 \<le> rem_c b" using long_loop_rem [of b "rem_c b" str sep] c by (auto simp: le_rem_def)
  ultimately show ?thesis using save_and_next_rem [OF a] by simp
qed

lemma read_string_rem: "read_string del ls = Inr (s, ls1) \<Longrightarrow> rem_c ls1 < rem_c ls"
proof -
  assume "read_string del ls = Inr (s, ls1)"
  then obtain a b where a: "save_and_next ls = Inr a" and b: "string_loop del a = Inr b" and c: "save_and_next b = Inr ls1"
    by (auto simp: read_string_def ebind_Inr_iff)
  have "rem_c b \<le> rem_c a" using string_loop_rem [of a "rem_c a" del] b by (auto simp: le_rem_def)
  then show ?thesis using save_and_next_rem [OF a] save_and_next_rem [OF c] by simp
qed

lemma long_token_safe:
  assumes "wf_lex ls" "current ls \<noteq> EOZ"
  shows "nofault (ebind (skip_sep ls) (\<lambda>(sep, ls1).
      if sep \<ge> 0 then ebind (read_long_string True sep ls1) (\<lambda>(s, ls2). Inr (\<lparr>token = TK_STRING, seminfo = Sem_ts s\<rparr>, ls2))
      else if sep = - 1 then Inr (\<lparr>token = char2int CHR ''['', seminfo = Sem_none\<rparr>, ls1)
      else luaX_lexerror ''invalid long string delimiter'')) (lex_post (rem_c ls))"
proof (rule nofault_ebindI [OF skip_sep_safe [OF assms]], clarify)
  fix sep a assume sk: "skip_sep ls = Inr (sep, a)" and a: "wf_lex a" and e: "0 \<le> sep \<longrightarrow> current a = current ls"
  have r: "rem_c a < rem_c ls" using skip_sep_rem [OF sk] .
  have "nofault (ebind (read_long_string True sep a) (\<lambda>(s, ls2). Inr (\<lparr>token = TK_STRING, seminfo = Sem_ts s\<rparr>, ls2))) (lex_post (rem_c ls))"
    if "0 \<le> sep"
    by (rule nofault_ebindI [OF read_long_string_safe [OF that a]])
      (use e that assms(2) r read_long_string_rem in \<open>fastforce simp: lex_post_def token_codes\<close>)+
  then show "nofault (if sep \<ge> 0 then ebind (read_long_string True sep a) (\<lambda>(s, ls2). Inr (\<lparr>token = TK_STRING, seminfo = Sem_ts s\<rparr>, ls2))
      else if sep = - 1 then Inr (\<lparr>token = char2int CHR ''['', seminfo = Sem_none\<rparr>, a)
      else luaX_lexerror ''invalid long string delimiter'') (lex_post (rem_c ls))"
    using a r char2int_small [of "CHR ''[''"] by (simp add: lex_post_def token_codes)
qed

lemma string_token_safe:
  assumes "wf_lex ls" "current ls \<noteq> EOZ"
  shows "nofault (ebind (read_string (current ls) ls) (\<lambda>(s, ls1). Inr (\<lparr>token = TK_STRING, seminfo = Sem_ts s\<rparr>, ls1))) (lex_post (rem_c ls))"
  by (rule nofault_ebindI [OF read_string_safe [OF assms assms(2)]]) (auto simp: lex_post_def token_codes dest: read_string_rem)

lemma char_token_safe:
  assumes "wf_lex ls" "current ls \<noteq> EOZ"
  shows "nofault (let c = current ls in ebind (next_c ls) (\<lambda>ls1. Inr (\<lparr>token = c, seminfo = Sem_none\<rparr>, ls1))) (lex_post (rem_c ls))"
  unfolding Let_def by (rule nofault_ebindI [OF next_lexed [OF assms]], simp, rule lexed_post)
    (use assms in \<open>auto simp: wf_lex_def token_codes intro: rem_pos\<close>)

lemma not_EOS: "TK_EQ \<noteq> TK_EOS" "TK_LE \<noteq> TK_EOS" "TK_GE \<noteq> TK_EOS" "TK_NE \<noteq> TK_EOS" "char2int c \<noteq> TK_EOS"
  using char2int_small [of c] by (simp_all add: token_codes)

lemma nofault_if: "(b \<Longrightarrow> nofault r1 P) \<Longrightarrow> (\<not> b \<Longrightarrow> nofault r2 P) \<Longrightarrow> nofault (if b then r1 else r2) P"
  by simp

lemma llex_loop_safe: "wf_lex ls \<Longrightarrow> nofault (llex_loop str2d point ls) (lex_post (rem_c ls))"
proof (induction "rem_c ls" arbitrary: ls rule: less_induct)
  case less
  note w = less.prems
  have again: "nofault (llex_loop str2d point a) (lex_post (rem_c ls))" if "wf_lex a" "rem_c a < rem_c ls" for a
    by (rule nofault_mono [OF less.hyps [OF that(2,1)]]) (use that(2) in \<open>auto intro: lex_post_mono\<close>)
  have retry: "nofault (ebind r (llex_loop str2d point)) (lex_post (rem_c ls))"
    if "nofault r wf_lex" "\<And>a. r = Inr a \<Longrightarrow> rem_c a < rem_c ls" for r
    by (rule nofault_bind_same [OF that(1)]) (use that(2) again in auto)
  have minus: "nofault (ebind (next_c ls) (\<lambda>a.
          if \<not> cur a CHR ''-'' then Inr (\<lparr>token = char2int CHR ''-'', seminfo = Sem_none\<rparr>, a)
          else ebind (next_c a) (\<lambda>b. ebind (comment b) (llex_loop str2d point)))) (lex_post (rem_c ls))" if "current ls \<noteq> EOZ"
  proof (rule nofault_ebindI [OF next_lexed [OF w that]], rule nofault_if)
    fix a assume a: "lexed (rem_c ls - 1) a"
    show "nofault (Inr (\<lparr>token = char2int CHR ''-'', seminfo = Sem_none\<rparr>, a)) (lex_post (rem_c ls))"
      using lexed_post [OF a rem_pos [OF that]] char2int_small [of "CHR ''-''"] by (simp add: token_codes)
    assume "\<not> \<not> cur a CHR ''-''"
    then have "nofault (next_c a) wf_lex" using a next_safe by (auto simp: lexed_def)
    then show "nofault (ebind (next_c a) (\<lambda>b. ebind (comment b) (llex_loop str2d point))) (lex_post (rem_c ls))"
    proof (rule nofault_bind_same, intro retry comment_safe)
      fix b c assume "next_c a = Inr b" "comment b = Inr c"
      then show "rem_c c < rem_c ls" using next_rem comment_rem a rem_pos [OF that] by (fastforce simp: lexed_def)
    qed
  qed
  show ?case
  proof (cases "current ls = EOZ")
    case True
    then have "\<not> currIsNewline ls" by (simp add: currIsNewline_def)
    then show ?thesis using True w by (simp add: llex_loop.simps [of str2d point ls] lex_post_def)
  next
    case False
    show ?thesis unfolding llex_loop.simps [of str2d point ls] using False w
      by (intro nofault_if minus long_token_safe with_eq_safe string_token_safe lex_dot_safe numeral_post lex_name_safe char_token_safe
          retry inclinenumber_safe next_safe)
        (auto simp: not_EOS dest: inclinenumber_rem next_rem)
  qed
qed

section \<open>What a token is read as\<close>

text \<open>The characters that the analyser has still to see, the current one first.\<close>

definition feeds :: "LexState \<Rightarrow> string \<Rightarrow> bool" where
  "feeds ls r \<longleftrightarrow> (case r of [] \<Rightarrow> current ls = EOZ \<and> ls_z ls = [] | c # cs \<Rightarrow> current ls = char2int c \<and> ls_z ls = cs)"

definition lx :: "LexState \<Rightarrow> string \<Rightarrow> string \<Rightarrow> int \<Rightarrow> bool" where
  "lx ls r b n \<longleftrightarrow> wf_lex ls \<and> feeds ls r \<and> buff ls = b \<and> linenumber ls = n"

lemma feeds_Cons [simp]: "feeds ls (c # r) \<longleftrightarrow> current ls = char2int c \<and> ls_z ls = r"
  by (simp add: feeds_def)

lemma char_of_char2int [simp]: "char_of_int (char2int c) = c"
  by (simp add: char_of_int_def char2int_def)

lemma next_lx: "lx ls (c # r) b n \<Longrightarrow> \<exists>ls1. next_c ls = Inr ls1 \<and> lx ls1 r b n"
  using wf_read [of ls] by (auto simp: lx_def next_c_def read_char_def feeds_def EOZ_not_char [symmetric] split: list.splits)

lemma save_lx: "lx ls r b n \<Longrightarrow> length b < MAX_SIZET div 2 \<Longrightarrow> \<exists>ls1. save ls k = Inr ls1 \<and> lx ls1 r (b @ [char_of_int k]) n"
  by (cases r) (auto simp: lx_def save_def wf_lex_def feeds_def luaX_lexerror_def)

lemma save_and_next_lx:
  "lx ls (c # r) b n \<Longrightarrow> length b < MAX_SIZET div 2 \<Longrightarrow> \<exists>ls1. save_and_next ls = Inr ls1 \<and> lx ls1 r (b @ [c]) n"
proof -
  assume l: "lx ls (c # r) b n" and b: "length b < MAX_SIZET div 2"
  from save_lx [OF this, of "current ls"] obtain a where a: "save ls (current ls) = Inr a" "lx a (c # r) (b @ [char_of_int (current ls)]) n" by blast
  then show ?thesis using next_lx [OF a(2)] l by (auto simp: save_and_next_def lx_def)
qed

lemma inclinenumber_lx:
  assumes "lx ls (c # r) b n" "r = [] \<or> hd r \<notin> {CHR 0x0A, CHR 0x0D}" "n + 1 < MAX_INT"
  shows "\<exists>ls1. inclinenumber ls = Inr ls1 \<and> lx ls1 r b (n + 1)"
proof -
  from next_lx [OF assms(1)] obtain a where a: "next_c ls = Inr a" "lx a r b n" by blast
  have "\<not> currIsNewline a" using a(2) assms(2) by (cases r) (auto simp: lx_def currIsNewline_def feeds_def dest: arg_cong [where f = char_of_int])
  then show ?thesis using a assms(3) by (cases r) (auto simp: inclinenumber_def Let_def lx_def feeds_def)
qed

lemma save_while_lx:
  "lx ls (s @ r) b n \<Longrightarrow> list_all P s \<Longrightarrow> r = [] \<or> \<not> P (hd r) \<Longrightarrow> length b + length s \<le> MAX_SIZET div 2 \<Longrightarrow>
   \<exists>ls1. save_while P ls = Inr ls1 \<and> lx ls1 r (b @ s) n"
proof (induction s arbitrary: ls b)
  case Nil
  then have "\<not> cur_is P ls" by (cases r) (auto simp: lx_def cur_is_def feeds_def)
  then show ?case using Nil.prems(1) by (simp add: save_while.simps [of P ls])
next
  case (Cons c s)
  have "cur_is P ls" using Cons.prems(1,2) by (simp add: lx_def cur_is_def)
  moreover from Cons.prems(1,4) obtain a where a: "save_and_next ls = Inr a" "lx a (s @ r) (b @ [c]) n"
    using save_and_next_lx [of ls c "s @ r" b n] by auto
  moreover obtain ls1 where "save_while P a = Inr ls1" "lx ls1 r ((b @ [c]) @ s) n"
    using Cons.IH [OF a(2)] Cons.prems(2,3,4) by auto
  ultimately show ?case by (simp add: save_while.simps [of P ls])
qed

lemma char2int_inject [simp]: "char2int c = char2int d \<longleftrightarrow> c = d"
  by (metis char_of_char2int)

definition ident_start :: "char \<Rightarrow> bool" where
  "ident_start c \<longleftrightarrow> isalpha c \<or> c = CHR ''_''"

definition ident_char :: "char \<Rightarrow> bool" where
  "ident_char c \<longleftrightarrow> isalnum c \<or> c = CHR ''_''"

lemma ident_start_code: "ident_start c \<Longrightarrow> 65 \<le> (of_char c :: nat) \<and> (of_char c :: nat) \<le> 122 \<and>
    (of_char c :: nat) \<notin> {91, 93}"
  by (auto simp: ident_start_def isalpha_def islower_def isupper_def)

lemma ident_start_not:
  assumes "ident_start c"
  shows "c \<notin> {CHR 0x0A, CHR 0x0D, CHR ''-'', CHR ''['', CHR ''='', CHR ''<'', CHR ''>'', CHR ''~'', CHR 0x22, CHR 0x27, CHR ''.''}"
    "\<not> isspace (char2int c)" "\<not> isdigit c"
proof -
  note code = ident_start_code [OF assms]
  show "c \<notin> {CHR 0x0A, CHR 0x0D, CHR ''-'', CHR ''['', CHR ''='', CHR ''<'', CHR ''>'', CHR ''~'', CHR 0x22, CHR 0x27, CHR ''.''}"
    using code by auto
  have "char2int c = int (of_char c)" by (simp only: char2int_def of_nat_of_char)
  then show "\<not> isspace (char2int c)" using code by (simp only: isspace_def) linarith
  show "\<not> isdigit c" using code by (simp add: isdigit_def)
qed

lemma index_in_nth: "index_in xs s = Some i \<Longrightarrow> xs ! i = s"
  by (induction xs arbitrary: i) (auto split: if_splits)

lemma index_in_None: "index_in xs s = None \<longleftrightarrow> s \<notin> set xs"
  by (induction xs) auto

lemma reserved_token:
  "s \<in> set (take NUM_RESERVED luaX_tokens) \<Longrightarrow> 0 < reserved s \<and> luaX_token2str num2str (int (reserved s) - 1 + FIRST_RESERVED) = s"
  "s \<notin> set (take NUM_RESERVED luaX_tokens) \<Longrightarrow> reserved s = 0"
proof -
  assume "s \<in> set (take NUM_RESERVED luaX_tokens)"
  then obtain i where i: "index_in (take NUM_RESERVED luaX_tokens) s = Some i" by (metis index_in_None not_Some_eq)
  have "luaX_tokens ! i = s" using index_in_nth [OF i] index_in_less [OF i] by simp
  then show "0 < reserved s \<and> luaX_token2str num2str (int (reserved s) - 1 + FIRST_RESERVED) = s"
    using i by (simp add: reserved_def luaX_token2str_def)
qed (use index_in_None [of "take NUM_RESERVED luaX_tokens" s] in \<open>simp add: reserved_def\<close>)

lemma llex_loop_ident:
  assumes "lx ls (c # s) b n" "ident_start c"
  shows "llex_loop str2d point ls = lex_name ls"
proof -
  have "current ls = char2int c" using assms(1) by (simp add: lx_def)
  then show ?thesis using ident_start_not [OF assms(2)] assms(2)
    by (simp add: llex_loop.simps [of str2d point ls] currIsNewline_def cur_is_def ident_start_def EOZ_not_char [symmetric])
qed

lemma lex_name_lx:
  assumes "lx ls (s @ r) [] n" "s \<noteq> []" "list_all ident_char s" "r = [] \<or> \<not> ident_char (hd r)" "length s \<le> MAX_SIZET div 2"
  shows "\<exists>ls1. lex_name ls = Inr (if reserved s > 0 then \<lparr>token = int (reserved s) - 1 + FIRST_RESERVED, seminfo = Sem_none\<rparr>
      else \<lparr>token = TK_NAME, seminfo = Sem_ts s\<rparr>, ls1) \<and> lx ls1 r s n"
proof -
  obtain c cs where s: "s = c # cs" using assms(2) by (cases s) auto
  have "lx ls (c # (cs @ r)) [] n" "0 < MAX_SIZET div 2" using assms(1) by (simp_all add: s MAX_SIZET_def)
  from save_and_next_lx [OF this(1)] this(2) obtain a where a: "save_and_next ls = Inr a" "lx a (cs @ r) [c] n" by auto
  have P: "(\<lambda>c. isalnum c \<or> c = CHR ''_'') = ident_char" by (auto simp: ident_char_def)
  obtain ls1 where l: "save_while ident_char a = Inr ls1" "lx ls1 r s n"
    using save_while_lx [OF a(2), of ident_char] assms(3,4,5) by (auto simp: s)
  then have "buff ls1 = s" by (simp add: lx_def)
  then show ?thesis using a(1) l by (simp add: lex_name_def P Let_def)
qed

lemma llex_lx: "wf_lex ls \<Longrightarrow> feeds ls r \<Longrightarrow> lx (ls\<lparr>buff := []\<rparr>) r [] (linenumber ls)"
  by (cases r) (simp_all add: lx_def feeds_def)

lemma check_next_lx_True:
  assumes "lx ls (c # r) b n" "c \<in> set s \<or> c = NUL" "length b < MAX_SIZET div 2"
  shows "\<exists>ls1. check_next ls s = Inr (True, ls1) \<and> lx ls1 r (b @ [c]) n"
proof -
  have "current ls = char2int c" using assms(1) by (simp add: lx_def)
  then have "check_next ls s = ebind (save_and_next ls) (\<lambda>a. Inr (True, a))" using assms(2) unfolding check_next_def Let_def by simp
  then show ?thesis using save_and_next_lx [OF assms(1,3)] by auto
qed

lemma check_next_lx_False:
  assumes "lx ls r b n" "r = [] \<or> hd r \<notin> set s \<and> hd r \<noteq> NUL" "CHR 0xFF \<notin> set s"
  shows "check_next ls s = Inr (False, ls)"
  using assms by (cases r) (auto simp: check_next_def Let_def lx_def feeds_def char_of_EOZ)

text \<open>The analyser reads what the stream delivers.\<close>

context char_stream
begin

lemma read_char_getc:
  assumes "inv s" "left s = ls_z ls"
  shows "\<exists>s1. getc s = Inr (current (read_char ls), s1) \<and> (current (read_char ls) = EOZ \<or> inv s1 \<and> left s1 = ls_z (read_char ls))"
  using assms getc_end [of s] getc_char [of s] by (cases "ls_z ls") (auto simp: read_char_def)

end

text \<open>A state before the first input.\<close>

definition lex_state0 :: LexState where
  "lex_state0 = \<lparr>current = EOZ, linenumber = 0, lastline = 0, ls_t = \<lparr>token = 0, seminfo = Sem_none\<rparr>,
     lookahead = \<lparr>token = 0, seminfo = Sem_none\<rparr>, ls_z = [], buff = [], buffsize = 0, decpoint = CHR ''.''\<rparr>"

section \<open>Properties\<close>



text \<open>
  An identifier that ends where no letter, digit or underscore follows is read up to its end: as the
  token of the reserved word that is spelt like it, or as a name with the text as its value.
\<close>

theorem llex_reads_name:
  assumes "wf_lex ls" "feeds ls (s @ r)" "s \<noteq> []" "ident_start (hd s)" "list_all ident_char s" "r = [] \<or> \<not> ident_char (hd r)"
    "length s \<le> MAX_SIZET div 2"
  shows "\<exists>tok ls1. llex str2d point ls = Inr (tok, ls1) \<and> wf_lex ls1 \<and> feeds ls1 r \<and>
    (if s \<in> set (take NUM_RESERVED luaX_tokens) then luaX_token2str num2str (token tok) = s
     else token tok = TK_NAME \<and> seminfo tok = Sem_ts s)"
proof -
  let ?ls = "ls\<lparr>buff := []\<rparr>"
  have l: "lx ?ls (s @ r) [] (linenumber ls)" using llex_lx assms(1,2) by blast
  have "lx ?ls (hd s # (tl s @ r)) [] (linenumber ls)" using l assms(3) by (cases s) auto
  then have "llex str2d point ls = lex_name ?ls" unfolding llex_def using assms(4) by (rule llex_loop_ident)
  with lex_name_lx [OF l assms(3,5-7)] obtain ls1 where r: "llex str2d point ls = Inr (if reserved s > 0
      then \<lparr>token = int (reserved s) - 1 + FIRST_RESERVED, seminfo = Sem_none\<rparr> else \<lparr>token = TK_NAME, seminfo = Sem_ts s\<rparr>, ls1)"
    "lx ls1 r s (linenumber ls)" by auto
  show ?thesis
  proof (cases "s \<in> set (take NUM_RESERVED luaX_tokens)")
    case True
    then show ?thesis using r reserved_token(1) [OF True, of num2str] by (auto simp: lx_def)
  next
    case False
    then show ?thesis using r reserved_token(2) [OF False] by (auto simp: lx_def)
  qed
qed

theorem llex_reads_name_witness:
  "\<exists>tok ls1. llex (\<lambda>s. None) CHR ''.'' (luaX_setinput lex_state0 ''while(x)'') = Inr (tok, ls1) \<and> wf_lex ls1 \<and>
     feeds ls1 ''(x)'' \<and>
     (if ''while'' \<in> set (take NUM_RESERVED luaX_tokens) then luaX_token2str (\<lambda>n. []) (token tok) = ''while''
      else token tok = TK_NAME \<and> seminfo tok = Sem_ts ''while'')"
proof (rule llex_reads_name)
  show "wf_lex (luaX_setinput lex_state0 ''while(x)'')" "feeds (luaX_setinput lex_state0 ''while(x)'') (''while'' @ ''(x)'')"
    using char2int_small [of "CHR ''w''"] by (simp_all add: luaX_setinput_def read_char_def wf_lex_def LUA_MINBUFFER_def lex_state0_def)
  show "''while'' \<noteq> []" "ident_start (hd ''while'')" "list_all ident_char ''while''" "''(x)'' = [] \<or> \<not> ident_char (hd ''(x)'')"
    "length ''while'' \<le> MAX_SIZET div 2"
    by (simp_all add: ident_start_def ident_char_def isalnum_def isalpha_def islower_def isupper_def isdigit_def MAX_SIZET_def)
qed

text \<open>
  A dot that a null character follows is read as the operator of concatenation, because \<open>check_next\<close> looks the
  character up with \<open>strchr\<close>, which finds the null character at the end of the set.
\<close>

theorem llex_dot_null:
  assumes "wf_lex ls" "feeds ls (CHR ''.'' # NUL # r)" "r = [] \<or> hd r \<noteq> CHR ''.'' \<and> hd r \<noteq> NUL"
  shows "\<exists>ls1. llex str2d point ls = Inr (\<lparr>token = TK_CONCAT, seminfo = Sem_none\<rparr>, ls1) \<and> feeds ls1 r"
proof -
  let ?ls = "ls\<lparr>buff := []\<rparr>"
  have M: "Suc 0 < MAX_SIZET div 2" by (simp add: MAX_SIZET_def)
  have l: "lx ?ls (CHR ''.'' # NUL # r) [] (linenumber ls)" using llex_lx assms(1,2) by blast
  obtain a where a: "save_and_next ?ls = Inr a" "lx a (NUL # r) [CHR ''.''] (linenumber ls)"
    using save_and_next_lx [OF l] M by auto
  obtain c where c: "check_next a ''.'' = Inr (True, c)" "lx c r [CHR ''.'', NUL] (linenumber ls)"
    using check_next_lx_True [OF a(2), of "''.''"] M by auto
  have "check_next c ''.'' = Inr (False, c)" using check_next_lx_False [OF c(2), of "''.''"] assms(3) by auto
  moreover have "llex str2d point ls = lex_dot str2d point ?ls"
    using assms(2) by (simp add: llex_def llex_loop.simps [of str2d point ?ls] currIsNewline_def)
  ultimately show ?thesis using a c by (simp add: lex_dot_def lx_def)
qed

theorem llex_dot_null_witness:
  "\<exists>ls1. llex (\<lambda>s. None) CHR ''.'' (luaX_setinput lex_state0 [CHR ''.'', NUL, CHR ''x'']) =
     Inr (\<lparr>token = TK_CONCAT, seminfo = Sem_none\<rparr>, ls1) \<and> feeds ls1 ''x''"
proof (rule llex_dot_null)
  show "wf_lex (luaX_setinput lex_state0 [CHR ''.'', NUL, CHR ''x''])" "feeds (luaX_setinput lex_state0 [CHR ''.'', NUL, CHR ''x'']) [CHR ''.'', NUL, CHR ''x'']"
    using char2int_small [of "CHR ''.''"] by (simp_all add: luaX_setinput_def read_char_def wf_lex_def LUA_MINBUFFER_def lex_state0_def)
qed simp



end
