(* ===== verification/Lformat.thy ===== *)
theory Lformat
  imports Lstrlib Llex
begin

text \<open>
  \<open>string.format\<close> of \<open>liblua/src/lstrlib.c\<close>: the scanner of format items, quoting, and the function itself.

  The arguments behind the format are of any type \<open>'a\<close>; parameters stand for the conversions of the API,
  \<open>lua_tonumber\<close> and \<open>lua_tolstring\<close>, which are \<open>None\<close> for a value that cannot be converted,
  and for \<open>sprintf\<close> of a number, with the conversion to the type that the format asks for.
  \<open>sprintf\<close> of a string is defined here. The buffers \<open>form\<close> and \<open>buff\<close> have their sizes, and a write behind
  their ends is a fault. Integers have the length modifier of a build without \<open>LUA_USELONGLONG\<close>.
\<close>

section \<open>Definitions\<close>

definition MAX_ITEM :: nat where "MAX_ITEM = 512"

definition FLAGS :: string where "FLAGS = ''-+ #0''"

definition LUA_INTFRMLEN :: string where "LUA_INTFRMLEN = ''l''"

definition MAX_FORMAT :: nat where
  "MAX_FORMAT = (length FLAGS + 1) + (length LUA_INTFRMLEN + 1) + 10"

primrec quote_loop :: "string \<Rightarrow> string \<Rightarrow> string" where
  "quote_loop [] b = b"
| "quote_loop (c # s) b = quote_loop s
     (if c = CHR 0x22 \<or> c = CHR 0x5C \<or> c = CHR 0x0A then (b @ [CHR 0x5C]) @ [c]
      else if c = CHR 0x0D then b @ [CHR 0x5C, CHR ''r'']
      else if c = NUL then b @ [CHR 0x5C, CHR ''0'', CHR ''0'', CHR ''0'']
      else b @ [c])"

definition addquoted :: "string \<Rightarrow> string \<Rightarrow> string" where
  "addquoted s b = quote_loop s (b @ [CHR 0x22]) @ [CHR 0x22]"

function skip_flags :: "string \<Rightarrow> nat \<Rightarrow> nat lres" where
  "skip_flags f p = ebind (rd f p) (\<lambda>c. if c \<noteq> NUL \<and> c \<in> set FLAGS then skip_flags f (p + 1) else Inr p)"
  by pat_completeness auto
termination
  by (relation "measure (\<lambda>(f, p). length f - p)") (auto dest: rd_less)

declare skip_flags.simps [simp del]

definition skip_digit :: "string \<Rightarrow> nat \<Rightarrow> nat lres" where
  "skip_digit f p = ebind (rd f p) (\<lambda>c. Inr (if isdigit c then p + 1 else p))"

text \<open>The position of the conversion character, and the string that is left in \<open>form\<close>.\<close>

definition scanformat :: "string \<Rightarrow> nat \<Rightarrow> (nat \<times> string) lres" where
  "scanformat f strfrmt =
     ebind (skip_flags f strfrmt) (\<lambda>p.
     if p - strfrmt \<ge> length FLAGS + 1 then Inl (Runtime ''invalid format (repeated flags)'')
     else ebind (skip_digit f p) (\<lambda>p. ebind (skip_digit f p) (\<lambda>p.
     ebind (rd f p) (\<lambda>c.
     ebind (if c = CHR ''.'' then ebind (skip_digit f (p + 1)) (skip_digit f) else Inr p) (\<lambda>p.
     ebind (rd f p) (\<lambda>c.
     if isdigit c then Inl (Runtime ''invalid format (width or precision too long)'')
     else if 1 + (p - strfrmt + 1) + 1 > MAX_FORMAT then Inl (Fault Out_Of_Bounds)
     else Inr (p, cstr (CHR ''%'' # substr (f @ [NUL]) strfrmt (p - strfrmt + 1)))))))))"

definition addintlen :: "string \<Rightarrow> string lres" where
  "addintlen form =
     (let l = length form in
      if l = 0 \<or> l + length LUA_INTFRMLEN + 1 > MAX_FORMAT then Inl (Fault Out_Of_Bounds)
      else Inr (take (l - 1) form @ LUA_INTFRMLEN @ [form ! (l - 1)]))"

text \<open>The number that a string of digits denotes.\<close>

definition digits_value :: "string \<Rightarrow> nat" where
  "digits_value ds = foldl (\<lambda>n c. 10 * n + (of_char c - 48)) 0 ds"

text \<open>\<open>sprintf\<close> of a string by a format of flags, width and precision.\<close>

definition sprintf_s :: "string \<Rightarrow> string \<Rightarrow> string" where
  "sprintf_s form s =
     (let fl = takeWhile (\<lambda>c. c \<in> set FLAGS) (tl form);
        r = dropWhile (\<lambda>c. c \<in> set FLAGS) (tl form);
        w = takeWhile isdigit r;
        pr = dropWhile isdigit r;
        x = (if pr \<noteq> [] \<and> hd pr = CHR ''.'' then take (digits_value (takeWhile isdigit (tl pr))) (cstr s) else cstr s);
        pad = replicate (digits_value w - length x) CHR '' '' in
      if CHR ''-'' \<in> set fl then x @ pad else pad @ x)"

text \<open>A formatted item is written to \<open>buff\<close> with a terminator and appended up to its first null character.\<close>

definition add_item :: "string \<Rightarrow> string \<Rightarrow> string lres" where
  "add_item x b = (if length x + 1 > MAX_ITEM then Inl (Fault Out_Of_Bounds) else Inr (b @ cstr x))"

definition checknumber :: "('a \<Rightarrow> 64 word option) \<Rightarrow> 'a list \<Rightarrow> nat \<Rightarrow> 64 word lres" where
  "checknumber tonumber args arg =
     (if arg - 2 < length args
      then case tonumber (args ! (arg - 2)) of Some x \<Rightarrow> Inr x | None \<Rightarrow> Inl (Runtime ''number expected'')
      else Inl (Runtime ''number expected''))"

definition checklstring :: "('a \<Rightarrow> string option) \<Rightarrow> 'a list \<Rightarrow> nat \<Rightarrow> string lres" where
  "checklstring tolstring args arg =
     (if arg - 2 < length args
      then case tolstring (args ! (arg - 2)) of Some x \<Rightarrow> Inr x | None \<Rightarrow> Inl (Runtime ''string expected'')
      else Inl (Runtime ''string expected''))"

definition format_item ::
  "('a \<Rightarrow> 64 word option) \<Rightarrow> ('a \<Rightarrow> string option) \<Rightarrow> (string \<Rightarrow> 64 word \<Rightarrow> string) \<Rightarrow> 'a list \<Rightarrow>
   string \<Rightarrow> char \<Rightarrow> nat \<Rightarrow> string \<Rightarrow> string lres" where
  "format_item tonumber tolstring sprintf args form c arg b =
     (if c = CHR ''c'' then ebind (checknumber tonumber args arg) (\<lambda>x. add_item (sprintf form x) b)
      else if c \<in> set ''diouxX'' then
        ebind (addintlen form) (\<lambda>form. ebind (checknumber tonumber args arg) (\<lambda>x. add_item (sprintf form x) b))
      else if c \<in> set ''eEfgG'' then ebind (checknumber tonumber args arg) (\<lambda>x. add_item (sprintf form x) b)
      else if c = CHR ''q'' then ebind (checklstring tolstring args arg) (\<lambda>s. Inr (addquoted s b))
      else if c = CHR ''s'' then
        ebind (checklstring tolstring args arg) (\<lambda>s.
          if CHR ''.'' \<notin> set form \<and> length s \<ge> 100 then Inr (b @ s) else add_item (sprintf_s form s) b)
      else Inl (Runtime (''invalid option '%'' @ [c, CHR 0x27] @ '' to 'format'' @ [CHR 0x27])))"

lemma skip_flags_ge: "skip_flags f p = Inr q \<Longrightarrow> p \<le> q"
proof (induction f p rule: skip_flags.induct)
  case (1 f p)
  show ?case using 1(2) 1(1) unfolding skip_flags.simps [of f p] by (fastforce simp: ebind_Inr_iff split: if_splits)
qed

lemma skip_digit_ge: "skip_digit f p = Inr q \<Longrightarrow> p \<le> q"
  by (auto simp: skip_digit_def ebind_Inr_iff)

lemma scanformat_ge: "scanformat f i = Inr (p, form) \<Longrightarrow> i \<le> p"
  by (auto simp: scanformat_def ebind_Inr_iff dest!: skip_flags_ge skip_digit_ge split: if_splits)

text \<open>The loop of \<open>str_format\<close>.\<close>

function format_loop ::
  "('a \<Rightarrow> 64 word option) \<Rightarrow> ('a \<Rightarrow> string option) \<Rightarrow> (string \<Rightarrow> 64 word \<Rightarrow> string) \<Rightarrow> 'a list \<Rightarrow>
   string \<Rightarrow> nat \<Rightarrow> nat \<Rightarrow> string \<Rightarrow> string lres" where
  "format_loop tonumber tolstring sprintf args f i arg b =
     (if i < length f then
        if f ! i \<noteq> L_ESC then format_loop tonumber tolstring sprintf args f (i + 1) arg (b @ [f ! i])
        else ebind (rd f (i + 1)) (\<lambda>c.
          if c = L_ESC then format_loop tonumber tolstring sprintf args f (i + 2) arg (b @ [c])
          else ebind (scanformat f (i + 1)) (\<lambda>(p, form). ebind (rd f p) (\<lambda>conv.
            ebind (format_item tonumber tolstring sprintf args form conv (arg + 1) b)
              (format_loop tonumber tolstring sprintf args f (p + 1) (arg + 1)))))
      else Inr b)"
  by pat_completeness auto
termination
  by (relation "measure (\<lambda>(tonumber, tolstring, sprintf, args, f, i, arg, b). length f - i)") (auto dest: scanformat_ge)

declare format_loop.simps [simp del]

definition str_format ::
  "('a \<Rightarrow> 64 word option) \<Rightarrow> ('a \<Rightarrow> string option) \<Rightarrow> (string \<Rightarrow> 64 word \<Rightarrow> string) \<Rightarrow> 'a list \<Rightarrow> string \<Rightarrow> string lres" where
  "str_format tonumber tolstring sprintf args f = format_loop tonumber tolstring sprintf args f 0 1 []"

section \<open>Quoted strings are read back\<close>

definition quoted_char :: "char \<Rightarrow> string" where
  "quoted_char c =
     (if c = CHR 0x22 \<or> c = CHR 0x5C \<or> c = CHR 0x0A then [CHR 0x5C, c]
      else if c = CHR 0x0D then [CHR 0x5C, CHR ''r'']
      else if c = NUL then [CHR 0x5C, CHR ''0'', CHR ''0'', CHR ''0'']
      else [c])"

lemma quote_loop_concat: "quote_loop s b = b @ concat (map quoted_char s)"
  by (induction s arbitrary: b) (simp_all add: quoted_char_def)

abbreviation newlines :: "string \<Rightarrow> int" where
  "newlines s \<equiv> int (length (filter (\<lambda>c. c = CHR 0x0A) s))"

lemma escape_lx_letter:
  assumes "lx ls (CHR ''r'' # t) b n" "length b < MAX_SIZET div 2"
  shows "\<exists>ls1. escape ls = Inr ls1 \<and> lx ls1 t (b @ [CHR 0x0D]) n"
proof -
  obtain a where a: "save ls 13 = Inr a" "lx a (CHR ''r'' # t) (b @ [char_of_int 13]) n" using save_lx [OF assms] by blast
  have "char_of_int 13 = CHR 0x0D" by code_simp
  moreover have "escape ls = ebind (save ls 13) next_c"
    using assms(1) by (simp add: escape_def escape_letter_def lx_def)
  ultimately show ?thesis using a next_lx [OF a(2)] by simp
qed

lemma escape_lx_newline:
  assumes "lx ls (CHR 0x0A # t) b n" "length b < MAX_SIZET div 2" "t = [] \<or> hd t \<notin> {CHR 0x0A, CHR 0x0D}" "n + 1 < MAX_INT"
  shows "\<exists>ls1. escape ls = Inr ls1 \<and> lx ls1 t (b @ [CHR 0x0A]) (n + 1)"
proof -
  obtain a where a: "save ls (char2int CHR 0x0A) = Inr a" "lx a (CHR 0x0A # t) (b @ [CHR 0x0A]) n"
    using save_lx [OF assms(1,2), of "char2int CHR 0x0A"] by auto
  have "escape ls = ebind (save ls (char2int CHR 0x0A)) inclinenumber"
    using assms(1) by (simp add: escape_def escape_letter_def lx_def currIsNewline_def)
  then show ?thesis using a(1) inclinenumber_lx [OF a(2) assms(3,4)] by simp
qed

lemma escape_lx_other:
  assumes "lx ls (c # t) b n" "length b < MAX_SIZET div 2" "c = CHR 0x22 \<or> c = CHR 0x5C"
  shows "\<exists>ls1. escape ls = Inr ls1 \<and> lx ls1 t (b @ [c]) n"
proof -
  have c: "current ls = char2int c" using assms(1) by (simp add: lx_def)
  have "escape_letter (char2int c) = None" "\<not> isdigit c" using assms(3) by (auto simp: escape_letter_def isdigit_def)
  moreover have "c \<noteq> CHR 0x0A" "c \<noteq> CHR 0x0D" using assms(3) by auto
  ultimately have "escape ls = save_and_next ls"
    by (simp add: escape_def c currIsNewline_def cur_is_def EOZ_not_char [symmetric])
  then show ?thesis using save_and_next_lx [OF assms(1,2)] by simp
qed

lemma read_escape_lx:
  assumes "lx ls (CHR ''0'' # t) b n"
  shows "\<exists>ls1. read_escape (Suc k) 0 ls = read_escape k 0 ls1 \<and> lx ls1 t b n"
proof -
  have c: "current ls = char2int CHR ''0''" using assms by (simp add: lx_def)
  then have "cur_is isdigit ls" "current ls = 48" by (simp add: cur_is_def isdigit_def, simp add: c char2int_def)
  then show ?thesis using next_lx [OF assms] by auto
qed

lemma escape_lx_null:
  assumes "lx ls (CHR ''0'' # CHR ''0'' # CHR ''0'' # t) b n" "length b < MAX_SIZET div 2"
  shows "\<exists>ls1. escape ls = Inr ls1 \<and> lx ls1 t (b @ [NUL]) n"
proof -
  obtain x where x: "read_escape (Suc (Suc (Suc 0))) 0 ls = read_escape (Suc (Suc 0)) 0 x" "lx x (CHR ''0'' # CHR ''0'' # t) b n"
    using read_escape_lx [OF assms(1)] by blast
  obtain y where y: "read_escape (Suc (Suc 0)) 0 x = read_escape (Suc 0) 0 y" "lx y (CHR ''0'' # t) b n" using read_escape_lx [OF x(2)] by blast
  obtain z where z: "read_escape (Suc 0) 0 y = read_escape 0 0 z" "lx z t b n" using read_escape_lx [OF y(2)] by blast
  have "read_escape 3 0 ls = Inr (0, z)" using x(1) y(1) z(1) by (simp only: numeral_3_eq_3 read_escape.simps(1))
  moreover have "escape ls = ebind (read_escape 3 0 ls) (\<lambda>(c, ls1). if c > UCHAR_MAX then luaX_lexerror ''escape sequence too large'' else save ls1 c)"
    using assms(1) by (simp add: escape_def escape_letter_def lx_def currIsNewline_def cur_is_def isdigit_def)
  moreover have "char_of_int 0 = NUL" by code_simp
  ultimately show ?thesis using save_lx [OF z(2) assms(2), of 0] by (simp add: UCHAR_MAX_def)
qed

text \<open>One quoted character extends the buffer by the character itself.\<close>

lemma string_loop_quoted:
  assumes l: "lx ls (quoted_char c @ t) b n" and t: "t \<noteq> []" "hd t \<notin> {CHR 0x0A, CHR 0x0D}" and b: "length b < MAX_SIZET div 2"
    and n: "n + 1 < MAX_INT \<or> c \<noteq> CHR 0x0A"
  shows "\<exists>ls1. string_loop (char2int CHR 0x22) ls = string_loop (char2int CHR 0x22) ls1 \<and> lx ls1 t (b @ [c]) (n + newlines [c])"
proof (cases "c \<in> {CHR 0x22, CHR 0x5C, CHR 0x0A, CHR 0x0D, NUL}")
  case True
  then obtain e where e: "quoted_char c = CHR 0x5C # e" by (auto simp: quoted_char_def)
  have ls: "lx ls (CHR 0x5C # (e @ t)) b n" using l e by simp
  then obtain a where a: "next_c ls = Inr a" "lx a (e @ t) b n" using next_lx by blast
  consider "c = CHR 0x22 \<or> c = CHR 0x5C" | "c = CHR 0x0A" | "c = CHR 0x0D" | "c = NUL" using True by blast
  then have "\<exists>ls1. escape a = Inr ls1 \<and> lx ls1 t (b @ [c]) (n + newlines [c])"
  proof cases
    case 1
    then have "e = [c]" using e by (auto simp: quoted_char_def)
    then show ?thesis using escape_lx_other [of a c t b n] a(2) b 1 by auto
  next
    case 2
    then have "e = [CHR 0x0A]" using e by (simp add: quoted_char_def)
    then show ?thesis using escape_lx_newline [of a t b n] a(2) b t n 2 by simp
  next
    case 3
    then have "e = ''r''" using e by (simp add: quoted_char_def)
    then show ?thesis using escape_lx_letter [of a t b n] a(2) b 3 by simp
  next
    case 4
    then have "e = ''000''" using e by (simp add: quoted_char_def)
    then show ?thesis using escape_lx_null [of a t b n] a(2) b 4 by simp
  qed
  moreover have "string_loop (char2int CHR 0x22) ls = ebind (next_c ls) (\<lambda>a. ebind (escape a) (string_loop (char2int CHR 0x22)))"
    using ls by (simp add: string_loop.simps [of "char2int CHR 0x22" ls] lx_def currIsNewline_def)
  ultimately show ?thesis using a(1) by auto
next
  case False
  then have q: "quoted_char c = [c]" by (auto simp: quoted_char_def)
  then have ls: "lx ls (c # t) b n" using l by simp
  have "string_loop (char2int CHR 0x22) ls = ebind (save_and_next ls) (string_loop (char2int CHR 0x22))"
    using ls False by (simp add: string_loop.simps [of "char2int CHR 0x22" ls] lx_def currIsNewline_def)
  then show ?thesis using save_and_next_lx [OF ls b] False by auto
qed

lemma quoted_char_hd: "quoted_char c \<noteq> [] \<and> hd (quoted_char c) \<notin> {CHR 0x0A, CHR 0x0D}"
  by (auto simp: quoted_char_def)

lemma string_loop_reads:
  "lx ls (concat (map quoted_char s) @ CHR 0x22 # r) b n \<Longrightarrow> length b + length s \<le> MAX_SIZET div 2 \<Longrightarrow> n + newlines s < MAX_INT \<Longrightarrow>
   \<exists>ls1. string_loop (char2int CHR 0x22) ls = Inr ls1 \<and> lx ls1 (CHR 0x22 # r) (b @ s) (n + newlines s)"
proof (induction s arbitrary: ls b n)
  case Nil
  then show ?case by (simp add: string_loop.simps [of "char2int CHR 0x22" ls] lx_def)
next
  case (Cons c s)
  let ?t = "concat (map quoted_char s) @ CHR 0x22 # r"
  have t: "?t \<noteq> []" "hd ?t \<notin> {CHR 0x0A, CHR 0x0D}" using quoted_char_hd by (cases s; auto)+
  have n: "n + 1 < MAX_INT \<or> c \<noteq> CHR 0x0A" using Cons.prems(3) by (auto split: if_splits)
  obtain a where a: "string_loop (char2int CHR 0x22) ls = string_loop (char2int CHR 0x22) a" "lx a ?t (b @ [c]) (n + newlines [c])"
    using string_loop_quoted [of ls c ?t b n] Cons.prems t n by auto
  then show ?case using Cons.IH [OF a(2)] Cons.prems(2,3) by (auto simp: add.assoc split: if_splits)
qed

lemma llex_loop_string:
  assumes "lx ls (CHR 0x22 # t) b n"
  shows "llex_loop str2d point ls =
    ebind (read_string (char2int CHR 0x22) ls) (\<lambda>(s, ls1). Inr (\<lparr>token = TK_STRING, seminfo = Sem_ts s\<rparr>, ls1))"
  using assms by (simp add: llex_loop.simps [of str2d point ls] lx_def currIsNewline_def)

lemma read_string_lx:
  assumes l: "lx ls (addquoted s [] @ r) [] n" and s: "length s + 2 \<le> MAX_SIZET div 2" and n: "n + newlines s < MAX_INT"
  shows "\<exists>ls1. read_string (char2int CHR 0x22) ls = Inr (s, ls1) \<and> wf_lex ls1 \<and> feeds ls1 r \<and> linenumber ls1 = n + newlines s"
proof -
  have "lx ls (CHR 0x22 # (concat (map quoted_char s) @ CHR 0x22 # r)) [] n" using l by (simp add: addquoted_def quote_loop_concat)
  then obtain a where a: "save_and_next ls = Inr a" "lx a (concat (map quoted_char s) @ CHR 0x22 # r) [CHR 0x22] n"
    using save_and_next_lx [of ls] s by fastforce
  obtain c where c: "string_loop (char2int CHR 0x22) a = Inr c" "lx c (CHR 0x22 # r) ([CHR 0x22] @ s) (n + newlines s)"
    using string_loop_reads [OF a(2)] s n by auto
  obtain d where d: "save_and_next c = Inr d" "lx d r (([CHR 0x22] @ s) @ [CHR 0x22]) (n + newlines s)"
    using save_and_next_lx [OF c(2)] s by auto
  then show ?thesis using a(1) c(1) by (simp add: read_string_def lx_def)
qed

lemma format_q: "tolstring x = Some s \<Longrightarrow> str_format tonumber tolstring sprintf [x] ''%q'' = Inr (addquoted s [])"
  by (simp add: str_format_def format_loop.simps rd_def scanformat_def skip_flags.simps FLAGS_def skip_digit_def isdigit_def
      MAX_FORMAT_def LUA_INTFRMLEN_def format_item_def checklstring_def)

section \<open>The buffers hold what is written to them\<close>

text \<open>The part \<open>x\<close> of the format from position \<open>p\<close> to \<open>q\<close>, and the character at a position or the terminator.\<close>

definition seg :: "string \<Rightarrow> nat \<Rightarrow> string \<Rightarrow> nat \<Rightarrow> bool" where
  "seg f p x q \<longleftrightarrow> q = p + length x \<and> q \<le> length f \<and> drop p f = x @ drop q f"

definition char_at :: "string \<Rightarrow> nat \<Rightarrow> char" where
  "char_at f p = (if p < length f then f ! p else NUL)"

lemma rd_char_at: "p \<le> length f \<Longrightarrow> rd f p = Inr (char_at f p)"
  by (simp add: rd_def char_at_def)

lemma seg_trans: "seg f p x q \<Longrightarrow> seg f q y r \<Longrightarrow> seg f p (x @ y) r"
  by (simp add: seg_def)

lemma seg_Nil: "p \<le> length f \<Longrightarrow> seg f p [] p"
  by (simp add: seg_def)

lemma seg_one: "char_at f p = c \<Longrightarrow> c \<noteq> NUL \<Longrightarrow> seg f p [c] (p + 1)"
  by (auto simp: seg_def char_at_def Cons_nth_drop_Suc split: if_splits)

lemma seg_hd: "seg f p x q \<Longrightarrow> p < length f \<Longrightarrow> q < length f \<Longrightarrow> hd (x @ [f ! q]) = f ! p"
proof -
  assume s: "seg f p x q" and p: "p < length f"
  have h: "f ! p = hd (drop p f)" using p by (simp add: hd_drop_conv_nth)
  show ?thesis
  proof (cases x)
    case Nil
    then show ?thesis using s by (simp add: seg_def)
  next
    case (Cons a as)
    have "drop p f = x @ drop q f" using s by (simp only: seg_def)
    then show ?thesis using Cons h by simp
  qed
qed

lemma seg_substr: "seg f p x q \<Longrightarrow> q < length f \<Longrightarrow> substr (f @ [NUL]) p (q - p + 1) = x @ [f ! q]"
proof -
  assume s: "seg f p x q" and q: "q < length f"
  have "drop p (f @ [NUL]) = x @ f ! q # (drop (Suc q) f @ [NUL])" using s q by (simp add: seg_def Cons_nth_drop_Suc)
  moreover have "q - p = length x" using s by (simp add: seg_def)
  ultimately show ?thesis by (simp add: substr_def)
qed

lemma FLAGS_not_NUL: "NUL \<notin> set FLAGS" "CHR ''.'' \<notin> set FLAGS"
  by (simp_all add: FLAGS_def)

lemma length_FLAGS: "length FLAGS = 5"
  by (simp add: FLAGS_def)

lemma isdigit_not: "\<not> isdigit NUL" "\<not> isdigit CHR ''.''"
  by (simp_all add: isdigit_def)

lemma skip_flags_seg:
  "p \<le> length f \<Longrightarrow> \<exists>fl q. skip_flags f p = Inr q \<and> seg f p fl q \<and> set fl \<subseteq> set FLAGS \<and> char_at f q \<notin> set FLAGS"
proof (induction f p rule: skip_flags.induct)
  case (1 f p)
  note r = rd_char_at [OF 1(2)]
  show ?case
  proof (cases "char_at f p \<in> set FLAGS")
    case True
    then have nz: "char_at f p \<noteq> NUL" using FLAGS_not_NUL by metis
    have s: "seg f p [char_at f p] (p + 1)" using seg_one [OF refl nz] .
    then have "p + 1 \<le> length f" by (simp add: seg_def)
    then obtain fl q where q: "skip_flags f (p + 1) = Inr q" "seg f (p + 1) fl q" "set fl \<subseteq> set FLAGS" "char_at f q \<notin> set FLAGS"
      using 1(1) [OF r] nz True by blast
    have "skip_flags f p = Inr q" using q(1) nz True by (simp add: skip_flags.simps [of f p] r)
    moreover have "seg f p (char_at f p # fl) q" using seg_trans [OF s q(2)] by simp
    ultimately show ?thesis using q(3,4) True by (metis insert_subset list.simps(15))
  next
    case False
    then have "skip_flags f p = Inr p" by (simp add: skip_flags.simps [of f p] r)
    then show ?thesis using False seg_Nil [OF 1(2)] by (intro exI [of _ "[]"] exI [of _ p]) simp
  qed
qed

lemma skip_digit_seg:
  "p \<le> length f \<Longrightarrow> \<exists>d q. skip_digit f p = Inr q \<and> seg f p d q \<and> list_all isdigit d \<and> length d \<le> 1 \<and> (d = [] \<longrightarrow> \<not> isdigit (char_at f p))"
proof (cases "isdigit (char_at f p)")
  case True
  then have "char_at f p \<noteq> NUL" using isdigit_not by metis
  then have "seg f p [char_at f p] (p + 1)" by (rule seg_one [OF refl])
  moreover assume "p \<le> length f"
  ultimately show ?thesis using True by (intro exI [of _ "[char_at f p]"] exI [of _ "p + 1"]) (simp add: skip_digit_def rd_char_at)
next
  case False
  moreover assume "p \<le> length f"
  ultimately show ?thesis by (intro exI [of _ "[]"] exI [of _ p]) (simp add: skip_digit_def rd_char_at seg_Nil)
qed

lemma skip_digits_seg:
  assumes "p \<le> length f"
  shows "\<exists>w q1 q. skip_digit f p = Inr q1 \<and> skip_digit f q1 = Inr q \<and> seg f p w q \<and> list_all isdigit w \<and> length w \<le> 2"
proof -
  obtain d q where d: "skip_digit f p = Inr q" "seg f p d q" "list_all isdigit d" "length d \<le> 1" using skip_digit_seg [OF assms] by blast
  have "q \<le> length f" using d(2) by (simp add: seg_def)
  then obtain e r where e: "skip_digit f q = Inr r" "seg f q e r" "list_all isdigit e" "length e \<le> 1" using skip_digit_seg by blast
  then show ?thesis using d seg_trans [OF d(2) e(2)] by (intro exI [of _ "d @ e"] exI [of _ q] exI [of _ r]) simp
qed

lemma precision_seg:
  assumes "p \<le> length f"
  shows "\<exists>pr q. (if char_at f p = CHR ''.'' then ebind (skip_digit f (p + 1)) (skip_digit f) else Inr p) = Inr q \<and> seg f p pr q \<and>
    (pr = [] \<and> char_at f p \<noteq> CHR ''.'' \<or> (\<exists>ds. pr = CHR ''.'' # ds \<and> list_all isdigit ds \<and> length ds \<le> 2))"
proof (cases "char_at f p = CHR ''.''")
  case True
  then have s: "seg f p [CHR ''.''] (p + 1)" by (rule seg_one) simp
  then have "p + 1 \<le> length f" by (simp add: seg_def)
  from skip_digits_seg [OF this] obtain ds q1 q where "skip_digit f (p + 1) = Inr q1" "skip_digit f q1 = Inr q" "seg f (p + 1) ds q"
    "list_all isdigit ds" "length ds \<le> 2" by blast
  then show ?thesis using True seg_trans [OF s, of ds q] by (intro exI [of _ "CHR ''.'' # ds"] exI [of _ q]) simp
qed (use assms in \<open>auto intro: seg_Nil\<close>)

text \<open>A format item: flags, a width and a precision of at most two digits, and the conversion character.\<close>

definition item_spec :: "string \<Rightarrow> char \<Rightarrow> bool" where
  "item_spec form c \<longleftrightarrow> (\<exists>fl w pr. form = CHR ''%'' # fl @ w @ pr @ [c] \<and> set fl \<subseteq> set FLAGS \<and> length fl \<le> length FLAGS \<and>
     list_all isdigit w \<and> length w \<le> 2 \<and> hd (w @ pr @ [c]) \<notin> set FLAGS \<and> \<not> isdigit c \<and>
     (pr = [] \<and> c \<noteq> CHR ''.'' \<or> (\<exists>ds. pr = CHR ''.'' # ds \<and> list_all isdigit ds \<and> length ds \<le> 2)))"

lemma scanformat_spec:
  assumes "i \<le> length f"
  shows "nofault (scanformat f i) (\<lambda>(p, form). p \<le> length f \<and> (char_at f p = NUL \<or> item_spec form (char_at f p)))"
proof -
  obtain fl p1 where fl: "skip_flags f i = Inr p1" "seg f i fl p1" "set fl \<subseteq> set FLAGS" "char_at f p1 \<notin> set FLAGS"
    using skip_flags_seg [OF assms] by blast
  have p1: "p1 \<le> length f" "p1 - i = length fl" using fl(2) by (auto simp: seg_def)
  obtain w q p2 where w: "skip_digit f p1 = Inr q" "skip_digit f q = Inr p2" "seg f p1 w p2" "list_all isdigit w" "length w \<le> 2"
    using skip_digits_seg [OF p1(1)] by blast
  have p2: "p2 \<le> length f" using w(3) by (simp add: seg_def)
  obtain pr p3 where pr: "(if char_at f p2 = CHR ''.'' then ebind (skip_digit f (p2 + 1)) (skip_digit f) else Inr p2) = Inr p3" "seg f p2 pr p3"
    "pr = [] \<and> char_at f p2 \<noteq> CHR ''.'' \<or> (\<exists>ds. pr = CHR ''.'' # ds \<and> list_all isdigit ds \<and> length ds \<le> 2)"
    using precision_seg [OF p2] by blast
  have p3: "p3 \<le> length f" using pr(2) by (simp add: seg_def)
  have all: "seg f i (fl @ w @ pr) p3" using seg_trans [OF fl(2) seg_trans [OF w(3) pr(2)]] .
  have len: "length pr \<le> 3" using pr(3) by auto
  have dist: "p3 - i = length fl + length w + length pr" using all by (simp add: seg_def)
  have spec: "item_spec (cstr (CHR ''%'' # substr (f @ [NUL]) i (p3 - i + 1))) (char_at f p3)"
    if k: "length fl \<le> length FLAGS" "\<not> isdigit (char_at f p3)" "char_at f p3 \<noteq> NUL"
  proof -
    have l: "p3 < length f" "f ! p3 = char_at f p3" using k(3) by (auto simp: char_at_def split: if_splits)
    have "p1 < length f" using l(1) w(3) pr(2) by (auto simp: seg_def)
    then have h: "hd (w @ pr @ [char_at f p3]) \<notin> set FLAGS"
      using seg_hd [OF seg_trans [OF w(3) pr(2)] _ l(1)] fl(4) l(2) by (simp add: char_at_def)
    have nz: "NUL \<notin> set (CHR ''%'' # fl @ w @ pr @ [char_at f p3])"
      using fl(3) w(4) pr(3) k(3) FLAGS_not_NUL isdigit_not by (auto simp: list_all_iff)
    have c: "pr = [] \<Longrightarrow> char_at f p3 = char_at f p2" using pr(2) by (simp add: seg_def)
    have "cstr (CHR ''%'' # substr (f @ [NUL]) i (p3 - i + 1)) = CHR ''%'' # fl @ w @ pr @ [char_at f p3]"
      using seg_substr [OF all l(1)] l(2) cstr_id [OF nz] by simp
    then show ?thesis unfolding item_spec_def using fl(3) k w(4,5) h pr(3) c by (intro exI [of _ fl] exI [of _ w] exI [of _ pr]) auto
  qed
  have "item_spec (cstr (CHR ''%'' # substr (f @ [NUL]) i (Suc (length fl + length w + length pr)))) (char_at f p3)"
    if "length fl \<le> 5" "\<not> isdigit (char_at f p3)" "char_at f p3 \<noteq> NUL"
    using spec that by (simp add: dist length_FLAGS)
  then show ?thesis
    using len w(5) p3 by (cases "char_at f p3 = NUL") (auto simp: scanformat_def fl(1) w(1,2) rd_char_at [OF p2] pr(1) rd_char_at [OF p3] p1(2) dist
        MAX_FORMAT_def length_FLAGS LUA_INTFRMLEN_def)
qed

text \<open>The formats that a number is written with.\<close>

definition number_format :: "string \<Rightarrow> bool" where
  "number_format form \<longleftrightarrow> (\<exists>form0 c. c \<in> set ''cdiouxXeEfgG'' \<and> item_spec form0 c \<and> (form = form0 \<or> addintlen form0 = Inr form))"

lemma item_spec_length: "item_spec form c \<Longrightarrow> form \<noteq> [] \<and> length form \<le> 12"
  by (auto simp: item_spec_def length_FLAGS)

lemma addintlen_safe: "item_spec form c \<Longrightarrow> \<exists>form1. addintlen form = Inr form1"
  by (drule item_spec_length) (auto simp: addintlen_def Let_def MAX_FORMAT_def length_FLAGS LUA_INTFRMLEN_def)

lemma digits_value_le: "list_all isdigit w \<Longrightarrow> length w \<le> 2 \<Longrightarrow> digits_value w \<le> 99"
proof -
  assume w: "list_all isdigit w" "length w \<le> 2"
  then consider "w = []" | a where "w = [a]" "isdigit a" | a b where "w = [a, b]" "isdigit a" "isdigit b"
    by (cases w rule: remdups_adj.cases) auto
  then show ?thesis by cases (auto simp: digits_value_def isdigit_def)
qed

lemma sprintf_s_length:
  assumes i: "item_spec form c" and s: "CHR ''.'' \<in> set form \<or> length s < 100"
  shows "length (sprintf_s form s) \<le> 99"
proof -
  obtain fl w pr where f: "form = CHR ''%'' # fl @ w @ pr @ [c]" and fl: "set fl \<subseteq> set FLAGS" and w: "list_all isdigit w" "length w \<le> 2"
    and h: "hd (w @ pr @ [c]) \<notin> set FLAGS" and d: "\<not> isdigit c"
    and pr: "pr = [] \<and> c \<noteq> CHR ''.'' \<or> (\<exists>ds. pr = CHR ''.'' # ds \<and> list_all isdigit ds \<and> length ds \<le> 2)"
    using i unfolding item_spec_def by blast
  have flags: "dropWhile (\<lambda>c. c \<in> set FLAGS) (tl form) = w @ pr @ [c]"
  proof -
    have "dropWhile (\<lambda>c. c \<in> set FLAGS) (tl form) = dropWhile (\<lambda>c. c \<in> set FLAGS) (w @ pr @ [c])" using f fl by (simp add: dropWhile_append2 subset_iff)
    also have "\<dots> = w @ pr @ [c]" using h by (cases "w @ pr @ [c]") auto
    finally show ?thesis .
  qed
  have nd: "\<not> isdigit (hd (pr @ [c]))" using pr d isdigit_not by auto
  have width: "takeWhile isdigit (w @ pr @ [c]) = w" "dropWhile isdigit (w @ pr @ [c]) = pr @ [c]"
    using w(1) nd by (cases "pr @ [c]"; simp add: takeWhile_append2 dropWhile_append2 list_all_iff takeWhile_tail)+
  have len: "length (cstr s) \<le> length s" by (simp add: cstr_def length_takeWhile_le)
  define x where "x = (if hd (pr @ [c]) = CHR ''.'' then take (digits_value (takeWhile isdigit (tl (pr @ [c])))) (cstr s) else cstr s)"
  have "length x \<le> 99"
    using pr
  proof
    assume n: "pr = [] \<and> c \<noteq> CHR ''.''"
    have "CHR ''.'' \<notin> set form" using n f fl w FLAGS_not_NUL isdigit_not by (auto simp: list_all_iff)
    then show ?thesis using n s len by (simp add: x_def)
  next
    assume "\<exists>ds. pr = CHR ''.'' # ds \<and> list_all isdigit ds \<and> length ds \<le> 2"
    then obtain ds where ds: "pr = CHR ''.'' # ds" "list_all isdigit ds" "length ds \<le> 2" by blast
    have "takeWhile isdigit (ds @ [c]) = ds" using ds(2) d by (simp add: takeWhile_append2 list_all_iff)
    then show ?thesis using ds digits_value_le [OF ds(2,3)] by (simp add: x_def)
  qed
  then show ?thesis using digits_value_le [OF w] by (auto simp: sprintf_s_def Let_def flags width x_def)
qed

lemma checknumber_safe: "nofault (checknumber tonumber args arg) (\<lambda>_. True)"
  by (simp add: checknumber_def split: option.split)

lemma checklstring_safe: "nofault (checklstring tolstring args arg) (\<lambda>_. True)"
  by (simp add: checklstring_def split: option.split)

lemma add_number_safe:
  assumes "\<And>form x. number_format form \<Longrightarrow> length (sprintf form x) < MAX_ITEM" "number_format form"
  shows "nofault (ebind (checknumber tonumber args arg) (\<lambda>x. add_item (sprintf form x) b)) (\<lambda>_. True)"
  by (rule nofault_ebindI [OF checknumber_safe]) (use assms(1) [OF assms(2)] in \<open>simp add: add_item_def not_less Suc_le_eq\<close>)

lemma format_item_safe:
  assumes H: "\<And>form x. number_format form \<Longrightarrow> length (sprintf form x) < MAX_ITEM" and c: "c = NUL \<or> item_spec form c"
  shows "nofault (format_item tonumber tolstring sprintf args form c arg b) (\<lambda>_. True)"
proof (cases "c = NUL")
  case True
  then show ?thesis by (simp add: format_item_def)
next
  case False
  then have i: "item_spec form c" using c by blast
  obtain form1 where f1: "addintlen form = Inr form1" using addintlen_safe [OF i] by blast
  have direct: "nofault (ebind (checknumber tonumber args arg) (\<lambda>x. add_item (sprintf form x) b)) (\<lambda>_. True)" if "c \<in> set ''cdiouxXeEfgG''"
    by (rule add_number_safe [OF H]) (use that i in \<open>auto simp: number_format_def\<close>)
  have whole: "nofault (ebind (checknumber tonumber args arg) (\<lambda>x. add_item (sprintf form1 x) b)) (\<lambda>_. True)" if "c \<in> set ''cdiouxXeEfgG''"
    by (rule add_number_safe [OF H]) (use that i f1 in \<open>auto simp: number_format_def\<close>)
  have str: "nofault (ebind (checklstring tolstring args arg) (\<lambda>s.
      if CHR ''.'' \<notin> set form \<and> length s \<ge> 100 then Inr (b @ s) else add_item (sprintf_s form s) b)) (\<lambda>_. True)"
  proof (rule nofault_ebindI [OF checklstring_safe], rule nofault_if)
    fix s :: string assume "\<not> (CHR ''.'' \<notin> set form \<and> length s \<ge> 100)"
    then have "length (sprintf_s form s) \<le> 99" using sprintf_s_length [OF i, of s] by linarith
    then show "nofault (add_item (sprintf_s form s) b) (\<lambda>_. True)" by (simp add: add_item_def MAX_ITEM_def)
  qed simp
  have quote: "nofault (ebind (checklstring tolstring args arg) (\<lambda>s. Inr (addquoted s b))) (\<lambda>_. True)"
    by (rule nofault_ebindI [OF checklstring_safe]) simp
  show ?thesis unfolding format_item_def f1 ebind_simps
    by (intro nofault_if direct whole str quote) auto
qed

lemma format_loop_safe:
  assumes H: "\<And>form x. number_format form \<Longrightarrow> length (sprintf form x) < MAX_ITEM"
  shows "nofault (format_loop tonumber tolstring sprintf args f i arg b) (\<lambda>_. True)"
proof (induction "length f - i" arbitrary: i arg b rule: less_induct)
  case less
  show ?case
  proof (cases "i < length f")
    case True
    have IH: "nofault (format_loop tonumber tolstring sprintf args f j arg' b') (\<lambda>_. True)" if "i < j" for j arg' b'
      using less.hyps [of j] that True by simp
    have "nofault (ebind (scanformat f (i + 1)) (\<lambda>(p, form). ebind (rd f p) (\<lambda>conv.
            ebind (format_item tonumber tolstring sprintf args form conv (arg + 1) b)
              (format_loop tonumber tolstring sprintf args f (p + 1) (arg + 1))))) (\<lambda>_. True)"
    proof (rule nofault_ebindI [OF scanformat_spec], use True in simp, clarify)
      fix p form assume s: "scanformat f (i + 1) = Inr (p, form)" "p \<le> length f" "char_at f p = NUL \<or> item_spec form (char_at f p)"
      have "nofault (ebind (format_item tonumber tolstring sprintf args form (char_at f p) (arg + 1) b)
              (format_loop tonumber tolstring sprintf args f (p + 1) (arg + 1))) (\<lambda>_. True)"
        by (rule nofault_ebindI [OF format_item_safe [OF H s(3)]]) (use scanformat_ge [OF s(1)] in \<open>simp_all add: IH\<close>)
      then show "nofault (ebind (rd f p) (\<lambda>conv. ebind (format_item tonumber tolstring sprintf args form conv (arg + 1) b)
              (format_loop tonumber tolstring sprintf args f (p + 1) (arg + 1)))) (\<lambda>_. True)"
        using rd_char_at [OF s(2)] by simp
    qed
    then have "nofault (ebind (rd f (i + 1)) (\<lambda>c.
          if c = L_ESC then format_loop tonumber tolstring sprintf args f (i + 2) arg (b @ [c])
          else ebind (scanformat f (i + 1)) (\<lambda>(p, form). ebind (rd f p) (\<lambda>conv.
            ebind (format_item tonumber tolstring sprintf args form conv (arg + 1) b)
              (format_loop tonumber tolstring sprintf args f (p + 1) (arg + 1)))))) (\<lambda>_. True)"
      using True IH rd_char_at [of "i + 1" f] by simp
    then show ?thesis using True IH by (simp add: format_loop.simps [of tonumber tolstring sprintf args f i])
  qed (simp add: format_loop.simps [of tonumber tolstring sprintf args f i])
qed

section \<open>Properties\<close>

text \<open>
  C29. A string that \<open>string.format\<close> writes with \<open>%q\<close> is read back by the lexical analyser as a string token with the
  same contents, whatever bytes it holds and whatever follows it, unless it is longer than a token may be or the chunk has too many lines.
\<close>

theorem format_q_roundtrip:
  assumes "tolstring x = Some s" "wf_lex ls" "feeds ls (addquoted s [] @ r)" "length s + 2 \<le> MAX_SIZET div 2"
    "linenumber ls + int (length (filter (\<lambda>c. c = CHR 0x0A) s)) < MAX_INT"
  shows "str_format tonumber tolstring sprintf [x] ''%q'' = Inr (addquoted s []) \<and>
    (\<exists>ls1. llex str2d point ls = Inr (\<lparr>token = TK_STRING, seminfo = Sem_ts s\<rparr>, ls1) \<and> wf_lex ls1 \<and> feeds ls1 r)"
proof
  show "str_format tonumber tolstring sprintf [x] ''%q'' = Inr (addquoted s [])" using assms(1) by (rule format_q)
  have l: "lx (ls\<lparr>buff := []\<rparr>) (addquoted s [] @ r) [] (linenumber ls)" using assms(2,3) by (rule llex_lx)
  then have "lx (ls\<lparr>buff := []\<rparr>) (CHR 0x22 # (concat (map quoted_char s) @ [CHR 0x22] @ r)) [] (linenumber ls)"
    by (simp add: addquoted_def quote_loop_concat)
  then show "\<exists>ls1. llex str2d point ls = Inr (\<lparr>token = TK_STRING, seminfo = Sem_ts s\<rparr>, ls1) \<and> wf_lex ls1 \<and> feeds ls1 r"
    using read_string_lx [OF l assms(4,5)] llex_loop_string by (fastforce simp: llex_def)
qed

theorem format_q_roundtrip_witness:
  "str_format (\<lambda>x. None) Some (\<lambda>f x. []) [[CHR 0x22, NUL, CHR 0x0A, CHR 0x0D, CHR ''1'']] ''%q'' = Inr (addquoted [CHR 0x22, NUL, CHR 0x0A, CHR 0x0D, CHR ''1''] []) \<and>
    (\<exists>ls1. llex (\<lambda>s. None) CHR ''.'' (luaX_setinput lex_state0 (addquoted [CHR 0x22, NUL, CHR 0x0A, CHR 0x0D, CHR ''1''] [] @ '')'')) =
      Inr (\<lparr>token = TK_STRING, seminfo = Sem_ts [CHR 0x22, NUL, CHR 0x0A, CHR 0x0D, CHR ''1'']\<rparr>, ls1) \<and> wf_lex ls1 \<and> feeds ls1 '')'')"
proof (rule format_q_roundtrip)
  let ?ls = "luaX_setinput lex_state0 (addquoted [CHR 0x22, NUL, CHR 0x0A, CHR 0x0D, CHR ''1''] [] @ '')'')"
  show "wf_lex ?ls" "feeds ?ls (addquoted [CHR 0x22, NUL, CHR 0x0A, CHR 0x0D, CHR ''1''] [] @ '')'')"
    using char2int_small [of "CHR 0x22"]
    by (simp_all add: luaX_setinput_def read_char_def wf_lex_def LUA_MINBUFFER_def lex_state0_def addquoted_def)
  show "length [CHR 0x22, NUL, CHR 0x0A, CHR 0x0D, CHR ''1''] + 2 \<le> MAX_SIZET div 2" by (simp add: MAX_SIZET_def)
  show "linenumber ?ls + newlines [CHR 0x22, NUL, CHR 0x0A, CHR 0x0D, CHR ''1''] < MAX_INT"
    by (simp add: luaX_setinput_def read_char_def addquoted_def MAX_INT_def)
qed simp

text \<open>
  C30. \<open>string.format\<close> writes no item behind the end of its buffers, for any format and any arguments: the
  scanner accepts only formats that fit in \<open>form\<close>, also with the length modifier, and a string is formatted in \<open>buff\<close> only if the
  result has less than 100 characters. The one thing it relies on is that a number, in a width and precision
  of two digits, fits in \<open>MAX_ITEM\<close> characters.
\<close>

theorem format_safe:
  assumes "\<And>form x. number_format form \<Longrightarrow> length (sprintf form x) < MAX_ITEM"
  shows "nofault (str_format tonumber tolstring sprintf args f) (\<lambda>_. True)"
  unfolding str_format_def using assms by (rule format_loop_safe)

theorem format_safe_witness:
  "nofault (str_format (\<lambda>x. None) Some (\<lambda>form x. ''0'') [''abc''] ''%-5.2s|%s%'') (\<lambda>_. True)"
  by (rule format_safe) (simp add: MAX_ITEM_def)

end
