(* ===== verification/Lnumber.thy ===== *)
theory Lnumber
  imports Lobject
begin

text \<open>
  Numbers of Lua, which are IEEE doubles, as far as keys of tables need them: their bits as words of 64
  bits, equality, and the conversions from and to integers of 32 bits. A conversion out of the range of \<open>int\<close>, which
  C leaves undefined, gives the least integer, as the hardware does.
\<close>

section \<open>Definitions\<close>

type_synonym lua_Number = "64 word"

definition num_exp :: "lua_Number \<Rightarrow> nat" where
  "num_exp n = unat n div 2 ^ 52 mod 2048"

definition num_man :: "lua_Number \<Rightarrow> nat" where
  "num_man n = unat n mod 2 ^ 52"

definition num_neg :: "lua_Number \<Rightarrow> bool" where
  "num_neg n \<longleftrightarrow> 2 ^ 63 \<le> unat n"

definition num_zero :: "lua_Number \<Rightarrow> bool" where
  "num_zero n \<longleftrightarrow> num_exp n = 0 \<and> num_man n = 0"

definition num_nan :: "lua_Number \<Rightarrow> bool" where
  "num_nan n \<longleftrightarrow> num_exp n = 2047 \<and> num_man n \<noteq> 0"

definition luai_numeq :: "lua_Number \<Rightarrow> lua_Number \<Rightarrow> bool" where
  "luai_numeq a b \<longleftrightarrow> \<not> num_nan a \<and> \<not> num_nan b \<and> (a = b \<or> num_zero a \<and> num_zero b)"

definition luai_numisnan :: "lua_Number \<Rightarrow> bool" where
  "luai_numisnan a \<longleftrightarrow> \<not> luai_numeq a a"

fun flog :: "nat \<Rightarrow> nat" where
  "flog n = (if n < 2 then 0 else Suc (flog (n div 2)))"

declare flog.simps [simp del]

text \<open>The double with the value of an \<open>int\<close>.\<close>

definition cast_num :: "int \<Rightarrow> lua_Number" where
  "cast_num k =
     (if k = 0 then 0
      else let m = nat \<bar>k\<bar>; e = flog m in
        of_nat ((if k < 0 then 2 ^ 63 else 0) + (1023 + e) * 2 ^ 52 + (m * 2 ^ (52 - e) - 2 ^ 52)))"

definition lua_number2int :: "lua_Number \<Rightarrow> int" where
  "lua_number2int n =
     (if num_exp n < 1023 then 0
      else let e = num_exp n - 1023 in
        if e \<le> 30 then let m = int ((2 ^ 52 + num_man n) div 2 ^ (52 - e)) in if num_neg n then - m else m
        else - (2 ^ 31))"

section \<open>Conversions\<close>

lemma flog_bounds: "0 < n \<Longrightarrow> 2 ^ flog n \<le> n \<and> n < 2 ^ Suc (flog n)"
proof (induction n rule: flog.induct)
  case (1 n)
  show ?case
  proof (cases "n < 2")
    case True
    then show ?thesis using 1(2) by (simp add: flog.simps [of n])
  next
    case False
    then have "2 ^ flog (n div 2) \<le> n div 2 \<and> n div 2 < 2 ^ Suc (flog (n div 2))" using 1(1) by simp
    then show ?thesis using False by (auto simp: flog.simps [of n])
  qed
qed

lemma flog_less: "0 < n \<Longrightarrow> n \<le> 2 ^ k \<Longrightarrow> flog n \<le> k"
proof -
  assume n: "0 < n" "n \<le> 2 ^ k"
  then have "(2 :: nat) ^ flog n \<le> 2 ^ k" using flog_bounds [of n] by linarith
  then show ?thesis by simp
qed

text \<open>The parts of a word that is put together from sign, exponent and mantissa.\<close>

lemma num_parts:
  assumes "s \<le> 1" "x < 2048" "m < 2 ^ 52"
  shows "unat (of_nat (s * 2 ^ 63 + x * 2 ^ 52 + m) :: lua_Number) = s * 2 ^ 63 + x * 2 ^ 52 + m"
    "num_exp (of_nat (s * 2 ^ 63 + x * 2 ^ 52 + m)) = x" "num_man (of_nat (s * 2 ^ 63 + x * 2 ^ 52 + m)) = m"
    "num_neg (of_nat (s * 2 ^ 63 + x * 2 ^ 52 + m)) = (s = 1)"
proof -
  have "x * 2 ^ 52 + m < 2 ^ 63" using assms(2,3) by simp
  then have "s * 2 ^ 63 + x * 2 ^ 52 + m < 2 ^ 64" using assms(1) by simp
  then show u: "unat (of_nat (s * 2 ^ 63 + x * 2 ^ 52 + m) :: lua_Number) = s * 2 ^ 63 + x * 2 ^ 52 + m"
    by (simp only: unsigned_of_nat) (simp add: take_bit_nat_eq_self)
  have "s * 2 ^ 63 + x * 2 ^ 52 + m = (s * 2048 + x) * 2 ^ 52 + m" by simp
  then have d: "(s * 2 ^ 63 + x * 2 ^ 52 + m) div 2 ^ 52 = s * 2048 + x" "(s * 2 ^ 63 + x * 2 ^ 52 + m) mod 2 ^ 52 = m"
    using assms(3) by (simp_all only: div_mult_self3 mod_mult_self3) simp_all
  show "num_exp (of_nat (s * 2 ^ 63 + x * 2 ^ 52 + m)) = x" unfolding num_exp_def u d using assms(2) by simp
  show "num_man (of_nat (s * 2 ^ 63 + x * 2 ^ 52 + m)) = m" unfolding num_man_def u d ..
  show "num_neg (of_nat (s * 2 ^ 63 + x * 2 ^ 52 + m)) = (s = 1)"
    unfolding num_neg_def u using assms(1) \<open>x * 2 ^ 52 + m < 2 ^ 63\<close> by (cases "s = 0") auto
qed

lemma cast_num_word:
  assumes "k \<noteq> 0" "- (2 ^ 31) \<le> k" "k < 2 ^ 31"
  obtains s e m where "cast_num k = of_nat (s * 2 ^ 63 + (1023 + e) * 2 ^ 52 + m)" "s = (if k < 0 then 1 else 0)" "e \<le> 31" "m < 2 ^ 52"
    "(2 ^ 52 + m) div 2 ^ (52 - e) = nat \<bar>k\<bar>" "e = 31 \<longrightarrow> k = - (2 ^ 31)"
proof -
  define a where "a = nat \<bar>k\<bar>"
  define e where "e = flog a"
  have a: "0 < a" "a \<le> 2 ^ 31" using assms by (auto simp: a_def)
  have b: "2 ^ e \<le> a" "a < 2 ^ Suc e" using flog_bounds [OF a(1)] by (simp_all add: e_def)
  have e: "e \<le> 31" using flog_less [OF a] by (simp add: e_def)
  have p: "(2 :: nat) ^ e * 2 ^ (52 - e) = 2 ^ 52" using e by (simp flip: power_add)
  have lo: "2 ^ 52 \<le> a * 2 ^ (52 - e)" using mult_le_mono1 [OF b(1), of "2 ^ (52 - e)"] p by simp
  have "a * 2 ^ (52 - e) < 2 ^ Suc e * 2 ^ (52 - e)" using b(2) by simp
  also have "\<dots> = 2 * 2 ^ 52" using p by simp
  finally have hi: "a * 2 ^ (52 - e) < 2 * 2 ^ 52" .
  have k31: "e = 31 \<longrightarrow> k = - (2 ^ 31)"
  proof
    assume "e = 31"
    then have "2 ^ 31 \<le> a" using b(1) by simp
    then show "k = - (2 ^ 31)" using assms a_def by auto
  qed
  have "cast_num k = of_nat ((if k < 0 then 1 else 0) * 2 ^ 63 + (1023 + e) * 2 ^ 52 + (a * 2 ^ (52 - e) - 2 ^ 52))"
    using assms(1) by (simp add: cast_num_def Let_def a_def e_def)
  moreover have "(2 ^ 52 + (a * 2 ^ (52 - e) - 2 ^ 52)) div 2 ^ (52 - e) = nat \<bar>k\<bar>" using lo by (simp add: a_def)
  moreover have "a * 2 ^ (52 - e) - 2 ^ 52 < 2 ^ 52" using hi by linarith
  ultimately show ?thesis using e k31 by (intro that) auto
qed

lemma number2int_cast:
  assumes "- (2 ^ 31) \<le> k" "k < 2 ^ 31"
  shows "lua_number2int (cast_num k) = k \<and> \<not> num_nan (cast_num k) \<and> (num_zero (cast_num k) \<longleftrightarrow> k = 0)"
proof (cases "k = 0")
  case True
  then show ?thesis by (simp add: cast_num_def lua_number2int_def num_exp_def num_nan_def num_zero_def num_man_def)
next
  case False
  obtain s e m where c: "cast_num k = of_nat (s * 2 ^ 63 + (1023 + e) * 2 ^ 52 + m)" and s: "s = (if k < 0 then 1 else 0)" and e: "e \<le> 31"
    and m: "m < 2 ^ 52" "(2 ^ 52 + m) div 2 ^ (52 - e) = nat \<bar>k\<bar>" and k31: "e = 31 \<longrightarrow> k = - (2 ^ 31)"
    using cast_num_word [OF False assms] by metis
  have x: "s \<le> 1" "1023 + e < 2048" using s e by auto
  note parts = num_parts(2,3,4) [OF x m(1), folded c]
  have "num_neg (cast_num k) = (k < 0)" using parts(3) s by simp
  then have "lua_number2int (cast_num k) = k"
    using e k31 m(2) by (auto simp: lua_number2int_def parts(1,2) Let_def simp flip: of_nat_add)
  then show ?thesis using parts e False by (auto simp: num_nan_def num_zero_def)
qed

lemma numeq_equiv:
  "\<not> num_nan a \<Longrightarrow> luai_numeq a a" "luai_numeq a b \<Longrightarrow> luai_numeq b a" "luai_numeq a b \<Longrightarrow> luai_numeq b c \<Longrightarrow> luai_numeq a c"
  by (auto simp: luai_numeq_def)

lemma number2int_numeq: "luai_numeq a b \<Longrightarrow> lua_number2int a = lua_number2int b"
  by (auto simp: luai_numeq_def lua_number2int_def num_zero_def)

lemma cast_num_inject:
  assumes "- (2 ^ 31) \<le> j" "j < 2 ^ 31" "- (2 ^ 31) \<le> k" "k < 2 ^ 31"
  shows "luai_numeq (cast_num j) (cast_num k) \<longleftrightarrow> j = k"
  using number2int_cast [OF assms(1,2)] number2int_cast [OF assms(3,4)] number2int_numeq numeq_equiv(1) by metis

lemma number2int_range: "- (2 ^ 31) \<le> lua_number2int n \<and> lua_number2int n < 2 ^ 31"
proof -
  have "(2 ^ 52 + num_man n) div 2 ^ (52 - e) < 2 ^ 31" if "e \<le> 30" for e
  proof -
    have "2 ^ 52 + num_man n < 2 * 2 ^ 52" by (simp add: num_man_def)
    also have "2 * 2 ^ 52 = 2 ^ Suc e * (2 :: nat) ^ (52 - e)" using that by (simp flip: power_add power_Suc)
    finally have "(2 ^ 52 + num_man n) div 2 ^ (52 - e) < 2 ^ Suc e" by (simp add: less_mult_imp_div_less)
    also have "(2 :: nat) ^ Suc e \<le> 2 ^ 31" using that by (intro power_increasing) auto
    finally show ?thesis .
  qed
  then have e: "(2 ^ 52 + num_man n) div 2 ^ (52 - (num_exp n - 1023)) < 2 ^ 31" if "num_exp n - 1023 \<le> 30" using that by blast
  define q where "q = (2 ^ 52 + num_man n) div 2 ^ (52 - (num_exp n - 1023))"
  have "int q < 2 ^ 31" if "num_exp n - 1023 \<le> 30" using e [OF that] by (simp add: q_def)
  moreover have "lua_number2int n = (if num_exp n < 1023 then 0 else if num_exp n - 1023 \<le> 30 then if num_neg n then - int q else int q else - (2 ^ 31))"
    by (simp only: lua_number2int_def Let_def q_def)
  ultimately show ?thesis by (auto split: if_splits)
qed

end
