(* ===== verification/Ltable.thy ===== *)
theory Ltable
  imports Lnumber
begin

text \<open>
  Tables of Lua, \<open>liblua/src/ltable.c\<close>: an array part and a hash part, a scatter table with chains and
  Brent's variation.

  A pointer to a node is its index, and a null pointer \<open>None\<close>; an index outside the vector is a fault.
  Objects other than strings are their addresses. Memory is always there, and the collector, which
  marks keys as dead, runs between operations. A walk along a chain that has not ended after as many steps as there are nodes would
  never end, and a rehash that needs another one may never end: both are failed assertions of the model, with the number of nodes and
  the first argument of \<open>newkey\<close> as the fuel. A slot is the place of a value, of which \<open>luaH_set\<close> returns the address.
\<close>

section \<open>Data\<close>

datatype tobj = TNil | TBoolean bool | TLightuserdata nat | TNumber lua_Number | TStr string | TObject nat nat | TDeadkey nat

record Node =
  i_val :: tobj
  i_key :: tobj
  i_next :: "nat option"

record Table =
  t_flags :: nat
  t_lsizenode :: nat
  t_array :: "tobj list"
  t_node :: "Node list"
  t_dummy :: bool
  t_lastfree :: int

datatype slot = S_array nat | S_node nat

definition MAXBITS :: nat where "MAXBITS = 26"
definition MAXASIZE :: int where "MAXASIZE = 2 ^ MAXBITS"

definition dummynode :: Node where "dummynode = \<lparr>i_val = TNil, i_key = TNil, i_next = None\<rparr>"

abbreviation sizearray :: "Table \<Rightarrow> nat" where "sizearray t \<equiv> length (t_array t)"

definition sizenode :: "Table \<Rightarrow> nat" where "sizenode t = 2 ^ t_lsizenode t"

definition gnode :: "Table \<Rightarrow> nat \<Rightarrow> Node lres" where
  "gnode t i = (if i < length (t_node t) then Inr (t_node t ! i) else Inl (Fault Out_Of_Bounds))"

definition value_at :: "Table \<Rightarrow> slot \<Rightarrow> tobj" where
  "value_at t s = (case s of S_array i \<Rightarrow> t_array t ! i | S_node i \<Rightarrow> i_val (t_node t ! i))"

definition setobj :: "Table \<Rightarrow> slot \<Rightarrow> tobj \<Rightarrow> Table" where
  "setobj t s v = (case s of S_array i \<Rightarrow> t\<lparr>t_array := (t_array t)[i := v]\<rparr>
     | S_node i \<Rightarrow> t\<lparr>t_node := (t_node t)[i := (t_node t ! i)\<lparr>i_val := v\<rparr>]\<rparr>)"

definition ceillog2 :: "nat \<Rightarrow> int" where
  "ceillog2 x = luaO_log2 (of_nat x - 1) + 1"

section \<open>Hashing\<close>

function hash_loop :: "string \<Rightarrow> nat \<Rightarrow> nat \<Rightarrow> 32 word \<Rightarrow> 32 word" where
  "hash_loop str step l1 h =
     (if l1 \<ge> step \<and> step > 0
      then hash_loop str step (l1 - step) (h XOR (push_bit 5 h + drop_bit 2 h + of_nat (of_char (str ! (l1 - 1)))))
      else h)"
  by pat_completeness auto
termination
  by (relation "measure (\<lambda>(str, step, l1, h). l1)") auto

declare hash_loop.simps [simp del]

text \<open>The hash that \<open>luaS_newlstr\<close> stores with a string.\<close>

definition str_hash :: "string \<Rightarrow> 32 word" where
  "str_hash str = (let l = length str in hash_loop str (l div 32 + 1) l (of_nat l))"

definition hashpow2 :: "Table \<Rightarrow> nat \<Rightarrow> nat" where
  "hashpow2 t n = n mod sizenode t"

definition hashmod :: "Table \<Rightarrow> nat \<Rightarrow> nat" where
  "hashmod t n = n mod ((sizenode t - 1) OR 1)"

definition hashpointer :: "Table \<Rightarrow> nat \<Rightarrow> nat" where
  "hashpointer t p = hashmod t (p mod 2 ^ 32)"

definition hashnum :: "Table \<Rightarrow> lua_Number \<Rightarrow> nat" where
  "hashnum t n =
     (if luai_numeq n 0 then 0
      else hashmod t (unat (ucast n + ucast (drop_bit 32 n) :: 32 word)))"

definition mainposition :: "Table \<Rightarrow> tobj \<Rightarrow> nat lres" where
  "mainposition t key =
     (case key of
        TNil \<Rightarrow> Inl (Fault Uninitialised)
      | TNumber n \<Rightarrow> Inr (hashnum t n)
      | TStr s \<Rightarrow> Inr (hashpow2 t (unat (str_hash s)))
      | TBoolean b \<Rightarrow> Inr (hashpow2 t (if b then 1 else 0))
      | TLightuserdata p \<Rightarrow> Inr (hashpointer t p)
      | TObject tt p \<Rightarrow> Inr (hashpointer t p)
      | TDeadkey p \<Rightarrow> Inr (hashpointer t p))"

definition luaO_rawequalObj :: "tobj \<Rightarrow> tobj \<Rightarrow> bool" where
  "luaO_rawequalObj t1 t2 =
     (case (t1, t2) of
        (TNil, TNil) \<Rightarrow> True
      | (TNumber m, TNumber n) \<Rightarrow> luai_numeq m n
      | (TBoolean b, TBoolean c) \<Rightarrow> b = c
      | (TLightuserdata p, TLightuserdata q) \<Rightarrow> p = q
      | (TStr s, TStr r) \<Rightarrow> s = r
      | (TObject tt p, TObject ut q) \<Rightarrow> tt = ut \<and> p = q
      | (TDeadkey p, TDeadkey q) \<Rightarrow> p = q
      | _ \<Rightarrow> False)"

definition arrayindex :: "tobj \<Rightarrow> int" where
  "arrayindex key =
     (case key of
        TNumber n \<Rightarrow> let k = lua_number2int n in if luai_numeq (cast_num k) n then k else - 1
      | _ \<Rightarrow> - 1)"

section \<open>Searching\<close>

text \<open>The first node from \<open>n\<close> on along the chain that the test accepts.\<close>

primrec search_chain :: "nat \<Rightarrow> Table \<Rightarrow> (tobj \<Rightarrow> bool) \<Rightarrow> nat \<Rightarrow> nat option lres" where
  "search_chain 0 t P n = Inl (Fault Assert_Fail)"
| "search_chain (Suc f) t P n =
     ebind (gnode t n) (\<lambda>nd.
       if P (i_key nd) then Inr (Some n)
       else case i_next nd of None \<Rightarrow> Inr None | Some m \<Rightarrow> search_chain f t P m)"

definition find_node :: "Table \<Rightarrow> (tobj \<Rightarrow> bool) \<Rightarrow> nat \<Rightarrow> slot option lres" where
  "find_node t P n = ebind (search_chain (length (t_node t)) t P n) (\<lambda>r. Inr (map_option S_node r))"

definition luaH_getnum :: "Table \<Rightarrow> int \<Rightarrow> slot option lres" where
  "luaH_getnum t key =
     (if (key - 1) mod 2 ^ 32 < int (sizearray t) then Inr (Some (S_array (nat ((key - 1) mod 2 ^ 32))))
      else let nk = cast_num key in
        find_node t (\<lambda>k. case k of TNumber n \<Rightarrow> luai_numeq n nk | _ \<Rightarrow> False) (hashnum t nk))"

definition luaH_getstr :: "Table \<Rightarrow> string \<Rightarrow> slot option lres" where
  "luaH_getstr t key =
     find_node t (\<lambda>k. case k of TStr s \<Rightarrow> s = key | _ \<Rightarrow> False) (hashpow2 t (unat (str_hash key)))"

definition get_any :: "Table \<Rightarrow> tobj \<Rightarrow> slot option lres" where
  "get_any t key = ebind (mainposition t key) (find_node t (\<lambda>k. luaO_rawequalObj k key))"

definition luaH_get :: "Table \<Rightarrow> tobj \<Rightarrow> slot option lres" where
  "luaH_get t key =
     (case key of
        TNil \<Rightarrow> Inr None
      | TStr s \<Rightarrow> luaH_getstr t s
      | TNumber n \<Rightarrow>
          let k = lua_number2int n in if luai_numeq (cast_num k) n then luaH_getnum t k else get_any t key
      | _ \<Rightarrow> get_any t key)"

text \<open>The value that a search finds, nil for the nil object.\<close>

definition slot_value :: "Table \<Rightarrow> slot option \<Rightarrow> tobj" where
  "slot_value t s = (case s of None \<Rightarrow> TNil | Some x \<Rightarrow> value_at t x)"

section \<open>Sizes\<close>

function sizes_loop :: "int list \<Rightarrow> int \<Rightarrow> nat \<Rightarrow> int \<Rightarrow> int \<Rightarrow> int \<Rightarrow> (int \<times> int) lres" where
  "sizes_loop nums narray i a na n =
     (let twotoi = 2 ^ i in
      if twotoi div 2 < narray then
        if i \<ge> length nums then Inl (Fault Out_Of_Bounds)
        else
          let grow = nums ! i > 0;
            a1 = (if grow then a + nums ! i else a);
            more = grow \<and> a1 > twotoi div 2;
            n1 = (if more then twotoi else n);
            na1 = (if more then a1 else na) in
          if a1 = narray then Inr (na1, n1) else sizes_loop nums narray (i + 1) a1 na1 n1
      else Inr (na, n))"
  by pat_completeness auto
termination
  by (relation "measure (\<lambda>(nums, narray, i, a, na, n). Suc (length nums) - i)") auto

declare sizes_loop.simps [simp del]

text \<open>The number of elements for the array part, and its size.\<close>

definition computesizes :: "int list \<Rightarrow> int \<Rightarrow> (int \<times> int) lres" where
  "computesizes nums narray = sizes_loop nums narray 0 0 0 0"

definition countint :: "tobj \<Rightarrow> int list \<Rightarrow> (int \<times> int list) lres" where
  "countint key nums =
     (let k = arrayindex key in
      if 0 < k \<and> k \<le> MAXASIZE then
        let l = ceillog2 (nat k) in
        if 0 \<le> l \<and> l < int (length nums) then Inr (1, nums[nat l := nums ! nat l + 1]) else Inl (Fault Out_Of_Bounds)
      else Inr (0, nums))"

text \<open>How many of the array's elements at the places from \<open>i\<close> to \<open>lim\<close>, counted from one, are not nil.\<close>

definition count_slice :: "tobj list \<Rightarrow> nat \<Rightarrow> nat \<Rightarrow> int" where
  "count_slice arr i lim = int (length (filter (\<lambda>v. v \<noteq> TNil) (take (lim + 1 - i) (drop (i - 1) arr))))"

function usearray_loop :: "tobj list \<Rightarrow> nat \<Rightarrow> nat \<Rightarrow> int \<Rightarrow> int list \<Rightarrow> int \<times> int list" where
  "usearray_loop arr lg i ause nums =
     (if lg \<le> MAXBITS then
        let lim0 = 2 ^ lg; lim = (if lim0 > length arr then length arr else lim0) in
        if lim0 > length arr \<and> i > lim then (ause, nums)
        else let lc = count_slice arr i lim in
          usearray_loop arr (lg + 1) (max i (lim + 1)) (ause + lc) (nums[lg := nums ! lg + lc])
      else (ause, nums))"
  by pat_completeness auto
termination
  by (relation "measure (\<lambda>(arr, lg, i, ause, nums). Suc MAXBITS - lg)") auto

declare usearray_loop.simps [simp del]

definition numusearray :: "Table \<Rightarrow> int list \<Rightarrow> int \<times> int list" where
  "numusearray t nums = usearray_loop (t_array t) 0 1 0 nums"

primrec usehash_loop :: "Table \<Rightarrow> nat \<Rightarrow> int \<Rightarrow> int \<Rightarrow> int list \<Rightarrow> (int \<times> int \<times> int list) lres" where
  "usehash_loop t 0 totaluse ause nums = Inr (totaluse, ause, nums)"
| "usehash_loop t (Suc i) totaluse ause nums =
     ebind (gnode t i) (\<lambda>n.
       if i_val n \<noteq> TNil
       then ebind (countint (i_key n) nums) (\<lambda>(c, nums1). usehash_loop t i (totaluse + 1) (ause + c) nums1)
       else usehash_loop t i totaluse ause nums)"

definition numusehash :: "Table \<Rightarrow> int list \<Rightarrow> int \<Rightarrow> (int \<times> int \<times> int list) lres" where
  "numusehash t nums nasize =
     ebind (usehash_loop t (sizenode t) 0 0 nums) (\<lambda>(totaluse, ause, nums1). Inr (totaluse, nasize + ause, nums1))"

definition setarrayvector :: "Table \<Rightarrow> nat \<Rightarrow> Table" where
  "setarrayvector t sz = t\<lparr>t_array := take sz (t_array t) @ replicate (sz - sizearray t) TNil\<rparr>"

definition setnodevector :: "Table \<Rightarrow> nat \<Rightarrow> Table lres" where
  "setnodevector t sz =
     (if sz = 0 then Inr (t\<lparr>t_node := [dummynode], t_dummy := True, t_lsizenode := 0, t_lastfree := 0\<rparr>)
      else let lsize = ceillog2 sz in
        if lsize > int MAXBITS then Inl (Runtime ''table overflow'')
        else let n = 2 ^ nat lsize in
          Inr (t\<lparr>t_node := replicate n \<lparr>i_val = TNil, i_key = TNil, i_next = None\<rparr>, t_dummy := False,
            t_lsizenode := nat lsize, t_lastfree := int n\<rparr>))"

section \<open>Inserting\<close>

type_synonym inserter = "Table \<Rightarrow> tobj \<Rightarrow> (slot \<times> Table) lres"

text \<open>\<open>luaH_set\<close>, \<open>luaH_setnum\<close>, \<open>luaH_setstr\<close>, with the function that inserts a new key as an argument.\<close>

definition set_with :: "inserter \<Rightarrow> Table \<Rightarrow> tobj \<Rightarrow> (slot \<times> Table) lres" where
  "set_with nk t key =
     ebind (luaH_get t key) (\<lambda>p.
       let t1 = t\<lparr>t_flags := 0\<rparr> in
       case p of
         Some s \<Rightarrow> Inr (s, t1)
       | None \<Rightarrow>
           if key = TNil then Inl (Runtime ''table index is nil'')
           else if (case key of TNumber n \<Rightarrow> luai_numisnan n | _ \<Rightarrow> False) then Inl (Runtime ''table index is NaN'')
           else nk t1 key)"

definition setnum_with :: "inserter \<Rightarrow> Table \<Rightarrow> int \<Rightarrow> (slot \<times> Table) lres" where
  "setnum_with nk t key =
     ebind (luaH_getnum t key) (\<lambda>p. case p of Some s \<Rightarrow> Inr (s, t) | None \<Rightarrow> nk t (TNumber (cast_num key)))"

definition setstr_with :: "inserter \<Rightarrow> Table \<Rightarrow> string \<Rightarrow> (slot \<times> Table) lres" where
  "setstr_with nk t key =
     ebind (luaH_getstr t key) (\<lambda>p. case p of Some s \<Rightarrow> Inr (s, t) | None \<Rightarrow> nk t (TStr key))"

text \<open>The elements \<open>vs\<close> of a vanishing slice of the array, from index \<open>i\<close> on, are inserted again.\<close>

primrec reinsert_array :: "inserter \<Rightarrow> nat \<Rightarrow> tobj list \<Rightarrow> Table \<Rightarrow> Table lres" where
  "reinsert_array nk i [] t = Inr t"
| "reinsert_array nk i (v # vs) t =
     ebind (if v \<noteq> TNil then ebind (setnum_with nk t (int i + 1)) (\<lambda>(s, t1). Inr (setobj t1 s v)) else Inr t)
       (reinsert_array nk (i + 1) vs)"

text \<open>The nodes of the old hash part are inserted again, the last one first.\<close>

primrec reinsert_hash :: "inserter \<Rightarrow> Node list \<Rightarrow> Table \<Rightarrow> Table lres" where
  "reinsert_hash nk [] t = Inr t"
| "reinsert_hash nk (old # ns) t =
     ebind (if i_val old \<noteq> TNil then ebind (set_with nk t (i_key old)) (\<lambda>(s, t1). Inr (setobj t1 s (i_val old))) else Inr t)
       (reinsert_hash nk ns)"

definition resize :: "inserter \<Rightarrow> Table \<Rightarrow> nat \<Rightarrow> nat \<Rightarrow> Table lres" where
  "resize nk t nasize nhsize =
     (let oldasize = sizearray t; nold = t_node t; oldarray = t_array t;
        t1 = (if nasize > oldasize then setarrayvector t nasize else t) in
      ebind (setnodevector t1 nhsize) (\<lambda>t2.
      ebind (if nasize < oldasize
             then reinsert_array nk nasize (drop nasize oldarray) (t2\<lparr>t_array := take nasize oldarray\<rparr>)
             else Inr t2) (\<lambda>t3.
      reinsert_hash nk (rev nold) t3)))"

definition luaH_resizearray :: "inserter \<Rightarrow> Table \<Rightarrow> nat \<Rightarrow> Table lres" where
  "luaH_resizearray nk t nasize = resize nk t nasize (if t_dummy t then 0 else sizenode t)"

definition rehash :: "inserter \<Rightarrow> Table \<Rightarrow> tobj \<Rightarrow> Table lres" where
  "rehash nk t ek =
     (case numusearray t (replicate (MAXBITS + 1) 0) of (nasize, nums) \<Rightarrow>
      ebind (numusehash t nums nasize) (\<lambda>(use, nasize1, nums1).
      ebind (countint ek nums1) (\<lambda>(c, nums2).
      ebind (computesizes nums2 (nasize1 + c)) (\<lambda>(na, n).
      resize nk t (nat n) (nat (nasize + use + 1 - na))))))"

definition luaH_new :: "nat \<Rightarrow> nat \<Rightarrow> Table lres" where
  "luaH_new narray nhash =
     setnodevector (setarrayvector
       \<lparr>t_flags = 255, t_lsizenode = 0, t_array = [], t_node = [dummynode], t_dummy = True, t_lastfree = 0\<rparr> narray) nhash"

function getfree_loop :: "Node list \<Rightarrow> int \<Rightarrow> nat option \<times> int" where
  "getfree_loop ns lastfree =
     (if lastfree > 0
      then if i_key (ns ! nat (lastfree - 1)) = TNil then (Some (nat (lastfree - 1)), lastfree - 1)
        else getfree_loop ns (lastfree - 1)
      else (None, lastfree - 1))"
  by pat_completeness auto
termination
  by (relation "measure (\<lambda>(ns, lf). nat lf)") auto

declare getfree_loop.simps [simp del]

definition getfreepos :: "Table \<Rightarrow> nat option \<times> Table" where
  "getfreepos t = (case getfree_loop (t_node t) (t_lastfree t) of (r, lf) \<Rightarrow> (r, t\<lparr>t_lastfree := lf\<rparr>))"

text \<open>The node in front of \<open>mp\<close> on the chain from \<open>othern\<close> on.\<close>

primrec find_previous :: "nat \<Rightarrow> Table \<Rightarrow> nat \<Rightarrow> nat \<Rightarrow> nat lres" where
  "find_previous 0 t mp othern = Inl (Fault Assert_Fail)"
| "find_previous (Suc f) t mp othern =
     ebind (gnode t othern) (\<lambda>nd.
       if i_next nd = Some mp then Inr othern
       else case i_next nd of None \<Rightarrow> Inl (Fault Null_Deref) | Some m \<Rightarrow> find_previous f t mp m)"

definition update_node :: "nat \<Rightarrow> (Node \<Rightarrow> Node) \<Rightarrow> Table \<Rightarrow> Table" where
  "update_node i f t = t\<lparr>t_node := (t_node t)[i := f (t_node t ! i)]\<rparr>"

text \<open>\<open>newkey\<close>, with what is done when there is no free place as an argument.\<close>

definition insert_key :: "(Table \<Rightarrow> (slot \<times> Table) lres) \<Rightarrow> Table \<Rightarrow> tobj \<Rightarrow> (slot \<times> Table) lres" where
  "insert_key grow t key =
     ebind (mainposition t key) (\<lambda>mp.
     ebind (gnode t mp) (\<lambda>m.
     if i_val m \<noteq> TNil \<or> t_dummy t then
       (case getfreepos t of
          (None, t1) \<Rightarrow> grow t1
        | (Some n, t1) \<Rightarrow>
            ebind (mainposition t1 (i_key m)) (\<lambda>othern.
            if othern \<noteq> mp then
              ebind (find_previous (length (t_node t1)) t1 mp othern) (\<lambda>pr.
              let t2 = update_node pr (\<lambda>x. x\<lparr>i_next := Some n\<rparr>) t1;
                t3 = update_node n (\<lambda>_. t_node t2 ! mp) t2;
                t4 = update_node mp (\<lambda>x. x\<lparr>i_next := None, i_val := TNil\<rparr>) t3 in
              Inr (S_node mp, update_node mp (\<lambda>x. x\<lparr>i_key := key\<rparr>) t4))
            else
              let t2 = update_node n (\<lambda>x. x\<lparr>i_next := i_next m\<rparr>) t1;
                t3 = update_node mp (\<lambda>x. x\<lparr>i_next := Some n\<rparr>) t2 in
              Inr (S_node n, update_node n (\<lambda>x. x\<lparr>i_key := key\<rparr>) t3)))
     else Inr (S_node mp, update_node mp (\<lambda>x. x\<lparr>i_key := key\<rparr>) t)))"

primrec newkey :: "nat \<Rightarrow> inserter" where
  "newkey 0 = (\<lambda>t key. Inl (Fault Assert_Fail))"
| "newkey (Suc f) = (\<lambda>t key.
     insert_key (\<lambda>t1. ebind (rehash (newkey f) t1 key) (\<lambda>t2. set_with (newkey f) t2 key)) t key)"

definition luaH_set :: "nat \<Rightarrow> Table \<Rightarrow> tobj \<Rightarrow> (slot \<times> Table) lres" where
  "luaH_set f = set_with (newkey f)"

definition luaH_setnum :: "nat \<Rightarrow> Table \<Rightarrow> int \<Rightarrow> (slot \<times> Table) lres" where
  "luaH_setnum f = setnum_with (newkey f)"

definition luaH_setstr :: "nat \<Rightarrow> Table \<Rightarrow> string \<Rightarrow> (slot \<times> Table) lres" where
  "luaH_setstr f = setstr_with (newkey f)"

end
