(* ===== verification/Lhash.thy ===== *)
theory Lhash
  imports Ltable
begin

text \<open>
  The hash part of a table: keys and their main positions, chains, searching and inserting. The
  invariant \<open>wf_table\<close> says that every key can be reached from its main position, that chains end, that a node out of its
  main position does not occupy the main position of another key, and that no key is stored twice.
\<close>

section \<open>Keys\<close>

definition good_key :: "tobj \<Rightarrow> bool" where
  "good_key k \<longleftrightarrow> (case k of TNil \<Rightarrow> False | TDeadkey p \<Rightarrow> False | TNumber n \<Rightarrow> \<not> num_nan n | _ \<Rightarrow> True)"

abbreviation keq :: "tobj \<Rightarrow> tobj \<Rightarrow> bool" where "keq \<equiv> luaO_rawequalObj"

lemma keq_refl: "good_key k \<Longrightarrow> keq k k"
  by (auto simp: good_key_def luaO_rawequalObj_def numeq_equiv(1) split: tobj.splits)

lemma keq_sym: "keq j k \<Longrightarrow> keq k j"
  by (auto simp: luaO_rawequalObj_def numeq_equiv(2) split: tobj.splits)

lemma keq_trans: "keq i j \<Longrightarrow> keq j k \<Longrightarrow> keq i k"
  using numeq_equiv(3) by (auto simp: luaO_rawequalObj_def split: tobj.splits)

lemma keq_good: "keq j k \<Longrightarrow> good_key j \<longleftrightarrow> good_key k"
  by (auto simp: good_key_def luaO_rawequalObj_def luai_numeq_def split: tobj.splits)

lemma keq_num: "keq j (TNumber n) = (case j of TNumber m \<Rightarrow> luai_numeq m n | _ \<Rightarrow> False)"
  by (simp add: luaO_rawequalObj_def split: tobj.split)

lemma keq_str: "keq j (TStr s) = (case j of TStr r \<Rightarrow> r = s | _ \<Rightarrow> False)"
  by (simp add: luaO_rawequalObj_def split: tobj.split)

definition mpos :: "Table \<Rightarrow> tobj \<Rightarrow> nat" where
  "mpos t k = (case mainposition t k of Inr p \<Rightarrow> p | Inl e \<Rightarrow> 0)"

lemma mainposition_mpos: "k \<noteq> TNil \<Longrightarrow> mainposition t k = Inr (mpos t k)"
  by (auto simp: mpos_def mainposition_def split: tobj.splits)

lemma hashmod_less: "hashmod t n < sizenode t"
proof (cases "t_lsizenode t")
  case 0
  then show ?thesis by (simp add: hashmod_def sizenode_def)
next
  case (Suc l)
  have "(1 :: nat) < 2 ^ Suc l" by (rule one_less_power) simp_all
  then have s: "1 < sizenode t" "even (sizenode t)" using Suc by (simp_all add: sizenode_def)
  then have "odd (sizenode t - 1)" by simp
  then have "(sizenode t - 1) OR 1 = sizenode t - 1" unfolding or_one_eq by simp
  moreover have "n mod (sizenode t - 1) < sizenode t - 1" using s(1) by simp
  ultimately show ?thesis by (simp add: hashmod_def)
qed

lemma sizenode_pos: "0 < sizenode t"
  by (simp add: sizenode_def)

lemma hashpow2_less: "hashpow2 t n < sizenode t"
  by (simp add: hashpow2_def sizenode_def)

lemma mpos_less: "mpos t k < sizenode t"
  by (auto simp: mpos_def mainposition_def hashnum_def hashpointer_def hashmod_less hashpow2_less sizenode_pos split: tobj.split)

lemma mpos_cong: "t_lsizenode t = t_lsizenode u \<Longrightarrow> mpos t k = mpos u k"
  by (simp add: mpos_def mainposition_def hashnum_def hashpointer_def hashmod_def hashpow2_def sizenode_def split: tobj.split)

lemma numeq_zero: "luai_numeq a b \<Longrightarrow> luai_numeq a 0 = luai_numeq b 0"
  by (metis numeq_equiv(2,3))

lemma hashnum_numeq: "luai_numeq a b \<Longrightarrow> hashnum t a = hashnum t b"
proof (cases "luai_numeq a 0")
  case True
  moreover assume "luai_numeq a b"
  ultimately show ?thesis using numeq_zero by (simp add: hashnum_def)
next
  case False
  assume ab: "luai_numeq a b"
  have "num_zero 0" "\<not> num_nan 0" by (simp_all add: num_zero_def num_nan_def num_exp_def num_man_def)
  then have "a = b" using ab False by (auto simp: luai_numeq_def)
  then show ?thesis by simp
qed

lemma mpos_keq: "keq j k \<Longrightarrow> mpos t j = mpos t k"
  by (auto simp: luaO_rawequalObj_def mpos_def mainposition_def hashnum_numeq split: tobj.splits)

lemma arrayindex_keq: "keq j k \<Longrightarrow> arrayindex j = arrayindex k"
proof -
  assume jk: "keq j k"
  show ?thesis
  proof (cases j)
    case (TNumber m)
    then obtain n where n: "k = TNumber n" "luai_numeq m n" using jk by (auto simp: luaO_rawequalObj_def split: tobj.splits)
    have i: "lua_number2int m = lua_number2int n" using number2int_numeq [OF n(2)] .
    have "luai_numeq (cast_num (lua_number2int n)) m = luai_numeq (cast_num (lua_number2int n)) n"
      using n(2) numeq_equiv(2,3) by blast
    then show ?thesis using TNumber n i by (simp add: arrayindex_def)
  qed (use jk in \<open>auto simp: luaO_rawequalObj_def arrayindex_def split: tobj.splits\<close>)
qed

section \<open>The invariant\<close>

abbreviation key_at :: "Table \<Rightarrow> nat \<Rightarrow> tobj" where "key_at t i \<equiv> i_key (t_node t ! i)"
abbreviation val_at :: "Table \<Rightarrow> nat \<Rightarrow> tobj" where "val_at t i \<equiv> i_val (t_node t ! i)"
abbreviation next_at :: "Table \<Rightarrow> nat \<Rightarrow> nat option" where "next_at t i \<equiv> i_next (t_node t ! i)"
abbreviation nnodes :: "Table \<Rightarrow> nat" where "nnodes t \<equiv> length (t_node t)"

definition links :: "Table \<Rightarrow> (nat \<times> nat) set" where
  "links t = {(i, j). i < nnodes t \<and> next_at t i = Some j}"

definition in_array :: "Table \<Rightarrow> tobj \<Rightarrow> bool" where
  "in_array t k \<longleftrightarrow> 0 < arrayindex k \<and> arrayindex k \<le> int (sizearray t)"

text \<open>Chains stay inside the vector, do not merge, pass through used nodes only, and end.\<close>

definition wf_links :: "Table \<Rightarrow> bool" where
  "wf_links t \<longleftrightarrow>
     (\<forall>i j. (i, j) \<in> links t \<longrightarrow> j < nnodes t \<and> key_at t i \<noteq> TNil \<and> key_at t j \<noteq> TNil) \<and>
     (\<forall>i i' j. (i, j) \<in> links t \<longrightarrow> (i', j) \<in> links t \<longrightarrow> i = i') \<and>
     (\<exists>r :: nat \<Rightarrow> nat. \<forall>i j. (i, j) \<in> links t \<longrightarrow> r i < r j)"

definition wf_keys :: "Table \<Rightarrow> bool" where
  "wf_keys t \<longleftrightarrow>
     (\<forall>i < nnodes t. val_at t i \<noteq> TNil \<longrightarrow> key_at t i \<noteq> TNil) \<and>
     (\<forall>i < nnodes t. key_at t i \<noteq> TNil \<longrightarrow> good_key (key_at t i) \<and> \<not> in_array t (key_at t i) \<and> (mpos t (key_at t i), i) \<in> (links t)\<^sup>*) \<and>
     (\<forall>i < nnodes t. \<forall>j < nnodes t. key_at t i \<noteq> TNil \<longrightarrow> key_at t j \<noteq> TNil \<longrightarrow> mpos t (key_at t j) = i \<longrightarrow> mpos t (key_at t i) = i) \<and>
     (\<forall>i < nnodes t. \<forall>j < nnodes t. key_at t i \<noteq> TNil \<longrightarrow> keq (key_at t i) (key_at t j) \<longrightarrow> i = j)"

definition wf_table :: "Table \<Rightarrow> bool" where
  "wf_table t \<longleftrightarrow> nnodes t = sizenode t \<and> t_lsizenode t \<le> MAXBITS \<and> int (sizearray t) \<le> MAXASIZE \<and>
     (t_dummy t \<longrightarrow> t_node t = [dummynode] \<and> t_lastfree t \<le> 0) \<and>
     (\<not> t_dummy t \<longrightarrow> t_lastfree t \<le> int (nnodes t) \<and> (\<forall>i < nnodes t. t_lastfree t \<le> int i \<longrightarrow> key_at t i \<noteq> TNil)) \<and>
     wf_links t \<and> wf_keys t"

lemma links_next: "(i, j) \<in> links t \<longleftrightarrow> i < nnodes t \<and> next_at t i = Some j"
  by (simp add: links_def)

lemma wf_links_range: "wf_links t \<Longrightarrow> (i, j) \<in> links t \<Longrightarrow> i < nnodes t \<and> j < nnodes t \<and> key_at t i \<noteq> TNil \<and> key_at t j \<noteq> TNil"
  unfolding wf_links_def by (metis links_next)

lemma wf_links_inj: "wf_links t \<Longrightarrow> (i, j) \<in> links t \<Longrightarrow> (i', j) \<in> links t \<Longrightarrow> i = i'"
  unfolding wf_links_def by blast

lemma wf_links_rank: "wf_links t \<Longrightarrow> \<exists>r :: nat \<Rightarrow> nat. \<forall>i j. (i, j) \<in> links t \<longrightarrow> r i < r j"
  unfolding wf_links_def by blast

section \<open>Searching\<close>

text \<open>How many nodes have a rank of at least \<open>m\<close>: a bound on the length of chains.\<close>

definition above :: "Table \<Rightarrow> (nat \<Rightarrow> nat) \<Rightarrow> nat \<Rightarrow> nat" where
  "above t r m = card {j. j < nnodes t \<and> m \<le> r j}"

lemma above_step: "i < nnodes t \<Longrightarrow> r i < m \<Longrightarrow> above t r m < above t r (r i)"
proof -
  assume i: "i < nnodes t" "r i < m"
  have "i \<notin> {j. j < nnodes t \<and> m \<le> r j}" "i \<in> {j. j < nnodes t \<and> r i \<le> r j}" using i by simp_all
  moreover have "{j. j < nnodes t \<and> m \<le> r j} \<subseteq> {j. j < nnodes t \<and> r i \<le> r j}"
    by (rule Collect_mono) (use i(2) in linarith)
  ultimately have "{j. j < nnodes t \<and> m \<le> r j} \<subset> {j. j < nnodes t \<and> r i \<le> r j}" by blast
  then show ?thesis unfolding above_def by (intro psubset_card_mono) auto
qed

lemma above_le: "above t r m \<le> nnodes t"
  using card_mono [of "{..<nnodes t}" "{j. j < nnodes t \<and> m \<le> r j}"] by (auto simp: above_def)

lemma above_pos: "i < nnodes t \<Longrightarrow> 0 < above t r (r i)"
  by (auto simp: above_def card_gt_0_iff)

text \<open>A search along a chain returns, with the first node that the test accepts.\<close>

lemma search_chain_ok:
  assumes w: "wf_links t" and r: "\<forall>i j. (i, j) \<in> links t \<longrightarrow> r i < r j"
  shows "n < nnodes t \<Longrightarrow> above t r (r n) \<le> f \<Longrightarrow> \<exists>res. search_chain f t P n = Inr res \<and>
    (case res of None \<Rightarrow> \<forall>i. (n, i) \<in> (links t)\<^sup>* \<longrightarrow> \<not> P (key_at t i)
     | Some i \<Rightarrow> i < nnodes t \<and> (n, i) \<in> (links t)\<^sup>* \<and> P (key_at t i))"
proof (induction f arbitrary: n)
  case 0
  then show ?case using above_pos [of n t r] by simp
next
  case (Suc f)
  show ?case
  proof (cases "P (key_at t n)")
    case True
    then show ?thesis using Suc.prems(1) by (auto simp: gnode_def intro!: exI [of _ "Some n"])
  next
    case False
    show ?thesis
    proof (cases "next_at t n")
      case None
      have "(n, i) \<in> (links t)\<^sup>* \<Longrightarrow> i = n" for i
        using None by (metis converse_rtranclE links_next not_Some_eq)
      then show ?thesis using None False Suc.prems(1) by (auto simp: gnode_def intro!: exI [of _ None])
    next
      case (Some m)
      then have l: "(n, m) \<in> links t" using Suc.prems(1) by (simp add: links_next)
      have m: "m < nnodes t" using wf_links_range [OF w l] by simp
      have "above t r (r m) < above t r (r n)" using above_step [OF Suc.prems(1)] l r by blast
      then obtain res where res: "search_chain f t P m = Inr res"
        "case res of None \<Rightarrow> \<forall>i. (m, i) \<in> (links t)\<^sup>* \<longrightarrow> \<not> P (key_at t i)
         | Some i \<Rightarrow> i < nnodes t \<and> (m, i) \<in> (links t)\<^sup>* \<and> P (key_at t i)"
        using Suc.IH [OF m] Suc.prems(2) by auto
      have "search_chain (Suc f) t P n = Inr res" using Some False Suc.prems(1) res(1) by (simp add: gnode_def)
      moreover have "(n, i) \<in> (links t)\<^sup>* \<Longrightarrow> i = n \<or> (m, i) \<in> (links t)\<^sup>*" for i
        using l by (metis converse_rtranclE links_next option.inject)
      moreover have "(m, i) \<in> (links t)\<^sup>* \<Longrightarrow> (n, i) \<in> (links t)\<^sup>*" for i using l by (rule converse_rtrancl_into_rtrancl)
      ultimately show ?thesis using res(2) False by (intro exI [of _ res]) (auto split: option.splits)
    qed
  qed
qed

lemma find_node_ok:
  assumes "wf_table t" "n < nnodes t"
  shows "\<exists>res. find_node t P n = Inr (map_option S_node res) \<and>
    (case res of None \<Rightarrow> \<forall>i. (n, i) \<in> (links t)\<^sup>* \<longrightarrow> \<not> P (key_at t i)
     | Some i \<Rightarrow> i < nnodes t \<and> (n, i) \<in> (links t)\<^sup>* \<and> P (key_at t i))"
proof -
  have w: "wf_links t" using assms(1) by (simp add: wf_table_def)
  from wf_links_rank [OF w] obtain r :: "nat \<Rightarrow> nat" where r: "\<forall>i j. (i, j) \<in> links t \<longrightarrow> r i < r j" ..
  from search_chain_ok [OF w r assms(2) above_le, of P] show ?thesis
    unfolding find_node_def by (elim exE conjE) (rule exI, erule conjI [rotated], simp)
qed

text \<open>Where a key is stored.\<close>

definition stored :: "Table \<Rightarrow> tobj \<Rightarrow> slot option \<Rightarrow> bool" where
  "stored t k res \<longleftrightarrow>
     (if in_array t k then res = Some (S_array (nat (arrayindex k - 1)))
      else case res of None \<Rightarrow> \<forall>i < nnodes t. \<not> keq (key_at t i) k
        | Some (S_array i) \<Rightarrow> False
        | Some (S_node i) \<Rightarrow> i < nnodes t \<and> keq (key_at t i) k)"

lemma wf_reach: "wf_table t \<Longrightarrow> i < nnodes t \<Longrightarrow> key_at t i \<noteq> TNil \<Longrightarrow> (mpos t (key_at t i), i) \<in> (links t)\<^sup>*"
  unfolding wf_table_def wf_keys_def by blast

lemma wf_good: "wf_table t \<Longrightarrow> i < nnodes t \<Longrightarrow> key_at t i \<noteq> TNil \<Longrightarrow> good_key (key_at t i) \<and> \<not> in_array t (key_at t i)"
  unfolding wf_table_def wf_keys_def by blast

lemma good_not_nil: "good_key k \<Longrightarrow> k \<noteq> TNil"
  by (auto simp: good_key_def)

lemma find_key:
  assumes w: "wf_table t" and k: "good_key k" "\<not> in_array t k" and P: "\<And>j. P j \<longleftrightarrow> keq j k"
  shows "\<exists>res. find_node t P (mpos t k) = Inr res \<and> stored t k res"
proof -
  have "mpos t k < nnodes t" using mpos_less [of t k] w by (simp add: wf_table_def)
  from find_node_ok [OF w this, of P] obtain res where res: "find_node t P (mpos t k) = Inr (map_option S_node res)"
    "case res of None \<Rightarrow> \<forall>i. (mpos t k, i) \<in> (links t)\<^sup>* \<longrightarrow> \<not> P (key_at t i)
     | Some i \<Rightarrow> i < nnodes t \<and> (mpos t k, i) \<in> (links t)\<^sup>* \<and> P (key_at t i)" by blast
  have "stored t k (map_option S_node res)"
  proof (cases res)
    case None
    have "\<not> keq (key_at t i) k" if i: "i < nnodes t" for i
    proof
      assume e: "keq (key_at t i) k"
      then have "key_at t i \<noteq> TNil" using keq_good k(1) good_not_nil by blast
      then have "(mpos t k, i) \<in> (links t)\<^sup>*" using wf_reach [OF w i] mpos_keq [OF e] by simp
      then show False using res(2) None P e by auto
    qed
    then show ?thesis using None k(2) by (simp add: stored_def)
  next
    case (Some i)
    then show ?thesis using res(2) k(2) P by (simp add: stored_def)
  qed
  then show ?thesis using res(1) by blast
qed

lemma stored_keq: "keq j k \<Longrightarrow> stored t j res = stored t k res"
proof -
  assume jk: "keq j k"
  have "keq x j = keq x k" for x using jk keq_sym keq_trans by blast
  then show ?thesis using arrayindex_keq [OF jk] by (simp add: stored_def in_array_def split: option.split slot.split)
qed

lemma arrayindex_cast: "- (2 ^ 31) \<le> k \<Longrightarrow> k < 2 ^ 31 \<Longrightarrow> arrayindex (TNumber (cast_num k)) = k"
  using number2int_cast [of k] numeq_equiv(1) by (simp add: arrayindex_def)

lemma good_cast: "- (2 ^ 31) \<le> k \<Longrightarrow> k < 2 ^ 31 \<Longrightarrow> good_key (TNumber (cast_num k))"
  using number2int_cast [of k] by (simp add: good_key_def)

lemma getnum_stored:
  assumes w: "wf_table t" and k: "- (2 ^ 31) \<le> k" "k < 2 ^ 31"
  shows "\<exists>res. luaH_getnum t k = Inr res \<and> stored t (TNumber (cast_num k)) res"
proof (cases "in_array t (TNumber (cast_num k))")
  case True
  then have i: "0 < k" "k \<le> int (sizearray t)" using arrayindex_cast [OF k] by (simp_all add: in_array_def)
  then have "(k - 1) mod 2 ^ 32 = k - 1" using k by (intro mod_pos_pos_trivial) auto
  then show ?thesis using i True arrayindex_cast [OF k] by (simp add: luaH_getnum_def stored_def)
next
  case False
  have s: "int (sizearray t) \<le> 2 ^ 26" using w by (simp add: wf_table_def MAXASIZE_def MAXBITS_def)
  have "\<not> (k - 1) mod 2 ^ 32 < int (sizearray t)"
  proof (cases "0 < k")
    case True
    then have "(k - 1) mod 2 ^ 32 = k - 1" using k by (intro mod_pos_pos_trivial) auto
    then show ?thesis using False True arrayindex_cast [OF k] by (simp add: in_array_def)
  next
    case False
    have "(k - 1) mod 2 ^ 32 = (k - 1 + 2 ^ 32) mod 2 ^ 32" by (rule mod_add_self2 [symmetric])
    also have "\<dots> = k - 1 + 2 ^ 32" by (rule mod_pos_pos_trivial) (use False k in auto)
    finally have "(k - 1) mod 2 ^ 32 = k - 1 + 2 ^ 32" .
    then show ?thesis using k s by simp
  qed
  moreover have "mpos t (TNumber (cast_num k)) = hashnum t (cast_num k)" by (simp add: mpos_def mainposition_def)
  ultimately show ?thesis
    using find_key [OF w good_cast [OF k] False keq_num [symmetric]] by (simp add: luaH_getnum_def Let_def)
qed

text \<open>\<open>luaH_get\<close> returns from every table, and finds every key that is there.\<close>

lemma get_stored:
  assumes w: "wf_table t" and k: "good_key k"
  shows "\<exists>res. luaH_get t k = Inr res \<and> stored t k res"
proof -
  have any: "\<exists>res. get_any t k = Inr res \<and> stored t k res" if "\<not> in_array t k"
    using find_key [OF w k that, of "\<lambda>j. keq j k"] mainposition_mpos [OF good_not_nil [OF k]] by (simp add: get_any_def)
  show ?thesis
  proof (cases k)
    case (TNumber n)
    let ?k = "lua_number2int n"
    show ?thesis
    proof (cases "luai_numeq (cast_num ?k) n")
      case True
      have "keq (TNumber (cast_num ?k)) k" using True TNumber by (simp add: luaO_rawequalObj_def)
      then show ?thesis
        using getnum_stored [OF w, of ?k] number2int_range [of n] stored_keq True TNumber by (auto simp: luaH_get_def Let_def)
    next
      case False
      then have "\<not> in_array t k" using TNumber by (simp add: in_array_def arrayindex_def)
      then show ?thesis using any False TNumber by (simp add: luaH_get_def Let_def)
    qed
  next
    case (TStr s)
    have "\<not> in_array t k" using TStr by (simp add: in_array_def arrayindex_def)
    moreover have "mpos t k = hashpow2 t (unat (str_hash s))" using TStr by (simp add: mpos_def mainposition_def)
    ultimately show ?thesis using find_key [OF w k _ keq_str [of _ s, folded TStr, symmetric]] TStr
      by (simp add: luaH_get_def luaH_getstr_def)
  qed (use k any in \<open>simp_all add: luaH_get_def good_key_def in_array_def arrayindex_def\<close>)
qed

end
