(* ===== verification/Linsert.thy ===== *)
theory Linsert
  imports Lhash
begin

text \<open>
  Inserting a key into the hash part of a table: each of the three ways in which \<open>newkey\<close> places a key keeps the invariant
  and all entries, and there is a free place as long as the vector has an unused node.
\<close>

section \<open>Free places\<close>

lemma getfree_ok:
  "lf \<le> int (length ns) \<Longrightarrow> (case getfree_loop ns lf of
     (Some n, lf1) \<Rightarrow> n < length ns \<and> lf1 = int n \<and> i_key (ns ! n) = TNil \<and> (\<forall>i. n < i \<longrightarrow> int i < lf \<longrightarrow> i_key (ns ! i) \<noteq> TNil)
   | (None, lf1) \<Rightarrow> lf1 < lf \<and> (0 \<le> lf \<longrightarrow> lf1 = - 1) \<and> (\<forall>i. int i < lf \<longrightarrow> i_key (ns ! i) \<noteq> TNil))"
proof (induction ns lf rule: getfree_loop.induct)
  case (1 ns lf)
  show ?case
  proof (cases "lf > 0")
    case False
    then show ?thesis by (simp add: getfree_loop.simps [of ns lf])
  next
    case pos: True
    have edge: "int i < lf \<longleftrightarrow> int i < lf - 1 \<or> i = nat (lf - 1)" for i using pos by auto
    show ?thesis
    proof (cases "i_key (ns ! nat (lf - 1)) = TNil")
      case True
      then show ?thesis using pos 1(2) by (auto simp: getfree_loop.simps [of ns lf])
    next
      case False
      have "lf - 1 \<le> int (length ns)" using 1(2) by simp
      from 1(1) [OF pos False this] show ?thesis
        using pos False by (auto simp: getfree_loop.simps [of ns lf] edge split: prod.splits option.splits)
    qed
  qed
qed

text \<open>The nodes in use.\<close>

definition used :: "Table \<Rightarrow> nat" where
  "used t = card {i. i < nnodes t \<and> key_at t i \<noteq> TNil}"

lemma used_less: "used t < nnodes t \<Longrightarrow> \<exists>i < nnodes t. key_at t i = TNil"
proof (rule ccontr)
  assume u: "used t < nnodes t" and "\<not> (\<exists>i < nnodes t. key_at t i = TNil)"
  then have "{i. i < nnodes t \<and> key_at t i \<noteq> TNil} = {..<nnodes t}" by auto
  then show False using u by (simp add: used_def)
qed

lemma used_le:
  assumes "nnodes t1 = nnodes t" "\<And>i. i < nnodes t \<Longrightarrow> key_at t1 i \<noteq> TNil \<Longrightarrow> key_at t i \<noteq> TNil \<or> i = p"
  shows "used t1 \<le> used t + 1"
proof -
  have "{i. i < nnodes t1 \<and> key_at t1 i \<noteq> TNil} \<subseteq> insert p {i. i < nnodes t \<and> key_at t i \<noteq> TNil}" using assms by auto
  then have "used t1 \<le> card (insert p {i. i < nnodes t \<and> key_at t i \<noteq> TNil})" unfolding used_def by (intro card_mono) auto
  also have "\<dots> \<le> used t + 1" by (simp add: used_def card_insert_if)
  finally show ?thesis .
qed

section \<open>Placing a key\<close>

text \<open>The entries of the hash part.\<close>

definition holds :: "Table \<Rightarrow> tobj \<Rightarrow> tobj \<Rightarrow> bool" where
  "holds t k v \<longleftrightarrow> (\<exists>i < nnodes t. keq (key_at t i) k \<and> val_at t i = v)"

text \<open>What does not change: sizes and the array part.\<close>

definition same_shape :: "Table \<Rightarrow> Table \<Rightarrow> bool" where
  "same_shape t1 t \<longleftrightarrow> nnodes t1 = nnodes t \<and> t_lsizenode t1 = t_lsizenode t \<and> t_array t1 = t_array t \<and> t_dummy t1 = t_dummy t"

definition placed :: "Table \<Rightarrow> tobj \<Rightarrow> nat \<Rightarrow> Table \<Rightarrow> bool" where
  "placed t key p t1 \<longleftrightarrow> wf_table t1 \<and> same_shape t1 t \<and> p < nnodes t1 \<and> key_at t1 p = key \<and> val_at t1 p = TNil \<and>
     used t1 \<le> used t + 1 \<and> (\<forall>k v. v \<noteq> TNil \<longrightarrow> holds t1 k v = holds t k v)"

definition fresh :: "Table \<Rightarrow> tobj \<Rightarrow> bool" where
  "fresh t key \<longleftrightarrow> good_key key \<and> \<not> in_array t key \<and> (\<forall>i < nnodes t. \<not> keq (key_at t i) key)"

lemma same_shape_mpos: "same_shape t1 t \<Longrightarrow> mpos t1 k = mpos t k"
  by (intro mpos_cong) (simp add: same_shape_def)

lemma same_shape_array: "same_shape t1 t \<Longrightarrow> in_array t1 k = in_array t k"
  by (simp add: same_shape_def in_array_def)

lemma wf_table_intro:
  assumes "wf_table t" "same_shape t1 t" "\<not> t_dummy t" "t_lastfree t1 \<le> int (nnodes t)"
    "\<forall>i < nnodes t. t_lastfree t1 \<le> int i \<longrightarrow> key_at t1 i \<noteq> TNil" "wf_links t1" "wf_keys t1"
  shows "wf_table t1"
  using assms unfolding wf_table_def same_shape_def sizenode_def by auto

lemma wf_keys_parts:
  assumes "wf_table t"
  shows "\<And>i. i < nnodes t \<Longrightarrow> val_at t i \<noteq> TNil \<Longrightarrow> key_at t i \<noteq> TNil"
    "\<And>i j. i < nnodes t \<Longrightarrow> j < nnodes t \<Longrightarrow> key_at t i \<noteq> TNil \<Longrightarrow> key_at t j \<noteq> TNil \<Longrightarrow> mpos t (key_at t j) = i \<Longrightarrow> mpos t (key_at t i) = i"
    "\<And>i j. i < nnodes t \<Longrightarrow> j < nnodes t \<Longrightarrow> key_at t i \<noteq> TNil \<Longrightarrow> keq (key_at t i) (key_at t j) \<Longrightarrow> i = j"
  using assms unfolding wf_table_def wf_keys_def by blast+

text \<open>The main position is free, or its value was removed.\<close>

lemma place_at_main:
  assumes w: "wf_table t" and f: "fresh t key" and d: "\<not> t_dummy t" and v: "val_at t (mpos t key) = TNil"
  shows "placed t key (mpos t key) (update_node (mpos t key) (\<lambda>x. x\<lparr>i_key := key\<rparr>) t)"
proof -
  define mp where "mp = mpos t key"
  define t1 where "t1 = update_node mp (\<lambda>x. x\<lparr>i_key := key\<rparr>) t"
  have good: "good_key key" "key \<noteq> TNil" "\<not> in_array t key" using f good_not_nil by (auto simp: fresh_def)
  have mp: "mp < nnodes t" using mpos_less [of t key] w by (simp add: mp_def wf_table_def)
  have s: "same_shape t1 t" "nnodes t1 = nnodes t" by (simp_all add: t1_def same_shape_def update_node_def)
  have at: "key_at t1 i = (if i = mp then key else key_at t i)" "val_at t1 i = val_at t i" "next_at t1 i = next_at t i" if "i < nnodes t" for i
    using that mp by (simp_all add: t1_def update_node_def nth_list_update)
  have l: "links t1 = links t" using at(3) s(2) by (auto simp: links_def)
  have wl: "wf_links t" using w by (simp add: wf_table_def)
  have "wf_links t1"
    unfolding wf_links_def l s(2)
  proof (intro conjI allI impI)
    fix i j assume ij: "(i, j) \<in> links t"
    show "j < nnodes t" "key_at t1 i \<noteq> TNil" "key_at t1 j \<noteq> TNil"
      using wf_links_range [OF wl ij] at(1) good(2) by auto
  qed (use wf_links_inj [OF wl] wf_links_rank [OF wl] in auto)
  moreover have "wf_keys t1"
    unfolding wf_keys_def s(2) l same_shape_mpos [OF s(1)] same_shape_array [OF s(1)]
  proof (intro conjI allI impI)
    fix i assume i: "i < nnodes t"
    show "val_at t1 i \<noteq> TNil \<Longrightarrow> key_at t1 i \<noteq> TNil" using at [OF i] wf_keys_parts(1) [OF w i] good(2) by auto
    assume k: "key_at t1 i \<noteq> TNil"
    show "good_key (key_at t1 i)" "\<not> in_array t (key_at t1 i)" "(mpos t (key_at t1 i), i) \<in> (links t)\<^sup>*"
      using wf_good [OF w i] wf_reach [OF w i] at(1) [OF i] k good by (auto simp: mp_def split: if_splits)
    fix j assume j: "j < nnodes t"
    show "key_at t1 j \<noteq> TNil \<Longrightarrow> mpos t (key_at t1 j) = i \<Longrightarrow> mpos t (key_at t1 i) = i"
      using wf_keys_parts(2) [OF w i j] at(1) [OF i] at(1) [OF j] k by (auto simp: mp_def split: if_splits)
    show "keq (key_at t1 i) (key_at t1 j) \<Longrightarrow> i = j"
      using wf_keys_parts(3) [OF w i j] at(1) [OF i] at(1) [OF j] k f i j keq_sym by (auto simp: fresh_def split: if_splits)
  qed
  ultimately have "wf_table t1"
    using w d at(1) good(2) by (intro wf_table_intro [OF w s(1) d]) (auto simp: t1_def update_node_def wf_table_def)
  moreover have "holds t1 k x = holds t k x" if "x \<noteq> TNil" for k x
  proof -
    have "(keq (key_at t1 i) k \<and> val_at t1 i = x) = (keq (key_at t i) k \<and> val_at t i = x)" if "i < nnodes t" for i
      using at [OF that] v \<open>x \<noteq> TNil\<close> by (cases "i = mp") (auto simp: mp_def)
    then show ?thesis unfolding holds_def s(2) by auto
  qed
  moreover have "used t1 \<le> used t + 1" by (rule used_le [OF s(2), of mp]) (use at(1) in \<open>auto split: if_splits\<close>)
  ultimately show ?thesis using s mp at v by (simp add: placed_def mp_def t1_def)
qed

text \<open>
  The colliding node is in its own main position \<open>mp\<close>: the key goes to the free place \<open>n\<close>, which is
  chained behind it.
\<close>

lemma splice_links:
  assumes wl: "wf_links t" and n: "n < nnodes t" "key_at t n = TNil" and mp: "mp < nnodes t" "key_at t mp \<noteq> TNil"
    and t1: "nnodes t1 = nnodes t" "\<And>i. i < nnodes t \<Longrightarrow> next_at t1 i = (if i = n then next_at t mp else if i = mp then Some n else next_at t i)"
    and k1: "\<And>i. i < nnodes t \<Longrightarrow> key_at t1 i = (if i = n then key else key_at t i)" "key \<noteq> TNil"
  shows "wf_links t1 \<and> (links t)\<^sup>* \<subseteq> (links t1)\<^sup>* \<and> (mp, n) \<in> links t1"
proof -
  have nl: "(n, i) \<notin> links t" "(i, n) \<notin> links t" for i using wf_links_range [OF wl] n(2) by blast+
  have ne: "n \<noteq> mp" using n(2) mp(2) by auto
  have L: "(i, j) \<in> links t1 \<longleftrightarrow> (i = n \<and> (mp, j) \<in> links t) \<or> (i = mp \<and> j = n) \<or> (i \<noteq> n \<and> i \<noteq> mp \<and> (i, j) \<in> links t)" for i j
    using t1 n(1) mp(1) ne by (auto simp: links_next split: if_splits)
  have range: "j < nnodes t1 \<and> key_at t1 i \<noteq> TNil \<and> key_at t1 j \<noteq> TNil" if h: "(i, j) \<in> links t1" for i j
  proof -
    consider "i = n" "(mp, j) \<in> links t" | "i = mp" "j = n" | "i \<noteq> n" "(i, j) \<in> links t" using h unfolding L by blast
    then show ?thesis
    proof cases
      case 1
      then show ?thesis using wf_links_range [OF wl 1(2)] n(1) k1 t1(1) by simp
    next
      case 2
      then show ?thesis using n(1) mp k1 t1(1) by simp
    next
      case 3
      then show ?thesis using wf_links_range [OF wl 3(2)] k1 t1(1) by simp
    qed
  qed
  have inj: "i = i'" if "(i, j) \<in> links t1" "(i', j) \<in> links t1" for i i' j
    using that L nl wf_links_inj [OF wl] by metis
  from wf_links_rank [OF wl] obtain r :: "nat \<Rightarrow> nat" where r: "\<forall>i j. (i, j) \<in> links t \<longrightarrow> r i < r j" ..
  define q where "q = (\<lambda>i. if i = n then 2 * r mp + 1 else 2 * r i)"
  have "q i < q j" if h: "(i, j) \<in> links t1" for i j
  proof -
    consider "i = n" "(mp, j) \<in> links t" | "i = mp" "j = n" | "i \<noteq> n" "(i, j) \<in> links t" using h unfolding L by blast
    then show ?thesis
    proof cases
      case 1
      then have "r mp < r j" "j \<noteq> n" using r nl by blast+
      then show ?thesis using 1 by (simp add: q_def)
    next
      case 2
      then show ?thesis using ne by (simp add: q_def)
    next
      case 3
      then have "r i < r j" "j \<noteq> n" using r nl by blast+
      then show ?thesis using 3 by (simp add: q_def)
    qed
  qed
  then have "wf_links t1" unfolding wf_links_def using range inj by blast
  moreover have "links t \<subseteq> (links t1)\<^sup>*"
  proof (rule subrelI)
    fix i j assume ij: "(i, j) \<in> links t"
    show "(i, j) \<in> (links t1)\<^sup>*"
    proof (cases "i = mp")
      case True
      then have "(i, n) \<in> links t1" "(n, j) \<in> links t1" using ij L by auto
      then show ?thesis by (meson r_into_rtrancl rtrancl_trans)
    next
      case False
      then have "(i, j) \<in> links t1" using ij L nl by blast
      then show ?thesis by blast
    qed
  qed
  ultimately show ?thesis using L rtrancl_subset_rtrancl by blast
qed

lemma place_behind:
  assumes w: "wf_table t" and f: "fresh t key" and d: "\<not> t_dummy t" and mp: "mp = mpos t key" "val_at t mp \<noteq> TNil" "mpos t (key_at t mp) = mp"
    and n: "n < nnodes t" "key_at t n = TNil" "\<forall>i. n < i \<longrightarrow> i < nnodes t \<longrightarrow> key_at t i \<noteq> TNil"
    and t1: "same_shape t1 t" "t_lastfree t1 = int n"
      "\<And>i. i < nnodes t \<Longrightarrow> t_node t1 ! i = (if i = n then \<lparr>i_val = val_at t n, i_key = key, i_next = next_at t mp\<rparr>
         else if i = mp then (t_node t ! mp)\<lparr>i_next := Some n\<rparr> else t_node t ! i)"
  shows "placed t key n t1"
proof -
  have good: "good_key key" "key \<noteq> TNil" "\<not> in_array t key" using f good_not_nil by (auto simp: fresh_def)
  have m: "mp < nnodes t" using mpos_less [of t key] w by (simp add: mp(1) wf_table_def)
  have km: "key_at t mp \<noteq> TNil" using wf_keys_parts(1) [OF w m mp(2)] .
  have s: "nnodes t1 = nnodes t" using t1(1) by (simp add: same_shape_def)
  have at: "key_at t1 i = (if i = n then key else key_at t i)" "val_at t1 i = val_at t i"
    "next_at t1 i = (if i = n then next_at t mp else if i = mp then Some n else next_at t i)" if "i < nnodes t" for i
    using t1(3) [OF that] by auto
  have wl: "wf_links t" using w by (simp add: wf_table_def)
  have L: "wf_links t1" "(links t)\<^sup>* \<subseteq> (links t1)\<^sup>*" "(mp, n) \<in> links t1"
    using splice_links [OF wl n(1,2) m km s at(3) at(1) good(2)] by blast+
  have vn: "val_at t n = TNil" using wf_keys_parts(1) [OF w n(1)] n(2) by blast
  have main: "mpos t (key_at t1 i) = (if i = n then mp else mpos t (key_at t i))" if "i < nnodes t" for i
    using at(1) [OF that] mp(1) by simp
  have "wf_keys t1"
    unfolding wf_keys_def s same_shape_mpos [OF t1(1)] same_shape_array [OF t1(1)]
  proof (intro conjI allI impI)
    fix i assume i: "i < nnodes t"
    show "val_at t1 i \<noteq> TNil \<Longrightarrow> key_at t1 i \<noteq> TNil" using at [OF i] wf_keys_parts(1) [OF w i] good(2) by auto
    assume k: "key_at t1 i \<noteq> TNil"
    show "good_key (key_at t1 i)" "\<not> in_array t (key_at t1 i)"
      using wf_good [OF w i] at(1) [OF i] k good by (auto split: if_splits)
    show "(mpos t (key_at t1 i), i) \<in> (links t1)\<^sup>*"
      using wf_reach [OF w i] at(1) [OF i] k L(2,3) mp(1) by (auto split: if_splits)
    fix j assume j: "j < nnodes t" and k2: "key_at t1 j \<noteq> TNil"
    show "mpos t (key_at t1 i) = i" if ji: "mpos t (key_at t1 j) = i"
    proof -
      have no: "mpos t (key_at t j) \<noteq> n" if "j \<noteq> n"
      proof
        assume e: "mpos t (key_at t j) = n"
        have kj: "key_at t j \<noteq> TNil" using k2 at(1) [OF j] that by simp
        have "(n, j) \<in> (links t)\<^sup>*" using wf_reach [OF w j kj] e by simp
        then show False using that by (metis converse_rtranclE wf_links_range [OF wl] n(2))
      qed
      have "i \<noteq> n" using ji main [OF j] no mp(1) km n(2) by (auto split: if_splits)
      then have ki: "key_at t i \<noteq> TNil" using k at(1) [OF i] by simp
      show ?thesis
      proof (cases "j = n")
        case True
        then have "i = mp" using ji main [OF j] by simp
        then show ?thesis using mp(3) main [OF i] \<open>i \<noteq> n\<close> by simp
      next
        case False
        then show ?thesis using wf_keys_parts(2) [OF w i j ki] ji main [OF j] main [OF i] k2 at(1) [OF j] \<open>i \<noteq> n\<close> by simp
      qed
    qed
  next
    fix i j assume i: "i < nnodes t" and j: "j < nnodes t" and k: "key_at t1 i \<noteq> TNil"
    show "keq (key_at t1 i) (key_at t1 j) \<Longrightarrow> i = j"
      using wf_keys_parts(3) [OF w i j] at(1) [OF i] at(1) [OF j] k f i j keq_sym by (auto simp: fresh_def split: if_splits)
  qed
  moreover have "key_at t1 i \<noteq> TNil" if "i < nnodes t" "n \<le> i" for i using at(1) [OF that(1)] n(3) good(2) that by auto
  ultimately have "wf_table t1" using L(1) n(1) t1(2) by (intro wf_table_intro [OF w t1(1) d]) auto
  moreover have "holds t1 k x = holds t k x" if "x \<noteq> TNil" for k x
  proof -
    have "(keq (key_at t1 i) k \<and> val_at t1 i = x) = (keq (key_at t i) k \<and> val_at t i = x)" if "i < nnodes t" for i
      using at [OF that] vn \<open>x \<noteq> TNil\<close> by (cases "i = n") auto
    then show ?thesis unfolding holds_def s by auto
  qed
  moreover have "used t1 \<le> used t + 1" by (rule used_le [OF s, of n]) (use at(1) in \<open>auto split: if_splits\<close>)
  ultimately show ?thesis using t1(1) n(1) at vn s by (simp add: placed_def)
qed

text \<open>
  The colliding node is out of its main position: it moves to the free place \<open>n\<close>, and the key takes its
  place. Along the chains, \<open>n\<close> takes the role of \<open>mp\<close>.
\<close>

lemma find_previous_ok:
  assumes w: "wf_links t" and r: "\<forall>i j. (i, j) \<in> links t \<longrightarrow> r i < r j"
  shows "(n, mp) \<in> (links t)\<^sup>+ \<Longrightarrow> above t r (r n) \<le> f \<Longrightarrow> \<exists>pr. find_previous f t mp n = Inr pr \<and> (pr, mp) \<in> links t"
proof (induction f arbitrary: n)
  case 0
  then obtain m where "(n, m) \<in> links t" by (meson tranclD)
  then show ?case using 0 above_pos [of n t r] wf_links_range [OF w] by fastforce
next
  case (Suc f)
  obtain m where m: "(n, m) \<in> links t" "(m, mp) \<in> (links t)\<^sup>*" using Suc.prems(1) by (meson tranclD)
  have n: "n < nnodes t" "next_at t n = Some m" using m(1) by (simp_all add: links_next)
  show ?case
  proof (cases "m = mp")
    case True
    then show ?thesis using n m(1) by (simp add: gnode_def)
  next
    case False
    then have "(m, mp) \<in> (links t)\<^sup>+" using m(2) by (simp add: rtrancl_eq_or_trancl)
    moreover have "above t r (r m) \<le> f" using above_step [OF n(1), of r "r m"] r m(1) Suc.prems(2) by fastforce
    ultimately show ?thesis using Suc.IH n False by (simp add: gnode_def)
  qed
qed

lemma move_links:
  assumes wl: "wf_links t" and n: "n < nnodes t" "key_at t n = TNil" and pr: "(pr, mp) \<in> links t"
    and t1: "nnodes t1 = nnodes t" "\<And>i. i < nnodes t \<Longrightarrow> next_at t1 i =
      (if i = n then next_at t mp else if i = mp then None else if i = pr then Some n else next_at t i)"
    and k1: "\<And>i. i < nnodes t \<Longrightarrow> key_at t1 i = (if i = n then key_at t mp else if i = mp then key else key_at t i)"
  shows "wf_links t1 \<and> (\<forall>i j. (i, j) \<in> (links t)\<^sup>* \<longrightarrow> i \<noteq> mp \<longrightarrow> (i, if j = mp then n else j) \<in> (links t1)\<^sup>*)"
proof -
  have nl: "(n, i) \<notin> links t" "(i, n) \<notin> links t" for i using wf_links_range [OF wl] n(2) by blast+
  from wf_links_rank [OF wl] obtain r :: "nat \<Rightarrow> nat" where r: "\<forall>i j. (i, j) \<in> links t \<longrightarrow> r i < r j" ..
  have ne: "n \<noteq> mp" "n \<noteq> pr" "pr \<noteq> mp" using nl pr r by (blast, blast, blast)
  have m: "mp < nnodes t" "pr < nnodes t" "key_at t mp \<noteq> TNil" "next_at t pr = Some mp"
    using wf_links_range [OF wl pr] pr by (simp_all add: links_next)
  define g where "g = (\<lambda>i. if i = mp then n else i)"
  have to: "(g i, g j) \<in> links t1" if ij: "(i, j) \<in> links t" for i j
  proof -
    have i: "i < nnodes t" "next_at t i = Some j" using ij by (simp_all add: links_next)
    have j: "i \<noteq> n" "j \<noteq> n" using ij nl by blast+
    have "j = mp \<longleftrightarrow> i = pr"
    proof
      assume "j = mp"
      then show "i = pr" using wf_links_inj [OF wl pr] ij by blast
    qed (use i(2) m(4) in simp)
    moreover have "j \<noteq> i" using ij r by blast
    ultimately show ?thesis using i j ne m n(1) t1 by (auto simp: links_next g_def)
  qed
  have from': "\<exists>a b. (a, b) \<in> links t \<and> i = g a \<and> j = g b" if h: "(i, j) \<in> links t1" for i j
  proof -
    have i1: "i < nnodes t" "next_at t1 i = Some j" using h t1(1) by (simp_all add: links_next)
    then have i: "i < nnodes t" "(if i = n then next_at t mp else if i = mp then None else if i = pr then Some n else next_at t i) = Some j"
      using t1(2) [OF i1(1)] by simp_all
    consider "i = n" "(mp, j) \<in> links t" | "i = pr" "j = n" | "i \<noteq> n" "i \<noteq> mp" "i \<noteq> pr" "(i, j) \<in> links t"
      using i m by (auto simp: links_next split: if_splits)
    then show ?thesis
    proof cases
      case 1
      then have "j \<noteq> mp" using r by blast
      then show ?thesis using 1 by (auto simp: g_def)
    next
      case 2
      then show ?thesis using pr ne by (auto simp: g_def)
    next
      case 3
      then have "j \<noteq> mp" using wf_links_inj [OF wl pr] by blast
      then show ?thesis using 3 by (auto simp: g_def)
    qed
  qed
  have g_inj: "a = b" if "g a = g b" "(a, x) \<in> links t \<or> (x, a) \<in> links t" "(b, y) \<in> links t \<or> (y, b) \<in> links t" for a b x y
    using that nl by (auto simp: g_def split: if_splits)
  have range1: "j < nnodes t1 \<and> key_at t1 i \<noteq> TNil \<and> key_at t1 j \<noteq> TNil" if h: "(i, j) \<in> links t1" for i j
  proof -
    obtain a b where ab: "(a, b) \<in> links t" "i = g a" "j = g b" using from' [OF h] by blast
    have g_key: "key_at t1 (g c) \<noteq> TNil \<and> g c < nnodes t" if "c < nnodes t" "key_at t c \<noteq> TNil" "c \<noteq> n" for c
      using k1 that n(1) m(3) ne by (auto simp: g_def)
    have "a \<noteq> n" "b \<noteq> n" using nl ab(1) by blast+
    then show ?thesis using g_key wf_links_range [OF wl ab(1)] ab t1(1) by simp
  qed
  have inj1: "i = i'" if h: "(i, j) \<in> links t1" "(i', j) \<in> links t1" for i i' j
  proof -
    obtain a b a' b' where *: "(a, b) \<in> links t" "i = g a" "j = g b" "(a', b') \<in> links t" "i' = g a'" "j = g b'"
      using from' [OF h(1)] from' [OF h(2)] by blast
    then have "b = b'" using g_inj by metis
    then show ?thesis using * wf_links_inj [OF wl] by blast
  qed
  have rank1: "\<exists>q :: nat \<Rightarrow> nat. \<forall>i j. (i, j) \<in> links t1 \<longrightarrow> q i < q j"
  proof (intro exI [of _ "\<lambda>i. if i = n then r mp else r i"] allI impI)
    fix i j assume "(i, j) \<in> links t1"
    then obtain a b where ab: "(a, b) \<in> links t" "i = g a" "j = g b" using from' by blast
    have "a \<noteq> n" "b \<noteq> n" "r a < r b" using nl ab(1) r by blast+
    then show "(if i = n then r mp else r i) < (if j = n then r mp else r j)" using ab(2,3) by (auto simp: g_def)
  qed
  have reach: "(g i, g j) \<in> (links t1)\<^sup>*" if "(i, j) \<in> (links t)\<^sup>*" for i j
    using that by (induction rule: rtrancl_induct) (auto intro: rtrancl_into_rtrancl to)
  have "wf_links t1" unfolding wf_links_def using range1 inj1 rank1 by blast
  moreover have "(i, if j = mp then n else j) \<in> (links t1)\<^sup>*" if "(i, j) \<in> (links t)\<^sup>*" "i \<noteq> mp" for i j
    using reach [OF that(1)] that(2) by (simp add: g_def)
  ultimately show ?thesis by blast
qed

lemma free_no_reach: "wf_links t \<Longrightarrow> key_at t n = TNil \<Longrightarrow> (n, i) \<in> (links t)\<^sup>* \<Longrightarrow> i = n"
  by (metis converse_rtranclE wf_links_range)

lemma place_moved:
  assumes w: "wf_table t" and f: "fresh t key" and d: "\<not> t_dummy t" and mp: "mp = mpos t key" "val_at t mp \<noteq> TNil" "mpos t (key_at t mp) \<noteq> mp"
    and n: "n < nnodes t" "key_at t n = TNil" "\<forall>i. n < i \<longrightarrow> i < nnodes t \<longrightarrow> key_at t i \<noteq> TNil" and pr: "(pr, mp) \<in> links t"
    and t1: "same_shape t1 t" "t_lastfree t1 = int n"
      "\<And>i. i < nnodes t \<Longrightarrow> t_node t1 ! i = (if i = n then t_node t ! mp else if i = mp then \<lparr>i_val = TNil, i_key = key, i_next = None\<rparr>
         else if i = pr then (t_node t ! pr)\<lparr>i_next := Some n\<rparr> else t_node t ! i)"
  shows "placed t key mp t1"
proof -
  have good: "good_key key" "key \<noteq> TNil" "\<not> in_array t key" using f good_not_nil by (auto simp: fresh_def)
  have m: "mp < nnodes t" using mpos_less [of t key] w by (simp add: mp(1) wf_table_def)
  have km: "key_at t mp \<noteq> TNil" using wf_keys_parts(1) [OF w m mp(2)] .
  have s: "nnodes t1 = nnodes t" using t1(1) by (simp add: same_shape_def)
  have wl: "wf_links t" using w by (simp add: wf_table_def)
  have ne: "n \<noteq> mp" using n(2) km by auto
  have at: "key_at t1 i = (if i = n then key_at t mp else if i = mp then key else key_at t i)"
    "val_at t1 i = (if i = n then val_at t mp else if i = mp then TNil else val_at t i)"
    "next_at t1 i = (if i = n then next_at t mp else if i = mp then None else if i = pr then Some n else next_at t i)" if "i < nnodes t" for i
    using t1(3) [OF that] by auto
  have L: "wf_links t1" "\<And>i j. (i, j) \<in> (links t)\<^sup>* \<Longrightarrow> i \<noteq> mp \<Longrightarrow> (i, if j = mp then n else j) \<in> (links t1)\<^sup>*"
    using move_links [OF wl n(1,2) pr s at(3) at(1)] by blast+
  have notn: "mpos t (key_at t j) \<noteq> n" if "j < nnodes t" "key_at t j \<noteq> TNil" for j
    using wf_reach [OF w that] free_no_reach [OF wl n(2)] n(2) that(2) by metis
  have notm: "mpos t (key_at t j) \<noteq> mp" if "j < nnodes t" "key_at t j \<noteq> TNil" for j
    using wf_keys_parts(2) [OF w m that(1) km that(2)] mp(3) by blast
  define od where "od = (\<lambda>i. if i = n then mp else i)"
  have old: "key_at t1 i = key_at t (od i)" "val_at t1 i = val_at t (od i)" "od i < nnodes t" if "i < nnodes t" "i \<noteq> mp" for i
    using at [OF that(1)] that m by (simp_all add: od_def)
  have new: "key_at t1 mp = key" "val_at t1 mp = TNil" using at [OF m] ne by auto
  have od_inj: "od i = od j \<Longrightarrow> i \<noteq> mp \<Longrightarrow> j \<noteq> mp \<Longrightarrow> i = j" for i j by (auto simp: od_def split: if_splits)
  have "wf_keys t1"
    unfolding wf_keys_def s same_shape_mpos [OF t1(1)] same_shape_array [OF t1(1)]
  proof (intro conjI allI impI)
    fix i assume i: "i < nnodes t"
    show "val_at t1 i \<noteq> TNil \<Longrightarrow> key_at t1 i \<noteq> TNil" using old [OF i] new wf_keys_parts(1) [OF w] by (cases "i = mp") auto
    assume k: "key_at t1 i \<noteq> TNil"
    show "good_key (key_at t1 i)" "\<not> in_array t (key_at t1 i)"
      using old [OF i] new good wf_good [OF w] k by (cases "i = mp"; auto)+
    show "(mpos t (key_at t1 i), i) \<in> (links t1)\<^sup>*"
    proof (cases "i = mp")
      case True
      then show ?thesis using new mp(1) by simp
    next
      case False
      have oi: "od i < nnodes t" "key_at t (od i) \<noteq> TNil" using old [OF i False] k by simp_all
      show ?thesis using L(2) [OF wf_reach [OF w oi] notm [OF oi]] old(1) [OF i False] False by (auto simp: od_def split: if_splits)
    qed
    fix j assume j: "j < nnodes t" and k2: "key_at t1 j \<noteq> TNil"
    show "mpos t (key_at t1 i) = i" if ji: "mpos t (key_at t1 j) = i"
    proof (cases "i = mp \<or> j = mp")
      case True
      then have "i = mp" using ji new(1) notm old [OF j] k2 mp(1) by (cases "j = mp") auto
      then show ?thesis using new(1) mp(1) by simp
    next
      case False
      have oj: "od j < nnodes t" "key_at t (od j) \<noteq> TNil" using old [OF j] k2 False by auto
      have "i \<noteq> n" using notn [OF oj] ji old(1) [OF j] False by auto
      then have ki: "od i = i" "key_at t i \<noteq> TNil" using k old(1) [OF i] False by (auto simp: od_def)
      then show ?thesis using wf_keys_parts(2) [OF w i oj(1) ki(2) oj(2)] ji old(1) [OF j] old(1) [OF i] False by simp
    qed
  next
    fix i j assume i: "i < nnodes t" and j: "j < nnodes t" and k: "key_at t1 i \<noteq> TNil" and e: "keq (key_at t1 i) (key_at t1 j)"
    have no: "\<not> keq (key_at t x) key" "\<not> keq key (key_at t x)" if "x < nnodes t" for x using f that keq_sym by (auto simp: fresh_def)
    show "i = j"
    proof (cases "i = mp \<or> j = mp")
      case True
      then show ?thesis using e new(1) old(1,3) [OF i] old(1,3) [OF j] no by (cases "i = mp"; cases "j = mp") auto
    next
      case False
      then have "od i = od j" using wf_keys_parts(3) [OF w] e k old [OF i] old [OF j] by auto
      then show ?thesis using od_inj False by blast
    qed
  qed
  moreover have "key_at t1 i \<noteq> TNil" if "i < nnodes t" "n \<le> i" for i using at(1) [OF that(1)] n(3) good(2) that km by auto
  ultimately have "wf_table t1" using L(1) n(1) t1(2) by (intro wf_table_intro [OF w t1(1) d]) auto
  moreover have "holds t1 k x = holds t k x" if x: "x \<noteq> TNil" for k x
  proof
    assume "holds t1 k x"
    then obtain i where i: "i < nnodes t" "keq (key_at t1 i) k" "val_at t1 i = x" using s by (auto simp: holds_def)
    then have "i \<noteq> mp" using new(2) x by auto
    then show "holds t k x" unfolding holds_def using i old [OF i(1)] by (intro exI [of _ "od i"]) simp
  next
    assume "holds t k x"
    then obtain i where i: "i < nnodes t" "keq (key_at t i) k" "val_at t i = x" by (auto simp: holds_def)
    have "i \<noteq> n" using wf_keys_parts(1) [OF w n(1)] n(2) i(3) x by blast
    then show "holds t1 k x" unfolding holds_def s
      using i n(1) at(1,2) [OF n(1)] at(1,2) [OF i(1)] by (cases "i = mp") auto
  qed
  moreover have "used t1 \<le> used t + 1" by (rule used_le [OF s, of n]) (use at(1) km in \<open>auto split: if_splits\<close>)
  ultimately show ?thesis using t1(1) m new s by (simp add: placed_def)
qed

section \<open>The insertion\<close>

lemma links_lastfree [simp]: "links (t\<lparr>t_lastfree := lf\<rparr>) = links t" "mpos (t\<lparr>t_lastfree := lf\<rparr>) k = mpos t k"
  "in_array (t\<lparr>t_lastfree := lf\<rparr>) k = in_array t k" "wf_links (t\<lparr>t_lastfree := lf\<rparr>) = wf_links t"
  "wf_keys (t\<lparr>t_lastfree := lf\<rparr>) = wf_keys t" "sizenode (t\<lparr>t_lastfree := lf\<rparr>) = sizenode t"
  by (simp_all add: links_def mpos_cong [of "t\<lparr>t_lastfree := lf\<rparr>" t] in_array_def wf_links_def wf_keys_def sizenode_def)

lemma previous_found:
  assumes w: "wf_table t" and mp: "mp < nnodes t" "key_at t mp \<noteq> TNil" "mpos t (key_at t mp) \<noteq> mp"
  shows "\<exists>pr. find_previous (nnodes t) t mp (mpos t (key_at t mp)) = Inr pr \<and> (pr, mp) \<in> links t"
proof -
  have wl: "wf_links t" using w by (simp add: wf_table_def)
  from wf_links_rank [OF wl] obtain r :: "nat \<Rightarrow> nat" where r: "\<forall>i j. (i, j) \<in> links t \<longrightarrow> r i < r j" ..
  have "(mpos t (key_at t mp), mp) \<in> (links t)\<^sup>+" using wf_reach [OF w mp(1,2)] mp(3) by (simp add: rtrancl_eq_or_trancl)
  then show ?thesis by (rule find_previous_ok [OF wl r _ above_le])
qed

lemma find_previous_lastfree [simp]: "find_previous f (t\<lparr>t_lastfree := lf\<rparr>) mp n = find_previous f t mp n"
  by (induction f arbitrary: n) (simp_all add: gnode_def cong: option.case_cong)

lemma mainposition_lastfree [simp]: "mainposition (t\<lparr>t_lastfree := lf\<rparr>) k = mainposition t k"
  by (simp add: mainposition_def hashnum_def hashpointer_def hashmod_def hashpow2_def sizenode_def split: tobj.split)

lemma gnode_ok: "i < nnodes t \<Longrightarrow> gnode t i = Inr (t_node t ! i)"
  by (simp add: gnode_def)

text \<open>Inserting a key places it, or asks for a larger table, which happens only if no node is free.\<close>

lemma insert_key_ok:
  assumes w: "wf_table t" and f: "fresh t key"
  shows "(\<exists>p t1. insert_key grow t key = Inr (S_node p, t1) \<and> placed t key p t1) \<or>
    (\<exists>lf. insert_key grow t key = grow (t\<lparr>t_lastfree := lf\<rparr>) \<and> wf_table (t\<lparr>t_lastfree := lf\<rparr>) \<and>
       (t_dummy t \<or> used t = nnodes t))"
proof -
  define mp where "mp = mpos t key"
  have key: "key \<noteq> TNil" using f good_not_nil by (auto simp: fresh_def)
  have m: "mp < nnodes t" using mpos_less [of t key] w by (simp add: mp_def wf_table_def)
  show ?thesis
  proof (cases "val_at t mp \<noteq> TNil \<or> t_dummy t")
    case False
    then have "insert_key grow t key = Inr (S_node mp, update_node mp (\<lambda>x. x\<lparr>i_key := key\<rparr>) t)"
      using mainposition_mpos [OF key, of t] m by (simp add: insert_key_def gnode_ok mp_def)
    then show ?thesis using place_at_main [OF w f] False by (auto simp: mp_def)
  next
    case busy: True
    have lf: "t_lastfree t \<le> int (nnodes t)" using w by (auto simp: wf_table_def)
    obtain res lf1 where g: "getfree_loop (t_node t) (t_lastfree t) = (res, lf1)" by force
    note free = getfree_ok [OF lf, unfolded g prod.case]
    have ins: "insert_key grow t key = (case res of None \<Rightarrow> grow (t\<lparr>t_lastfree := lf1\<rparr>) | Some n \<Rightarrow>
       ebind (mainposition t (key_at t mp)) (\<lambda>othern.
            if othern \<noteq> mp then
              ebind (find_previous (nnodes t) t mp othern) (\<lambda>pr.
              let t2 = update_node pr (\<lambda>x. x\<lparr>i_next := Some n\<rparr>) (t\<lparr>t_lastfree := lf1\<rparr>);
                t3 = update_node n (\<lambda>_. t_node t2 ! mp) t2;
                t4 = update_node mp (\<lambda>x. x\<lparr>i_next := None, i_val := TNil\<rparr>) t3 in
              Inr (S_node mp, update_node mp (\<lambda>x. x\<lparr>i_key := key\<rparr>) t4))
            else
              let t2 = update_node n (\<lambda>x. x\<lparr>i_next := next_at t mp\<rparr>) (t\<lparr>t_lastfree := lf1\<rparr>);
                t3 = update_node mp (\<lambda>x. x\<lparr>i_next := Some n\<rparr>) t2 in
              Inr (S_node n, update_node n (\<lambda>x. x\<lparr>i_key := key\<rparr>) t3)))"
      using mainposition_mpos [OF key, of t] m busy by (simp add: insert_key_def gnode_ok mp_def getfreepos_def g cong: if_cong split: option.split)
    show ?thesis
    proof (cases res)
      case None
      have full: "key_at t i \<noteq> TNil" if "\<not> t_dummy t" "i < nnodes t" for i
        using free None w that by (cases "int i < t_lastfree t") (auto simp: wf_table_def)
      have "used t = nnodes t" if "\<not> t_dummy t"
      proof -
        have "{i. i < nnodes t \<and> key_at t i \<noteq> TNil} = {..<nnodes t}" using full [OF that] by auto
        then show ?thesis by (simp add: used_def)
      qed
      moreover have "wf_table (t\<lparr>t_lastfree := lf1\<rparr>)"
        using w free None full by (auto simp: wf_table_def)
      ultimately show ?thesis using ins None by auto
    next
      case (Some n)
      have nd: "\<not> t_dummy t"
        using free Some w g by (auto simp: wf_table_def getfree_loop.simps [of _ "t_lastfree t"] split: if_splits)
      have n: "n < nnodes t" "key_at t n = TNil" "lf1 = int n" using free Some by auto
      have n3: "\<forall>i. n < i \<longrightarrow> i < nnodes t \<longrightarrow> key_at t i \<noteq> TNil"
      proof (intro allI impI)
        fix i assume "n < i" "i < nnodes t"
        then show "key_at t i \<noteq> TNil" using free Some w nd by (cases "int i < t_lastfree t") (auto simp: wf_table_def)
      qed
      have v: "val_at t mp \<noteq> TNil" using busy nd by simp
      have km: "key_at t mp \<noteq> TNil" using wf_keys_parts(1) [OF w m v] .
      have ne: "n \<noteq> mp" using n(2) km by auto
      show ?thesis
      proof (cases "mpos t (key_at t mp) = mp")
        case True
        let ?t1 = "update_node n (\<lambda>x. x\<lparr>i_key := key\<rparr>) (update_node mp (\<lambda>x. x\<lparr>i_next := Some n\<rparr>)
          (update_node n (\<lambda>x. x\<lparr>i_next := next_at t mp\<rparr>) (t\<lparr>t_lastfree := lf1\<rparr>)))"
        have "insert_key grow t key = Inr (S_node n, ?t1)"
          using ins Some mainposition_mpos [OF km, of t] True by (simp add: Let_def)
        moreover have "placed t key n ?t1"
          by (rule place_behind [OF w f nd mp_def v True n(1,2) n3])
            (use n m ne in \<open>auto simp: same_shape_def update_node_def nth_list_update\<close>)
        ultimately show ?thesis by blast
      next
        case False
        obtain pr where pr: "find_previous (nnodes t) t mp (mpos t (key_at t mp)) = Inr pr" "(pr, mp) \<in> links t"
          using previous_found [OF w m km False] by blast
        have p: "pr < nnodes t" "pr \<noteq> n" "pr \<noteq> mp"
        proof -
          have wl: "wf_links t" using w by (simp add: wf_table_def)
          from wf_links_rank [OF wl] show "pr \<noteq> mp" using pr(2) by blast
          show "pr < nnodes t" "pr \<noteq> n" using wf_links_range [OF wl pr(2)] n(2) by auto
        qed
        let ?t2 = "update_node pr (\<lambda>x. x\<lparr>i_next := Some n\<rparr>) (t\<lparr>t_lastfree := lf1\<rparr>)"
        let ?t1 = "update_node mp (\<lambda>x. x\<lparr>i_key := key\<rparr>) (update_node mp (\<lambda>x. x\<lparr>i_next := None, i_val := TNil\<rparr>)
          (update_node n (\<lambda>_. t_node ?t2 ! mp) ?t2))"
        have "insert_key grow t key = Inr (S_node mp, ?t1)"
          using ins Some mainposition_mpos [OF km, of t] False pr(1) by (simp add: Let_def)
        moreover have "placed t key mp ?t1"
          by (rule place_moved [OF w f nd mp_def v False n(1,2) n3 pr(2)])
            (use n m ne p in \<open>auto simp: same_shape_def update_node_def nth_list_update\<close>)
        ultimately show ?thesis by blast
      qed
    qed
  qed
qed

end
