(* ===== verification/Lrehash.thy ===== *)
theory Lrehash
  imports Linsert
begin

text \<open>
  Tables as maps: what \<open>luaH_get\<close> finds after a value was stored in the slot that \<open>luaH_set\<close> returns, while there is
  room, and after a rehash, which keeps all entries and leaves room for the key it is made for.
\<close>

section \<open>What a table maps a key to\<close>

definition tget :: "Table \<Rightarrow> tobj \<Rightarrow> tobj" where
  "tget t k = (case luaH_get t k of Inr s \<Rightarrow> slot_value t s | Inl e \<Rightarrow> TNil)"

lemma stored_unique: "wf_table t \<Longrightarrow> good_key k \<Longrightarrow> stored t k a \<Longrightarrow> stored t k b \<Longrightarrow> a = b"
proof -
  assume w: "wf_table t" and k: "good_key k" and a: "stored t k a" and b: "stored t k b"
  show ?thesis
  proof (cases "in_array t k")
    case False
    have "i = j" if ij: "i < nnodes t" "j < nnodes t" "keq (key_at t i) k" "keq (key_at t j) k" for i j
    proof -
      have "key_at t i \<noteq> TNil" using keq_good [OF ij(3)] k good_not_nil by auto
      moreover have "keq (key_at t i) (key_at t j)" using keq_trans [OF ij(3) keq_sym [OF ij(4)]] .
      ultimately show ?thesis using wf_keys_parts(3) [OF w ij(1,2)] by blast
    qed
    then show ?thesis using a b False by (auto simp: stored_def split: option.splits slot.splits)
  qed (use a b in \<open>simp add: stored_def\<close>)
qed

lemma tget_stored: "wf_table t \<Longrightarrow> good_key k \<Longrightarrow> stored t k s \<Longrightarrow> luaH_get t k = Inr s \<and> tget t k = slot_value t s"
proof -
  assume w: "wf_table t" and k: "good_key k" and s: "stored t k s"
  obtain r where r: "luaH_get t k = Inr r" "stored t k r" using get_stored [OF w k] by blast
  have "r = s" using stored_unique [OF w k r(2) s] .
  then show ?thesis using r(1) by (simp add: tget_def)
qed

lemma stored_exists: "wf_table t \<Longrightarrow> good_key k \<Longrightarrow> \<exists>s. stored t k s"
  using get_stored by blast

lemma tget_keq: "wf_table t \<Longrightarrow> good_key j \<Longrightarrow> keq j k \<Longrightarrow> tget t j = tget t k"
  using stored_exists [of t j] tget_stored [of t j] tget_stored [of t k] stored_keq [of j k t] keq_good [of j k] by auto

lemma tget_array: "wf_table t \<Longrightarrow> good_key k \<Longrightarrow> in_array t k \<Longrightarrow> tget t k = t_array t ! nat (arrayindex k - 1)"
  using tget_stored [of t k "Some (S_array (nat (arrayindex k - 1)))"] by (simp add: stored_def slot_value_def value_at_def)

lemma tget_holds:
  assumes w: "wf_table t" and k: "good_key k" "\<not> in_array t k" and v: "v \<noteq> TNil"
  shows "tget t k = v \<longleftrightarrow> holds t k v"
proof -
  obtain s where s: "stored t k s" using stored_exists [OF w k(1)] by blast
  note g = tget_stored [OF w k(1) s]
  show ?thesis
  proof (cases s)
    case None
    then show ?thesis using g s k(2) v by (auto simp: slot_value_def stored_def holds_def)
  next
    case (Some x)
    then obtain i where i: "s = Some (S_node i)" "i < nnodes t" "keq (key_at t i) k" using s k(2) by (cases x) (auto simp: stored_def)
    have u: "j = i" if "j < nnodes t" "keq (key_at t j) k" for j
      using stored_unique [OF w k(1), of "Some (S_node j)" "Some (S_node i)"] that i k(2) by (simp add: stored_def)
    have val: "tget t k = val_at t i" using g i by (simp add: slot_value_def value_at_def)
    have "holds t k v \<longleftrightarrow> val_at t i = v" unfolding holds_def using u i(2,3) by blast
    then show ?thesis using val by simp
  qed
qed

text \<open>Two tables that hold the same.\<close>

lemma tget_eq:
  assumes w: "wf_table t" "wf_table t1" and k: "good_key k" "\<not> in_array t k" "\<not> in_array t1 k"
    and h: "\<And>v. v \<noteq> TNil \<Longrightarrow> holds t1 k v = holds t k v"
  shows "tget t1 k = tget t k"
proof (cases "tget t k = TNil")
  case True
  show ?thesis
  proof (rule ccontr)
    assume n: "tget t1 k \<noteq> tget t k"
    then have v: "tget t1 k \<noteq> TNil" using True by simp
    then have "holds t k (tget t1 k)" using tget_holds [OF w(2) k(1,3) v] h [OF v] by blast
    then show False using tget_holds [OF w(1) k(1,2) v] n by simp
  qed
next
  case False
  then have "holds t1 k (tget t k)" using tget_holds [OF w(1) k(1,2) False] h [OF False] by blast
  then show ?thesis using tget_holds [OF w(2) k(1,3) False] by blast
qed

section \<open>Storing a value\<close>

definition slot_ok :: "Table \<Rightarrow> slot \<Rightarrow> bool" where
  "slot_ok t s \<longleftrightarrow> (case s of S_array i \<Rightarrow> i < sizearray t | S_node i \<Rightarrow> i < nnodes t \<and> key_at t i \<noteq> TNil)"

lemma stored_slot_ok: "good_key k \<Longrightarrow> stored t k (Some s) \<Longrightarrow> slot_ok t s"
  using keq_good good_not_nil
  by (cases s) (fastforce simp: stored_def slot_ok_def in_array_def split: if_splits)+

lemma setobj_shape: "same_shape (setobj t s v) (t\<lparr>t_array := t_array (setobj t s v)\<rparr>)" "sizearray (setobj t s v) = sizearray t"
  "nnodes (setobj t s v) = nnodes t" "t_lastfree (setobj t s v) = t_lastfree t" "t_lsizenode (setobj t s v) = t_lsizenode t"
  "t_dummy (setobj t s v) = t_dummy t"
  by (simp_all add: setobj_def same_shape_def split: slot.split)

lemma setobj_node:
  "i < nnodes t \<Longrightarrow> key_at (setobj t s v) i = key_at t i" "i < nnodes t \<Longrightarrow> next_at (setobj t s v) i = next_at t i"
  "i < nnodes t \<Longrightarrow> val_at (setobj t s v) i = (if s = S_node i then v else val_at t i)"
  by (cases "s = S_node i"; auto simp: setobj_def split: slot.split)+

lemma setobj_wf: "wf_table t \<Longrightarrow> slot_ok t s \<Longrightarrow> wf_table (setobj t s v)"
proof -
  assume w: "wf_table t" and s: "slot_ok t s"
  let ?t = "setobj t s v"
  have l: "links ?t = links t" using setobj_node(2) setobj_shape(3) by (auto simp: links_def)
  have m: "mpos ?t k = mpos t k" "in_array ?t k = in_array t k" for k
    by (rule mpos_cong, rule setobj_shape(5), simp add: in_array_def setobj_shape)
  have wl: "wf_links t" using w by (simp add: wf_table_def)
  have "wf_links ?t"
    unfolding wf_links_def l setobj_shape(3)
  proof (intro conjI allI impI)
    fix i j assume ij: "(i, j) \<in> links t"
    show "j < nnodes t" "key_at ?t i \<noteq> TNil" "key_at ?t j \<noteq> TNil"
      using wf_links_range [OF wl ij] setobj_node(1) by auto
  qed (use wf_links_inj [OF wl] wf_links_rank [OF wl] in auto)
  moreover have "wf_keys ?t"
    unfolding wf_keys_def l m setobj_shape(3)
  proof (intro conjI allI impI)
    fix i assume i: "i < nnodes t"
    show "val_at ?t i \<noteq> TNil \<Longrightarrow> key_at ?t i \<noteq> TNil"
      using setobj_node [OF i, of s v] wf_keys_parts(1) [OF w i] s by (auto simp: slot_ok_def split: if_splits)
    assume k: "key_at ?t i \<noteq> TNil"
    then have k1: "key_at t i \<noteq> TNil" using setobj_node(1) [OF i] by simp
    show "good_key (key_at ?t i)" "\<not> in_array t (key_at ?t i)" "(mpos t (key_at ?t i), i) \<in> (links t)\<^sup>*"
      using setobj_node(1) [OF i] wf_good [OF w i k1] wf_reach [OF w i k1] by simp_all
    fix j assume j: "j < nnodes t"
    show "key_at ?t j \<noteq> TNil \<Longrightarrow> mpos t (key_at ?t j) = i \<Longrightarrow> mpos t (key_at ?t i) = i"
      using wf_keys_parts(2) [OF w i j k1] setobj_node(1) [OF i] setobj_node(1) [OF j] by simp
    show "keq (key_at ?t i) (key_at ?t j) \<Longrightarrow> i = j"
      using wf_keys_parts(3) [OF w i j k1] setobj_node(1) [OF i] setobj_node(1) [OF j] by simp
  qed
  moreover have "t_node ?t = t_node t" if "t_dummy t"
  proof (cases s)
    case (S_node i)
    have "t_node t = [dummynode]" using w that by (simp add: wf_table_def)
    then show ?thesis using s S_node by (auto simp: slot_ok_def dummynode_def)
  qed (simp add: setobj_def)
  ultimately show ?thesis using w setobj_node(1) by (auto simp: wf_table_def setobj_shape sizenode_def)
qed

lemma setobj_stored: "wf_table t \<Longrightarrow> stored (setobj t s v) k r = stored t k r"
  using setobj_node(1) by (auto simp: stored_def in_array_def setobj_shape split: option.split slot.split)

lemma setobj_value: "slot_ok t s \<Longrightarrow> slot_ok t r \<Longrightarrow> value_at (setobj t s v) r = (if r = s then v else value_at t r)"
  by (auto simp: setobj_def value_at_def slot_ok_def nth_list_update split: slot.splits)

text \<open>A value that is stored where a key is kept is found under the key, and nothing else changes.\<close>

lemma tget_setobj:
  assumes w: "wf_table t" and k: "good_key k" "stored t k (Some s)" and j: "good_key j"
  shows "tget (setobj t s v) j = (if keq j k then v else tget t j)"
proof -
  have s: "slot_ok t s" using stored_slot_ok [OF k] .
  have w1: "wf_table (setobj t s v)" using setobj_wf [OF w s] .
  obtain r where r: "stored t j r" using stored_exists [OF w j] by blast
  have g: "tget t j = slot_value t r" "tget (setobj t s v) j = slot_value (setobj t s v) r"
    using tget_stored [OF w j r] tget_stored [OF w1 j] setobj_stored [OF w] r by auto
  have same: "r = Some s \<longleftrightarrow> keq j k"
  proof
    assume "keq j k"
    then show "r = Some s" using stored_keq [of j k t] stored_unique [OF w j r] k(2) by blast
  next
    assume rs: "r = Some s"
    show "keq j k"
    proof (cases s)
      case (S_node i)
      then have "keq (key_at t i) j" "keq (key_at t i) k" using r rs k(2) by (auto simp: stored_def split: if_splits)
      then show ?thesis using keq_sym keq_trans by blast
    next
      case (S_array i)
      then have a: "in_array t j" "in_array t k" "arrayindex j = arrayindex k"
        using r rs k(2) by (auto simp: stored_def in_array_def split: if_splits)
      then obtain m n where mn: "j = TNumber m" "k = TNumber n" by (auto simp: in_array_def arrayindex_def split: tobj.splits)
      then have "luai_numeq (cast_num (arrayindex j)) m" "luai_numeq (cast_num (arrayindex k)) n"
        using a(1,2) by (auto simp: in_array_def arrayindex_def Let_def split: if_splits)
      then show ?thesis using a(3) mn numeq_equiv(2,3) by (metis keq_num tobj.simps(52))
    qed
  qed
  show ?thesis
  proof (cases r)
    case None
    then show ?thesis using g same by (auto simp: slot_value_def)
  next
    case (Some x)
    then show ?thesis using g same setobj_value [OF s stored_slot_ok [OF j, of t x], of v] r by (auto simp: slot_value_def)
  qed
qed

section \<open>Setting a key while there is room\<close>

text \<open>Room for \<open>m\<close> more keys in the hash part.\<close>

definition room :: "Table \<Rightarrow> nat \<Rightarrow> bool" where
  "room t m \<longleftrightarrow> m = 0 \<or> \<not> t_dummy t \<and> used t + m \<le> nnodes t"

text \<open>The key has a slot, and the table maps keys to the same values as before.\<close>

definition set_ok :: "Table \<Rightarrow> tobj \<Rightarrow> slot \<Rightarrow> Table \<Rightarrow> bool" where
  "set_ok t key s t1 \<longleftrightarrow> wf_table t1 \<and> stored t1 key (Some s) \<and> (\<forall>j. good_key j \<longrightarrow> tget t1 j = tget t j)"

lemma placed_set_ok:
  assumes w: "wf_table t" and f: "fresh t key" and p: "placed t key p t1"
  shows "set_ok t key (S_node p) t1 \<and> same_shape t1 t \<and> used t1 \<le> used t + 1"
proof -
  have w1: "wf_table t1" and s: "same_shape t1 t" and p1: "p < nnodes t1" "key_at t1 p = key"
    and h: "\<And>k v. v \<noteq> TNil \<Longrightarrow> holds t1 k v = holds t k v" using p by (auto simp: placed_def)
  note ia = same_shape_array [OF s]
  have key: "good_key key" "\<not> in_array t key" using f by (auto simp: fresh_def)
  have "stored t1 key (Some (S_node p))" using p1 key keq_refl ia by (simp add: stored_def)
  moreover have "tget t1 j = tget t j" if j: "good_key j" for j
  proof (cases "in_array t j")
    case True
    then show ?thesis using tget_array [OF w j True] tget_array [OF w1 j] ia s by (simp add: same_shape_def)
  next
    case False
    then show ?thesis using tget_eq [OF w w1 j False] ia h by blast
  qed
  ultimately show ?thesis using w1 s p by (simp add: set_ok_def placed_def)
qed

lemma room_no_grow: "room t (Suc m) \<Longrightarrow> \<not> (t_dummy t \<or> used t = nnodes t)"
  by (auto simp: room_def)

lemma flags_simps [simp]: "wf_table (t\<lparr>t_flags := n\<rparr>) = wf_table t" "links (t\<lparr>t_flags := n\<rparr>) = links t" "mpos (t\<lparr>t_flags := n\<rparr>) k = mpos t k"
  "in_array (t\<lparr>t_flags := n\<rparr>) k = in_array t k" "stored (t\<lparr>t_flags := n\<rparr>) k r = stored t k r" "used (t\<lparr>t_flags := n\<rparr>) = used t"
  "fresh (t\<lparr>t_flags := n\<rparr>) k = fresh t k" "slot_value (t\<lparr>t_flags := n\<rparr>) r = slot_value t r"
proof -
  show l: "links (t\<lparr>t_flags := n\<rparr>) = links t" for t by (simp add: links_def)
  show m: "mpos (t\<lparr>t_flags := n\<rparr>) k = mpos t k" for t k by (rule mpos_cong) simp
  show a: "in_array (t\<lparr>t_flags := n\<rparr>) k = in_array t k" for t k by (simp add: in_array_def)
  show "wf_table (t\<lparr>t_flags := n\<rparr>) = wf_table t" by (simp add: wf_table_def wf_links_def wf_keys_def sizenode_def l m a)
  show "stored (t\<lparr>t_flags := n\<rparr>) k r = stored t k r" "used (t\<lparr>t_flags := n\<rparr>) = used t"
    "fresh (t\<lparr>t_flags := n\<rparr>) k = fresh t k" "slot_value (t\<lparr>t_flags := n\<rparr>) r = slot_value t r"
    by (simp_all add: stored_def used_def fresh_def a slot_value_def value_at_def cong: option.case_cong slot.case_cong)
qed

lemma tget_flags [simp]: "wf_table t \<Longrightarrow> good_key k \<Longrightarrow> tget (t\<lparr>t_flags := n\<rparr>) k = tget t k"
proof -
  assume w: "wf_table t" and k: "good_key k"
  obtain s where s: "stored t k s" using stored_exists [OF w k] by blast
  then show ?thesis using tget_stored [OF w k s] tget_stored [of "t\<lparr>t_flags := n\<rparr>" k s] w k by simp
qed

lemma newkey_room:
  assumes "wf_table t" "fresh t key" "room t (Suc m)"
  shows "\<exists>s t1. newkey (Suc f) t key = Inr (s, t1) \<and> set_ok t key s t1 \<and> same_shape t1 t \<and> room t1 m"
proof -
  have "\<not> (t_dummy t \<or> used t = nnodes t)" using room_no_grow [OF assms(3)] .
  then obtain p t1 where p: "newkey (Suc f) t key = Inr (S_node p, t1)" "placed t key p t1"
    using insert_key_ok [OF assms(1,2)] by simp blast
  then show ?thesis using placed_set_ok [OF assms(1,2) p(2)] assms(3) by (auto simp: room_def same_shape_def)
qed

text \<open>\<open>luaH_set\<close> on a table with room for the key, which needs none if it is in the table already or belongs to the array part.\<close>

lemma set_room:
  assumes w: "wf_table t" and k: "good_key key" and r: "room t (if in_array t key then m else Suc m)"
  shows "\<exists>s t1. set_with (newkey (Suc f)) t key = Inr (s, t1) \<and> set_ok t key s t1 \<and> same_shape t1 t \<and> room t1 m"
proof -
  obtain p where p: "luaH_get t key = Inr p" "stored t key p" using get_stored [OF w k] by blast
  let ?t = "t\<lparr>t_flags := 0\<rparr>"
  show ?thesis
  proof (cases p)
    case (Some s)
    have "room ?t m" using r by (auto simp: room_def split: if_splits)
    moreover have "set_ok t key s ?t" using w p(2) Some by (simp add: set_ok_def)
    ultimately show ?thesis using p(1) Some by (simp add: set_with_def same_shape_def)
  next
    case None
    then have na: "\<not> in_array t key" using p(2) by (auto simp: stored_def)
    then have f: "fresh ?t key" using p(2) None k by (simp add: stored_def fresh_def)
    have rm: "room ?t (Suc m)" using r na by (simp add: room_def)
    have w1: "wf_table ?t" using w by simp
    obtain s t1 where s: "newkey (Suc f) ?t key = Inr (s, t1)" "set_ok ?t key s t1" "same_shape t1 ?t" "room t1 m"
      using newkey_room [OF w1 f rm] by blast
    have "set_with (newkey (Suc f)) t key = newkey (Suc f) ?t key"
      using p(1) None k by (auto simp: set_with_def good_key_def luai_numisnan_def luai_numeq_def split: tobj.splits)
    moreover have "set_ok t key s t1" using s(2) w by (simp add: set_ok_def)
    moreover have "same_shape t1 t" using s(3) by (simp add: same_shape_def)
    ultimately show ?thesis using s by auto
  qed
qed

lemma setnum_room:
  assumes w: "wf_table t" and k: "- (2 ^ 31) \<le> k" "k < 2 ^ 31" and r: "room t (Suc m)"
  shows "\<exists>s t1. setnum_with (newkey (Suc f)) t k = Inr (s, t1) \<and> set_ok t (TNumber (cast_num k)) s t1 \<and> same_shape t1 t \<and> room t1 m"
proof -
  obtain p where p: "luaH_getnum t k = Inr p" "stored t (TNumber (cast_num k)) p" using getnum_stored [OF w k] by blast
  show ?thesis
  proof (cases p)
    case (Some s)
    then show ?thesis using p w r by (auto simp: setnum_with_def set_ok_def same_shape_def room_def)
  next
    case None
    then have "fresh t (TNumber (cast_num k))" using p(2) good_cast [OF k] by (auto simp: stored_def fresh_def split: if_splits)
    then show ?thesis using newkey_room [OF w _ r, of "TNumber (cast_num k)" f] p(1) None by (simp add: setnum_with_def)
  qed
qed

section \<open>Inserting all entries again\<close>

definition same_sizes :: "Table \<Rightarrow> Table \<Rightarrow> bool" where
  "same_sizes t1 t \<longleftrightarrow> nnodes t1 = nnodes t \<and> t_lsizenode t1 = t_lsizenode t \<and> sizearray t1 = sizearray t \<and> t_dummy t1 = t_dummy t"

lemma same_sizes_intros: "same_sizes t t" "same_shape t1 t \<Longrightarrow> same_sizes t1 t" "same_sizes (setobj t s v) t"
  "same_sizes t2 t1 \<Longrightarrow> same_sizes t1 t \<Longrightarrow> same_sizes t2 t"
  by (auto simp: same_sizes_def same_shape_def setobj_shape)

lemma same_sizes_array: "same_sizes t1 t \<Longrightarrow> in_array t1 k = in_array t k"
  by (simp add: same_sizes_def in_array_def)

lemma room_setobj [simp]: "room (setobj t s v) m = room t m"
proof -
  have "used (setobj t s v) = used t" unfolding used_def setobj_shape(3) by (rule arg_cong [where f = card]) (auto simp: setobj_node)
  then show ?thesis by (simp add: room_def setobj_shape)
qed

text \<open>One entry: the key is set and gets its value.\<close>

lemma set_store:
  assumes "wf_table t" "good_key key" "set_ok t key s t1" "same_shape t1 t" "room t1 m"
  shows "wf_table (setobj t1 s v) \<and> same_sizes (setobj t1 s v) t \<and> room (setobj t1 s v) m \<and>
    (\<forall>j. good_key j \<longrightarrow> tget (setobj t1 s v) j = (if keq j key then v else tget t j))"
proof -
  have w1: "wf_table t1" and st: "stored t1 key (Some s)" and g: "\<And>j. good_key j \<Longrightarrow> tget t1 j = tget t j"
    using assms(3) by (auto simp: set_ok_def)
  have "wf_table (setobj t1 s v)" using setobj_wf [OF w1 stored_slot_ok [OF assms(2) st]] .
  moreover have "same_sizes (setobj t1 s v) t" using same_sizes_intros(2-4) assms(4) by blast
  ultimately show ?thesis using tget_setobj [OF w1 assms(2) st] g assms(5) by simp
qed

abbreviation live :: "Node \<Rightarrow> bool" where "live n \<equiv> i_val n \<noteq> TNil"

definition apart :: "Node \<Rightarrow> Node \<Rightarrow> bool" where
  "apart a b \<longleftrightarrow> (live a \<longrightarrow> live b \<longrightarrow> \<not> keq (i_key a) (i_key b))"

text \<open>How many of the nodes need a place in the hash part.\<close>

definition need :: "Table \<Rightarrow> Node list \<Rightarrow> nat" where
  "need t ns = length (filter (\<lambda>n. live n \<and> \<not> in_array t (i_key n)) ns)"

lemma reinsert_hash_ok:
  "wf_table t \<Longrightarrow> \<forall>n \<in> set ns. live n \<longrightarrow> good_key (i_key n) \<Longrightarrow> sorted_wrt apart ns \<Longrightarrow> room t (need t ns + e) \<Longrightarrow>
   \<exists>t1. reinsert_hash (newkey (Suc f)) ns t = Inr t1 \<and> wf_table t1 \<and> same_sizes t1 t \<and> room t1 e \<and>
     (\<forall>j. good_key j \<longrightarrow> (\<forall>n \<in> set ns. live n \<longrightarrow> keq (i_key n) j \<longrightarrow> tget t1 j = i_val n) \<and>
       ((\<forall>n \<in> set ns. live n \<longrightarrow> \<not> keq (i_key n) j) \<longrightarrow> tget t1 j = tget t j))"
proof (induction ns arbitrary: t)
  case Nil
  then show ?case by (simp add: need_def same_sizes_intros)
next
  case (Cons n ns)
  note w = Cons.prems(1)
  have tail: "\<forall>n \<in> set ns. live n \<longrightarrow> good_key (i_key n)" "sorted_wrt apart ns" using Cons.prems(2,3) by auto
  show ?case
  proof (cases "live n")
    case False
    then have "need t (n # ns) = need t ns" by (simp add: need_def)
    then obtain t1 where t1: "reinsert_hash (newkey (Suc f)) ns t = Inr t1 \<and> wf_table t1 \<and> same_sizes t1 t \<and> room t1 e \<and>
     (\<forall>j. good_key j \<longrightarrow> (\<forall>n \<in> set ns. live n \<longrightarrow> keq (i_key n) j \<longrightarrow> tget t1 j = i_val n) \<and>
       ((\<forall>n \<in> set ns. live n \<longrightarrow> \<not> keq (i_key n) j) \<longrightarrow> tget t1 j = tget t j))"
      using Cons.IH [OF w tail] Cons.prems(4) by auto
    then show ?thesis using False by (intro exI [of _ t1]) simp
  next
    case True
    have k: "good_key (i_key n)" using Cons.prems(2) True by simp
    have "room t (if in_array t (i_key n) then need t ns + e else Suc (need t ns + e))"
      using Cons.prems(4) True by (simp add: need_def split: if_splits)
    then obtain s ta where s: "set_with (newkey (Suc f)) t (i_key n) = Inr (s, ta)" "set_ok t (i_key n) s ta" "same_shape ta t" "room ta (need t ns + e)"
      using set_room [OF w k] by blast
    let ?t = "setobj ta s (i_val n)"
    have st: "wf_table ?t" "same_sizes ?t t" "room ?t (need t ns + e)" "\<And>j. good_key j \<Longrightarrow> tget ?t j = (if keq j (i_key n) then i_val n else tget t j)"
      using set_store [OF w k s(2,3,4), of "i_val n"] by blast+
    have "need ?t ns = need t ns" using same_sizes_array [OF st(2)] by (simp add: need_def)
    then obtain t1 where t1: "reinsert_hash (newkey (Suc f)) ns ?t = Inr t1" "wf_table t1" "same_sizes t1 ?t" "room t1 e"
      and g: "\<And>j. good_key j \<Longrightarrow> (\<forall>n \<in> set ns. live n \<longrightarrow> keq (i_key n) j \<longrightarrow> tget t1 j = i_val n) \<and>
       ((\<forall>n \<in> set ns. live n \<longrightarrow> \<not> keq (i_key n) j) \<longrightarrow> tget t1 j = tget ?t j)"
      using Cons.IH [OF st(1) tail] st(3) by auto
    have "reinsert_hash (newkey (Suc f)) (n # ns) t = Inr t1" using True s(1) t1(1) by simp
    moreover have "(\<forall>m \<in> set (n # ns). live m \<longrightarrow> keq (i_key m) j \<longrightarrow> tget t1 j = i_val m) \<and>
       ((\<forall>m \<in> set (n # ns). live m \<longrightarrow> \<not> keq (i_key m) j) \<longrightarrow> tget t1 j = tget t j)" if j: "good_key j" for j
    proof (cases "keq (i_key n) j")
      case e: True
      have "\<not> keq (i_key m) j" if m: "m \<in> set ns" "live m" for m
      proof
        assume "keq (i_key m) j"
        then have "keq (i_key n) (i_key m)" by (rule keq_trans [OF e keq_sym])
        moreover have "apart n m" using Cons.prems(3) m(1) by simp
        ultimately show False using True m(2) by (simp add: apart_def)
      qed
      then show ?thesis using g [OF j] st(4) [OF j] e keq_sym True by auto
    next
      case False
      then show ?thesis using g [OF j] st(4) [OF j] keq_sym by auto
    qed
    ultimately show ?thesis using t1 st(2) same_sizes_intros(4) by blast
  qed
qed

end
