(* ===== verification/Lresize.thy ===== *)
theory Lresize
  imports Lrehash
begin

text \<open>
  Resizing a table: the new vectors, and that all entries are kept. The counts that \<open>rehash\<close> makes, and that the sizes it computes
  leave a place for every entry and for the new key.
\<close>

declare newkey.simps [simp del]

section \<open>New vectors\<close>

lemma ceillog2_bounds:
  assumes "0 < n" "n < 2 ^ 32"
  shows "0 \<le> ceillog2 n \<and> n \<le> 2 ^ nat (ceillog2 n) \<and> (1 < n \<longrightarrow> 0 < ceillog2 n \<and> 2 ^ (nat (ceillog2 n) - 1) < n)"
proof (cases "n = 1")
  case True
  have "luaO_log2 0 = - 1" by (simp add: luaO_log2_def log2_loop.simps log_2_def)
  then show ?thesis using True by (simp add: ceillog2_def)
next
  case False
  have u: "of_nat n - 1 = (of_nat (n - 1) :: 32 word)" using assms(1) by (simp add: of_nat_diff)
  have v: "unat (of_nat (n - 1) :: 32 word) = n - 1" using assms by (simp only: unsigned_of_nat) (simp add: take_bit_nat_eq_self)
  then have "(of_nat (n - 1) :: 32 word) \<noteq> 0" using False assms(1) by auto
  from log2_floor [OF this] have l: "0 \<le> luaO_log2 (of_nat (n - 1))" "2 ^ nat (luaO_log2 (of_nat (n - 1))) \<le> n - 1"
    "n - 1 < 2 ^ (nat (luaO_log2 (of_nat (n - 1))) + 1)" unfolding v by auto
  then have c: "nat (ceillog2 n) = nat (luaO_log2 (of_nat (n - 1))) + 1" "0 < ceillog2 n" by (simp_all only: ceillog2_def u) linarith+
  have "2 ^ (nat (ceillog2 n) - 1) < n" "n \<le> 2 ^ nat (ceillog2 n)" unfolding c(1) using l(2,3) assms(1) by simp_all
  then show ?thesis using c(2) by simp
qed

lemma ceillog2_le: "0 < n \<Longrightarrow> n < 2 ^ 32 \<Longrightarrow> ceillog2 n \<le> int l \<longleftrightarrow> n \<le> 2 ^ l"
proof
  assume n: "0 < n" "n < 2 ^ 32"
  note b = ceillog2_bounds [OF n]
  show "ceillog2 n \<le> int l \<Longrightarrow> n \<le> 2 ^ l"
  proof -
    assume "ceillog2 n \<le> int l"
    then have "(2 :: nat) ^ nat (ceillog2 n) \<le> 2 ^ l" by (intro power_increasing) auto
    then show ?thesis using b by linarith
  qed
  show "n \<le> 2 ^ l \<Longrightarrow> ceillog2 n \<le> int l"
  proof (rule ccontr)
    assume h: "n \<le> 2 ^ l" and c: "\<not> ceillog2 n \<le> int l"
    have "1 < n"
    proof (rule ccontr)
      assume "\<not> 1 < n"
      then have "n = 1" using n(1) by simp
      then show False using c by (simp add: ceillog2_def luaO_log2_def log2_loop.simps log_2_def)
    qed
    then have "2 ^ (nat (ceillog2 n) - 1) < n" using b by blast
    moreover have "(2 :: nat) ^ l \<le> 2 ^ (nat (ceillog2 n) - 1)" using c by (intro power_increasing) auto
    ultimately show False using h by linarith
  qed
qed

lemma empty_wf:
  assumes "nnodes t = sizenode t" "t_lsizenode t \<le> MAXBITS" "int (sizearray t) \<le> MAXASIZE"
    "t_dummy t \<longrightarrow> t_node t = [dummynode] \<and> t_lastfree t \<le> 0" "\<not> t_dummy t \<longrightarrow> t_lastfree t = int (nnodes t)"
    "\<And>i. i < nnodes t \<Longrightarrow> t_node t ! i = dummynode"
  shows "wf_table t \<and> used t = 0 \<and> (\<forall>k. good_key k \<longrightarrow> \<not> in_array t k \<longrightarrow> tget t k = TNil)"
proof -
  have n: "key_at t i = TNil" "val_at t i = TNil" "next_at t i = None" if "i < nnodes t" for i
    using assms(6) [OF that] by (simp_all add: dummynode_def)
  have l: "links t = {}" using n(3) by (auto simp: links_def)
  have w: "wf_table t" using assms n l by (auto simp: wf_table_def wf_links_def wf_keys_def)
  moreover have "used t = 0" using n(1) by (auto simp: used_def)
  moreover have "tget t k = TNil" if k: "good_key k" "\<not> in_array t k" for k
  proof (rule ccontr)
    assume v: "tget t k \<noteq> TNil"
    then have "holds t k (tget t k)" using tget_holds [OF w k v] by simp
    then show False using n(2) v by (auto simp: holds_def)
  qed
  ultimately show ?thesis by blast
qed

lemma setnodevector_ok:
  assumes a: "int (sizearray t) \<le> MAXASIZE" and sz: "sz \<le> 2 ^ MAXBITS"
  shows "\<exists>t1. setnodevector t sz = Inr t1 \<and> wf_table t1 \<and> t_array t1 = t_array t \<and> room t1 sz \<and>
    (\<forall>k. good_key k \<longrightarrow> \<not> in_array t1 k \<longrightarrow> tget t1 k = TNil)"
proof (cases "sz = 0")
  case True
  let ?t = "t\<lparr>t_node := [dummynode], t_dummy := True, t_lsizenode := 0, t_lastfree := 0\<rparr>"
  have "wf_table ?t \<and> used ?t = 0 \<and> (\<forall>k. good_key k \<longrightarrow> \<not> in_array ?t k \<longrightarrow> tget ?t k = TNil)"
    by (rule empty_wf) (use a in \<open>simp_all add: sizenode_def\<close>)
  then show ?thesis using True by (simp add: setnodevector_def room_def)
next
  case False
  have r: "0 < sz" "sz < 2 ^ 32" using False sz by (simp_all add: MAXBITS_def)
  define l where "l = nat (ceillog2 sz)"
  have l: "ceillog2 sz = int l" "sz \<le> 2 ^ l" using ceillog2_bounds [OF r] by (simp_all add: l_def)
  have lb: "l \<le> MAXBITS" using ceillog2_le [OF r, of MAXBITS] sz l(1) by simp
  let ?t = "t\<lparr>t_node := replicate (2 ^ l) \<lparr>i_val = TNil, i_key = TNil, i_next = None\<rparr>, t_dummy := False, t_lsizenode := l, t_lastfree := int (2 ^ l)\<rparr>"
  have e: "wf_table ?t \<and> used ?t = 0 \<and> (\<forall>k. good_key k \<longrightarrow> \<not> in_array ?t k \<longrightarrow> tget ?t k = TNil)"
    by (rule empty_wf) (use a lb in \<open>simp_all add: sizenode_def dummynode_def\<close>)
  moreover have "setnodevector t sz = Inr ?t" using False l lb by (simp add: setnodevector_def Let_def)
  ultimately show ?thesis using l(2) by (simp add: room_def)
qed

section \<open>Resizing\<close>

lemma keq_index:
  assumes "0 < k" "k < 2 ^ 31" "good_key j"
  shows "keq j (TNumber (cast_num k)) \<longleftrightarrow> arrayindex j = k"
proof
  assume "keq j (TNumber (cast_num k))"
  then show "arrayindex j = k" using arrayindex_keq arrayindex_cast [of k] assms by fastforce
next
  assume a: "arrayindex j = k"
  then obtain n where n: "j = TNumber n" "luai_numeq (cast_num k) n"
    using assms(1) by (auto simp: arrayindex_def Let_def split: tobj.splits if_splits)
  then show "keq j (TNumber (cast_num k))" using numeq_equiv(2) by (simp add: keq_num)
qed

definition live_values :: "tobj list \<Rightarrow> nat" where
  "live_values vs = length (filter (\<lambda>v. v \<noteq> TNil) vs)"

text \<open>The value that a slice of the array from index \<open>i\<close> on has for a key.\<close>

definition slice_value :: "nat \<Rightarrow> tobj list \<Rightarrow> tobj \<Rightarrow> tobj" where
  "slice_value i vs j = (if int i < arrayindex j \<and> arrayindex j \<le> int (i + length vs) then vs ! (nat (arrayindex j) - 1 - i) else TNil)"

lemma slice_value_Nil [simp]: "slice_value i [] j = TNil"
  by (auto simp: slice_value_def)

lemma slice_value_Cons: "slice_value i (v # vs) j = (if arrayindex j = int i + 1 then v else slice_value (i + 1) vs j)"
proof (cases "arrayindex j = int i + 1")
  case True
  then show ?thesis by (simp add: slice_value_def)
next
  case False
  show ?thesis
  proof (cases "int i + 1 < arrayindex j")
    case True
    define m where "m = nat (arrayindex j - int i - 2)"
    have m: "arrayindex j = int (i + 2 + m)" using True by (simp add: m_def)
    show ?thesis unfolding slice_value_def m by (simp add: nat_add_distrib)
  qed (use False in \<open>auto simp: slice_value_def\<close>)
qed

lemma reinsert_array_ok:
  "wf_table t \<Longrightarrow> i + length vs \<le> 2 ^ MAXBITS \<Longrightarrow> room t (live_values vs + e) \<Longrightarrow>
   \<exists>t1. reinsert_array (newkey (Suc f)) i vs t = Inr t1 \<and> wf_table t1 \<and> same_sizes t1 t \<and> room t1 e \<and>
     (\<forall>j. good_key j \<longrightarrow> tget t1 j = (if slice_value i vs j \<noteq> TNil then slice_value i vs j else tget t j))"
proof (induction vs arbitrary: i t)
  case Nil
  then show ?case by (simp add: live_values_def same_sizes_intros)
next
  case (Cons v vs)
  note w = Cons.prems(1)
  have i: "i + 1 + length vs \<le> 2 ^ MAXBITS" using Cons.prems(2) by simp
  show ?case
  proof (cases "v = TNil")
    case True
    then have "live_values (v # vs) = live_values vs" by (simp add: live_values_def)
    moreover have "slice_value i (v # vs) j = slice_value (i + 1) vs j" for j
      using True by (simp add: slice_value_Cons) (simp add: slice_value_def)
    moreover have "reinsert_array (newkey (Suc f)) i (v # vs) t = reinsert_array (newkey (Suc f)) (i + 1) vs t" using True by simp
    ultimately show ?thesis using Cons.IH [OF w i] Cons.prems(3) by (simp only:)
  next
    case False
    let ?k = "TNumber (cast_num (int i + 1))"
    have k: "- (2 ^ 31) \<le> int i + 1" "int i + 1 < 2 ^ 31" using Cons.prems(2) by (simp_all add: MAXBITS_def)
    have "room t (Suc (live_values vs + e))" using Cons.prems(3) False by (simp add: live_values_def)
    then obtain s ta where s: "setnum_with (newkey (Suc f)) t (int i + 1) = Inr (s, ta)" "set_ok t ?k s ta" "same_shape ta t"
      "room ta (live_values vs + e)" using setnum_room [OF w k] by blast
    let ?t = "setobj ta s v"
    have st: "wf_table ?t" "same_sizes ?t t" "room ?t (live_values vs + e)" "\<And>j. good_key j \<Longrightarrow> tget ?t j = (if keq j ?k then v else tget t j)"
      using set_store [OF w good_cast [OF k] s(2,3,4), of v] by blast+
    obtain t1 where t1: "reinsert_array (newkey (Suc f)) (i + 1) vs ?t = Inr t1" "wf_table t1" "same_sizes t1 ?t" "room t1 e"
      and g: "\<And>j. good_key j \<Longrightarrow> tget t1 j = (if slice_value (i + 1) vs j \<noteq> TNil then slice_value (i + 1) vs j else tget ?t j)"
      using Cons.IH [OF st(1) i st(3)] by blast
    have "tget t1 j = (if slice_value i (v # vs) j \<noteq> TNil then slice_value i (v # vs) j else tget t j)" if j: "good_key j" for j
    proof (cases "arrayindex j = int i + 1")
      case True
      then have "slice_value (i + 1) vs j = TNil" "keq j ?k" using keq_index [of "int i + 1" j] k j by (simp_all add: slice_value_def)
      then show ?thesis using g [OF j] st(4) [OF j] True False by (simp add: slice_value_Cons)
    next
      case ne: False
      then have "\<not> keq j ?k" using keq_index [of "int i + 1" j] k j by simp
      then show ?thesis using g [OF j] st(4) [OF j] ne by (simp add: slice_value_Cons)
    qed
    then show ?thesis using t1 s(1) False st(2) same_sizes_intros(4) by auto
  qed
qed

lemma apart_nodes:
  assumes w: "wf_table t"
  shows "sorted_wrt apart (rev (t_node t))"
  unfolding sorted_wrt_rev
proof (rule sorted_wrt_iff_nth_less [THEN iffD2], intro allI impI)
  fix i j assume ij: "i < j" "j < nnodes t"
  have "\<not> keq (key_at t j) (key_at t i)" if "val_at t j \<noteq> TNil"
    using wf_keys_parts(3) [OF w ij(2), of i] wf_keys_parts(1) [OF w ij(2) that] ij by auto
  then show "apart (t_node t ! j) (t_node t ! i)" by (simp add: apart_def)
qed

lemma wf_sizearray: "wf_table t \<Longrightarrow> sizearray t \<le> 2 ^ MAXBITS"
proof -
  assume "wf_table t"
  then have "int (sizearray t) \<le> int (2 ^ MAXBITS)" by (simp add: wf_table_def MAXASIZE_def)
  then show ?thesis by (simp only: of_nat_le_iff)
qed

text \<open>The array of the new size, and its value for a key.\<close>

lemma array_value:
  assumes "arr = take n (t_array t) @ replicate (n - sizearray t) TNil" "wf_table t" "good_key j"
    "0 < arrayindex j" "arrayindex j \<le> int n" "\<And>i. i < nnodes t \<Longrightarrow> val_at t i \<noteq> TNil \<Longrightarrow> \<not> keq (key_at t i) j"
  shows "arr ! nat (arrayindex j - 1) = tget t j"
proof (cases "in_array t j")
  case True
  then show ?thesis using assms(1,4,5) tget_array [OF assms(2,3) True] by (auto simp: in_array_def nth_append)
next
  case False
  then have "arr ! nat (arrayindex j - 1) = TNil" using assms(1,4,5) by (auto simp: in_array_def nth_append)
  moreover have "tget t j = TNil"
  proof (rule ccontr)
    assume v: "tget t j \<noteq> TNil"
    then have "holds t j (tget t j)" using tget_holds [OF assms(2,3) False v] by simp
    then show False using assms(6) v by (auto simp: holds_def)
  qed
  ultimately show ?thesis by simp
qed

text \<open>What must find a place in the hash part of a table with an array of size \<open>n\<close>.\<close>

definition hash_need :: "Table \<Rightarrow> nat \<Rightarrow> nat" where
  "hash_need t n = live_values (drop n (t_array t)) +
     length (filter (\<lambda>x. live x \<and> \<not> (0 < arrayindex (i_key x) \<and> arrayindex (i_key x) \<le> int n)) (t_node t))"

lemma resize_ok:
  assumes w: "wf_table t" and n: "n \<le> 2 ^ MAXBITS" and h: "hash_need t n + e \<le> nh" "nh \<le> 2 ^ MAXBITS"
  shows "\<exists>t1. resize (newkey (Suc f)) t n nh = Inr t1 \<and> wf_table t1 \<and> sizearray t1 = n \<and> room t1 e \<and>
    (\<forall>j. good_key j \<longrightarrow> tget t1 j = tget t j)"
proof -
  define arr where "arr = take n (t_array t) @ replicate (n - sizearray t) TNil"
  define hn where "hn = length (filter (\<lambda>x. live x \<and> \<not> (0 < arrayindex (i_key x) \<and> arrayindex (i_key x) \<le> int n)) (t_node t))"
  define vs where "vs = drop n (t_array t)"
  have arr: "length arr = n" by (simp add: arr_def)
  have need: "live_values vs + (hn + e) \<le> nh" using h(1) by (simp add: hash_need_def hn_def vs_def)
  have "int n \<le> MAXASIZE" using n unfolding MAXASIZE_def by (metis of_nat_le_iff of_nat_numeral of_nat_power)
  then have "int (sizearray (t\<lparr>t_array := arr\<rparr>)) \<le> MAXASIZE" using arr by simp
  from setnodevector_ok [OF this h(2)] obtain t2 where t2: "setnodevector (t\<lparr>t_array := arr\<rparr>) nh = Inr t2" "wf_table t2"
    "t_array t2 = arr" "room t2 nh" and e2: "\<And>k. good_key k \<Longrightarrow> \<not> in_array t2 k \<Longrightarrow> tget t2 k = TNil" by auto
  have r2: "room t2 (live_values vs + (hn + e))" using t2(4) need by (auto simp: room_def)
  have ia2: "in_array t2 k \<longleftrightarrow> 0 < arrayindex k \<and> arrayindex k \<le> int n" for k using t2(3) arr by (simp add: in_array_def)
  have "n + length vs \<le> 2 ^ MAXBITS" if "n < sizearray t" using wf_sizearray [OF w] that by (simp add: vs_def)
  then have "n + length vs \<le> 2 ^ MAXBITS" using n by (cases "n < sizearray t") (auto simp: vs_def)
  from reinsert_array_ok [OF t2(2) this r2, of f] obtain t3 where t3: "reinsert_array (newkey (Suc f)) n vs t2 = Inr t3" "wf_table t3"
    "same_sizes t3 t2" "room t3 (hn + e)" and g3: "\<And>j. good_key j \<Longrightarrow> tget t3 j = (if slice_value n vs j \<noteq> TNil then slice_value n vs j else tget t2 j)"
    by blast
  have "need t3 (rev (t_node t)) = hn"
    using same_sizes_array [OF t3(3)] ia2 by (simp add: need_def hn_def rev_filter [symmetric])
  then have r3: "room t3 (need t3 (rev (t_node t)) + e)" using t3(4) by simp
  have good: "\<forall>x \<in> set (rev (t_node t)). live x \<longrightarrow> good_key (i_key x)"
    using wf_keys_parts(1) [OF w] wf_good [OF w] by (auto simp: in_set_conv_nth)
  from reinsert_hash_ok [OF t3(2) good apart_nodes [OF w] r3, of f] obtain t1 where t1: "reinsert_hash (newkey (Suc f)) (rev (t_node t)) t3 = Inr t1"
    "wf_table t1" "same_sizes t1 t3" "room t1 e" and g1: "\<And>j. good_key j \<Longrightarrow>
      (\<forall>x \<in> set (t_node t). live x \<longrightarrow> keq (i_key x) j \<longrightarrow> tget t1 j = i_val x) \<and>
      ((\<forall>x \<in> set (t_node t). live x \<longrightarrow> \<not> keq (i_key x) j) \<longrightarrow> tget t1 j = tget t3 j)" by auto
  have res: "resize (newkey (Suc f)) t n nh = Inr t1"
  proof -
    consider "n > sizearray t" | "n = sizearray t" | "n < sizearray t" by linarith
    then show ?thesis
    proof cases
      case 1
      then have "setarrayvector t n = t\<lparr>t_array := arr\<rparr>" "vs = []" by (simp_all add: setarrayvector_def arr_def vs_def)
      then show ?thesis using 1 t2(1) t3(1) t1(1) by (simp add: resize_def Let_def)
    next
      case 2
      then have "t\<lparr>t_array := arr\<rparr> = t" "vs = []" by (simp_all add: arr_def vs_def)
      then show ?thesis using 2 t2(1) t3(1) t1(1) by (simp add: resize_def Let_def)
    next
      case 3
      have "ebind (setnodevector t nh) (\<lambda>u. Inr (u\<lparr>t_array := take n (t_array t)\<rparr>)) = setnodevector (t\<lparr>t_array := arr\<rparr>) nh"
        using 3 by (simp add: setnodevector_def Let_def arr_def)
      then obtain u where "setnodevector t nh = Inr u" "u\<lparr>t_array := take n (t_array t)\<rparr> = t2"
        using t2(1) by (auto simp: ebind_Inr_iff)
      then show ?thesis using 3 t3(1) t1(1) by (simp add: resize_def Let_def vs_def)
    qed
  qed
  have "tget t1 j = tget t j" if j: "good_key j" for j
  proof (cases "\<exists>i < nnodes t. val_at t i \<noteq> TNil \<and> keq (key_at t i) j")
    case True
    then obtain i where i: "i < nnodes t" "val_at t i \<noteq> TNil" "keq (key_at t i) j" by blast
    have "\<not> in_array t j" using wf_good [OF w i(1) wf_keys_parts(1) [OF w i(1,2)]] arrayindex_keq [OF i(3)] by (simp add: in_array_def)
    then have "tget t j = val_at t i" using tget_holds [OF w j _ i(2)] i by (auto simp: holds_def)
    moreover have "t_node t ! i \<in> set (t_node t)" using i(1) by simp
    ultimately show ?thesis using g1 [OF j] i(2,3) by metis
  next
    case False
    then have none: "\<And>i. i < nnodes t \<Longrightarrow> val_at t i \<noteq> TNil \<Longrightarrow> \<not> keq (key_at t i) j" by blast
    then have "\<forall>x \<in> set (t_node t). live x \<longrightarrow> \<not> keq (i_key x) j" by (auto simp: in_set_conv_nth)
    then have one: "tget t1 j = tget t3 j" using g1 [OF j] by blast
    show ?thesis
    proof (cases "in_array t2 j")
      case True
      then have "slice_value n vs j = TNil" using ia2 by (simp add: slice_value_def)
      then have "tget t3 j = arr ! nat (arrayindex j - 1)" using g3 [OF j] tget_array [OF t2(2) j True] t2(3) by simp
      then show ?thesis using one array_value [OF arr_def w j _ _ none] True ia2 by simp
    next
      case out: False
      have "tget t3 j = slice_value n vs j" using g3 [OF j] e2 [OF j out] by simp
      moreover have "tget t j = slice_value n vs j"
      proof (cases "in_array t j")
        case True
        have a: "0 < arrayindex j" "arrayindex j \<le> int (sizearray t)" using True by (simp_all add: in_array_def)
        have b: "int n < arrayindex j" using out a(1) ia2 [of j] by linarith
        have "nat (arrayindex j - 1) = n + (nat (arrayindex j) - 1 - n)" using a b by linarith
        moreover have "vs ! (nat (arrayindex j) - 1 - n) = t_array t ! (n + (nat (arrayindex j) - 1 - n))"
          unfolding vs_def using a b by (intro nth_drop) linarith
        ultimately have "t_array t ! nat (arrayindex j - 1) = vs ! (nat (arrayindex j) - 1 - n)" by (simp only:)
        moreover have "arrayindex j \<le> int (n + length vs)" using a by (simp add: vs_def)
        then have "slice_value n vs j = vs ! (nat (arrayindex j) - 1 - n)" using b unfolding slice_value_def by simp
        ultimately show ?thesis using tget_array [OF w j True] by simp
      next
        case no: False
        have "tget t j = TNil"
        proof (rule ccontr)
          assume v: "tget t j \<noteq> TNil"
          then show False using tget_holds [OF w j no v] none by (auto simp: holds_def)
        qed
        moreover have "\<not> (int n < arrayindex j \<and> arrayindex j \<le> int (n + length vs))" using no by (auto simp: in_array_def vs_def)
        then have "slice_value n vs j = TNil" unfolding slice_value_def by (rule if_not_P)
        ultimately show ?thesis by simp
      qed
      ultimately show ?thesis using one by simp
    qed
  qed
  moreover have "sizearray t1 = n" using t1(3) t3(3) t2(3) arr by (simp add: same_sizes_def)
  ultimately show ?thesis using res t1 by blast
qed

end
