(* ===== verification/Lsizes.thy ===== *)
theory Lsizes
  imports Lresize
begin

text \<open>
  The counts that \<open>rehash\<close> makes of the integer keys of a table, by powers of two, and the size of the
  array part that \<open>computesizes\<close> derives from them.
\<close>

section \<open>The size of the array part\<close>

text \<open>The number of keys in the first \<open>m\<close> slices, and the best size among the first \<open>m\<close> powers of two.\<close>

abbreviation slices :: "int list \<Rightarrow> nat \<Rightarrow> int" where "slices nums m \<equiv> sum_list (take m nums)"

definition best_size :: "int list \<Rightarrow> nat \<Rightarrow> int \<Rightarrow> int \<Rightarrow> bool" where
  "best_size nums m na n \<longleftrightarrow>
     (n = 0 \<and> na = 0 \<or> (\<exists>b < m. n = 2 ^ b \<and> na = slices nums (Suc b) \<and> 2 ^ b div 2 < na)) \<and>
     (\<forall>b < m. 0 < nums ! b \<longrightarrow> 2 ^ b div 2 < slices nums (Suc b) \<longrightarrow> 2 ^ b \<le> n)"

lemma slices_Suc: "i < length nums \<Longrightarrow> slices nums (Suc i) = slices nums i + nums ! i"
  by (simp add: take_Suc_conv_app_nth)

lemma slices_mono: "\<forall>x \<in> set nums. 0 \<le> x \<Longrightarrow> i \<le> j \<Longrightarrow> slices nums i \<le> slices nums j"
proof -
  assume n: "\<forall>x \<in> set nums. 0 \<le> x" and "i \<le> j"
  then have "take j nums = take i nums @ take (j - i) (drop i nums)" by (metis le_add_diff_inverse take_add)
  moreover have "0 \<le> sum_list (take (j - i) (drop i nums))"
    using n by (intro sum_list_nonneg) (metis in_set_dropD in_set_takeD)
  ultimately show ?thesis by simp
qed

lemma best_size_end:
  assumes "best_size nums i na n" "i \<le> m" "\<And>b. i \<le> b \<Longrightarrow> b < m \<Longrightarrow> 0 < nums ! b \<Longrightarrow> slices nums (Suc b) \<le> 2 ^ b div 2"
  shows "best_size nums m na n"
proof -
  have "2 ^ b \<le> n" if "b < m" "0 < nums ! b" "2 ^ b div 2 < slices nums (Suc b)" for b
    using assms(1) assms(3) [of b] that by (cases "b < i") (auto simp: best_size_def)
  moreover have "n = 0 \<and> na = 0 \<or> (\<exists>b < m. n = 2 ^ b \<and> na = slices nums (Suc b) \<and> 2 ^ b div 2 < na)"
    using assms(1) order.strict_trans2 [OF _ assms(2)] unfolding best_size_def by blast
  ultimately show ?thesis unfolding best_size_def by blast
qed

lemma best_size_step:
  assumes "best_size nums i na n" "i < length nums" "n \<le> 2 ^ i"
  shows "best_size nums (Suc i) (if 0 < nums ! i \<and> 2 ^ i div 2 < slices nums (Suc i) then slices nums (Suc i) else na)
    (if 0 < nums ! i \<and> 2 ^ i div 2 < slices nums (Suc i) then 2 ^ i else n)"
proof (cases "0 < nums ! i \<and> 2 ^ i div 2 < slices nums (Suc i)")
  case True
  have "(2 :: int) ^ b \<le> 2 ^ i" if "b < Suc i" for b using that by (intro power_increasing) auto
  then show ?thesis using True unfolding best_size_def by auto
next
  case False
  then show ?thesis using assms(1) unfolding if_not_P [OF False]
    by (rule_tac best_size_end [of nums i na n]) (auto simp: not_less le_less_Suc_eq)
qed

lemma best_size_le: "best_size nums i na n \<Longrightarrow> n \<le> 2 ^ i"
proof -
  assume "best_size nums i na n"
  then consider "n = 0" | b where "b < i" "n = 2 ^ b" unfolding best_size_def by blast
  then show ?thesis by cases (auto intro: power_increasing)
qed

lemma sizes_loop_ok:
  assumes "\<forall>x \<in> set nums. 0 \<le> x" "narray = sum_list nums"
  shows "i \<le> length nums \<Longrightarrow> a = slices nums i \<Longrightarrow> i = 0 \<or> a \<noteq> narray \<Longrightarrow> best_size nums i na n \<Longrightarrow>
    \<exists>na1 n1. sizes_loop nums narray i a na n = Inr (na1, n1) \<and> best_size nums (length nums) na1 n1"
proof (induction "length nums - i" arbitrary: i a na n)
  case 0
  then have "i = length nums" by simp
  then have "narray = 0" using 0 assms(2) by auto
  then show ?case using 0 by (simp add: sizes_loop.simps)
next
  case (Suc d)
  show ?case
  proof (cases "2 ^ i div 2 < narray")
    case False
    have "best_size nums (length nums) na n"
    proof (rule best_size_end [OF Suc.prems(4,1)])
      fix b assume b: "i \<le> b" "b < length nums"
      have "slices nums (Suc b) \<le> slices nums (length nums)" using b by (intro slices_mono [OF assms(1)]) simp
      moreover have "(2 :: int) ^ i div 2 \<le> 2 ^ b div 2" using b by (intro zdiv_mono1 power_increasing) auto
      ultimately show "slices nums (Suc b) \<le> 2 ^ b div 2" using False assms(2) by simp
    qed
    then show ?thesis using False by (simp add: sizes_loop.simps [of nums narray i a na n])
  next
    case True
    have i: "i < length nums" using Suc.hyps(2) by simp
    define a1 where "a1 = slices nums (Suc i)"
    have nn: "0 \<le> nums ! i" using assms(1) i by simp
    have a1: "(if 0 < nums ! i then a + nums ! i else a) = a1" using slices_Suc [OF i] Suc.prems(2) nn by (auto simp: a1_def)
    define g where "g \<longleftrightarrow> 0 < nums ! i \<and> 2 ^ i div 2 < a1"
    define na1 where "na1 = (if g then a1 else na)"
    define n1 where "n1 = (if g then 2 ^ i else n)"
    have b1: "best_size nums (Suc i) na1 n1"
      using best_size_step [OF Suc.prems(4) i best_size_le [OF Suc.prems(4)]] unfolding na1_def n1_def g_def a1_def .
    have step: "sizes_loop nums narray i a na n = (if a1 = narray then Inr (na1, n1) else sizes_loop nums narray (Suc i) a1 na1 n1)"
      unfolding sizes_loop.simps [of nums narray i a na n] Let_def a1 using True i by (simp add: g_def na1_def n1_def)
    show ?thesis
    proof (cases "a1 = narray")
      case e: True
      have "best_size nums (length nums) na1 n1"
      proof (rule best_size_end [OF b1])
        fix b assume b: "Suc i \<le> b" "b < length nums" "0 < nums ! b"
        have "slices nums (Suc i) \<le> slices nums b" using b(1) by (rule slices_mono [OF assms(1)])
        moreover have "slices nums (Suc b) \<le> slices nums (length nums)" using b(2) by (intro slices_mono [OF assms(1)]) simp
        ultimately show "slices nums (Suc b) \<le> 2 ^ b div 2" using slices_Suc [OF b(2)] b(3) e assms(2) by (simp add: a1_def)
      qed (use i in simp)
      then show ?thesis using step e by simp
    next
      case False
      have "d = length nums - Suc i" using Suc.hyps(2) by simp
      from Suc.hyps(1) [OF this _ a1_def _ b1] show ?thesis using step False i by simp
    qed
  qed
qed

lemma computesizes_best:
  assumes "\<forall>x \<in> set nums. 0 \<le> x" "narray = sum_list nums"
  shows "\<exists>na n. computesizes nums narray = Inr (na, n) \<and> best_size nums (length nums) na n"
  unfolding computesizes_def by (rule sizes_loop_ok [OF assms]) (simp_all add: best_size_def)

section \<open>Counting keys\<close>

text \<open>\<open>nums\<close> counts the keys of \<open>ks\<close>, which may be indices of an array, by the logarithm.\<close>

definition counts :: "int list \<Rightarrow> int list \<Rightarrow> bool" where
  "counts nums ks \<longleftrightarrow> length nums = MAXBITS + 1 \<and> (\<forall>k \<in> set ks. 0 < k \<and> k \<le> MAXASIZE) \<and>
     (\<forall>b \<le> MAXBITS. nums ! b = int (length (filter (\<lambda>k. ceillog2 (nat k) = int b) ks)))"

lemma index_range: "0 < k \<Longrightarrow> k \<le> MAXASIZE \<Longrightarrow> 0 < nat k \<and> nat k < 2 ^ 32 \<and> nat k \<le> 2 ^ MAXBITS"
  by (simp add: MAXASIZE_def MAXBITS_def nat_le_iff)

lemma index_log: "0 < k \<Longrightarrow> k \<le> MAXASIZE \<Longrightarrow> 0 \<le> ceillog2 (nat k) \<and> ceillog2 (nat k) \<le> int MAXBITS"
  using index_range [of k] ceillog2_bounds [of "nat k"] ceillog2_le [of "nat k" MAXBITS] by blast

lemma index_log_le: "0 < k \<Longrightarrow> k \<le> MAXASIZE \<Longrightarrow> ceillog2 (nat k) \<le> int b \<longleftrightarrow> k \<le> 2 ^ b"
proof -
  assume k: "0 < k" "k \<le> MAXASIZE"
  have "nat k \<le> 2 ^ b \<longleftrightarrow> k \<le> 2 ^ b" using k(1) by (simp add: nat_le_iff)
  then show ?thesis using index_range [OF k] ceillog2_le [of "nat k" b] by blast
qed

definition index_keys :: "tobj \<Rightarrow> int list" where
  "index_keys key = (if 0 < arrayindex key \<and> arrayindex key \<le> MAXASIZE then [arrayindex key] else [])"

lemma countint_ok:
  assumes c: "counts nums ks"
  shows "\<exists>nums1. countint key nums = Inr (int (length (index_keys key)), nums1) \<and> counts nums1 (index_keys key @ ks)"
proof (cases "0 < arrayindex key \<and> arrayindex key \<le> MAXASIZE")
  case False
  then show ?thesis using c by (auto simp: countint_def index_keys_def Let_def)
next
  case True
  define l where "l = nat (ceillog2 (nat (arrayindex key)))"
  have l: "ceillog2 (nat (arrayindex key)) = int l" "l \<le> MAXBITS" using index_log [of "arrayindex key"] True by (auto simp: l_def nat_le_iff)
  have "countint key nums = Inr (1, nums[l := nums ! l + 1])" using True l c by (simp add: countint_def Let_def counts_def)
  moreover have "counts (nums[l := nums ! l + 1]) (arrayindex key # ks)"
    using c True l by (auto simp: counts_def nth_list_update)
  ultimately show ?thesis using True by (simp add: index_keys_def)
qed

definition hash_keys :: "Node list \<Rightarrow> int list" where
  "hash_keys ns = concat (map (index_keys \<circ> i_key) (filter live ns))"

lemma hash_keys_simps [simp]: "hash_keys [] = []" "hash_keys (ms @ ns) = hash_keys ms @ hash_keys ns"
  by (simp_all add: hash_keys_def)

lemma usehash_loop_ok:
  "counts nums ks \<Longrightarrow> i \<le> nnodes t \<Longrightarrow> \<exists>nums1. usehash_loop t i tot a nums =
     Inr (tot + int (length (filter live (take i (t_node t)))), a + int (length (hash_keys (take i (t_node t)))), nums1) \<and>
   counts nums1 (hash_keys (take i (t_node t)) @ ks)"
proof (induction i arbitrary: tot a nums ks)
  case 0
  then show ?case by simp
next
  case (Suc i)
  have i: "i < nnodes t" "i \<le> nnodes t" using Suc.prems(2) by simp_all
  have tk: "take (Suc i) (t_node t) = take i (t_node t) @ [t_node t ! i]" using i(1) by (rule take_Suc_conv_app_nth)
  show ?case
  proof (cases "live (t_node t ! i)")
    case False
    then have "hash_keys [t_node t ! i] = []" by (simp add: hash_keys_def)
    then show ?thesis using Suc.IH [OF Suc.prems(1) i(2)] False i(1) by (simp add: tk gnode_def)
  next
    case True
    then have h: "hash_keys [t_node t ! i] = index_keys (key_at t i)" by (simp add: hash_keys_def)
    obtain nums1 where n1: "countint (key_at t i) nums = Inr (int (length (index_keys (key_at t i))), nums1)"
      "counts nums1 (index_keys (key_at t i) @ ks)" using countint_ok [OF Suc.prems(1)] by blast
    show ?thesis using Suc.IH [OF n1(2) i(2), of "tot + 1" "a + int (length (index_keys (key_at t i)))"] True i(1) n1(1) h
      by (simp add: tk gnode_def ac_simps)
  qed
qed

text \<open>The indices of the elements of an array, from index \<open>d\<close> on, that are not nil.\<close>

primrec array_keys :: "nat \<Rightarrow> tobj list \<Rightarrow> int list" where
  "array_keys d [] = []"
| "array_keys d (v # vs) = (if v \<noteq> TNil then [int d + 1] else []) @ array_keys (Suc d) vs"

lemma array_keys_append: "array_keys d (us @ vs) = array_keys d us @ array_keys (d + length us) vs"
  by (induction us arbitrary: d) simp_all

lemma array_keys_length: "length (array_keys d vs) = live_values vs"
  by (induction vs arbitrary: d) (simp_all add: live_values_def)

lemma live_values_append: "live_values (us @ vs) = live_values us + live_values vs"
  by (simp add: live_values_def)

lemma array_keys_range: "k \<in> set (array_keys d vs) \<Longrightarrow> int d < k \<and> k \<le> int (d + length vs)"
  by (induction vs arbitrary: d) (fastforce split: if_splits)+

lemma array_keys_le: "filter (\<lambda>k. k \<le> int n) (array_keys 0 vs) = array_keys 0 (take n vs)"
proof -
  have "array_keys 0 vs = array_keys 0 (take n vs) @ array_keys (length (take n vs)) (drop n vs)"
    using array_keys_append [of 0 "take n vs" "drop n vs"] by simp
  moreover have "filter (\<lambda>k. k \<le> int n) (array_keys 0 (take n vs)) = array_keys 0 (take n vs)"
    using array_keys_range [of _ 0 "take n vs"] by (intro filter_True) fastforce
  moreover have "filter (\<lambda>k. k \<le> int n) (array_keys (length (take n vs)) (drop n vs)) = []"
  proof (cases "n \<le> length vs")
    case True
    then show ?thesis using array_keys_range [of _ n "drop n vs"] by (intro filter_False) (fastforce simp: min_absorb2)
  qed simp
  ultimately show ?thesis by simp
qed

lemma counts_slice:
  assumes c: "counts nums ks" and lg: "lg \<le> MAXBITS" and d: "lg = 0 \<and> d = 0 \<or> 0 < lg \<and> d = 2 ^ (lg - 1)" and v: "d + length vs \<le> 2 ^ lg"
  shows "counts (nums[lg := nums ! lg + int (live_values vs)]) (ks @ array_keys d vs)"
proof -
  have two: "(2 :: int) ^ lg \<le> MAXASIZE" unfolding MAXASIZE_def using lg by (intro power_increasing) auto
  have top: "int (d + length vs) \<le> 2 ^ lg" using v by (metis of_nat_le_iff of_nat_numeral of_nat_power)
  have r: "0 < k \<and> k \<le> MAXASIZE \<and> ceillog2 (nat k) = int lg" if k: "k \<in> set (array_keys d vs)" for k
  proof -
    have m: "0 < k" "k \<le> MAXASIZE" "k \<le> 2 ^ lg" "int d < k" using array_keys_range [OF k] top two by linarith+
    have "int lg \<le> ceillog2 (nat k)"
    proof (cases lg)
      case 0
      then show ?thesis using index_log [OF m(1,2)] by simp
    next
      case (Suc g)
      then have "int d = 2 ^ g" using d by simp
      then have "\<not> ceillog2 (nat k) \<le> int g" using index_log_le [OF m(1,2), of g] m(4) by simp
      then show ?thesis using Suc by simp
    qed
    moreover have "ceillog2 (nat k) \<le> int lg" using index_log_le [OF m(1,2)] m(3) by blast
    ultimately show ?thesis using m by simp
  qed
  have f: "length (filter (\<lambda>k. ceillog2 (nat k) = int b) (array_keys d vs)) = (if b = lg then live_values vs else 0)" for b
  proof -
    have "filter (\<lambda>k. ceillog2 (nat k) = int b) (array_keys d vs) = (if b = lg then array_keys d vs else [])"
      using r by (auto simp: filter_id_conv filter_empty_conv)
    then show ?thesis by (simp add: array_keys_length)
  qed
  have l: "length nums = MAXBITS + 1" using c by (simp add: counts_def)
  have "nums[lg := nums ! lg + int (live_values vs)] ! b = int (length (filter (\<lambda>k. ceillog2 (nat k) = int b) (ks @ array_keys d vs)))" if "b \<le> MAXBITS" for b
    using c that l lg by (simp add: counts_def f nth_list_update)
  then show ?thesis using c r unfolding counts_def by (metis Un_iff length_list_update set_append)
qed

definition slice_start :: "nat \<Rightarrow> nat" where "slice_start lg = (if lg = 0 then 0 else 2 ^ (lg - 1))"

lemma slice_start_simps [simp]: "slice_start 0 = 0" "slice_start (Suc lg) = 2 ^ lg"
  by (simp_all add: slice_start_def)

lemma slice_start_le: "slice_start lg \<le> 2 ^ lg"
  by (cases lg) simp_all

lemma usearray_loop_ok:
  "lg \<le> MAXBITS + 1 \<Longrightarrow> length arr \<le> 2 ^ MAXBITS \<Longrightarrow> counts nums (array_keys 0 (take (slice_start lg) arr)) \<Longrightarrow>
   \<exists>nums1. usearray_loop arr lg (min (slice_start lg) (length arr) + 1) a nums = (a + int (live_values (drop (slice_start lg) arr)), nums1) \<and>
     counts nums1 (array_keys 0 arr)"
proof (induction "MAXBITS + 1 - lg" arbitrary: lg a nums)
  case 0
  then have "lg = MAXBITS + 1" by simp
  then have "slice_start lg = 2 ^ MAXBITS" "\<not> lg \<le> MAXBITS" by simp_all
  then show ?case using 0 by (simp add: usearray_loop.simps live_values_def)
next
  case (Suc m)
  have lg: "lg \<le> MAXBITS" using Suc.hyps(2) by simp
  let ?d = "slice_start lg"
  define lim where "lim = (if 2 ^ lg > length arr then length arr else 2 ^ lg)"
  have d: "?d \<le> 2 ^ lg" by (rule slice_start_le)
  have lim: "lim = min (2 ^ lg) (length arr)" by (simp add: lim_def)
  note step = usearray_loop.simps [of arr lg "min ?d (length arr) + 1" a nums]
  show ?case
  proof (cases "2 ^ lg > length arr \<and> min ?d (length arr) + 1 > lim")
    case True
    then have e: "length arr \<le> ?d" by (auto simp: lim_def)
    have "usearray_loop arr lg (min ?d (length arr) + 1) a nums = (a, nums)" using step True lg unfolding Let_def lim_def [symmetric] by simp
    then show ?thesis using e Suc.prems(3) by (simp add: live_values_def)
  next
    case False
    then have e: "?d \<le> length arr" using d by (auto simp: lim_def split: if_splits)
    let ?vs = "take (2 ^ lg - ?d) (drop ?d arr)"
    have t: "take ?d arr @ ?vs = take (2 ^ lg) arr" using take_add [of ?d "2 ^ lg - ?d" arr] d by simp
    have c: "count_slice arr (?d + 1) lim = int (live_values ?vs)"
    proof -
      have "take (lim - ?d) (drop ?d arr) = ?vs" by (cases "2 ^ lg > length arr") (simp_all add: lim_def)
      then show ?thesis by (simp add: count_slice_def live_values_def)
    qed
    let ?n = "nums[lg := nums ! lg + int (live_values ?vs)]"
    have "lg = 0 \<and> ?d = 0 \<or> 0 < lg \<and> ?d = 2 ^ (lg - 1)" by (simp add: slice_start_def)
    from counts_slice [OF Suc.prems(3) lg this, of ?vs] have "counts ?n (array_keys 0 (take ?d arr) @ array_keys ?d ?vs)" using d by simp
    then have n: "counts ?n (array_keys 0 (take (2 ^ lg) arr))"
      using array_keys_append [of 0 "take ?d arr" ?vs] t e by (simp add: min_absorb2)
    have "usearray_loop arr lg (min ?d (length arr) + 1) a nums = usearray_loop arr (lg + 1) (lim + 1) (a + int (live_values ?vs)) ?n"
    proof -
      have "min ?d (length arr) = ?d" "max (?d + 1) (lim + 1) = lim + 1" using e d by (simp_all add: lim)
      then show ?thesis using lg c unfolding step Let_def lim_def [symmetric] if_not_P [OF False] by simp
    qed
    moreover have "live_values (drop ?d arr) = live_values ?vs + live_values (drop (2 ^ lg) arr)"
    proof -
      have "drop ?d arr = ?vs @ drop (2 ^ lg) arr" using d by (metis append_take_drop_id drop_drop le_add_diff_inverse2)
      then show ?thesis by (metis live_values_append)
    qed
    moreover have "m = MAXBITS + 1 - Suc lg" "Suc lg \<le> MAXBITS + 1" using Suc.hyps(2) lg by simp_all
    ultimately show ?thesis using Suc.hyps(1) [of "Suc lg" ?n "a + int (live_values ?vs)"] Suc.prems(2) n by (simp add: lim add.assoc)
  qed
qed

lemma numusearray_ok:
  assumes "length (t_array t) \<le> 2 ^ MAXBITS"
  shows "\<exists>nums1. numusearray t (replicate (MAXBITS + 1) 0) = (int (live_values (t_array t)), nums1) \<and> counts nums1 (array_keys 0 (t_array t))"
proof -
  have "counts (replicate (MAXBITS + 1) 0) (array_keys 0 (take (slice_start 0) (t_array t)))"
    by (simp add: counts_def less_Suc_eq_le del: replicate_Suc)
  from usearray_loop_ok [OF _ assms this, of 0] show ?thesis by (simp add: numusearray_def)
qed

section \<open>What the counts mean\<close>

text \<open>The first slices hold the keys up to a power of two.\<close>

lemma filter_count_add: "(\<And>x. x \<in> set xs \<Longrightarrow> \<not> (P x \<and> Q x)) \<Longrightarrow>
  length (filter (\<lambda>x. P x \<or> Q x) xs) = length (filter P xs) + length (filter Q xs)"
  by (induction xs) auto

lemma counts_slices: "counts nums ks \<Longrightarrow> b \<le> MAXBITS + 1 \<Longrightarrow> slices nums b = int (length (filter (\<lambda>k. ceillog2 (nat k) < int b) ks))"
proof (induction b)
  case 0
  have "\<not> ceillog2 (nat k) < 0" if "k \<in> set ks" for k using 0 that index_log by (auto simp: counts_def not_less)
  then show ?case by (simp add: filter_empty_conv)
next
  case (Suc b)
  have "b < length nums" using Suc.prems by (simp add: counts_def)
  then have "slices nums (Suc b) = slices nums b + nums ! b" by (rule slices_Suc)
  moreover have "(ceillog2 (nat k) < int (Suc b)) = (ceillog2 (nat k) < int b \<or> ceillog2 (nat k) = int b)" for k by auto
  then have "length (filter (\<lambda>k. ceillog2 (nat k) < int (Suc b)) ks) =
      length (filter (\<lambda>k. ceillog2 (nat k) < int b) ks) + length (filter (\<lambda>k. ceillog2 (nat k) = int b) ks)"
    by (simp only:) (rule filter_count_add, simp)
  ultimately show ?case using Suc by (simp add: counts_def)
qed

lemma counts_upto: "counts nums ks \<Longrightarrow> b \<le> MAXBITS \<Longrightarrow> slices nums (Suc b) = int (length (filter (\<lambda>k. k \<le> 2 ^ b) ks))"
proof -
  assume c: "counts nums ks" and b: "b \<le> MAXBITS"
  have "filter (\<lambda>k. ceillog2 (nat k) < int (Suc b)) ks = filter (\<lambda>k. k \<le> 2 ^ b) ks"
  proof (intro filter_cong refl)
    fix k assume "k \<in> set ks"
    then have "ceillog2 (nat k) \<le> int b \<longleftrightarrow> k \<le> 2 ^ b" using c by (intro index_log_le) (auto simp: counts_def)
    then show "ceillog2 (nat k) < int (Suc b) \<longleftrightarrow> k \<le> 2 ^ b" by linarith
  qed
  then show ?thesis using counts_slices [OF c, of "Suc b"] b by simp
qed

lemma counts_total: "counts nums ks \<Longrightarrow> sum_list nums = int (length ks)"
proof -
  assume c: "counts nums ks"
  have "filter (\<lambda>k. k \<le> 2 ^ MAXBITS) ks = ks" using c by (auto simp: counts_def MAXASIZE_def filter_id_conv)
  then show ?thesis using counts_upto [OF c, of MAXBITS] c by (simp add: counts_def)
qed

lemma computesizes_counts:
  assumes c: "counts nums ks"
  shows "\<exists>n. computesizes nums (int (length ks)) = Inr (int (length (filter (\<lambda>k. k \<le> int n) ks)), int n) \<and> n \<le> 2 ^ MAXBITS"
proof -
  have "0 \<le> x" if "x \<in> set nums" for x
    using that c by (auto simp: in_set_conv_nth counts_def less_Suc_eq_le)
  then obtain na m where m: "computesizes nums (int (length ks)) = Inr (na, m)" "best_size nums (length nums) na m"
    using computesizes_best [of nums "int (length ks)"] counts_total [OF c] by auto
  then consider "m = 0" "na = 0" | b where "b \<le> MAXBITS" "m = 2 ^ b" "na = slices nums (Suc b)"
    using c by (auto simp: best_size_def counts_def less_Suc_eq_le)
  then show ?thesis
  proof cases
    case 1
    have "filter (\<lambda>k. k \<le> int 0) ks = []" using c by (auto simp: counts_def filter_empty_conv)
    then show ?thesis using 1 m(1) by (intro exI [of _ 0]) simp
  next
    case 2
    have "(2 :: nat) ^ b \<le> 2 ^ MAXBITS" using 2(1) by (intro power_increasing) simp_all
    then show ?thesis using 2 m(1) counts_upto [OF c 2(1)] by (intro exI [of _ "2 ^ b"]) simp
  qed
qed

section \<open>The sizes of a rehash\<close>

lemma index_keys_le: "int n \<le> MAXASIZE \<Longrightarrow> length (filter (\<lambda>k. k \<le> int n) (index_keys key)) =
  (if 0 < arrayindex key \<and> arrayindex key \<le> int n then 1 else 0)"
  by (auto simp: index_keys_def)

lemma hash_keys_le: "int n \<le> MAXASIZE \<Longrightarrow> length (filter (\<lambda>k. k \<le> int n) (hash_keys ns)) +
  length (filter (\<lambda>x. live x \<and> \<not> (0 < arrayindex (i_key x) \<and> arrayindex (i_key x) \<le> int n)) ns) = length (filter live ns)"
proof (induction ns)
  case (Cons x ns)
  have "hash_keys (x # ns) = (if live x then index_keys (i_key x) else []) @ hash_keys ns" by (simp add: hash_keys_def)
  then show ?case using Cons index_keys_le [of n "i_key x"] by (simp split: if_splits)
qed simp

text \<open>The entries that go to the hash part are those the array part of the new size does not hold, and the new key.\<close>

lemma rehash_sizes:
  assumes w: "wf_table t"
  shows "\<exists>n. n \<le> 2 ^ MAXBITS \<and> rehash nk t ek = resize nk t n
    (hash_need t n + (if 0 < arrayindex ek \<and> arrayindex ek \<le> int n then 0 else 1))"
proof -
  have sz: "length (t_array t) \<le> 2 ^ MAXBITS" using wf_sizearray [OF w] by simp
  obtain nums where n0: "numusearray t (replicate (MAXBITS + 1) 0) = (int (live_values (t_array t)), nums)"
    "counts nums (array_keys 0 (t_array t))" using numusearray_ok [OF sz] by blast
  have nn: "nnodes t = sizenode t" using w by (simp add: wf_table_def)
  let ?ks = "hash_keys (t_node t) @ array_keys 0 (t_array t)"
  obtain nums1 where n1: "numusehash t nums (int (live_values (t_array t))) =
      Inr (int (length (filter live (t_node t))), int (length ?ks), nums1)" "counts nums1 ?ks"
    using usehash_loop_ok [OF n0(2), of "nnodes t" t 0 0] nn
    by (auto simp: numusehash_def array_keys_length)
  obtain nums2 where n2: "countint ek nums1 = Inr (int (length (index_keys ek)), nums2)" "counts nums2 (index_keys ek @ ?ks)"
    using countint_ok [OF n1(2)] by blast
  obtain n where n: "computesizes nums2 (int (length (index_keys ek @ ?ks))) =
      Inr (int (length (filter (\<lambda>k. k \<le> int n) (index_keys ek @ ?ks))), int n)" "n \<le> 2 ^ MAXBITS"
    using computesizes_counts [OF n2(2)] by blast
  have nm: "int n \<le> MAXASIZE" using n(2) unfolding MAXASIZE_def by (metis of_nat_le_iff of_nat_numeral of_nat_power)
  have a: "live_values (t_array t) = live_values (take n (t_array t)) + live_values (drop n (t_array t))"
    by (metis append_take_drop_id live_values_append)
  have "length (filter (\<lambda>k. k \<le> int n) (index_keys ek @ ?ks)) + (hash_need t n + (if 0 < arrayindex ek \<and> arrayindex ek \<le> int n then 0 else 1)) =
      live_values (t_array t) + length (filter live (t_node t)) + 1"
    using index_keys_le [OF nm, of ek] hash_keys_le [OF nm, of "t_node t"] a
    by (simp add: hash_need_def array_keys_le array_keys_length)
  then have h: "nat (int (live_values (t_array t)) + int (length (filter live (t_node t))) + 1 -
      int (length (filter (\<lambda>k. k \<le> int n) (index_keys ek @ ?ks)))) =
      hash_need t n + (if 0 < arrayindex ek \<and> arrayindex ek \<le> int n then 0 else 1)" by linarith
  have s: "int (length ?ks) + int (length (index_keys ek)) = int (length (index_keys ek @ ?ks))" by simp
  have "rehash nk t ek = resize nk t n (hash_need t n + (if 0 < arrayindex ek \<and> arrayindex ek \<le> int n then 0 else 1))"
    unfolding rehash_def n0(1) prod.case n1(1) ebind_simps n2(1) s n(1) h by simp
  then show ?thesis using n(2) by blast
qed

lemma setnodevector_overflow:
  assumes "2 ^ MAXBITS < sz" "sz < 2 ^ 32"
  shows "setnodevector t sz = Inl (Runtime ''table overflow'')"
  using ceillog2_le [of sz MAXBITS] assms by (simp add: setnodevector_def Let_def not_le)

section \<open>The optimal size\<close>

text \<open>The largest power of two such that more than half of the indices up to it are in use, and how many are.\<close>

definition optimal_size :: "int list \<Rightarrow> int" where
  "optimal_size nums = foldr max (map (\<lambda>b. 2 ^ b) (filter (\<lambda>b. 2 ^ b div 2 < slices nums (Suc b)) [0..<length nums])) 0"

definition keys_upto :: "int list \<Rightarrow> int \<Rightarrow> int" where
  "keys_upto nums n = sum_list (map ((!) nums) (filter (\<lambda>b. 2 ^ b \<le> n) [0..<length nums]))"

lemma foldr_max_eq: "(m :: int) \<in> set xs \<Longrightarrow> 0 \<le> m \<Longrightarrow> \<forall>x \<in> set xs. x \<le> m \<Longrightarrow> foldr max xs 0 = m"
proof -
  assume m: "m \<in> set xs" "0 \<le> m" "\<forall>x \<in> set xs. x \<le> m"
  have "\<forall>x \<in> set ys. x \<le> m \<Longrightarrow> foldr max ys 0 \<le> m" for ys using m(2) by (induction ys) auto
  moreover have "y \<in> set ys \<Longrightarrow> y \<le> foldr max ys 0" for y :: int and ys by (induction ys) auto
  ultimately show ?thesis using m(1,3) by (meson order_antisym)
qed

lemma keys_upto_power: "b < length nums \<Longrightarrow> keys_upto nums (2 ^ b) = slices nums (Suc b)"
proof -
  assume b: "b < length nums"
  have "filter (\<lambda>c. (2 :: int) ^ c \<le> 2 ^ b) [0..<length nums] = [0..<Suc b]"
  proof -
    have "[0..<length nums] = [0..<Suc b] @ [Suc b..<length nums]" using b by (metis Suc_leI le_add_diff_inverse upt_add_eq_append zero_le)
    then show ?thesis by (simp add: filter_id_conv filter_empty_conv del: upt_Suc)
  qed
  moreover have "map ((!) nums) [0..<Suc b] = take (Suc b) nums" using b by (intro nth_equalityI) (simp_all del: upt_Suc)
  ultimately show ?thesis by (simp add: keys_upto_def)
qed

text \<open>Each slice has at most as many keys as it has indices.\<close>

definition slices_fit :: "int list \<Rightarrow> bool" where
  "slices_fit nums \<longleftrightarrow> (\<forall>b < length nums. 0 \<le> nums ! b \<and> nums ! b \<le> 2 ^ b - 2 ^ b div 2)"

lemma slices_fit_le: "slices_fit nums \<Longrightarrow> b < length nums \<Longrightarrow> slices nums (Suc b) \<le> 2 ^ b"
proof (induction b)
  case 0
  then show ?case using slices_Suc [of 0 nums] by (auto simp: slices_fit_def)
next
  case (Suc b)
  have "nums ! Suc b \<le> 2 ^ Suc b - 2 ^ Suc b div 2" using Suc.prems by (auto simp: slices_fit_def)
  moreover have "slices nums (Suc b) \<le> 2 ^ b" using Suc by simp
  moreover have "slices nums (Suc (Suc b)) = slices nums (Suc b) + nums ! Suc b" using Suc.prems(2) by (rule slices_Suc)
  ultimately show ?case by simp
qed

lemma best_size_optimal:
  assumes f: "slices_fit nums" and g: "best_size nums (length nums) na n"
  shows "n = optimal_size nums \<and> na = keys_upto nums n"
proof -
  let ?used = "\<lambda>b. (2 :: int) ^ b div 2 < slices nums (Suc b)"
  have pos: "0 < nums ! b" if b: "b < length nums" "?used b" for b
  proof (rule ccontr)
    assume "\<not> 0 < nums ! b"
    then have z: "nums ! b = 0" using f b(1) by (force simp: slices_fit_def)
    show False
    proof (cases b)
      case 0
      then show ?thesis using b slices_Suc [OF b(1)] z by simp
    next
      case (Suc c)
      then have "slices nums (Suc c) \<le> 2 ^ c" using slices_fit_le [OF f, of c] b(1) by simp
      then show ?thesis using b(2) slices_Suc [OF b(1)] z Suc by simp
    qed
  qed
  have top: "2 ^ b \<le> n" if "b < length nums" "?used b" for b using g pos [OF that] that unfolding best_size_def by blast
  from g consider "n = 0" "na = 0" | b where "b < length nums" "n = 2 ^ b" "na = slices nums (Suc b)" "?used b"
    unfolding best_size_def by auto
  then show ?thesis
  proof cases
    case 1
    have no: "\<not> ?used b" if "b < length nums" for b using top [OF that] 1(1) by (metis zero_less_numeral zero_less_power not_le)
    have "filter ?used [0..<length nums] = []" using no by (simp add: filter_empty_conv)
    then have "optimal_size nums = 0" by (simp add: optimal_size_def)
    moreover have "filter (\<lambda>b. (2 :: int) ^ b \<le> 0) [0..<length nums] = []" by (simp add: filter_empty_conv not_le)
    then have "keys_upto nums 0 = 0" by (simp add: keys_upto_def)
    ultimately show ?thesis using 1 by simp
  next
    case 2
    have "optimal_size nums = n" unfolding optimal_size_def
      by (rule foldr_max_eq) (use 2 top in auto)
    then show ?thesis using keys_upto_power [OF 2(1)] 2 by simp
  qed
qed



end
