(* ===== verification/Lmap.thy ===== *)
theory Lmap
  imports Lsizes
begin

text \<open>
  Tables as finite maps: a rehash keeps all entries and leaves a place for the new key, so that setting a key ends after at most
  one rehash. The interface that clients of a table rely on, and what it gives for a sequence of assignments.
\<close>

section \<open>Rehashing\<close>

definition entries :: "Table \<Rightarrow> nat" where
  "entries t = live_values (t_array t) + length (filter live (t_node t))"

lemma hash_need_le: "hash_need t n \<le> entries t"
proof -
  have "live_values (drop n (t_array t)) \<le> live_values (t_array t)"
    using live_values_append [of "take n (t_array t)" "drop n (t_array t)"] by simp
  moreover have "length (filter (\<lambda>x. live x \<and> Q x) ns) \<le> length (filter live ns)" for Q ns
    by (induction ns) auto
  ultimately show ?thesis by (simp add: hash_need_def entries_def add_mono)
qed

lemma entries_bound: "wf_table t \<Longrightarrow> entries t \<le> 2 ^ MAXBITS + 2 ^ MAXBITS"
proof -
  assume w: "wf_table t"
  have "live_values (t_array t) \<le> sizearray t" by (simp add: live_values_def)
  moreover have "length (filter live (t_node t)) \<le> nnodes t" by simp
  moreover have "nnodes t \<le> 2 ^ MAXBITS" using w by (simp add: wf_table_def sizenode_def)
  moreover have "sizearray t \<le> 2 ^ MAXBITS" using wf_sizearray [OF w] by simp
  ultimately show ?thesis unfolding entries_def by linarith
qed

lemma rehash_ok:
  assumes w: "wf_table t" and k: "good_key ek"
  shows "rehash (newkey (Suc f)) t ek = Inl (Runtime ''table overflow'') \<and> 2 ^ MAXBITS \<le> entries t \<or>
    (\<exists>t1. rehash (newkey (Suc f)) t ek = Inr t1 \<and> wf_table t1 \<and> room t1 (if in_array t1 ek then 0 else 1) \<and>
      (\<forall>j. good_key j \<longrightarrow> tget t1 j = tget t j))"
proof -
  obtain n where n: "n \<le> 2 ^ MAXBITS" "rehash (newkey (Suc f)) t ek = resize (newkey (Suc f)) t n
    (hash_need t n + (if 0 < arrayindex ek \<and> arrayindex ek \<le> int n then 0 else 1))" using rehash_sizes [OF w] by blast
  let ?e = "if 0 < arrayindex ek \<and> arrayindex ek \<le> int n then 0 else (1 :: nat)"
  show ?thesis
  proof (cases "hash_need t n + ?e \<le> 2 ^ MAXBITS")
    case True
    from resize_ok [OF w n(1) order_refl this, of f] n(2) show ?thesis by (auto simp: in_array_def)
  next
    case False
    have e: "2 ^ MAXBITS \<le> entries t" using False hash_need_le [of t n] by (auto split: if_splits)
    have "hash_need t n + ?e < 2 ^ 32" using hash_need_le [of t n] entries_bound [OF w] by (simp add: MAXBITS_def)
    then have "setnodevector u (hash_need t n + ?e) = Inl (Runtime ''table overflow'')" for u
      using False by (intro setnodevector_overflow) simp_all
    then show ?thesis using n(2) e by (simp add: resize_def Let_def)
  qed
qed

lemma lastfree_simps [simp]: "stored (t\<lparr>t_lastfree := n\<rparr>) k r = stored t k r" "slot_value (t\<lparr>t_lastfree := n\<rparr>) r = slot_value t r"
  "entries (t\<lparr>t_lastfree := n\<rparr>) = entries t" "entries (t\<lparr>t_flags := m\<rparr>) = entries t"
  by (simp_all add: stored_def in_array_def slot_value_def value_at_def entries_def cong: option.case_cong slot.case_cong)

lemma tget_lastfree: "wf_table t \<Longrightarrow> wf_table (t\<lparr>t_lastfree := n\<rparr>) \<Longrightarrow> good_key k \<Longrightarrow> tget (t\<lparr>t_lastfree := n\<rparr>) k = tget t k"
  using stored_exists [of t k] tget_stored [of t k] tget_stored [of "t\<lparr>t_lastfree := n\<rparr>" k] by auto

section \<open>Setting a key\<close>

text \<open>The outcome of setting a good key: a slot for it, or an overflow, which needs very many entries.\<close>

definition sets :: "Table \<Rightarrow> tobj \<Rightarrow> (slot \<times> Table) lres \<Rightarrow> bool" where
  "sets t key r \<longleftrightarrow> r = Inl (Runtime ''table overflow'') \<and> 2 ^ MAXBITS \<le> entries t \<or> (\<exists>s t1. r = Inr (s, t1) \<and> set_ok t key s t1)"

lemma newkey_ok:
  assumes w: "wf_table t" and fr: "fresh t key"
  shows "sets t key (newkey (Suc (Suc f)) t key)"
proof -
  have k: "good_key key" using fr by (simp add: fresh_def)
  let ?grow = "\<lambda>t1. ebind (rehash (newkey (Suc f)) t1 key) (\<lambda>t2. set_with (newkey (Suc f)) t2 key)"
  have nk: "newkey (Suc (Suc f)) t key = insert_key ?grow t key" by (simp add: newkey.simps(2) [of "Suc f"])
  from insert_key_ok [OF w fr, of ?grow] show ?thesis
  proof
    assume "\<exists>p t1. insert_key ?grow t key = Inr (S_node p, t1) \<and> placed t key p t1"
    then show ?thesis using nk placed_set_ok [OF w fr] by (auto simp: sets_def)
  next
    assume "\<exists>lf. insert_key ?grow t key = ?grow (t\<lparr>t_lastfree := lf\<rparr>) \<and> wf_table (t\<lparr>t_lastfree := lf\<rparr>) \<and> (t_dummy t \<or> used t = nnodes t)"
    then obtain lf where lf: "insert_key ?grow t key = ?grow (t\<lparr>t_lastfree := lf\<rparr>)" "wf_table (t\<lparr>t_lastfree := lf\<rparr>)" by blast
    let ?t = "t\<lparr>t_lastfree := lf\<rparr>"
    from rehash_ok [OF lf(2) k, of f] show ?thesis
    proof
      assume "rehash (newkey (Suc f)) ?t key = Inl (Runtime ''table overflow'') \<and> 2 ^ MAXBITS \<le> entries ?t"
      then show ?thesis using nk lf(1) by (simp add: sets_def)
    next
      assume "\<exists>t1. rehash (newkey (Suc f)) ?t key = Inr t1 \<and> wf_table t1 \<and> room t1 (if in_array t1 key then 0 else 1) \<and>
        (\<forall>j. good_key j \<longrightarrow> tget t1 j = tget ?t j)"
      then obtain t1 where t1: "rehash (newkey (Suc f)) ?t key = Inr t1" "wf_table t1" "room t1 (if in_array t1 key then 0 else Suc 0)"
        "\<And>j. good_key j \<Longrightarrow> tget t1 j = tget ?t j" unfolding One_nat_def by blast
      obtain s t2 where s: "set_with (newkey (Suc f)) t1 key = Inr (s, t2)" "set_ok t1 key s t2"
        using set_room [OF t1(2) k t1(3)] by blast
      have "set_ok t key s t2" using s(2) t1(4) tget_lastfree [OF w lf(2)] by (simp add: set_ok_def)
      then show ?thesis using nk lf(1) t1(1) s(1) by (simp add: sets_def)
    qed
  qed
qed

lemma set_with_ok:
  assumes w: "wf_table t" and k: "good_key key"
  shows "sets t key (set_with (newkey (Suc (Suc f))) t key)"
proof -
  obtain p where p: "luaH_get t key = Inr p" "stored t key p" using get_stored [OF w k] by blast
  let ?t = "t\<lparr>t_flags := 0\<rparr>"
  show ?thesis
  proof (cases p)
    case (Some s)
    then show ?thesis using p w by (simp add: set_with_def sets_def set_ok_def)
  next
    case None
    then have "fresh ?t key" using p(2) k by (auto simp: stored_def fresh_def split: if_splits)
    then have "sets ?t key (newkey (Suc (Suc f)) ?t key)" using newkey_ok w by simp
    then have "sets t key (newkey (Suc (Suc f)) ?t key)" using w by (auto simp: sets_def set_ok_def)
    moreover have "set_with (newkey (Suc (Suc f))) t key = newkey (Suc (Suc f)) ?t key"
      using p(1) None k by (auto simp: set_with_def good_key_def luai_numisnan_def luai_numeq_def split: tobj.splits)
    ultimately show ?thesis by simp
  qed
qed

text \<open>Nil and not-a-number are no keys.\<close>

lemma get_nan: "wf_table t \<Longrightarrow> num_nan n \<Longrightarrow> luaH_get t (TNumber n) = Inr None"
proof -
  assume w: "wf_table t" and n: "num_nan n"
  have ne: "\<not> luai_numeq m n" for m using n by (simp add: luai_numeq_def)
  have "hashnum t n < nnodes t" using w hashmod_less sizenode_pos by (simp add: hashnum_def wf_table_def)
  from find_node_ok [OF w this, of "\<lambda>k. keq k (TNumber n)"]
  obtain res where r: "find_node t (\<lambda>k. keq k (TNumber n)) (hashnum t n) = Inr (map_option S_node res)"
    "case res of None \<Rightarrow> \<forall>i. (hashnum t n, i) \<in> (links t)\<^sup>* \<longrightarrow> \<not> keq (key_at t i) (TNumber n)
     | Some i \<Rightarrow> i < nnodes t \<and> (hashnum t n, i) \<in> (links t)\<^sup>* \<and> keq (key_at t i) (TNumber n)" by blast
  have "\<not> keq k (TNumber n)" for k using ne by (simp add: keq_num split: tobj.split)
  then have "find_node t (\<lambda>k. keq k (TNumber n)) (hashnum t n) = Inr None" using r by (cases res) simp_all
  then show ?thesis using ne by (simp add: luaH_get_def get_any_def mainposition_def)
qed

lemma set_bad: "luaH_set f t TNil = Inl (Runtime ''table index is nil'')"
  "wf_table t \<Longrightarrow> num_nan n \<Longrightarrow> luaH_set f t (TNumber n) = Inl (Runtime ''table index is NaN'')"
  by (simp_all add: luaH_set_def set_with_def get_nan luaH_get_def [of _ TNil] luai_numisnan_def luai_numeq_def)

section \<open>Entries\<close>

text \<open>The places of all values, in the order in which they are stored, and the key that belongs to a place.\<close>

definition live_slots :: "Table \<Rightarrow> slot list" where
  "live_slots t = map S_array (filter (\<lambda>i. t_array t ! i \<noteq> TNil) [0..<sizearray t]) @
     map S_node (filter (\<lambda>i. val_at t i \<noteq> TNil) [0..<nnodes t])"

definition slot_key :: "Table \<Rightarrow> slot \<Rightarrow> tobj" where
  "slot_key t s = (case s of S_array i \<Rightarrow> TNumber (cast_num (int i + 1)) | S_node i \<Rightarrow> key_at t i)"

lemma filter_index: "length (filter (\<lambda>i. P (xs ! i)) [0..<length xs]) = length (filter P xs)"
proof -
  have "length (filter P xs) = length (filter P (map ((!) xs) [0..<length xs]))" by (simp only: map_nth)
  also have "\<dots> = length (filter (\<lambda>i. P (xs ! i)) [0..<length xs])" by (simp only: filter_map length_map comp_def)
  finally show ?thesis by simp
qed

lemma live_slots_length: "length (live_slots t) = entries t"
  using filter_index [of "\<lambda>v. v \<noteq> TNil" "t_array t"] filter_index [of live "t_node t"]
  by (simp add: live_slots_def entries_def live_values_def)

lemma live_slots_distinct: "distinct (live_slots t)"
  by (auto simp: live_slots_def distinct_map inj_on_def)

lemma live_slots_value: "s \<in> set (live_slots t) \<Longrightarrow> value_at t s \<noteq> TNil"
  by (auto simp: live_slots_def value_at_def)

lemma slot_key_array:
  assumes "wf_table t" "i < sizearray t"
  shows "good_key (TNumber (cast_num (int i + 1)))" "arrayindex (TNumber (cast_num (int i + 1))) = int i + 1"
proof -
  have "sizearray t \<le> 2 ^ MAXBITS" using wf_sizearray [OF assms(1)] by simp
  then have "- (2 ^ 31) \<le> int i + 1" "int i + 1 < 2 ^ 31" using assms(2) by (simp_all add: MAXBITS_def)
  then show "good_key (TNumber (cast_num (int i + 1)))" "arrayindex (TNumber (cast_num (int i + 1))) = int i + 1"
    by (rule good_cast, rule arrayindex_cast)
qed

lemma live_slot_stored:
  assumes w: "wf_table t" and s: "s \<in> set (live_slots t)"
  shows "good_key (slot_key t s) \<and> stored t (slot_key t s) (Some s)"
proof (cases s)
  case (S_array i)
  then have i: "i < sizearray t" using s by (auto simp: live_slots_def)
  then show ?thesis using slot_key_array [OF w i] S_array by (simp add: slot_key_def stored_def in_array_def)
next
  case (S_node i)
  then have i: "i < nnodes t" "val_at t i \<noteq> TNil" using s by (auto simp: live_slots_def)
  then have g: "good_key (key_at t i) \<and> \<not> in_array t (key_at t i)" using wf_good [OF w] wf_keys_parts(1) [OF w] by blast
  then show ?thesis using i S_node keq_refl by (simp add: slot_key_def stored_def)
qed

lemma live_slot_get: "wf_table t \<Longrightarrow> s \<in> set (live_slots t) \<Longrightarrow> tget t (slot_key t s) = value_at t s"
  using live_slot_stored [of t s] tget_stored [of t "slot_key t s" "Some s"] by (simp add: slot_value_def)

lemma stored_live: "stored t k (Some s) \<Longrightarrow> value_at t s \<noteq> TNil \<Longrightarrow> s \<in> set (live_slots t)"
  by (cases s) (auto simp: stored_def live_slots_def value_at_def in_array_def split: if_splits)

text \<open>A table has at most as many entries as there are keys with a value.\<close>

lemma entries_le:
  assumes w: "wf_table t" and ks: "\<And>j. good_key j \<Longrightarrow> tget t j \<noteq> TNil \<Longrightarrow> \<exists>k \<in> set ks. keq j k"
  shows "entries t \<le> length ks"
proof -
  define f where "f s = (SOME k. k \<in> set ks \<and> keq (slot_key t s) k)" for s
  have f: "f s \<in> set ks \<and> keq (slot_key t s) (f s)" if s: "s \<in> set (live_slots t)" for s
  proof -
    have "\<exists>k. k \<in> set ks \<and> keq (slot_key t s) k"
      using ks [of "slot_key t s"] live_slot_stored [OF w s] live_slot_get [OF w s] live_slots_value [OF s] by auto
    then show ?thesis unfolding f_def by (rule someI_ex)
  qed
  have "inj_on f (set (live_slots t))"
  proof (rule inj_onI)
    fix a b assume a: "a \<in> set (live_slots t)" and b: "b \<in> set (live_slots t)" and "f a = f b"
    then have "keq (slot_key t a) (slot_key t b)" using f [OF a] f [OF b] keq_sym keq_trans by metis
    then have "stored t (slot_key t a) (Some b)" using stored_keq live_slot_stored [OF w b] by blast
    then show "a = b" using stored_unique [OF w] live_slot_stored [OF w a] by blast
  qed
  then have "card (set (live_slots t)) \<le> card (set ks)" using f by (intro card_inj_on_le) auto
  then show ?thesis using live_slots_distinct [of t] live_slots_length [of t] card_length [of ks] by (simp add: distinct_card)
qed

section \<open>The interface of a table\<close>

text \<open>What the API does with a table: \<open>lua_rawget\<close> and \<open>lua_rawset\<close>, less the stack.\<close>

definition lua_rawget :: "Table \<Rightarrow> tobj \<Rightarrow> tobj lres" where
  "lua_rawget t k = ebind (luaH_get t k) (\<lambda>s. Inr (slot_value t s))"

definition lua_rawset :: "Table \<Rightarrow> tobj \<Rightarrow> tobj \<Rightarrow> Table lres" where
  "lua_rawset t k v = ebind (luaH_set 2 t k) (\<lambda>(s, t1). Inr (setobj t1 s v))"

lemma rawget_tget: "wf_table t \<Longrightarrow> good_key k \<Longrightarrow> lua_rawget t k = Inr (tget t k)"
proof -
  assume w: "wf_table t" and k: "good_key k"
  obtain s where s: "stored t k s" using stored_exists [OF w k] by blast
  show ?thesis using tget_stored [OF w k s] by (simp add: lua_rawget_def)
qed

text \<open>A sequence of assignments, and the value that the last one of them to a key gives it.\<close>

primrec assigns :: "('t \<Rightarrow> 'k \<Rightarrow> 'v \<Rightarrow> 't lres) \<Rightarrow> ('k \<times> 'v) list \<Rightarrow> 't \<Rightarrow> 't lres" where
  "assigns put [] t = Inr t"
| "assigns put (x # kvs) t = ebind (put t (fst x) (snd x)) (assigns put kvs)"

primrec last_value :: "('k \<Rightarrow> 'k \<Rightarrow> bool) \<Rightarrow> ('k \<times> 'v) list \<Rightarrow> 'v \<Rightarrow> 'k \<Rightarrow> 'v" where
  "last_value same [] d j = d"
| "last_value same (x # kvs) d j = last_value same kvs (if same j (fst x) then snd x else d) j"

lemma assigns_snoc: "assigns put (kvs @ [x]) t = ebind (assigns put kvs t) (\<lambda>t1. put t1 (fst x) (snd x))"
proof (induction kvs arbitrary: t)
  case (Cons y kvs)
  then show ?case by (cases "put t (fst y) (snd y)") simp_all
next
  case Nil
  show ?case by (cases "put t (fst x) (snd x)") simp_all
qed

lemma last_value_snoc: "last_value same (kvs @ [x]) d j = (if same j (fst x) then snd x else last_value same kvs d j)"
  by (induction kvs arbitrary: d) simp_all

lemma last_value_key: "last_value same kvs d j \<noteq> d \<Longrightarrow> \<exists>k \<in> set (map fst kvs). same j k"
proof (induction kvs arbitrary: d)
  case (Cons x kvs)
  then show ?case by (cases "same j (fst x)") auto
qed simp

locale key_map =
  fixes inv :: "'t \<Rightarrow> bool" and key :: "'k \<Rightarrow> bool" and same :: "'k \<Rightarrow> 'k \<Rightarrow> bool"
    and look :: "'t \<Rightarrow> 'k \<Rightarrow> 'v" and put :: "'t \<Rightarrow> 'k \<Rightarrow> 'v \<Rightarrow> 't lres" and absent :: 'v and capacity :: nat
  assumes put_total: "inv t \<Longrightarrow> key k \<Longrightarrow> (\<And>j. key j \<Longrightarrow> look t j \<noteq> absent \<Longrightarrow> \<exists>i \<in> set ks. same j i) \<Longrightarrow> length ks < capacity \<Longrightarrow>
      \<exists>t1. put t k v = Inr t1"
    and put_inv: "inv t \<Longrightarrow> key k \<Longrightarrow> put t k v = Inr t1 \<Longrightarrow> inv t1"
    and put_look: "inv t \<Longrightarrow> key k \<Longrightarrow> put t k v = Inr t1 \<Longrightarrow> key j \<Longrightarrow> look t1 j = (if same j k then v else look t j)"
begin

lemma assigns_last:
  assumes t: "inv t" "\<And>j. key j \<Longrightarrow> look t j = absent"
  shows "\<forall>x \<in> set kvs. key (fst x) \<Longrightarrow> length kvs \<le> capacity \<Longrightarrow>
    \<exists>t1. assigns put kvs t = Inr t1 \<and> inv t1 \<and> (\<forall>j. key j \<longrightarrow> look t1 j = last_value same kvs absent j)"
proof (induction kvs rule: rev_induct)
  case Nil
  then show ?case using t by simp
next
  case (snoc x kvs)
  then obtain t1 where t1: "assigns put kvs t = Inr t1" "inv t1" "\<And>j. key j \<Longrightarrow> look t1 j = last_value same kvs absent j" by auto
  have x: "key (fst x)" and l: "length (map fst kvs) < capacity" using snoc.prems by simp_all
  obtain t2 where t2: "put t1 (fst x) (snd x) = Inr t2"
    using put_total [OF t1(2) x _ l] last_value_key [of same kvs absent] t1(3) by (metis (no_types, lifting))
  then show ?case using t1 put_inv [OF t1(2) x t2] put_look [OF t1(2) x t2]
    by (simp add: assigns_snoc last_value_snoc)
qed

end

lemma rawset_ok:
  assumes "wf_table t" "good_key k"
  shows "lua_rawset t k v = Inl (Runtime ''table overflow'') \<and> 2 ^ MAXBITS \<le> entries t \<or>
    (\<exists>t1. lua_rawset t k v = Inr t1 \<and> wf_table t1 \<and> (\<forall>j. good_key j \<longrightarrow> tget t1 j = (if keq j k then v else tget t j)))"
proof -
  have "sets t k (luaH_set 2 t k)" unfolding luaH_set_def numeral_2_eq_2 by (rule set_with_ok [OF assms])
  then consider "luaH_set 2 t k = Inl (Runtime ''table overflow'')" "2 ^ MAXBITS \<le> entries t"
    | s t1 where "luaH_set 2 t k = Inr (s, t1)" "set_ok t k s t1" by (auto simp: sets_def)
  then show ?thesis
  proof cases
    case 1
    then show ?thesis by (simp add: lua_rawset_def)
  next
    case 2
    have w1: "wf_table t1" and st: "stored t1 k (Some s)" and g: "\<And>j. good_key j \<Longrightarrow> tget t1 j = tget t j"
      using 2(2) by (auto simp: set_ok_def)
    have "wf_table (setobj t1 s v)" using setobj_wf [OF w1 stored_slot_ok [OF assms(2) st]] .
    then show ?thesis using 2(1) tget_setobj [OF w1 assms(2) st] g by (simp add: lua_rawset_def)
  qed
qed

interpretation lt: key_map wf_table good_key keq tget lua_rawset TNil "2 ^ MAXBITS"
proof unfold_locales
  fix t k ks v assume w: "wf_table t" and k: "good_key k" and c: "length ks < 2 ^ MAXBITS"
    and ks: "\<And>j. good_key j \<Longrightarrow> tget t j \<noteq> TNil \<Longrightarrow> \<exists>i \<in> set ks. keq j i"
  have "entries t \<le> length ks" using entries_le [OF w, of ks] ks by blast
  then show "\<exists>t1. lua_rawset t k v = Inr t1" using rawset_ok [OF w k, of v] c by auto
next
  fix t k v t1 assume "wf_table t" "good_key k" "lua_rawset t k v = Inr t1"
  then show "wf_table t1" "\<And>j. good_key j \<Longrightarrow> tget t1 j = (if keq j k then v else tget t j)" using rawset_ok [of t k v] by auto
qed

lemma luaH_new_ok:
  assumes "int narray \<le> MAXASIZE" "nhash \<le> 2 ^ MAXBITS"
  shows "\<exists>t. luaH_new narray nhash = Inr t \<and> wf_table t \<and> (\<forall>k. good_key k \<longrightarrow> tget t k = TNil)"
proof -
  define t0 where "t0 = setarrayvector \<lparr>t_flags = 255, t_lsizenode = 0, t_array = [], t_node = [dummynode], t_dummy = True, t_lastfree = 0\<rparr> narray"
  have a: "t_array t0 = replicate narray TNil" by (simp add: t0_def setarrayvector_def)
  obtain t where t: "setnodevector t0 nhash = Inr t" "wf_table t" "t_array t = t_array t0"
    and e: "\<And>k. good_key k \<Longrightarrow> \<not> in_array t k \<Longrightarrow> tget t k = TNil" using setnodevector_ok [of t0 nhash] assms a by auto
  have "tget t k = TNil" if k: "good_key k" for k
  proof (cases "in_array t k")
    case True
    have "nat (arrayindex k - 1) < narray" using True t(3) a by (auto simp: in_array_def)
    then show ?thesis using tget_array [OF t(2) k True] t(3) a by simp
  qed (rule e [OF k])
  then show ?thesis using t(1,2) by (auto simp: luaH_new_def t0_def)
qed

text \<open>A larger array part takes over the entries with an index that fits. The virtual machine enlarges it before
  it stores the elements of a constructor.\<close>

lemma resizearray_keeps:
  assumes w: "wf_table t" and n: "sizearray t \<le> n" "n \<le> 2 ^ MAXBITS"
  shows "\<exists>t1. luaH_resizearray (newkey (Suc f)) t n = Inr t1 \<and> wf_table t1 \<and> sizearray t1 = n \<and>
    (\<forall>j. good_key j \<longrightarrow> lua_rawget t1 j = lua_rawget t j)"
proof -
  let ?nh = "if t_dummy t then 0 else sizenode t"
  have "length (filter (\<lambda>x. live x \<and> Q x) (t_node t)) \<le> ?nh" for Q
    using w length_filter_le [of "\<lambda>x. live x \<and> Q x" "t_node t"] by (auto simp: wf_table_def dummynode_def)
  then have "hash_need t n + 0 \<le> ?nh" using n(1) by (simp add: hash_need_def live_values_def)
  moreover have "?nh \<le> 2 ^ MAXBITS" using w by (simp add: wf_table_def sizenode_def)
  ultimately obtain t1 where "resize (newkey (Suc f)) t n ?nh = Inr t1" "wf_table t1" "sizearray t1 = n"
    "\<And>j. good_key j \<Longrightarrow> tget t1 j = tget t j" using resize_ok [OF w n(2), of 0 ?nh f] by blast
  then show ?thesis using rawget_tget [OF w] rawget_tget [of t1] by (simp add: luaH_resizearray_def)
qed

section \<open>Properties\<close>

text \<open>A table with one element in the array part and one in the hash part.\<close>

definition sample :: Table where
  "sample = \<lparr>t_flags = 0, t_lsizenode = 0, t_array = [TBoolean True, TNil],
     t_node = [\<lparr>i_val = TBoolean False, i_key = TStr ''a'', i_next = None\<rparr>], t_dummy = False, t_lastfree = 0\<rparr>"

lemma sample_wf: "wf_table sample"
proof -
  have "links sample = {}" by (auto simp: links_def sample_def intro!: gr0I)
  then show ?thesis
    by (auto simp: wf_table_def wf_links_def wf_keys_def sample_def sizenode_def MAXBITS_def MAXASIZE_def good_key_def in_array_def
        arrayindex_def mpos_def mainposition_def hashpow2_def)
qed

text \<open>C31. A new table and any sequence of assignments to it, at most \<open>2 ^ 26\<close>: no operation fails, and looking up a key gives
  the value last assigned to an equal key, or nil.\<close>

theorem table_last_value:
  assumes "int narray \<le> MAXASIZE" "nhash \<le> 2 ^ MAXBITS" "\<forall>x \<in> set kvs. good_key (fst x)" "length kvs \<le> 2 ^ MAXBITS"
  shows "\<exists>t t1. luaH_new narray nhash = Inr t \<and> assigns lua_rawset kvs t = Inr t1 \<and> wf_table t1 \<and>
    (\<forall>j. good_key j \<longrightarrow> lua_rawget t1 j = Inr (last_value luaO_rawequalObj kvs TNil j))"
proof -
  obtain t where t: "luaH_new narray nhash = Inr t" "wf_table t" "\<And>k. good_key k \<Longrightarrow> tget t k = TNil"
    using luaH_new_ok [OF assms(1,2)] by blast
  from lt.assigns_last [OF t(2,3) assms(3,4)] obtain t1 where "assigns lua_rawset kvs t = Inr t1" "wf_table t1"
    "\<And>j. good_key j \<Longrightarrow> tget t1 j = last_value keq kvs TNil j" by blast
  then show ?thesis using t(1) rawget_tget [of t1] by auto
qed

theorem table_last_value_witness:
  "\<exists>t t1. luaH_new 1 2 = Inr t \<and>
     assigns lua_rawset [(TStr ''a'', TBoolean True), (TStr ''b'', TNil), (TStr ''a'', TStr ''x''), (TBoolean False, TStr ''y'')] t = Inr t1 \<and>
     lua_rawget t1 (TStr ''a'') = Inr (TStr ''x'') \<and> lua_rawget t1 (TStr ''c'') = Inr TNil"
  using table_last_value [of 1 2 "[(TStr ''a'', TBoolean True), (TStr ''b'', TNil), (TStr ''a'', TStr ''x''), (TBoolean False, TStr ''y'')]"]
  by (fastforce simp: MAXASIZE_def MAXBITS_def good_key_def luaO_rawequalObj_def)

text \<open>C32. \<open>luaH_set\<close> on any well-formed table. Nil and not-a-number are refused. Any other key gets a slot in which \<open>luaH_get\<close>
  finds it afterwards, and no other key is affected, whether or not the table was rehashed; a rehash never causes another one, which two units of fuel
  show; only a table with at least \<open>2 ^ 26\<close> entries may overflow.\<close>

theorem luaH_set_slot:
  assumes "wf_table t"
  shows "luaH_set f t TNil = Inl (Runtime ''table index is nil'') \<and>
    (num_nan n \<longrightarrow> luaH_set f t (TNumber n) = Inl (Runtime ''table index is NaN'')) \<and>
    (good_key key \<longrightarrow>
       luaH_set (Suc (Suc f)) t key = Inl (Runtime ''table overflow'') \<and> 2 ^ MAXBITS \<le> entries t \<or>
       (\<exists>s t1. luaH_set (Suc (Suc f)) t key = Inr (s, t1) \<and> wf_table t1 \<and> luaH_get t1 key = Inr (Some s) \<and>
         (\<forall>j. good_key j \<longrightarrow> lua_rawget t1 j = lua_rawget t j)))"
proof (intro conjI impI)
  assume k: "good_key key"
  from set_with_ok [OF assms k, of f] consider
    "luaH_set (Suc (Suc f)) t key = Inl (Runtime ''table overflow'')" "2 ^ MAXBITS \<le> entries t"
    | s t1 where "luaH_set (Suc (Suc f)) t key = Inr (s, t1)" "set_ok t key s t1"
    by (auto simp: sets_def luaH_set_def)
  then show "luaH_set (Suc (Suc f)) t key = Inl (Runtime ''table overflow'') \<and> 2 ^ MAXBITS \<le> entries t \<or>
       (\<exists>s t1. luaH_set (Suc (Suc f)) t key = Inr (s, t1) \<and> wf_table t1 \<and> luaH_get t1 key = Inr (Some s) \<and>
         (\<forall>j. good_key j \<longrightarrow> lua_rawget t1 j = lua_rawget t j))"
  proof cases
    case 2
    then have w1: "wf_table t1" and s: "stored t1 key (Some s)" and g: "\<And>j. good_key j \<Longrightarrow> tget t1 j = tget t j" by (auto simp: set_ok_def)
    show ?thesis using 2(1) w1 tget_stored [OF w1 k s] g rawget_tget [OF w1] rawget_tget [OF assms] by simp
  qed simp
qed (use set_bad assms in auto)

theorem luaH_set_slot_witness:
  "\<exists>s t1. luaH_set 2 sample (TStr ''b'') = Inr (s, t1) \<and> luaH_get t1 (TStr ''b'') = Inr (Some s) \<and>
     lua_rawget t1 (TStr ''a'') = lua_rawget sample (TStr ''a'')"
proof -
  have g: "good_key (TStr r)" for r by (simp add: good_key_def)
  have "entries sample < 2 ^ MAXBITS" by (simp add: entries_def live_values_def sample_def MAXBITS_def)
  then show ?thesis using luaH_set_slot [OF sample_wf, of 0 0 "TStr ''b''"] g unfolding numeral_2_eq_2 by (auto simp: not_le)
qed

end
