(* ===== verification/Lborder.thy ===== *)
theory Lborder
  imports Lmap
begin

text \<open>
  The length of a table, \<open>luaH_getn\<close>: a border, which is an index with a value whose successor has none, is found by binary search in the array
  part, or by doubling and binary search in the hash part.

  The search that doubles the index ends after at most 32 steps, the linear search after as many as there are entries; a model that
  would need more is a failed assertion.
\<close>

section \<open>Searching a border\<close>

definition array_nil :: "Table \<Rightarrow> nat \<Rightarrow> bool lres" where
  "array_nil t m = (if 0 < m \<and> m \<le> sizearray t then Inr (t_array t ! (m - 1) = TNil) else Inl (Fault Out_Of_Bounds))"

definition num_nil :: "Table \<Rightarrow> nat \<Rightarrow> bool lres" where
  "num_nil t m = ebind (luaH_getnum t (int m)) (\<lambda>s. Inr (slot_value t s = TNil))"

function border_search :: "(nat \<Rightarrow> bool lres) \<Rightarrow> nat \<Rightarrow> nat \<Rightarrow> nat lres" where
  "border_search nilp i j =
     (if j - i > 1
      then ebind (nilp ((i + j) div 2)) (\<lambda>b.
        if b then border_search nilp i ((i + j) div 2) else border_search nilp ((i + j) div 2) j)
      else Inr i)"
  by pat_completeness auto
termination
  by (relation "measure (\<lambda>(nilp, i, j). j - i)") auto

declare border_search.simps [simp del]

primrec linear_search :: "nat \<Rightarrow> Table \<Rightarrow> nat \<Rightarrow> nat lres" where
  "linear_search 0 t i = Inl (Fault Assert_Fail)"
| "linear_search (Suc f) t i = ebind (num_nil t i) (\<lambda>b. if b then Inr (i - 1) else linear_search f t (i + 1))"

primrec unbound_loop :: "nat \<Rightarrow> Table \<Rightarrow> nat \<Rightarrow> nat \<Rightarrow> nat lres" where
  "unbound_loop 0 t i j = Inl (Fault Assert_Fail)"
| "unbound_loop (Suc f) t i j =
     ebind (num_nil t j) (\<lambda>b.
       if b then border_search (num_nil t) i j
       else if int ((j * 2) mod 2 ^ 32) > MAX_INT then linear_search (entries t + 1) t 1
       else unbound_loop f t j ((j * 2) mod 2 ^ 32))"

definition unbound_search :: "Table \<Rightarrow> nat \<Rightarrow> nat lres" where
  "unbound_search t j = unbound_loop 32 t j (j + 1)"

definition luaH_getn :: "Table \<Rightarrow> nat lres" where
  "luaH_getn t =
     (let j = sizearray t in
      if j > 0 \<and> t_array t ! (j - 1) = TNil then border_search (array_nil t) 0 j
      else if t_dummy t then Inr j
      else unbound_search t j)"

section \<open>Borders\<close>

abbreviation idx :: "nat \<Rightarrow> tobj" where "idx m \<equiv> TNumber (cast_num (int m))"

definition border :: "Table \<Rightarrow> nat \<Rightarrow> bool" where
  "border t n \<longleftrightarrow> (n = 0 \<or> tget t (idx n) \<noteq> TNil) \<and> tget t (idx (n + 1)) = TNil \<and> int n + 1 < 2 ^ 31"

lemma border_search_ok:
  "i < j \<Longrightarrow> (\<And>m. i < m \<Longrightarrow> m < j \<Longrightarrow> nilp m = Inr (P m)) \<Longrightarrow> i = 0 \<or> \<not> P i \<Longrightarrow> P j \<Longrightarrow>
   \<exists>n. border_search nilp i j = Inr n \<and> (n = 0 \<or> \<not> P n) \<and> P (n + 1) \<and> n < j"
proof (induction nilp i j rule: border_search.induct)
  case (1 nilp i j)
  show ?case
  proof (cases "j - i > 1")
    case False
    then have "j = i + 1" using 1(3) by simp
    then show ?thesis using 1(5,6) by (simp add: border_search.simps)
  next
    case True
    let ?m = "(i + j) div 2"
    have m: "i < ?m" "?m < j" using True by auto
    have step: "border_search nilp i j = (if P ?m then border_search nilp i ?m else border_search nilp ?m j)"
      using True 1(4) [OF m] by (simp add: border_search.simps [of nilp i j])
    show ?thesis
    proof (cases "P ?m")
      case p: True
      have "\<exists>n. border_search nilp i ?m = Inr n \<and> (n = 0 \<or> \<not> P n) \<and> P (n + 1) \<and> n < ?m"
        using 1(1) [OF True, of True] p m 1(4,5) by auto
      then show ?thesis using step p m(2) by (auto intro: less_trans)
    next
      case False
      have "\<exists>n. border_search nilp ?m j = Inr n \<and> (n = 0 \<or> \<not> P n) \<and> P (n + 1) \<and> n < j"
        using 1(2) [OF True, of False] False m 1(4,6) by auto
      then show ?thesis using step False by simp
    qed
  qed
qed

lemma idx_good: "int m < 2 ^ 31 \<Longrightarrow> good_key (idx m) \<and> arrayindex (idx m) = int m"
  using good_cast [of "int m"] arrayindex_cast [of "int m"] by simp

lemma idx_array: "wf_table t \<Longrightarrow> 0 < m \<Longrightarrow> m \<le> sizearray t \<Longrightarrow> tget t (idx m) = t_array t ! (m - 1)"
proof -
  assume w: "wf_table t" and m: "0 < m" "m \<le> sizearray t"
  have "sizearray t \<le> 2 ^ MAXBITS" using wf_sizearray [OF w] by simp
  then have g: "good_key (idx m)" "arrayindex (idx m) = int m" using idx_good [of m] m by (auto simp: MAXBITS_def)
  then have "in_array t (idx m)" using m by (simp add: in_array_def)
  moreover have "nat (int m - 1) = m - 1" using m(1) by linarith
  ultimately show ?thesis using tget_array [OF w g(1)] g(2) by simp
qed

lemma num_nil_ok: "wf_table t \<Longrightarrow> int m < 2 ^ 31 \<Longrightarrow> num_nil t m = Inr (tget t (idx m) = TNil)"
proof -
  assume w: "wf_table t" and m: "int m < 2 ^ 31"
  obtain s where s: "luaH_getnum t (int m) = Inr s" "stored t (idx m) s" using getnum_stored [OF w, of "int m"] m by auto
  then show ?thesis using tget_stored [OF w _ s(2)] idx_good [OF m] by (simp add: num_nil_def)
qed

text \<open>If all of the first \<open>m\<close> indices have a value, then there are at least \<open>m\<close> entries.\<close>

lemma present_count:
  assumes w: "wf_table t" and m: "int m < 2 ^ 31" and p: "\<And>i. 0 < i \<Longrightarrow> i \<le> m \<Longrightarrow> tget t (idx i) \<noteq> TNil"
  shows "m \<le> entries t"
proof -
  define g where "g i = (SOME s. stored t (idx i) (Some s))" for i
  have good: "good_key (idx i) \<and> arrayindex (idx i) = int i" if "i \<in> {1..m}" for i using idx_good [of i] m that by auto
  have g: "stored t (idx i) (Some (g i)) \<and> g i \<in> set (live_slots t)" if i: "i \<in> {1..m}" for i
  proof -
    obtain r where r: "stored t (idx i) r" using stored_exists [OF w] good [OF i] by blast
    have v: "slot_value t r \<noteq> TNil" using tget_stored [OF w _ r] good [OF i] p [of i] i by auto
    then obtain s where "r = Some s" by (cases r) (auto simp: slot_value_def)
    then have "stored t (idx i) (Some (g i))" unfolding g_def using r by (intro someI [of "\<lambda>s. stored t (idx i) (Some s)"]) simp
    moreover from this have "value_at t (g i) \<noteq> TNil" using v stored_unique [OF w _ r] good [OF i] by (auto simp: slot_value_def)
    ultimately show ?thesis using stored_live by blast
  qed
  have "inj_on g {1..m}"
  proof (rule inj_onI)
    fix a b assume a: "a \<in> {1..m}" and b: "b \<in> {1..m}" and e: "g a = g b"
    have "slot_key t (g a) = slot_key t (g b)" using e by simp
    moreover have "keq (slot_key t (g c)) (idx c)" if c: "c \<in> {1..m}" for c
    proof (cases "g c")
      case (S_node n)
      then show ?thesis using g [OF c] by (auto simp: slot_key_def stored_def split: if_splits)
    next
      case (S_array n)
      then have "n = nat (int c - 1)" using g [OF c] good [OF c] by (auto simp: stored_def split: if_splits)
      then have "int n + 1 = int c" using c by auto
      then show ?thesis using S_array good [OF c] keq_refl [of "idx c"] by (simp add: slot_key_def)
    qed
    ultimately have "keq (slot_key t (g a)) (idx a)" "keq (slot_key t (g a)) (idx b)" using a b by metis+
    then have "keq (idx a) (idx b)" using keq_sym keq_trans by blast
    then have "arrayindex (idx a) = arrayindex (idx b)" by (rule arrayindex_keq)
    then show "a = b" using good [OF a] good [OF b] by simp
  qed
  then have "card {1..m} \<le> card (set (live_slots t))" using g by (intro card_inj_on_le) auto
  then show ?thesis using live_slots_distinct [of t] live_slots_length [of t] by (simp add: distinct_card)
qed

lemma entries_small: "wf_table t \<Longrightarrow> int (entries t) \<le> 2 ^ 27"
  using entries_bound [of t] by (simp add: MAXBITS_def)

lemma linear_search_ok:
  assumes w: "wf_table t"
  shows "0 < i \<Longrightarrow> i + f = entries t + 2 \<Longrightarrow> (\<And>m. 0 < m \<Longrightarrow> m < i \<Longrightarrow> tget t (idx m) \<noteq> TNil) \<Longrightarrow>
    \<exists>n. linear_search f t i = Inr n \<and> border t n"
proof (induction f arbitrary: i)
  case 0
  have "entries t + 1 \<le> entries t"
    using present_count [OF w, of "entries t + 1"] entries_small [OF w] 0 by auto
  then show ?case by simp
next
  case (Suc f)
  have n: "num_nil t i = Inr (tget t (idx i) = TNil)" using Suc.prems(2) entries_small [OF w] by (intro num_nil_ok [OF w]) simp
  show ?case
  proof (cases "tget t (idx i) = TNil")
    case True
    have "i - 1 + 1 = i" "int (i - 1) + 1 < 2 ^ 31" using Suc.prems(1,2) entries_small [OF w] by simp_all
    then have "border t (i - 1)" unfolding border_def using True Suc.prems(3) [of "i - 1"] by (cases "i = 1") (simp_all only:, simp_all)
    then show ?thesis using n True by simp
  next
    case False
    have "\<And>m. 0 < m \<Longrightarrow> m < i + 1 \<Longrightarrow> tget t (idx m) \<noteq> TNil" using Suc.prems(3) False by (metis Suc_eq_plus1 less_SucE)
    then show ?thesis using Suc.IH [of "i + 1"] Suc.prems(2) n False by simp
  qed
qed

lemma unbound_loop_ok:
  assumes w: "wf_table t"
  shows "i < j \<Longrightarrow> int j \<le> MAX_INT \<Longrightarrow> f \<le> 32 \<Longrightarrow> 2 ^ (32 - f) \<le> j \<Longrightarrow> i = 0 \<or> tget t (idx i) \<noteq> TNil \<Longrightarrow>
    \<exists>n. unbound_loop f t i j = Inr n \<and> border t n"
proof (induction f arbitrary: i j)
  case 0
  then show ?case by (simp add: MAX_INT_def)
next
  case (Suc f)
  have n: "num_nil t m = Inr (tget t (idx m) = TNil)" if "m \<le> j" for m
    using that Suc.prems(2) by (intro num_nil_ok [OF w]) (simp add: MAX_INT_def)
  show ?case
  proof (cases "tget t (idx j) = TNil")
    case True
    have "\<exists>n. border_search (num_nil t) i j = Inr n \<and> (n = 0 \<or> \<not> tget t (idx n) = TNil) \<and> tget t (idx (n + 1)) = TNil \<and> n < j"
      using Suc.prems(1,5) True n by (intro border_search_ok) auto
    then show ?thesis using n [of j] True Suc.prems(2) by (auto simp: border_def MAX_INT_def)
  next
    case False
    have d: "(j * 2) mod 2 ^ 32 = j * 2" using Suc.prems(2) by (simp add: MAX_INT_def)
    show ?thesis
    proof (cases "int (j * 2) > MAX_INT")
      case True
      have "\<exists>n. linear_search (entries t + 1) t 1 = Inr n \<and> border t n" by (rule linear_search_ok [OF w]) auto
      then show ?thesis using n [of j] False True by (simp only: unbound_loop.simps ebind_simps d if_True if_False refl simp_thms order_refl)
    next
      case le: False
      have "32 - f = Suc (32 - Suc f)" using Suc.prems(3) by simp
      then have "2 ^ (32 - f) \<le> j * 2" using Suc.prems(4) by simp
      then have "\<exists>n. unbound_loop f t j (j * 2) = Inr n \<and> border t n"
        using Suc.IH [of j "j * 2"] Suc.prems(1,3) le False by simp
      then show ?thesis using n [of j] False le by (simp only: unbound_loop.simps ebind_simps d if_True if_False refl simp_thms order_refl)
    qed
  qed
qed

lemma getn_border:
  assumes w: "wf_table t"
  shows "\<exists>n. luaH_getn t = Inr n \<and> border t n"
proof -
  let ?j = "sizearray t"
  have s: "int ?j \<le> 2 ^ 26" using w by (simp add: wf_table_def MAXASIZE_def MAXBITS_def)
  show ?thesis
  proof (cases "?j > 0 \<and> t_array t ! (?j - 1) = TNil")
    case True
    have "\<exists>n. border_search (array_nil t) 0 ?j = Inr n \<and> (n = 0 \<or> \<not> tget t (idx n) = TNil) \<and> tget t (idx (n + 1)) = TNil \<and> n < ?j"
      by (rule border_search_ok) (use True idx_array [OF w] in \<open>auto simp: array_nil_def\<close>)
    then show ?thesis using True s by (auto simp: luaH_getn_def border_def)
  next
    case False
    then have p: "?j = 0 \<or> tget t (idx ?j) \<noteq> TNil" using idx_array [OF w, of ?j] by auto
    show ?thesis
    proof (cases "t_dummy t")
      case d: True
      have g: "good_key (idx (?j + 1))" "arrayindex (idx (?j + 1)) = int (?j + 1)" using idx_good [of "?j + 1"] s by simp_all
      then have na: "\<not> in_array t (idx (?j + 1))" by (simp add: in_array_def)
      have "tget t (idx (?j + 1)) = TNil"
      proof (rule ccontr)
        assume v: "tget t (idx (?j + 1)) \<noteq> TNil"
        moreover have "t_node t = [dummynode]" using w d by (simp add: wf_table_def)
        ultimately show False using tget_holds [OF w g(1) na v] by (simp add: holds_def dummynode_def)
      qed
      then have "luaH_getn t = Inr ?j \<and> border t ?j" unfolding luaH_getn_def Let_def border_def if_not_P [OF False] using d p s by simp
      then show ?thesis by blast
    next
      case nd: False
      have "\<exists>n. unbound_loop 32 t ?j (?j + 1) = Inr n \<and> border t n"
        by (rule unbound_loop_ok [OF w]) (use s p in \<open>auto simp: MAX_INT_def\<close>)
      then show ?thesis using False nd by (auto simp: luaH_getn_def unbound_search_def Let_def)
    qed
  qed
qed

text \<open>C34. \<open>luaH_getn\<close> returns from every well-formed table, with a border: the index is zero or has a value, and the next index has none.\<close>

theorem getn_is_border:
  assumes "wf_table t"
  shows "\<exists>n. luaH_getn t = Inr n \<and> (n = 0 \<or> (\<exists>v. v \<noteq> TNil \<and> lua_rawget t (TNumber (cast_num (int n))) = Inr v)) \<and>
    lua_rawget t (TNumber (cast_num (int n + 1))) = Inr TNil"
proof -
  obtain n where n: "luaH_getn t = Inr n" "border t n" using getn_border [OF assms] by blast
  then have "good_key (idx n)" "good_key (idx (n + 1))" using idx_good [of n] idx_good [of "n + 1"] by (simp_all add: border_def)
  then show ?thesis using n rawget_tget [OF assms] by (auto simp: border_def add.commute)
qed

theorem getn_is_border_witness:
  "\<exists>n. luaH_getn sample = Inr n \<and> n = 1 \<and> lua_rawget sample (TNumber (cast_num (int n + 1))) = Inr TNil"
proof -
  have "luaH_getn sample = Inr 1" by (simp add: luaH_getn_def sample_def border_search.simps array_nil_def)
  then show ?thesis using getn_is_border [OF sample_wf] by auto
qed

end
