(* ===== verification/Lnext.thy ===== *)
theory Lnext
  imports Lmap
begin

text \<open>
  Traversal of a table, \<open>luaH_next\<close>: from one key to the next, through the array part and then through the hash part.

  The address of a string, which the code compares with that of a dead key, is a parameter.
\<close>

section \<open>Stepping through a table\<close>

definition gcvalue :: "(string \<Rightarrow> nat) \<Rightarrow> tobj \<Rightarrow> nat option" where
  "gcvalue addr k = (case k of TStr s \<Rightarrow> Some (addr s) | TObject tt p \<Rightarrow> Some p | TDeadkey p \<Rightarrow> Some p | _ \<Rightarrow> None)"

definition iscollectable :: "tobj \<Rightarrow> bool" where
  "iscollectable k = (case k of TStr s \<Rightarrow> True | TObject tt p \<Rightarrow> True | TDeadkey p \<Rightarrow> True | _ \<Rightarrow> False)"

definition next_match :: "(string \<Rightarrow> nat) \<Rightarrow> tobj \<Rightarrow> tobj \<Rightarrow> bool" where
  "next_match addr key k \<longleftrightarrow>
     luaO_rawequalObj k key \<or> (case k of TDeadkey p \<Rightarrow> iscollectable key \<and> Some p = gcvalue addr key | _ \<Rightarrow> False)"

definition findindex :: "(string \<Rightarrow> nat) \<Rightarrow> Table \<Rightarrow> tobj \<Rightarrow> int lres" where
  "findindex addr t key =
     (if key = TNil then Inr (- 1)
      else let i = arrayindex key in
        if 0 < i \<and> i \<le> int (sizearray t) then Inr (i - 1)
        else ebind (mainposition t key) (\<lambda>n.
          ebind (search_chain (length (t_node t)) t (next_match addr key) n) (\<lambda>r.
            case r of
              Some m \<Rightarrow> Inr (int m + int (sizearray t))
            | None \<Rightarrow> Inl (Runtime (''invalid key to '' @ [CHR 0x27] @ ''next'' @ [CHR 0x27])))))"

text \<open>The first element that is not nil from index \<open>i\<close> on, in the array part and in the hash part.\<close>

function next_array :: "Table \<Rightarrow> nat \<Rightarrow> (nat \<times> tobj) option" where
  "next_array t i =
     (if i < sizearray t then if t_array t ! i \<noteq> TNil then Some (i, t_array t ! i) else next_array t (i + 1) else None)"
  by pat_completeness auto
termination
  by (relation "measure (\<lambda>(t, i). sizearray t - i)") auto

function next_hash :: "Table \<Rightarrow> nat \<Rightarrow> (tobj \<times> tobj) option lres" where
  "next_hash t i =
     (if i < sizenode t then ebind (gnode t i) (\<lambda>n. if i_val n \<noteq> TNil then Inr (Some (i_key n, i_val n)) else next_hash t (i + 1))
      else Inr None)"
  by pat_completeness auto
termination
  by (relation "measure (\<lambda>(t, i). sizenode t - i)") auto

declare next_array.simps [simp del] next_hash.simps [simp del]

definition luaH_next :: "(string \<Rightarrow> nat) \<Rightarrow> Table \<Rightarrow> tobj \<Rightarrow> (tobj \<times> tobj) option lres" where
  "luaH_next addr t key =
     ebind (findindex addr t key) (\<lambda>i0.
       let i = nat (i0 + 1) in
       case next_array t i of
         Some (j, v) \<Rightarrow> Inr (Some (TNumber (cast_num (int j + 1)), v))
       | None \<Rightarrow> next_hash t (max i (sizearray t) - sizearray t))"

text \<open>A whole traversal: \<open>luaH_next\<close> on nil, then on the key it gave, until there is none.\<close>

primrec traverse :: "nat \<Rightarrow> (string \<Rightarrow> nat) \<Rightarrow> Table \<Rightarrow> tobj \<Rightarrow> (tobj \<times> tobj) list lres" where
  "traverse 0 addr t key = Inl (Fault Assert_Fail)"
| "traverse (Suc f) addr t key =
     ebind (luaH_next addr t key) (\<lambda>r.
       case r of None \<Rightarrow> Inr [] | Some kv \<Rightarrow> ebind (traverse f addr t (fst kv)) (\<lambda>kvs. Inr (kv # kvs)))"

section \<open>Positions\<close>

text \<open>The places of a table are numbered, those of the array part first.\<close>

definition slot_of :: "Table \<Rightarrow> nat \<Rightarrow> slot" where
  "slot_of t p = (if p < sizearray t then S_array p else S_node (p - sizearray t))"

definition pos_of :: "Table \<Rightarrow> slot \<Rightarrow> nat" where
  "pos_of t s = (case s of S_array i \<Rightarrow> i | S_node i \<Rightarrow> i + sizearray t)"

definition live_from :: "Table \<Rightarrow> nat \<Rightarrow> nat list" where
  "live_from t p = filter (\<lambda>q. value_at t (slot_of t q) \<noteq> TNil) [p..<sizearray t + nnodes t]"

definition entry_at :: "Table \<Rightarrow> nat \<Rightarrow> tobj \<times> tobj" where
  "entry_at t p = (slot_key t (slot_of t p), value_at t (slot_of t p))"

lemma live_from_step: "p < sizearray t + nnodes t \<Longrightarrow>
  live_from t p = (if value_at t (slot_of t p) \<noteq> TNil then p # live_from t (Suc p) else live_from t (Suc p))"
  by (simp add: live_from_def upt_conv_Cons)

lemma live_from_end: "sizearray t + nnodes t \<le> p \<Longrightarrow> live_from t p = []"
  by (simp add: live_from_def)

lemma live_from_tail: "live_from t p = q # qs \<Longrightarrow> q < sizearray t + nnodes t \<and> value_at t (slot_of t q) \<noteq> TNil \<and> qs = live_from t (Suc q)"
proof (induction "sizearray t + nnodes t - p" arbitrary: p)
  case 0
  then show ?case by (simp add: live_from_end)
next
  case (Suc n)
  then have p: "p < sizearray t + nnodes t" by simp
  show ?case
  proof (cases "value_at t (slot_of t p) \<noteq> TNil")
    case True
    then show ?thesis using Suc.prems p by (auto simp: live_from_step)
  next
    case False
    then show ?thesis using Suc.hyps(1) [of "Suc p"] Suc.hyps(2) Suc.prems p by (simp add: live_from_step)
  qed
qed

lemma live_slots_from: "live_slots t = map (slot_of t) (live_from t 0)"
proof -
  have "[0..<sizearray t + nnodes t] = [0..<sizearray t] @ map (\<lambda>i. i + sizearray t) [0..<nnodes t]"
    by (simp only: map_add_upt upt_add_eq_append [OF zero_le] add_0 add.commute)
  moreover have "filter (\<lambda>q. value_at t (slot_of t q) \<noteq> TNil) [0..<sizearray t] = filter (\<lambda>i. t_array t ! i \<noteq> TNil) [0..<sizearray t]"
    by (rule filter_cong) (auto simp: slot_of_def value_at_def)
  moreover have "map (slot_of t) (filter (\<lambda>i. t_array t ! i \<noteq> TNil) [0..<sizearray t]) = map S_array (filter (\<lambda>i. t_array t ! i \<noteq> TNil) [0..<sizearray t])"
    by (rule map_cong) (auto simp: slot_of_def)
  ultimately show ?thesis
    by (simp add: live_slots_def live_from_def filter_map comp_def slot_of_def value_at_def)
qed

section \<open>What the next key is\<close>

lemma next_hash_from:
  assumes w: "wf_table t"
  shows "next_hash t i = Inr (case live_from t (i + sizearray t) of [] \<Rightarrow> None | q # qs \<Rightarrow> Some (entry_at t q))"
proof (induction "nnodes t - i" arbitrary: i)
  case 0
  then show ?case using w by (simp add: next_hash.simps wf_table_def live_from_end)
next
  case (Suc n)
  have i: "i < nnodes t" "i < sizenode t" using Suc.hyps(2) w by (simp_all add: wf_table_def)
  have v: "value_at t (slot_of t (i + sizearray t)) = val_at t i" "entry_at t (i + sizearray t) = (key_at t i, val_at t i)"
    by (simp_all add: slot_of_def value_at_def entry_at_def slot_key_def)
  show ?case using i v Suc.hyps(1) [of "Suc i"] Suc.hyps(2)
    by (simp add: next_hash.simps [of t i] live_from_step gnode_def)
qed

lemma next_from:
  assumes w: "wf_table t"
  shows "(case next_array t i of Some (j, v) \<Rightarrow> Inr (Some (TNumber (cast_num (int j + 1)), v))
      | None \<Rightarrow> next_hash t (max i (sizearray t) - sizearray t)) =
    Inr (case live_from t i of [] \<Rightarrow> None | q # qs \<Rightarrow> Some (entry_at t q))"
proof (induction "sizearray t - i" arbitrary: i)
  case 0
  then have "max i (sizearray t) - sizearray t + sizearray t = i" by simp
  then show ?case using 0 next_hash_from [OF w, of "max i (sizearray t) - sizearray t"] by (simp add: next_array.simps)
next
  case (Suc n)
  have i: "i < sizearray t" using Suc.hyps(2) by simp
  have v: "value_at t (slot_of t i) = t_array t ! i" "entry_at t i = (TNumber (cast_num (int i + 1)), t_array t ! i)"
    using i by (simp_all add: slot_of_def value_at_def entry_at_def slot_key_def)
  have m: "max i (sizearray t) - sizearray t = max (Suc i) (sizearray t) - sizearray t" using i by simp
  have n: "n = sizearray t - Suc i" using Suc.hyps(2) by simp
  show ?case
  proof (cases "t_array t ! i \<noteq> TNil")
    case True
    then show ?thesis using i v by (simp add: next_array.simps [of t i] live_from_step)
  next
    case False
    then have "next_array t i = next_array t (Suc i)" "live_from t i = live_from t (Suc i)"
      using i v by (simp_all add: next_array.simps [of t i] live_from_step)
    then show ?thesis using Suc.hyps(1) [OF n] by (simp only: m)
  qed
qed

lemma search_chain_cong: "(\<And>i. i < nnodes t \<Longrightarrow> P (key_at t i) = Q (key_at t i)) \<Longrightarrow> search_chain f t P n = search_chain f t Q n"
proof (induction f arbitrary: n)
  case (Suc f)
  show ?case
  proof (cases "n < nnodes t")
    case True
    then show ?thesis using Suc.IH Suc.prems by (simp add: gnode_def split: option.split)
  qed (simp add: gnode_def)
qed simp

lemma next_match_keq: "wf_table t \<Longrightarrow> i < nnodes t \<Longrightarrow> next_match addr key (key_at t i) = keq (key_at t i) key"
  using wf_good [of t i] by (auto simp: next_match_def good_key_def split: tobj.splits)

lemma findindex_stored:
  assumes w: "wf_table t" and k: "good_key key" and s: "stored t key r"
  shows "findindex addr t key = (case r of Some x \<Rightarrow> Inr (int (pos_of t x))
    | None \<Rightarrow> Inl (Runtime (''invalid key to '' @ [CHR 0x27] @ ''next'' @ [CHR 0x27])))"
proof (cases "in_array t key")
  case True
  then show ?thesis using s good_not_nil [OF k] by (simp add: findindex_def stored_def in_array_def pos_of_def)
next
  case False
  obtain q where q: "find_node t (\<lambda>j. keq j key) (mpos t key) = Inr q" "stored t key q"
    using find_key [OF w k False, of "\<lambda>j. keq j key"] by blast
  have "q = r" using stored_unique [OF w k q(2) s] .
  then obtain m where m: "search_chain (nnodes t) t (\<lambda>j. keq j key) (mpos t key) = Inr m" "map_option S_node m = r"
    using q(1) by (auto simp: find_node_def ebind_Inr_iff)
  have "search_chain (nnodes t) t (next_match addr key) (mpos t key) = Inr m"
    using m(1) search_chain_cong [of t "next_match addr key" "\<lambda>j. keq j key"] next_match_keq [OF w] by simp
  then show ?thesis using False m(2) good_not_nil [OF k] mainposition_mpos [of key t]
    by (auto simp: findindex_def in_array_def Let_def pos_of_def split: option.split)
qed

lemma next_stored:
  assumes w: "wf_table t" and k: "good_key key" and s: "stored t key (Some x)"
  shows "luaH_next addr t key = Inr (case live_from t (Suc (pos_of t x)) of [] \<Rightarrow> None | q # qs \<Rightarrow> Some (entry_at t q))"
proof -
  have "nat (int (pos_of t x) + 1) = Suc (pos_of t x)" by simp
  moreover have "findindex addr t key = Inr (int (pos_of t x))" using findindex_stored [OF w k s] by simp
  ultimately show ?thesis by (simp only: luaH_next_def ebind_simps Let_def next_from [OF w])
qed

lemma next_start: "wf_table t \<Longrightarrow> luaH_next addr t TNil = Inr (case live_from t 0 of [] \<Rightarrow> None | q # qs \<Rightarrow> Some (entry_at t q))"
proof -
  assume w: "wf_table t"
  have "findindex addr t TNil = Inr (- 1)" "nat (- 1 + 1) = 0" by (simp_all add: findindex_def)
  then show ?thesis by (simp only: luaH_next_def ebind_simps Let_def next_from [OF w])
qed

section \<open>Traversals\<close>

lemma live_pos_stored:
  assumes w: "wf_table t" and q: "q < sizearray t + nnodes t" "value_at t (slot_of t q) \<noteq> TNil"
  shows "good_key (slot_key t (slot_of t q)) \<and> stored t (slot_key t (slot_of t q)) (Some (slot_of t q)) \<and> pos_of t (slot_of t q) = q"
proof -
  have "slot_of t q \<in> set (live_slots t)" using q by (auto simp: live_slots_from live_from_def)
  then show ?thesis using live_slot_stored [OF w] by (auto simp: pos_of_def slot_of_def)
qed

lemma traverse_from:
  assumes w: "wf_table t"
  shows "luaH_next addr t key = Inr (case live_from t p of [] \<Rightarrow> None | q # qs \<Rightarrow> Some (entry_at t q)) \<Longrightarrow> length (live_from t p) < f \<Longrightarrow>
    traverse f addr t key = Inr (map (entry_at t) (live_from t p))"
proof (induction f arbitrary: key p)
  case (Suc f)
  show ?case
  proof (cases "live_from t p")
    case (Cons q qs)
    have q: "q < sizearray t + nnodes t" "value_at t (slot_of t q) \<noteq> TNil" "qs = live_from t (Suc q)" using live_from_tail [OF Cons] by auto
    note s = live_pos_stored [OF w q(1,2)]
    have "luaH_next addr t (slot_key t (slot_of t q)) = Inr (case live_from t (Suc q) of [] \<Rightarrow> None | q # qs \<Rightarrow> Some (entry_at t q))"
      using next_stored [OF w] s by metis
    then have "traverse f addr t (fst (entry_at t q)) = Inr (map (entry_at t) qs)"
      using Suc.IH [of "slot_key t (slot_of t q)" "Suc q"] Suc.prems(2) Cons q(3) by (simp add: entry_at_def)
    then show ?thesis using Suc.prems(1) Cons by simp
  qed (use Suc.prems in simp)
qed simp

lemma traverse_all:
  assumes w: "wf_table t"
  shows "traverse (entries t + 1) addr t TNil = Inr (map (\<lambda>s. (slot_key t s, value_at t s)) (live_slots t))"
proof -
  have "length (live_from t 0) = entries t" using live_slots_length [of t] by (simp add: live_slots_from)
  moreover have "map (entry_at t) ps = map (\<lambda>s. (slot_key t s, value_at t s)) (map (slot_of t) ps)" for ps
    by (simp add: entry_at_def)
  ultimately show ?thesis using traverse_from [OF w next_start [OF w, of addr], of "entries t + 1"] by (simp add: live_slots_from)
qed

text \<open>C33. A traversal with \<open>luaH_next\<close>, from nil until there is no next key, returns every entry of the table, and none twice.\<close>

theorem table_traversal:
  assumes w: "wf_table t"
  shows "\<exists>kvs. traverse (entries t + 1) addr t TNil = Inr kvs \<and> sorted_wrt (\<lambda>a b. \<not> luaO_rawequalObj (fst a) (fst b)) kvs \<and>
    (\<forall>j v. good_key j \<longrightarrow> v \<noteq> TNil \<longrightarrow> (lua_rawget t j = Inr v \<longleftrightarrow> (\<exists>k. (k, v) \<in> set kvs \<and> luaO_rawequalObj k j)))"
proof -
  let ?e = "\<lambda>s. (slot_key t s, value_at t s)"
  have "\<not> keq (slot_key t a) (slot_key t b)" if "a \<in> set (live_slots t)" "b \<in> set (live_slots t)" "a \<noteq> b" for a b
    using that live_slot_stored [OF w] stored_keq stored_unique [OF w] by (metis option.inject)
  then have "sorted_wrt (\<lambda>a b. \<not> keq (fst a) (fst b)) (map ?e (live_slots t))"
    using live_slots_distinct [of t] by (auto simp: sorted_wrt_map sorted_wrt_iff_nth_less nth_eq_iff_index_eq)
  moreover have "lua_rawget t j = Inr v \<longleftrightarrow> (\<exists>k. (k, v) \<in> set (map ?e (live_slots t)) \<and> keq k j)" if j: "good_key j" and v: "v \<noteq> TNil" for j v
  proof
    assume "lua_rawget t j = Inr v"
    then have g: "tget t j = v" using rawget_tget [OF w j] by simp
    obtain r where r: "stored t j r" using stored_exists [OF w j] by blast
    then have "slot_value t r = v" using tget_stored [OF w j r] g by simp
    then obtain s where s: "r = Some s" "value_at t s = v" using v by (cases r) (auto simp: slot_value_def)
    then have l: "s \<in> set (live_slots t)" using stored_live r v by blast
    have "keq (slot_key t s) j"
    proof (cases s)
      case (S_node i)
      then show ?thesis using r s(1) by (auto simp: stored_def slot_key_def split: if_splits)
    next
      case (S_array i)
      then have i: "i < sizearray t" "arrayindex j = int i + 1" using r s(1) by (auto simp: stored_def in_array_def split: if_splits)
      have "int i + 1 < 2 ^ 31" using i(1) wf_sizearray [OF w] by (simp add: MAXBITS_def)
      then have "keq j (TNumber (cast_num (int i + 1)))" using keq_index [of "int i + 1" j] j i(2) by simp
      then show ?thesis using S_array keq_sym by (simp add: slot_key_def)
    qed
    then show "\<exists>k. (k, v) \<in> set (map ?e (live_slots t)) \<and> keq k j" using l s(2) by auto
  next
    assume "\<exists>k. (k, v) \<in> set (map ?e (live_slots t)) \<and> keq k j"
    then obtain s where s: "s \<in> set (live_slots t)" "value_at t s = v" "keq (slot_key t s) j" by auto
    then have "tget t j = v" using live_slot_get [OF w s(1)] tget_keq [OF w _ s(3)] live_slot_stored [OF w s(1)] by simp
    then show "lua_rawget t j = Inr v" using rawget_tget [OF w j] by simp
  qed
  ultimately show ?thesis using traverse_all [OF w] by blast
qed

theorem table_traversal_witness:
  "\<exists>kvs. traverse 3 (\<lambda>_. 0) sample TNil = Inr kvs \<and> (\<exists>k. (k, TBoolean False) \<in> set kvs \<and> luaO_rawequalObj k (TStr ''a''))"
proof -
  have "entries sample + 1 = 3" by (simp add: entries_def live_values_def sample_def)
  moreover have "lua_rawget sample (TStr ''a'') = Inr (TBoolean False)"
    by (simp add: lua_rawget_def luaH_get_def luaH_getstr_def find_node_def sample_def hashpow2_def sizenode_def gnode_def slot_value_def value_at_def)
  moreover have "good_key (TStr ''a'')" by (simp add: good_key_def)
  ultimately show ?thesis using table_traversal [OF sample_wf, of "\<lambda>_. 0"] by force
qed

text \<open>Fields may be cleared during a traversal: after the value of the current key was set to nil, \<open>luaH_next\<close> gives the same next entry
  as it would have given before.\<close>

theorem next_clear:
  assumes w: "wf_table t" and k: "good_key k" and s: "luaH_get t k = Inr (Some s)"
  shows "\<exists>r. luaH_next addr t k = Inr r \<and> luaH_next addr (setobj t s TNil) k = Inr r"
proof -
  let ?t = "setobj t s TNil"
  have st: "stored t k (Some s)" using get_stored [OF w k] s by auto
  have ok: "slot_ok t s" using stored_slot_ok [OF k st] .
  have w1: "wf_table ?t" using setobj_wf [OF w ok] .
  have st1: "stored ?t k (Some s)" using setobj_stored [OF w] st by simp
  have sl: "slot_of ?t q = slot_of t q" "pos_of ?t x = pos_of t x" for q x by (simp_all add: slot_of_def pos_of_def setobj_shape split: slot.split)
  have e: "value_at ?t (slot_of t q) = value_at t (slot_of t q) \<and> slot_key ?t (slot_of t q) = slot_key t (slot_of t q)"
    if q: "Suc (pos_of t s) \<le> q" "q < sizearray t + nnodes t" for q
  proof -
    have "slot_of t q \<noteq> s" using q(1) ok by (auto simp: slot_of_def pos_of_def slot_ok_def split: if_splits slot.splits)
    then show ?thesis using q(2) by (auto simp: setobj_def value_at_def slot_of_def slot_key_def nth_list_update split: slot.splits)
  qed
  have "live_from ?t (Suc (pos_of t s)) = live_from t (Suc (pos_of t s))"
    unfolding live_from_def setobj_shape sl using e by (intro filter_cong) auto
  moreover have "entry_at ?t q = entry_at t q" if "live_from t (Suc (pos_of t s)) = q # qs" for q qs
  proof -
    have "q \<in> set (live_from t (Suc (pos_of t s)))" using that by simp
    then have "Suc (pos_of t s) \<le> q" "q < sizearray t + nnodes t" by (auto simp: live_from_def)
    then show ?thesis using e sl by (simp add: entry_at_def)
  qed
  ultimately have "luaH_next addr ?t k = luaH_next addr t k"
    using next_stored [OF w k st, of addr] next_stored [OF w1 k st1, of addr] sl by (auto split: list.split)
  then show ?thesis using next_stored [OF w k st, of addr] by simp
qed

theorem next_clear_witness:
  "\<exists>r. luaH_next (\<lambda>_. 0) sample (TStr ''a'') = Inr r \<and> luaH_next (\<lambda>_. 0) (setobj sample (S_node 0) TNil) (TStr ''a'') = Inr r"
proof -
  have "luaH_get sample (TStr ''a'') = Inr (Some (S_node 0))"
    by (simp add: luaH_get_def luaH_getstr_def find_node_def sample_def hashpow2_def sizenode_def gnode_def)
  moreover have "good_key (TStr ''a'')" by (simp add: good_key_def)
  ultimately show ?thesis using next_clear [OF sample_wf] by blast
qed

end
