(* ===== verification/Lcompare.thy ===== *)
theory Lcompare
  imports Ltable
begin

text \<open>
  Comparison of values in the virtual machine, \<open>luaV_lessthan\<close> and \<open>lessequal\<close> of \<open>liblua/src/lvm.c\<close>, for numbers and strings.

  \<open>strcoll\<close> of the C library is a parameter, as is the call of a metamethod, which gives a truth value, or nothing if there is no
  common metamethod. A string as C sees it ends at its first null byte; reading behind the terminator of a string is a fault.
\<close>

section \<open>Definitions\<close>

text \<open>The value of a number as its place in the order of all numbers.\<close>

definition num_rank :: "lua_Number \<Rightarrow> int" where
  "num_rank n = (if num_neg n then - int (unat n mod 2 ^ 63) else int (unat n mod 2 ^ 63))"

definition luai_numlt :: "lua_Number \<Rightarrow> lua_Number \<Rightarrow> bool" where
  "luai_numlt a b \<longleftrightarrow> \<not> num_nan a \<and> \<not> num_nan b \<and> num_rank a < num_rank b"

definition luai_numle :: "lua_Number \<Rightarrow> lua_Number \<Rightarrow> bool" where
  "luai_numle a b \<longleftrightarrow> \<not> num_nan a \<and> \<not> num_nan b \<and> num_rank a \<le> num_rank b"

definition luaT_typenames :: "string list" where
  "luaT_typenames = [''nil'', ''boolean'', ''userdata'', ''number'', ''string'', ''table'', ''function'', ''userdata'', ''thread'', ''proto'', ''upval'']"

text \<open>The tags of types; an object other than a string carries its own.\<close>

definition tobj_type :: "tobj \<Rightarrow> nat" where
  "tobj_type k = (case k of TNil \<Rightarrow> 0 | TBoolean b \<Rightarrow> 1 | TLightuserdata p \<Rightarrow> 2 | TNumber n \<Rightarrow> 3 | TStr s \<Rightarrow> 4 | TObject tt p \<Rightarrow> tt | TDeadkey p \<Rightarrow> 11)"

definition luaG_ordererror :: "tobj \<Rightarrow> tobj \<Rightarrow> 'a lres" where
  "luaG_ordererror p1 p2 =
     (if tobj_type p1 \<ge> length luaT_typenames \<or> tobj_type p2 \<ge> length luaT_typenames then Inl (Fault Out_Of_Bounds)
      else let t1 = luaT_typenames ! tobj_type p1; t2 = luaT_typenames ! tobj_type p2 in
        if t1 ! 2 = t2 ! 2 then Inl (Runtime (''attempt to compare two '' @ t1 @ '' values''))
        else Inl (Runtime (''attempt to compare '' @ t1 @ '' with '' @ t2)))"

abbreviation c_part :: "string \<Rightarrow> string" where "c_part s \<equiv> takeWhile (\<lambda>c. c \<noteq> NUL) s"

function l_strcmp :: "(string \<Rightarrow> string \<Rightarrow> int) \<Rightarrow> string \<Rightarrow> string \<Rightarrow> int lres" where
  "l_strcmp strcoll l r =
     (let temp = strcoll (c_part l) (c_part r) in
      if temp \<noteq> 0 then Inr temp
      else
        let len = length (c_part l) in
        if len = length r then Inr (if len = length l then 0 else 1)
        else if len = length l then Inr (- 1)
        else if len + 1 > length r then Inl (Fault Out_Of_Bounds)
        else l_strcmp strcoll (drop (len + 1) l) (drop (len + 1) r))"
  by pat_completeness auto
termination
  by (relation "measure (\<lambda>(strcoll, l, r). length r)") auto

declare l_strcmp.simps [simp del]

datatype TMS = TM_LT | TM_LE

type_synonym orderTM = "tobj \<Rightarrow> tobj \<Rightarrow> TMS \<Rightarrow> bool option lres"

definition luaV_lessthan :: "(string \<Rightarrow> string \<Rightarrow> int) \<Rightarrow> orderTM \<Rightarrow> tobj \<Rightarrow> tobj \<Rightarrow> bool lres" where
  "luaV_lessthan strcoll call_orderTM l r =
     (if tobj_type l \<noteq> tobj_type r then luaG_ordererror l r
      else case (l, r) of
        (TNumber m, TNumber n) \<Rightarrow> Inr (luai_numlt m n)
      | (TStr a, TStr b) \<Rightarrow> ebind (l_strcmp strcoll a b) (\<lambda>c. Inr (c < 0))
      | _ \<Rightarrow> ebind (call_orderTM l r TM_LT) (\<lambda>res. case res of Some b \<Rightarrow> Inr b | None \<Rightarrow> luaG_ordererror l r))"

definition lessequal :: "(string \<Rightarrow> string \<Rightarrow> int) \<Rightarrow> orderTM \<Rightarrow> tobj \<Rightarrow> tobj \<Rightarrow> bool lres" where
  "lessequal strcoll call_orderTM l r =
     (if tobj_type l \<noteq> tobj_type r then luaG_ordererror l r
      else case (l, r) of
        (TNumber m, TNumber n) \<Rightarrow> Inr (luai_numle m n)
      | (TStr a, TStr b) \<Rightarrow> ebind (l_strcmp strcoll a b) (\<lambda>c. Inr (c \<le> 0))
      | _ \<Rightarrow>
          ebind (call_orderTM l r TM_LE) (\<lambda>res. case res of Some b \<Rightarrow> Inr b
            | None \<Rightarrow> ebind (call_orderTM r l TM_LT) (\<lambda>res1. case res1 of Some b \<Rightarrow> Inr (\<not> b) | None \<Rightarrow> luaG_ordererror l r)))"

section \<open>Strings\<close>

text \<open>The order of strings by their bytes.\<close>

fun bytes_less :: "string \<Rightarrow> string \<Rightarrow> bool" where
  "bytes_less s [] = False"
| "bytes_less [] (d # r) = True"
| "bytes_less (c # s) (d # r) = (if c = d then bytes_less s r else of_char c < (of_char d :: nat))"

text \<open>What \<open>strcoll\<close> does in the C locale, on strings without null bytes.\<close>

definition c_locale :: "(string \<Rightarrow> string \<Rightarrow> int) \<Rightarrow> bool" where
  "c_locale strcoll \<longleftrightarrow> (\<forall>a b. NUL \<notin> set a \<longrightarrow> NUL \<notin> set b \<longrightarrow>
     (strcoll a b = 0 \<longleftrightarrow> a = b) \<and> (strcoll a b < 0 \<longleftrightarrow> bytes_less a b))"

lemma bytes_less_append [simp]: "bytes_less (s @ a) (s @ b) = bytes_less a b"
  by (induction s) simp_all

lemma bytes_less_irrefl [simp]: "\<not> bytes_less s s"
  by (induction s) simp_all

lemma bytes_less_trans: "bytes_less a b \<Longrightarrow> bytes_less b c \<Longrightarrow> bytes_less a c"
proof (induction a c arbitrary: b rule: bytes_less.induct)
  case (3 x s y r)
  then obtain z b1 where b: "b = z # b1" by (cases b) auto
  have "of_char u = (of_char v :: nat) \<Longrightarrow> u = v" for u v :: char by simp
  then show ?case using 3 b by (auto split: if_splits)
qed (auto elim: bytes_less.elims)

lemma bytes_less_total: "a \<noteq> b \<Longrightarrow> bytes_less a b \<or> bytes_less b a"
proof (induction a b rule: bytes_less.induct)
  case (3 x s y r)
  have "x = y \<or> of_char x < (of_char y :: nat) \<or> of_char y < (of_char x :: nat)" using linorder_less_linear [of "of_char x :: nat" "of_char y"] by auto
  then show ?case using 3 by auto
qed (auto intro: bytes_less.elims(3))

lemma bytes_less_parts:
  "NUL \<notin> set a \<Longrightarrow> NUL \<notin> set b \<Longrightarrow> a \<noteq> b \<Longrightarrow> x = [] \<or> hd x = NUL \<Longrightarrow> y = [] \<or> hd y = NUL \<Longrightarrow>
   bytes_less (a @ x) (b @ y) = bytes_less a b"
proof (induction a b rule: bytes_less.induct)
  case (1 s)
  then obtain c s1 where s: "s = c # s1" by (cases s) auto
  have "\<not> of_char c < (of_char NUL :: nat)" by simp
  then show ?case using 1 s by (cases y) auto
next
  case (2 d r)
  have "of_char NUL < (of_char d :: nat)"
  proof (rule ccontr)
    assume "\<not> of_char NUL < (of_char d :: nat)"
    then have "of_char d = (of_char NUL :: nat)" by simp
    then have "d = NUL" by (simp only: of_char_eq_iff)
    then show False using 2 by simp
  qed
  then show ?case using 2 by (cases x) auto
qed auto

lemma c_part_split: "\<exists>x. s = c_part s @ x \<and> (x = [] \<or> hd x = NUL) \<and> (length (c_part s) = length s \<longleftrightarrow> x = [])"
proof (intro exI conjI)
  show "s = c_part s @ dropWhile (\<lambda>c. c \<noteq> NUL) s" by (simp only: takeWhile_dropWhile_id)
  show "dropWhile (\<lambda>c. c \<noteq> NUL) s = [] \<or> hd (dropWhile (\<lambda>c. c \<noteq> NUL) s) = NUL" using hd_dropWhile [of "\<lambda>c. c \<noteq> NUL" s] by blast
  have "length (c_part s) + length (dropWhile (\<lambda>c. c \<noteq> NUL) s) = length s" by (metis length_append takeWhile_dropWhile_id)
  then show "length (c_part s) = length s \<longleftrightarrow> dropWhile (\<lambda>c. c \<noteq> NUL) s = []" by (metis add_cancel_right_right length_0_conv)
qed

lemma c_part_free: "NUL \<notin> set (c_part s)"
  by (auto dest: set_takeWhileD)

lemma l_strcmp_ok:
  assumes c: "c_locale strcoll"
  shows "\<exists>k. l_strcmp strcoll l r = Inr k \<and> (k < 0 \<longleftrightarrow> bytes_less l r) \<and> (k = 0 \<longleftrightarrow> l = r)"
proof (induction "length r" arbitrary: l r rule: less_induct)
  case less
  define a where "a = c_part l"
  define b where "b = c_part r"
  obtain x where x: "l = a @ x" "x = [] \<or> hd x = NUL" "length a = length l \<longleftrightarrow> x = []" using c_part_split [of l] by (auto simp: a_def)
  obtain y where y: "r = b @ y" "y = [] \<or> hd y = NUL" "length b = length r \<longleftrightarrow> y = []" using c_part_split [of r] by (auto simp: b_def)
  have free: "NUL \<notin> set a" "NUL \<notin> set b" using c_part_free by (auto simp: a_def b_def)
  have t: "strcoll a b = 0 \<longleftrightarrow> a = b" "strcoll a b < 0 \<longleftrightarrow> bytes_less a b" using c free unfolding c_locale_def by blast+
  note step = l_strcmp.simps [of strcoll l r, folded a_def b_def]
  show ?case
  proof (cases "a = b")
    case False
    have ne: "l \<noteq> r"
    proof
      assume "l = r"
      then show False using False by (simp add: a_def b_def)
    qed
    have "bytes_less l r = bytes_less a b" unfolding x(1) y(1) by (rule bytes_less_parts [OF free False x(2) y(2)])
    then show ?thesis using step t False ne by (simp add: Let_def)
  next
    case ab: True
    consider "y = []" | "y \<noteq> []" "x = []" | "x \<noteq> []" "y \<noteq> []" by blast
    then show ?thesis
    proof cases
      case 1
      then have "r = a" using y(1) ab by simp
      then have "l_strcmp strcoll l r = Inr (if x = [] then 0 else 1)" using step t ab x(3) by (simp add: Let_def)
      then show ?thesis using \<open>r = a\<close> x(1) bytes_less_append [of a x "[]"] by (auto split: if_splits)
    next
      case 2
      then have "l_strcmp strcoll l r = Inr (- 1)" using step t ab x(3) y(3) by (simp add: Let_def)
      moreover have "bytes_less l r" using 2 x(1) y(1) ab bytes_less_append [of a "[]" y] by (cases y) auto
      ultimately show ?thesis using 2 x(1) y(1) ab by auto
    next
      case 3
      obtain x1 y1 where xy: "x = NUL # x1" "y = NUL # y1" using 3 x(2) y(2) by (metis list.collapse)
      have d: "drop (length a + 1) l = x1" "drop (length a + 1) r = y1" "length a + 1 \<le> length r" using x(1) y(1) xy ab by simp_all
      then have e: "l_strcmp strcoll l r = l_strcmp strcoll x1 y1" using step t ab x(3) y(3) 3 by (simp add: Let_def)
      have "length y1 < length r" using y(1) xy by simp
      from less [OF this, of x1] show ?thesis unfolding e unfolding x(1) y(1) xy ab by simp
    qed
  qed
qed

section \<open>Properties\<close>

text \<open>C38. In the C locale strings are compared by their bytes, null bytes included, although the comparison goes from one null
  byte to the next with \<open>strcoll\<close>; it reads nothing behind a string.\<close>

theorem strcmp_by_bytes:
  assumes "c_locale strcoll"
  shows "luaV_lessthan strcoll tm (TStr l) (TStr r) = Inr (bytes_less l r) \<and>
    lessequal strcoll tm (TStr l) (TStr r) = Inr (l = r \<or> bytes_less l r)"
  using l_strcmp_ok [OF assms, of l r] by (auto simp: luaV_lessthan_def lessequal_def tobj_type_def)

text \<open>\<open>strcmp\<close> is an instance of the parameter.\<close>

definition strcmp :: "string \<Rightarrow> string \<Rightarrow> int" where
  "strcmp a b = (if a = b then 0 else if bytes_less a b then - 1 else 1)"

lemma strcmp_c_locale: "c_locale strcmp"
  by (simp add: c_locale_def strcmp_def)

theorem strcmp_by_bytes_witness:
  "luaV_lessthan strcmp (\<lambda>_ _ _. Inr None) (TStr [CHR ''a'', NUL, CHR ''b'']) (TStr [CHR ''a'', NUL, CHR ''c'']) = Inr True"
  using strcmp_by_bytes [OF strcmp_c_locale, of "\<lambda>_ _ _. Inr None" "[CHR ''a'', NUL, CHR ''b'']" "[CHR ''a'', NUL, CHR ''c'']"] by simp

text \<open>A string and a thread that are compared give an error message that speaks of two strings: the message is chosen by the third
  letters of the names of the types, which are the same.\<close>

theorem ordererror_thread:
  "luaV_lessthan strcoll tm (TStr s) (TObject 8 p) = Inl (Runtime ''attempt to compare two string values'')"
  by (simp add: luaV_lessthan_def tobj_type_def luaG_ordererror_def luaT_typenames_def Let_def)

end
