(* ===== verification/Ltablib.thy ===== *)
theory Ltablib
  imports Lborder
begin

text \<open>
  The table library, \<open>liblua/src/ltablib.c\<close>: inserting and removing elements, on tables with the operations of \<open>ltable.c\<close>.
  Arguments are taken from the stack.
\<close>

section \<open>Access by index\<close>

definition lua_rawgeti :: "Table \<Rightarrow> int \<Rightarrow> tobj lres" where
  "lua_rawgeti t n = ebind (luaH_getnum t n) (\<lambda>s. Inr (slot_value t s))"

definition lua_rawseti :: "Table \<Rightarrow> int \<Rightarrow> tobj \<Rightarrow> Table lres" where
  "lua_rawseti t n v = ebind (luaH_setnum 2 t n) (\<lambda>(s, t1). Inr (setobj t1 s v))"

definition aux_getn :: "Table \<Rightarrow> int lres" where
  "aux_getn t = ebind (luaH_getn t) (\<lambda>n. Inr (int n))"

section \<open>Inserting, removing, concatenating\<close>

text \<open>Elements are moved up by one, from the end down to a position.\<close>

function move_up :: "int \<Rightarrow> int \<Rightarrow> Table \<Rightarrow> Table lres" where
  "move_up i pos t =
     (if i > pos then ebind (lua_rawgeti t (i - 1)) (\<lambda>v. ebind (lua_rawseti t i v) (move_up (i - 1) pos)) else Inr t)"
  by pat_completeness auto
termination
  by (relation "measure (\<lambda>(i, pos, t). nat (i - pos))") auto

declare move_up.simps [simp del]

text \<open>The position is absent when the function is called with two arguments.\<close>

definition tinsert :: "Table \<Rightarrow> int option \<Rightarrow> tobj \<Rightarrow> Table lres" where
  "tinsert t pos v =
     ebind (aux_getn t) (\<lambda>n.
       let e = n + 1 in
       case pos of
         None \<Rightarrow> lua_rawseti t e v
       | Some p \<Rightarrow>
           let e1 = (if p > e then p else e) in
           ebind (move_up e1 p t) (\<lambda>t1. lua_rawseti t1 p v))"

function move_down :: "int \<Rightarrow> int \<Rightarrow> Table \<Rightarrow> Table lres" where
  "move_down pos e t =
     (if pos < e then ebind (lua_rawgeti t (pos + 1)) (\<lambda>v. ebind (lua_rawseti t pos v) (move_down (pos + 1) e)) else Inr t)"
  by pat_completeness auto
termination
  by (relation "measure (\<lambda>(pos, e, t). nat (e - pos))") auto

declare move_down.simps [simp del]

text \<open>The value that is returned, if any, and the table.\<close>

definition tremove :: "Table \<Rightarrow> int option \<Rightarrow> (tobj option \<times> Table) lres" where
  "tremove t arg =
     ebind (aux_getn t) (\<lambda>e.
       let pos = (case arg of None \<Rightarrow> e | Some p \<Rightarrow> p) in
       if \<not> (1 \<le> pos \<and> pos \<le> e) then Inr (None, t)
       else
         ebind (lua_rawgeti t pos) (\<lambda>r.
         ebind (move_down pos e t) (\<lambda>t1.
         ebind (lua_rawseti t1 e TNil) (\<lambda>t2. Inr (Some r, t2)))))"

section \<open>Tables as vectors\<close>

abbreviation index_ok :: "int \<Rightarrow> bool" where "index_ok i \<equiv> - (2 ^ 31) \<le> i \<and> i < 2 ^ 31"

definition geti :: "Table \<Rightarrow> int \<Rightarrow> tobj" where
  "geti t i = tget t (TNumber (cast_num i))"

text \<open>One element is replaced, and no other value changes.\<close>

definition stores :: "Table \<Rightarrow> int \<Rightarrow> tobj \<Rightarrow> Table \<Rightarrow> bool" where
  "stores t i v t1 \<longleftrightarrow> wf_table t1 \<and> (\<forall>j. good_key j \<longrightarrow> tget t1 j = (if keq j (TNumber (cast_num i)) then v else tget t j))"

lemma rawgeti_ok: "wf_table t \<Longrightarrow> index_ok i \<Longrightarrow> lua_rawgeti t i = Inr (geti t i)"
proof -
  assume w: "wf_table t" and i: "index_ok i"
  obtain s where s: "luaH_getnum t i = Inr s" "stored t (TNumber (cast_num i)) s" using getnum_stored [OF w] i by blast
  then show ?thesis using tget_stored [OF w _ s(2)] good_cast [of i] i by (simp add: lua_rawgeti_def geti_def)
qed

lemma stores_geti: "stores t i v t1 \<Longrightarrow> index_ok i \<Longrightarrow> index_ok k \<Longrightarrow> geti t1 k = (if k = i then v else geti t k)"
  using good_cast [of k] cast_num_inject [of k i] by (simp add: stores_def geti_def keq_num)

lemma rawseti_ok:
  assumes w: "wf_table t" and i: "index_ok i"
  shows "lua_rawseti t i v = Inl (Runtime ''table overflow'') \<and> 2 ^ MAXBITS \<le> entries t \<and> geti t i = TNil \<or>
    (\<exists>t1. lua_rawseti t i v = Inr t1 \<and> stores t i v t1)"
proof -
  let ?k = "TNumber (cast_num i)"
  have k: "good_key ?k" using good_cast i by blast
  obtain p where p: "luaH_getnum t i = Inr p" "stored t ?k p" using getnum_stored [OF w] i by blast
  have st: "\<exists>t1. lua_rawseti t i v = Inr t1 \<and> stores t i v t1" if r: "luaH_setnum 2 t i = Inr (s, t1)" "set_ok t ?k s t1" for s t1
  proof -
    have w1: "wf_table t1" and s1: "stored t1 ?k (Some s)" and g: "\<And>j. good_key j \<Longrightarrow> tget t1 j = tget t j"
      using r(2) by (auto simp: set_ok_def)
    have "wf_table (setobj t1 s v)" using setobj_wf [OF w1 stored_slot_ok [OF k s1]] .
    then have "stores t i v (setobj t1 s v)" using tget_setobj [OF w1 k s1] g by (simp add: stores_def)
    then show ?thesis using r(1) by (simp add: lua_rawseti_def)
  qed
  show ?thesis
  proof (cases p)
    case (Some s)
    then have "luaH_setnum 2 t i = Inr (s, t)" "set_ok t ?k s t" using p w by (simp_all add: luaH_setnum_def setnum_with_def set_ok_def)
    then show ?thesis using st by blast
  next
    case None
    have f: "fresh t ?k" using p(2) None k by (auto simp: stored_def fresh_def split: if_splits)
    have e: "luaH_setnum 2 t i = newkey (Suc (Suc 0)) t ?k" using p(1) None by (simp add: luaH_setnum_def setnum_with_def numeral_2_eq_2)
    have "geti t i = TNil" using tget_stored [OF w k p(2)] None by (simp add: geti_def slot_value_def)
    moreover have "lua_rawseti t i v = Inl (Runtime ''table overflow'')" if "newkey (Suc (Suc 0)) t ?k = Inl (Runtime ''table overflow'')"
      using e that by (simp add: lua_rawseti_def)
    ultimately show ?thesis using newkey_ok [OF w f, of 0] e st by (auto simp: sets_def)
  qed
qed

lemma rawseti_present: "wf_table t \<Longrightarrow> index_ok i \<Longrightarrow> geti t i \<noteq> TNil \<Longrightarrow> \<exists>t1. lua_rawseti t i v = Inr t1 \<and> stores t i v t1"
  using rawseti_ok [of t i v] by blast

section \<open>Moving elements\<close>

text \<open>The elements between \<open>a\<close> and \<open>b\<close> get the values of those that lie \<open>d\<close> further, and nothing else changes.\<close>

definition shifted :: "int \<Rightarrow> int \<Rightarrow> int \<Rightarrow> Table \<Rightarrow> Table \<Rightarrow> bool" where
  "shifted a b d t t1 \<longleftrightarrow> wf_table t1 \<and> (\<forall>k. index_ok k \<longrightarrow> geti t1 k = (if k \<in> {a..b} then geti t (k + d) else geti t k)) \<and>
     (\<forall>j. good_key j \<longrightarrow> (\<forall>k \<in> {a..b}. \<not> keq j (TNumber (cast_num k))) \<longrightarrow> tget t1 j = tget t j)"

lemma move_up_ok:
  "wf_table t \<Longrightarrow> 1 \<le> p \<Longrightarrow> p \<le> i \<Longrightarrow> i < 2 ^ 31 \<Longrightarrow> \<forall>k \<in> {p + 1..i}. geti t k \<noteq> TNil \<or> k = i \<and> entries t < 2 ^ MAXBITS \<Longrightarrow>
   \<exists>t1. move_up i p t = Inr t1 \<and> shifted (p + 1) i (- 1) t t1"
proof (induction "nat (i - p)" arbitrary: t i)
  case 0
  then show ?case by (simp add: move_up.simps shifted_def)
next
  case (Suc n)
  note w = Suc.prems(1)
  have ip: "p < i" "index_ok i" "index_ok (i - 1)" using Suc.hyps(2) Suc.prems(2,4) by auto
  have "geti t i \<noteq> TNil \<or> entries t < 2 ^ MAXBITS" using Suc.prems(5) ip(1) by auto
  then obtain ta where ta: "lua_rawseti t i (geti t (i - 1)) = Inr ta" "stores t i (geti t (i - 1)) ta"
    using rawseti_ok [OF w ip(2), of "geti t (i - 1)"] by auto
  have wa: "wf_table ta" using ta(2) by (simp add: stores_def)
  have ga: "geti ta k = (if k = i then geti t (i - 1) else geti t k)" if "index_ok k" for k using stores_geti [OF ta(2) ip(2) that] .
  have n: "n = nat (i - 1 - p)" "p \<le> i - 1" "i - 1 < 2 ^ 31" using Suc.hyps(2) ip Suc.prems(4) by auto
  have pres: "\<forall>k \<in> {p + 1..i - 1}. geti ta k \<noteq> TNil \<or> k = i - 1 \<and> entries ta < 2 ^ MAXBITS"
    using Suc.prems(2,4,5) ga by auto
  obtain t1 where t1: "move_up (i - 1) p ta = Inr t1" "shifted (p + 1) (i - 1) (- 1) ta t1"
    using Suc.hyps(1) [OF n(1) wa Suc.prems(2) n(2,3) pres] by blast
  have "move_up i p t = Inr t1" using ip(1) rawgeti_ok [OF w ip(3)] ta(1) t1(1) by (simp add: move_up.simps [of i p t])
  moreover have "geti t1 k = (if k \<in> {p + 1..i} then geti t (k + - 1) else geti t k)" if k: "index_ok k" for k
  proof -
    have e: "geti t1 k = (if k \<in> {p + 1..i - 1} then geti ta (k + - 1) else geti ta k)" using t1(2) k by (simp add: shifted_def)
    consider "k = i" | "k \<in> {p + 1..i - 1}" | "k \<noteq> i" "k \<notin> {p + 1..i}" by fastforce
    then show ?thesis
    proof cases
      case 2
      then have "index_ok (k + - 1)" using Suc.prems(2,4) by auto
      then show ?thesis using e ga 2 by auto
    qed (use e ga [OF k] ip in auto)
  qed
  moreover have "tget t1 j = tget t j" if j: "good_key j" "\<forall>k \<in> {p + 1..i}. \<not> keq j (TNumber (cast_num k))" for j
  proof -
    have "tget t1 j = tget ta j" using t1(2) j by (simp add: shifted_def)
    moreover have "\<not> keq j (TNumber (cast_num i))" using j(2) ip(1) by simp
    ultimately show ?thesis using ta(2) j(1) by (simp add: stores_def)
  qed
  ultimately show ?case using t1(2) by (auto simp: shifted_def)
qed

lemma move_down_ok:
  "wf_table t \<Longrightarrow> 1 \<le> p \<Longrightarrow> p \<le> e \<Longrightarrow> e < 2 ^ 31 \<Longrightarrow> \<forall>k \<in> {p..e - 1}. geti t k \<noteq> TNil \<Longrightarrow>
   \<exists>t1. move_down p e t = Inr t1 \<and> shifted p (e - 1) 1 t t1"
proof (induction "nat (e - p)" arbitrary: t p)
  case 0
  then show ?case by (simp add: move_down.simps shifted_def)
next
  case (Suc n)
  note w = Suc.prems(1)
  have ip: "p < e" "index_ok p" "index_ok (p + 1)" using Suc.hyps(2) Suc.prems(2,4) by auto
  obtain ta where ta: "lua_rawseti t p (geti t (p + 1)) = Inr ta" "stores t p (geti t (p + 1)) ta"
    using rawseti_present [OF w ip(2)] Suc.prems(5) ip(1) by fastforce
  have wa: "wf_table ta" using ta(2) by (simp add: stores_def)
  have ga: "geti ta k = (if k = p then geti t (p + 1) else geti t k)" if "index_ok k" for k using stores_geti [OF ta(2) ip(2) that] .
  have n: "n = nat (e - (p + 1))" "1 \<le> p + 1" "p + 1 \<le> e" using Suc.hyps(2) ip Suc.prems(2) by auto
  have pres: "\<forall>k \<in> {p + 1..e - 1}. geti ta k \<noteq> TNil" using Suc.prems(2,4,5) ga by auto
  obtain t1 where t1: "move_down (p + 1) e ta = Inr t1" "shifted (p + 1) (e - 1) 1 ta t1"
    using Suc.hyps(1) [OF n(1) wa n(2,3) Suc.prems(4) pres] by blast
  have "move_down p e t = Inr t1" using ip(1) rawgeti_ok [OF w ip(3)] ta(1) t1(1) by (simp add: move_down.simps [of p e t])
  moreover have "geti t1 k = (if k \<in> {p..e - 1} then geti t (k + 1) else geti t k)" if k: "index_ok k" for k
  proof -
    have g: "geti t1 k = (if k \<in> {p + 1..e - 1} then geti ta (k + 1) else geti ta k)" using t1(2) k by (simp add: shifted_def)
    consider "k = p" | "k \<in> {p + 1..e - 1}" | "k \<noteq> p" "k \<notin> {p..e - 1}" by fastforce
    then show ?thesis
    proof cases
      case 2
      then have "index_ok (k + 1)" using Suc.prems(2,4) by auto
      then show ?thesis using g ga 2 by auto
    qed (use g ga [OF k] ip in auto)
  qed
  moreover have "tget t1 j = tget t j" if j: "good_key j" "\<forall>k \<in> {p..e - 1}. \<not> keq j (TNumber (cast_num k))" for j
  proof -
    have "tget t1 j = tget ta j" using t1(2) j by (simp add: shifted_def)
    moreover have "\<not> keq j (TNumber (cast_num p))" using j(2) ip(1) by simp
    ultimately show ?thesis using ta(2) j(1) by (simp add: stores_def)
  qed
  ultimately show ?case using t1(2) by (auto simp: shifted_def)
qed

section \<open>Properties\<close>

text \<open>The first \<open>n\<close> elements of a table.\<close>

definition elements :: "Table \<Rightarrow> int \<Rightarrow> tobj list" where
  "elements t n = map (geti t) [1..n]"

lemma elements_nth: "k < nat n \<Longrightarrow> elements t n ! k = geti t (int k + 1)"
  by (simp add: elements_def add.commute)

lemma elements_length: "length (elements t n) = nat n"
  by (simp add: elements_def)

lemma elements_insert:
  assumes p: "1 \<le> p" "p \<le> int n + 1"
    and g: "\<And>k. 1 \<le> k \<Longrightarrow> k \<le> int n + 1 \<Longrightarrow> geti t1 k = (if k = p then v else if p < k then geti t (k - 1) else geti t k)"
  shows "elements t1 (int n + 1) = take (nat (p - 1)) (elements t (int n)) @ v # drop (nat (p - 1)) (elements t (int n))"
proof (rule nth_equalityI)
  show "length (elements t1 (int n + 1)) = length (take (nat (p - 1)) (elements t (int n)) @ v # drop (nat (p - 1)) (elements t (int n)))"
    using p by (simp add: elements_length)
  fix k assume "k < length (elements t1 (int n + 1))"
  then have k: "k < nat (int n + 1)" "k \<le> n" by (auto simp: elements_length)
  have e: "elements t1 (int n + 1) ! k = (if int k + 1 = p then v else if p < int k + 1 then geti t (int k) else geti t (int k + 1))"
    using g [of "int k + 1"] k by (simp add: elements_nth)
  consider "int k + 1 < p" | "int k + 1 = p" | "p < int k + 1" by linarith
  then show "elements t1 (int n + 1) ! k = (take (nat (p - 1)) (elements t (int n)) @ v # drop (nat (p - 1)) (elements t (int n))) ! k"
  proof cases
    case 1
    then have "k < nat (p - 1)" "k < nat (int n)" using p by linarith+
    then show ?thesis unfolding e using 1 by (simp add: elements_nth elements_length nth_append)
  next
    case 2
    then have "k = nat (p - 1)" by linarith
    then show ?thesis unfolding e using 2 p by (simp add: elements_length nth_append)
  next
    case 3
    define m where "m = k - 1 - nat (p - 1)"
    have m: "k = nat (p - 1) + Suc m" "nat (p - 1) + m < nat (int n)" "int (nat (p - 1) + m) + 1 = int k" using 3 k p unfolding m_def by linarith+
    have "(take (nat (p - 1)) (elements t (int n)) @ v # drop (nat (p - 1)) (elements t (int n))) ! k = elements t (int n) ! (nat (p - 1) + m)"
      using m(1,2) by (simp add: nth_append elements_length)
    also have "\<dots> = geti t (int k)" using elements_nth [OF m(2)] m(3) by simp
    finally show ?thesis unfolding e using 3 by simp
  qed
qed

lemma elements_remove:
  assumes p: "1 \<le> p" "p \<le> int n"
    and g: "\<And>k. 1 \<le> k \<Longrightarrow> k \<le> int n \<Longrightarrow> geti t1 k = (if k = int n then TNil else if p \<le> k then geti t (k + 1) else geti t k)"
  shows "elements t1 (int n) = take (nat (p - 1)) (elements t (int n)) @ drop (nat p) (elements t (int n)) @ [TNil]"
proof (rule nth_equalityI)
  show "length (elements t1 (int n)) = length (take (nat (p - 1)) (elements t (int n)) @ drop (nat p) (elements t (int n)) @ [TNil])"
    using p by (simp add: elements_length)
  fix k assume "k < length (elements t1 (int n))"
  then have k: "k < n" "k < nat (int n)" by (auto simp: elements_length)
  have e: "elements t1 (int n) ! k = (if int k + 1 = int n then TNil else if p \<le> int k + 1 then geti t (int k + 2) else geti t (int k + 1))"
    using g [of "int k + 1"] k by (simp add: elements_nth add.commute)
  consider "int k + 1 < p" | "p \<le> int k + 1" "int k + 1 < int n" | "int k + 1 = int n" "p \<le> int k + 1" using k(1) p by linarith
  then show "elements t1 (int n) ! k = (take (nat (p - 1)) (elements t (int n)) @ drop (nat p) (elements t (int n)) @ [TNil]) ! k"
  proof cases
    case 1
    then have "k < nat (p - 1)" by linarith
    then show ?thesis unfolding e using 1 k p by (simp add: elements_nth elements_length nth_append)
  next
    case 2
    define m where "m = k - nat (p - 1)"
    have m: "k = nat (p - 1) + m" "nat p + m < n" "int (nat p + m) + 1 = int k + 2" using 2 k p unfolding m_def by linarith+
    have "(take (nat (p - 1)) (elements t (int n)) @ drop (nat p) (elements t (int n)) @ [TNil]) ! k = elements t (int n) ! (nat p + m)"
      using m(1,2) less_diff_conv2 [of "nat p" n m] p by (simp add: nth_append elements_length less_diff_conv add.commute)
    also have "\<dots> = geti t (int k + 2)" using elements_nth [of "nat p + m" "int n" t] m(2,3) by (simp only: nat_int)
    finally show ?thesis unfolding e using 2 by simp
  next
    case 3
    let ?a = "take (nat (p - 1)) (elements t (int n)) @ drop (nat p) (elements t (int n))"
    have "nat (p - 1) + (n - nat p) = k" using 3 p by linarith
    then have "length ?a = k" using p by (simp add: elements_length)
    then have "(?a @ [TNil]) ! k = TNil" by (metis nth_append_length)
    then show ?thesis unfolding e using 3 by simp
  qed
qed

text \<open>All of the first \<open>n\<close> indices have values, and all indices fit into \<open>int\<close>.\<close>

definition filled :: "Table \<Rightarrow> int \<Rightarrow> bool" where
  "filled t n \<longleftrightarrow> (\<forall>k \<in> {1..n}. geti t k \<noteq> TNil)"

lemma getn_range: "wf_table t \<Longrightarrow> luaH_getn t = Inr n \<Longrightarrow> int n + 1 < 2 ^ 31"
  using getn_border [of t] by (auto simp: border_def)

text \<open>C37. \<open>table.insert\<close> at a position of a list without holes: the elements from the position on move up by one, and the new value takes the
  position; keys that are no index up to the new length keep their values.\<close>

theorem tinsert_shifts:
  assumes w: "wf_table t" and n: "luaH_getn t = Inr n" and f: "filled t (int n)" and e: "entries t < 2 ^ MAXBITS" and p: "1 \<le> p" "p \<le> int n + 1"
  shows "\<exists>t1. tinsert t (Some p) v = Inr t1 \<and> wf_table t1 \<and>
    elements t1 (int n + 1) = take (nat (p - 1)) (elements t (int n)) @ v # drop (nat (p - 1)) (elements t (int n)) \<and>
    (\<forall>j. good_key j \<longrightarrow> (\<forall>k \<in> {1..int n + 1}. \<not> luaO_rawequalObj j (TNumber (cast_num k))) \<longrightarrow> lua_rawget t1 j = lua_rawget t j)"
proof -
  let ?e = "int n + 1"
  have r: "?e < 2 ^ 31" using getn_range [OF w n] .
  have pres: "\<forall>k \<in> {p + 1..?e}. geti t k \<noteq> TNil \<or> k = ?e \<and> entries t < 2 ^ MAXBITS" using f e p(1) by (auto simp: filled_def)
  obtain ta where ta: "move_up ?e p t = Inr ta" "shifted (p + 1) ?e (- 1) t ta" using move_up_ok [OF w p r pres] by blast
  have wa: "wf_table ta" and ga: "\<And>k. index_ok k \<Longrightarrow> geti ta k = (if k \<in> {p + 1..?e} then geti t (k - 1) else geti t k)"
    using ta(2) by (simp_all add: shifted_def)
  have ip: "index_ok p" using p r by auto
  obtain t1 where t1: "lua_rawseti ta p v = Inr t1" "stores ta p v t1"
  proof (cases "p = ?e")
    case True
    then have "ta = t" using ta(1) by (simp add: move_up.simps)
    then show ?thesis using rawseti_ok [OF wa ip, of v] e that by auto
  next
    case False
    then have "geti t p \<noteq> TNil" using f p by (auto simp: filled_def)
    then have "geti ta p \<noteq> TNil" using ga [OF ip] by simp
    then show ?thesis using rawseti_present [OF wa ip] that by blast
  qed
  have g: "geti t1 k = (if k = p then v else if k \<in> {p + 1..?e} then geti t (k - 1) else geti t k)" if "index_ok k" for k
    using stores_geti [OF t1(2) ip that] ga [OF that] by simp
  have "elements t1 ?e = take (nat (p - 1)) (elements t (int n)) @ v # drop (nat (p - 1)) (elements t (int n))"
    using p g r by (intro elements_insert) auto
  moreover have "lua_rawget t1 j = lua_rawget t j" if j: "good_key j" "\<forall>k \<in> {1..?e}. \<not> keq j (TNumber (cast_num k))" for j
  proof -
    have "tget t1 j = tget ta j" using t1(2) j p by (simp add: stores_def)
    also have "\<dots> = tget t j" using ta(2) j p(1) by (simp add: shifted_def)
    finally show ?thesis using rawget_tget [OF w j(1)] rawget_tget [OF _ j(1), of t1] t1(2) by (simp add: stores_def)
  qed
  moreover have "tinsert t (Some p) v = Inr t1" using n p ta(1) t1(1) by (simp add: tinsert_def aux_getn_def)
  ultimately show ?thesis using t1(2) by (auto simp: stores_def)
qed

theorem tinsert_shifts_witness:
  "\<exists>t1. tinsert sample (Some 1) (TStr ''x'') = Inr t1 \<and> elements t1 2 = [TStr ''x'', TBoolean True]"
proof -
  have n: "luaH_getn sample = Inr 1" by (simp add: luaH_getn_def sample_def border_search.simps array_nil_def)
  have g: "geti sample 1 = TBoolean True" using idx_array [OF sample_wf, of 1] by (simp add: geti_def sample_def)
  then have f: "filled sample (int 1)" by (simp add: filled_def)
  have e: "entries sample < 2 ^ MAXBITS" by (simp add: entries_def live_values_def sample_def MAXBITS_def)
  have "elements sample (int 1) = [TBoolean True]" using g by (simp add: elements_def)
  then show ?thesis using tinsert_shifts [OF sample_wf n f e, of 1 "TStr ''x''"] by auto
qed

text \<open>\<open>table.remove\<close> from a list without holes returns the element at the position, the last one by default, and moves the following ones down;
  outside the list it returns nothing and changes nothing.\<close>

theorem tremove_shifts:
  assumes w: "wf_table t" and n: "luaH_getn t = Inr n" and f: "filled t (int n)"
  shows "let p = (case arg of None \<Rightarrow> int n | Some q \<Rightarrow> q) in
    if 1 \<le> p \<and> p \<le> int n then
      \<exists>t1. tremove t arg = Inr (Some (elements t (int n) ! nat (p - 1)), t1) \<and> wf_table t1 \<and>
        elements t1 (int n) = take (nat (p - 1)) (elements t (int n)) @ drop (nat p) (elements t (int n)) @ [TNil] \<and>
        (\<forall>j. good_key j \<longrightarrow> (\<forall>k \<in> {1..int n}. \<not> luaO_rawequalObj j (TNumber (cast_num k))) \<longrightarrow> lua_rawget t1 j = lua_rawget t j)
    else tremove t arg = Inr (None, t)"
proof -
  define p where "p = (case arg of None \<Rightarrow> int n | Some q \<Rightarrow> q)"
  have r: "int n < 2 ^ 31" using getn_range [OF w n] by simp
  have gn: "aux_getn t = Inr (int n)" using n by (simp add: aux_getn_def)
  have "\<exists>t1. tremove t arg = Inr (Some (elements t (int n) ! nat (p - 1)), t1) \<and> wf_table t1 \<and>
        elements t1 (int n) = take (nat (p - 1)) (elements t (int n)) @ drop (nat p) (elements t (int n)) @ [TNil] \<and>
        (\<forall>j. good_key j \<longrightarrow> (\<forall>k \<in> {1..int n}. \<not> keq j (TNumber (cast_num k))) \<longrightarrow> lua_rawget t1 j = lua_rawget t j)" if p: "1 \<le> p" "p \<le> int n"
  proof -
    have pres: "\<forall>k \<in> {p..int n - 1}. geti t k \<noteq> TNil" using f p(1) by (auto simp: filled_def)
    obtain ta where ta: "move_down p (int n) t = Inr ta" "shifted p (int n - 1) 1 t ta" using move_down_ok [OF w p r pres] by blast
    have wa: "wf_table ta" and ga: "\<And>k. index_ok k \<Longrightarrow> geti ta k = (if k \<in> {p..int n - 1} then geti t (k + 1) else geti t k)"
      using ta(2) by (simp_all add: shifted_def)
    have ix: "index_ok p" "index_ok (int n)" using p r by auto
    have "geti ta (int n) \<noteq> TNil" using ga [OF ix(2)] f p by (simp add: filled_def)
    then obtain t1 where t1: "lua_rawseti ta (int n) TNil = Inr t1" "stores ta (int n) TNil t1" using rawseti_present [OF wa ix(2)] by blast
    have g: "geti t1 k = (if k = int n then TNil else if k \<in> {p..int n - 1} then geti t (k + 1) else geti t k)" if "index_ok k" for k
      using stores_geti [OF t1(2) ix(2) that] ga [OF that] by simp
    have el: "elements t (int n) ! nat (p - 1) = geti t p" using elements_nth [of "nat (p - 1)" "int n" t] p by simp
    have "tremove t arg = Inr (Some (geti t p), t1)"
      unfolding tremove_def gn ebind_simps Let_def p_def [symmetric] using p rawgeti_ok [OF w ix(1)] ta(1) t1(1) by simp
    moreover have "elements t1 (int n) = take (nat (p - 1)) (elements t (int n)) @ drop (nat p) (elements t (int n)) @ [TNil]"
      using p g r by (intro elements_remove) auto
    moreover have "lua_rawget t1 j = lua_rawget t j" if j: "good_key j" "\<forall>k \<in> {1..int n}. \<not> keq j (TNumber (cast_num k))" for j
    proof -
      have "tget t1 j = tget ta j" using t1(2) j p by (simp add: stores_def)
      also have "\<dots> = tget t j" using ta(2) j p(1) by (simp add: shifted_def)
      finally show ?thesis using rawget_tget [OF w j(1)] rawget_tget [OF _ j(1), of t1] t1(2) by (simp add: stores_def)
    qed
    ultimately show ?thesis using el t1(2) by (auto simp: stores_def)
  qed
  moreover have "tremove t arg = Inr (None, t)" if "\<not> (1 \<le> p \<and> p \<le> int n)"
    unfolding tremove_def gn ebind_simps Let_def p_def [symmetric] using that by simp
  ultimately show ?thesis unfolding Let_def p_def [symmetric] by simp
qed

theorem tremove_shifts_witness:
  "\<exists>t1. tremove sample None = Inr (Some (TBoolean True), t1) \<and> elements t1 1 = [TNil]"
proof -
  have n: "luaH_getn sample = Inr 1" by (simp add: luaH_getn_def sample_def border_search.simps array_nil_def)
  have g: "geti sample 1 = TBoolean True" using idx_array [OF sample_wf, of 1] by (simp add: geti_def sample_def)
  then have f: "filled sample (int 1)" by (simp add: filled_def)
  have "elements sample (int 1) = [TBoolean True]" using g by (simp add: elements_def)
  then show ?thesis using tremove_shifts [OF sample_wf n f, of None] by auto
qed

end
