(* ===== verification/Lsort.thy ===== *)
theory Lsort
  imports Ltablib Lcompare "HOL-Library.Multiset"
begin

text \<open>
  Sorting, \<open>table.sort\<close> of \<open>liblua/src/ltablib.c\<close>: a quicksort that takes the median of three elements as the pivot.

  The order function is a parameter that returns a truth value or raises an error,
  but does not change the table. The recursion of \<open>auxsort\<close>, which need not end if the order function is no order, and the loop that
  exchanges elements have fuel; running out of it is a failed assertion, as is an overflow of the index computation.
\<close>

section \<open>Sorting\<close>

type_synonym order = "tobj \<Rightarrow> tobj \<Rightarrow> bool lres"

text \<open>The two values on top of the stack are stored, the topmost first.\<close>

definition set2 :: "Table \<Rightarrow> int \<Rightarrow> int \<Rightarrow> tobj \<Rightarrow> tobj \<Rightarrow> Table lres" where
  "set2 t i j x y = ebind (lua_rawseti t i x) (\<lambda>t1. lua_rawseti t1 j y)"

definition sort_ends :: "order \<Rightarrow> Table \<Rightarrow> int \<Rightarrow> int \<Rightarrow> Table lres" where
  "sort_ends cmp t l u =
     ebind (lua_rawgeti t l) (\<lambda>al. ebind (lua_rawgeti t u) (\<lambda>au.
     ebind (cmp au al) (\<lambda>b. if b then set2 t l u au al else Inr t)))"

definition sort_middle :: "order \<Rightarrow> Table \<Rightarrow> int \<Rightarrow> int \<Rightarrow> int \<Rightarrow> Table lres" where
  "sort_middle cmp t l i u =
     ebind (lua_rawgeti t i) (\<lambda>ai. ebind (lua_rawgeti t l) (\<lambda>al.
     ebind (cmp ai al) (\<lambda>b.
       if b then set2 t i l al ai
       else ebind (lua_rawgeti t u) (\<lambda>au. ebind (cmp au ai) (\<lambda>c. if c then set2 t i u au ai else Inr t)))))"

definition invalid_order :: "'a lres" where
  "invalid_order = Inl (Runtime ''invalid order function for sorting'')"

text \<open>The next element from the left that is not smaller than the pivot, and from the right that is not greater.\<close>

function scan_up :: "order \<Rightarrow> Table \<Rightarrow> tobj \<Rightarrow> int \<Rightarrow> int \<Rightarrow> (int \<times> tobj) lres" where
  "scan_up cmp t p u i =
     ebind (lua_rawgeti t i) (\<lambda>ai. ebind (cmp ai p) (\<lambda>b.
       if b then if i > u then invalid_order else scan_up cmp t p u (i + 1) else Inr (i, ai)))"
  by pat_completeness auto
termination
  by (relation "measure (\<lambda>(cmp, t, p, u, i). nat (u + 1 - i))") auto

function scan_down :: "order \<Rightarrow> Table \<Rightarrow> tobj \<Rightarrow> int \<Rightarrow> int \<Rightarrow> (int \<times> tobj) lres" where
  "scan_down cmp t p l j =
     ebind (lua_rawgeti t j) (\<lambda>aj. ebind (cmp p aj) (\<lambda>b.
       if b then if j < l then invalid_order else scan_down cmp t p l (j - 1) else Inr (j, aj)))"
  by pat_completeness auto
termination
  by (relation "measure (\<lambda>(cmp, t, p, l, j). nat (j + 1 - l))") auto

declare scan_up.simps [simp del] scan_down.simps [simp del]

primrec exchange :: "nat \<Rightarrow> order \<Rightarrow> tobj \<Rightarrow> int \<Rightarrow> int \<Rightarrow> Table \<Rightarrow> int \<Rightarrow> int \<Rightarrow> (int \<times> Table) lres" where
  "exchange 0 cmp p l u t i j = Inl (Fault Assert_Fail)"
| "exchange (Suc f) cmp p l u t i j =
     ebind (scan_up cmp t p u (i + 1)) (\<lambda>(i1, ai).
     ebind (scan_down cmp t p l (j - 1)) (\<lambda>(j1, aj).
       if j1 < i1 then Inr (i1, t)
       else ebind (set2 t i1 j1 aj ai) (\<lambda>t1. exchange f cmp p l u t1 i1 j1)))"

text \<open>The pivot goes to the place before the last one, the elements are exchanged around it, and it goes to its final place.\<close>

definition pivot_around :: "order \<Rightarrow> Table \<Rightarrow> int \<Rightarrow> int \<Rightarrow> int \<Rightarrow> (int \<times> Table) lres" where
  "pivot_around cmp t l i u =
     ebind (lua_rawgeti t i) (\<lambda>p. ebind (lua_rawgeti t (u - 1)) (\<lambda>q.
     ebind (set2 t i (u - 1) q p) (\<lambda>t1.
     ebind (exchange (nat (u - l)) cmp p l u t1 l (u - 1)) (\<lambda>(i1, t2).
     ebind (lua_rawgeti t2 (u - 1)) (\<lambda>x. ebind (lua_rawgeti t2 i1) (\<lambda>y.
     ebind (set2 t2 (u - 1) i1 y x) (\<lambda>t3. Inr (i1, t3))))))))"

primrec auxsort :: "nat \<Rightarrow> order \<Rightarrow> Table \<Rightarrow> int \<Rightarrow> int \<Rightarrow> Table lres" where
  "auxsort 0 cmp t l u = Inl (Fault Assert_Fail)"
| "auxsort (Suc f) cmp t l u =
     (if l < u then
        ebind (sort_ends cmp t l u) (\<lambda>t1.
        if u - l = 1 then Inr t1
        else
          let m = (l + u) div 2 in
          if l + u > INT_MAX then Inl (Fault Assert_Fail)
          else
            ebind (sort_middle cmp t1 l m u) (\<lambda>t2.
            if u - l = 2 then Inr t2
            else
              ebind (pivot_around cmp t2 l m u) (\<lambda>(i, t3).
              if i - l < u - i
              then ebind (auxsort f cmp t3 l (i - 1)) (\<lambda>t4. auxsort f cmp t4 (i + 1) u)
              else ebind (auxsort f cmp t3 (i + 1) u) (\<lambda>t4. auxsort f cmp t4 l (i - 1)))))
      else Inr t)"

definition sort_table :: "nat \<Rightarrow> order \<Rightarrow> Table \<Rightarrow> Table lres" where
  "sort_table f cmp t = ebind (aux_getn t) (\<lambda>n. auxsort f cmp t 1 n)"

section \<open>Rearranging elements\<close>

text \<open>\<open>t1\<close> has the elements of \<open>t\<close> between \<open>l\<close> and \<open>u\<close> in another order, and everything else is the same.\<close>

definition permutes_range :: "int \<Rightarrow> int \<Rightarrow> (int \<Rightarrow> int) \<Rightarrow> bool" where
  "permutes_range l u p \<longleftrightarrow> bij p \<and> (\<forall>k. k \<notin> {l..u} \<longrightarrow> p k = k)"

definition rearranged :: "int \<Rightarrow> int \<Rightarrow> Table \<Rightarrow> Table \<Rightarrow> bool" where
  "rearranged l u t t1 \<longleftrightarrow> wf_table t1 \<and> (\<exists>p. permutes_range l u p \<and> (\<forall>k. index_ok k \<longrightarrow> geti t1 k = geti t (p k))) \<and>
     (\<forall>j. good_key j \<longrightarrow> (\<forall>k \<in> {l..u}. \<not> keq j (TNumber (cast_num k))) \<longrightarrow> tget t1 j = tget t j)"

lemma permutes_range_in: "permutes_range l u p \<Longrightarrow> k \<in> {l..u} \<Longrightarrow> p k \<in> {l..u}"
proof (rule ccontr)
  assume p: "permutes_range l u p" and k: "k \<in> {l..u}" and n: "p k \<notin> {l..u}"
  then have "p (p k) = p k" by (simp add: permutes_range_def)
  then have "p k = k" using p by (simp add: permutes_range_def bij_def inj_eq)
  then show False using k n by simp
qed

lemma permutes_range_out: "permutes_range l u p \<Longrightarrow> k \<notin> {l..u} \<Longrightarrow> p k = k"
  by (simp add: permutes_range_def)

lemma permutes_range_image: "permutes_range l u p \<Longrightarrow> p ` {l..u} = {l..u}"
proof (rule antisym)
  assume p: "permutes_range l u p"
  show "p ` {l..u} \<subseteq> {l..u}" using permutes_range_in [OF p] by blast
  show "{l..u} \<subseteq> p ` {l..u}"
  proof
    fix k assume k: "k \<in> {l..u}"
    obtain j where j: "k = p j" using p by (auto simp: permutes_range_def bij_def surj_def)
    then show "k \<in> p ` {l..u}" using permutes_range_out [OF p, of j] k by (cases "j \<in> {l..u}") auto
  qed
qed

lemma rearranged_refl: "wf_table t \<Longrightarrow> rearranged l u t t"
  unfolding rearranged_def permutes_range_def by (intro conjI exI [of _ id]) auto

lemma rearranged_wf: "rearranged l u t t1 \<Longrightarrow> wf_table t1"
  by (simp add: rearranged_def)

lemma rearranged_mono: "rearranged l u t t1 \<Longrightarrow> l' \<le> l \<Longrightarrow> u \<le> u' \<Longrightarrow> rearranged l' u' t t1"
proof -
  assume r: "rearranged l u t t1" and le: "l' \<le> l" "u \<le> u'"
  have "permutes_range l u p \<Longrightarrow> permutes_range l' u' p" for p using le by (auto simp: permutes_range_def)
  then show ?thesis using r le unfolding rearranged_def by fastforce
qed

lemma rearranged_trans:
  assumes "rearranged l u t t1" "rearranged l u t1 t2" "\<forall>k \<in> {l..u}. index_ok k"
  shows "rearranged l u t t2"
proof -
  obtain p where p: "permutes_range l u p" "\<And>k. index_ok k \<Longrightarrow> geti t1 k = geti t (p k)" using assms(1) by (auto simp: rearranged_def)
  obtain q where q: "permutes_range l u q" "\<And>k. index_ok k \<Longrightarrow> geti t2 k = geti t1 (q k)" using assms(2) by (auto simp: rearranged_def)
  have "permutes_range l u (p \<circ> q)" using p(1) q(1) by (auto simp: permutes_range_def intro: bij_comp)
  moreover have "geti t2 k = geti t ((p \<circ> q) k)" if k: "index_ok k" for k
  proof -
    have "index_ok (q k)" using k permutes_range_in [OF q(1), of k] permutes_range_out [OF q(1), of k] assms(3) by (cases "k \<in> {l..u}") auto
    then show ?thesis using p(2) q(2) [OF k] by simp
  qed
  ultimately show ?thesis using assms(1,2) unfolding rearranged_def by (metis (no_types, lifting))
qed

lemma rearranged_all:
  assumes "rearranged l u t t1" "\<forall>k \<in> {l..u}. index_ok k" "\<forall>k \<in> {l..u}. Q (geti t k)"
  shows "\<forall>k \<in> {l..u}. Q (geti t1 k)"
proof
  fix k assume k: "k \<in> {l..u}"
  obtain p where p: "permutes_range l u p" "\<And>k. index_ok k \<Longrightarrow> geti t1 k = geti t (p k)" using assms(1) by (auto simp: rearranged_def)
  show "Q (geti t1 k)" using p(2) [of k] permutes_range_in [OF p(1) k] assms(2,3) k by simp
qed

lemma rearranged_out: "rearranged l u t t1 \<Longrightarrow> index_ok k \<Longrightarrow> k \<notin> {l..u} \<Longrightarrow> geti t1 k = geti t k"
  unfolding rearranged_def using permutes_range_out by metis

lemma rearranged_mset:
  assumes "rearranged l u t t1" "\<forall>k \<in> {l..u}. index_ok k"
  shows "image_mset (geti t1) (mset_set {l..u}) = image_mset (geti t) (mset_set {l..u})"
proof -
  obtain p where p: "permutes_range l u p" "\<And>k. index_ok k \<Longrightarrow> geti t1 k = geti t (p k)" using assms(1) by (auto simp: rearranged_def)
  have "image_mset (geti t1) (mset_set {l..u}) = image_mset (geti t \<circ> p) (mset_set {l..u})"
    using p(2) assms(2) by (intro image_mset_cong) auto
  also have "\<dots> = image_mset (geti t) (image_mset p (mset_set {l..u}))" by (simp add: multiset.map_comp)
  also have "inj_on p {l..u}" using p(1) by (auto simp: permutes_range_def bij_def intro: inj_on_subset)
  then have "image_mset p (mset_set {l..u}) = mset_set {l..u}" using permutes_range_image [OF p(1)] by (simp add: image_mset_mset_set)
  finally show ?thesis .
qed

text \<open>Two elements are exchanged.\<close>

lemma set2_swap:
  assumes w: "wf_table t" and ij: "i \<in> {l..u}" "j \<in> {l..u}" and ok: "\<forall>k \<in> {l..u}. index_ok k" and v: "geti t i \<noteq> TNil" "geti t j \<noteq> TNil"
  shows "\<exists>t1. set2 t i j (geti t j) (geti t i) = Inr t1 \<and> rearranged l u t t1 \<and>
    (\<forall>k. index_ok k \<longrightarrow> geti t1 k = (if k = i then geti t j else if k = j then geti t i else geti t k))"
proof -
  have i: "index_ok i" and j: "index_ok j" using ok ij by auto
  obtain ta where ta: "lua_rawseti t i (geti t j) = Inr ta" "stores t i (geti t j) ta" using rawseti_present [OF w i v(1)] by blast
  have wa: "wf_table ta" using ta(2) by (simp add: stores_def)
  have "geti ta j \<noteq> TNil" using stores_geti [OF ta(2) i j] v by simp
  then obtain tb where tb: "lua_rawseti ta j (geti t i) = Inr tb" "stores ta j (geti t i) tb" using rawseti_present [OF wa j] by blast
  have g: "geti tb k = (if k = i then geti t j else if k = j then geti t i else geti t k)" if k: "index_ok k" for k
    using stores_geti [OF tb(2) j k] stores_geti [OF ta(2) i k] by auto
  let ?p = "\<lambda>k. if k = i then j else if k = j then i else k"
  have "?p \<circ> ?p = id" by auto
  then have "bij ?p" by (rule o_bij) auto
  then have "permutes_range l u ?p" using ij by (auto simp: permutes_range_def)
  moreover have "geti tb k = geti t (?p k)" if "index_ok k" for k using g [OF that] by simp
  moreover have "tget tb x = tget t x" if "good_key x" "\<forall>k \<in> {l..u}. \<not> keq x (TNumber (cast_num k))" for x
    using ta(2) tb(2) that ij by (simp add: stores_def)
  ultimately have "rearranged l u t tb" using tb(2) unfolding rearranged_def stores_def by blast
  then show ?thesis using ta(1) tb(1) g by (auto simp: set2_def)
qed

section \<open>Order functions\<close>

text \<open>An order function that decides a strict weak order on a set of values.\<close>

definition orders :: "order \<Rightarrow> (tobj \<Rightarrow> tobj \<Rightarrow> bool) \<Rightarrow> tobj set \<Rightarrow> bool" where
  "orders cmp lt S \<longleftrightarrow> TNil \<notin> S \<and> (\<forall>x \<in> S. \<forall>y \<in> S. cmp x y = Inr (lt x y) \<and> (lt x y \<longrightarrow> \<not> lt y x) \<and>
     (\<forall>z \<in> S. \<not> lt y x \<longrightarrow> \<not> lt z y \<longrightarrow> \<not> lt z x))"

text \<open>A range of elements that can be sorted, and a sorted range.\<close>

definition sortable :: "tobj set \<Rightarrow> Table \<Rightarrow> int \<Rightarrow> int \<Rightarrow> bool" where
  "sortable S t l u \<longleftrightarrow> wf_table t \<and> 1 \<le> l \<and> u < 2 ^ 30 \<and> (\<forall>k \<in> {l..u}. geti t k \<in> S)"

definition sorted_range :: "(tobj \<Rightarrow> tobj \<Rightarrow> bool) \<Rightarrow> Table \<Rightarrow> int \<Rightarrow> int \<Rightarrow> bool" where
  "sorted_range lt t l u \<longleftrightarrow> (\<forall>i j. l \<le> i \<longrightarrow> i \<le> j \<longrightarrow> j \<le> u \<longrightarrow> \<not> lt (geti t j) (geti t i))"

lemma sortable_index: "sortable S t l u \<Longrightarrow> \<forall>k \<in> {l..u}. index_ok k"
  by (auto simp: sortable_def)

lemma sortable_rearranged: "sortable S t l u \<Longrightarrow> rearranged l u t t1 \<Longrightarrow> sortable S t1 l u"
  using rearranged_all [of l u t t1 "\<lambda>x. x \<in> S"] sortable_index [of S t l u] rearranged_wf [of l u t t1] by (auto simp: sortable_def)

lemma sortable_part: "sortable S t l u \<Longrightarrow> l \<le> l' \<Longrightarrow> u' \<le> u \<Longrightarrow> sortable S t l' u'"
  by (auto simp: sortable_def)

lemma sortable_get: "sortable S t l u \<Longrightarrow> k \<in> {l..u} \<Longrightarrow> lua_rawgeti t k = Inr (geti t k) \<and> geti t k \<in> S"
  using rawgeti_ok [of t k] by (auto simp: sortable_def)

locale ordering =
  fixes cmp :: order and lt :: "tobj \<Rightarrow> tobj \<Rightarrow> bool" and S :: "tobj set"
  assumes orders: "orders cmp lt S"
begin

abbreviation le :: "tobj \<Rightarrow> tobj \<Rightarrow> bool" where "le x y \<equiv> \<not> lt y x"

lemma cmp_less: "x \<in> S \<Longrightarrow> y \<in> S \<Longrightarrow> cmp x y = Inr (lt x y)"
  using orders unfolding orders_def by blast

lemma less_le: "x \<in> S \<Longrightarrow> y \<in> S \<Longrightarrow> lt x y \<Longrightarrow> le x y"
  using orders unfolding orders_def by blast

lemma le_refl: "x \<in> S \<Longrightarrow> le x x"
  using less_le by blast

lemma le_trans: "x \<in> S \<Longrightarrow> y \<in> S \<Longrightarrow> z \<in> S \<Longrightarrow> le x y \<Longrightarrow> le y z \<Longrightarrow> le x z"
  using orders unfolding orders_def by blast

lemma swap_ok:
  assumes s: "sortable S t l u" and ij: "i \<in> {l..u}" "j \<in> {l..u}"
  shows "\<exists>t1. set2 t i j (geti t j) (geti t i) = Inr t1 \<and> rearranged l u t t1 \<and>
    (\<forall>k. index_ok k \<longrightarrow> geti t1 k = (if k = i then geti t j else if k = j then geti t i else geti t k))"
proof -
  have "geti t i \<noteq> TNil" "geti t j \<noteq> TNil" using sortable_get [OF s ij(1)] sortable_get [OF s ij(2)] orders by (auto simp: orders_def)
  then show ?thesis using set2_swap [OF _ ij sortable_index [OF s]] s by (simp add: sortable_def)
qed

lemma sort_ends_ok:
  assumes s: "sortable S t l u" and lu: "l < u"
  shows "\<exists>t1. sort_ends cmp t l u = Inr t1 \<and> rearranged l u t t1 \<and> le (geti t1 l) (geti t1 u)"
proof -
  have k: "l \<in> {l..u}" "u \<in> {l..u}" using lu by simp_all
  note g = sortable_get [OF s k(1)] sortable_get [OF s k(2)]
  show ?thesis
  proof (cases "lt (geti t u) (geti t l)")
    case False
    then show ?thesis using g cmp_less rearranged_refl s by (simp add: sort_ends_def sortable_def)
  next
    case True
    obtain t1 where t1: "set2 t l u (geti t u) (geti t l) = Inr t1" "rearranged l u t t1"
      "\<And>k. index_ok k \<Longrightarrow> geti t1 k = (if k = l then geti t u else if k = u then geti t l else geti t k)" using swap_ok [OF s k] by blast
    have "geti t1 l = geti t u" "geti t1 u = geti t l" using t1(3) [of l] t1(3) [of u] sortable_index [OF s] k lu by auto
    then show ?thesis using t1(1,2) g cmp_less True less_le by (simp add: sort_ends_def)
  qed
qed

lemma sort_middle_ok:
  assumes s: "sortable S t l u" and m: "l < m" "m < u" and e: "le (geti t l) (geti t u)"
  shows "\<exists>t1. sort_middle cmp t l m u = Inr t1 \<and> rearranged l u t t1 \<and> le (geti t1 l) (geti t1 m) \<and> le (geti t1 m) (geti t1 u)"
proof -
  have k: "l \<in> {l..u}" "m \<in> {l..u}" "u \<in> {l..u}" using m by simp_all
  note g = sortable_get [OF s k(1)] sortable_get [OF s k(2)] sortable_get [OF s k(3)]
  have ix: "index_ok l" "index_ok m" "index_ok u" using sortable_index [OF s] k by blast+
  consider "lt (geti t m) (geti t l)" | "le (geti t l) (geti t m)" "lt (geti t u) (geti t m)"
    | "le (geti t l) (geti t m)" "le (geti t m) (geti t u)" by blast
  then show ?thesis
  proof cases
    case 1
    obtain t1 where t1: "set2 t m l (geti t l) (geti t m) = Inr t1" "rearranged l u t t1"
      "\<And>k. index_ok k \<Longrightarrow> geti t1 k = (if k = m then geti t l else if k = l then geti t m else geti t k)" using swap_ok [OF s k(2,1)] by blast
    have "geti t1 l = geti t m" "geti t1 m = geti t l" "geti t1 u = geti t u" using t1(3) ix m by auto
    then show ?thesis using t1(1,2) g cmp_less 1 e less_le by (simp add: sort_middle_def)
  next
    case 2
    obtain t1 where t1: "set2 t m u (geti t u) (geti t m) = Inr t1" "rearranged l u t t1"
      "\<And>k. index_ok k \<Longrightarrow> geti t1 k = (if k = m then geti t u else if k = u then geti t m else geti t k)" using swap_ok [OF s k(2,3)] by blast
    have "geti t1 l = geti t l" "geti t1 m = geti t u" "geti t1 u = geti t m" using t1(3) ix m by auto
    then show ?thesis using t1(1,2) g cmp_less 2 e less_le by (simp add: sort_middle_def)
  next
    case 3
    then show ?thesis using g cmp_less rearranged_refl s by (simp add: sort_middle_def sortable_def)
  qed
qed

lemma scan_up_ok:
  assumes s: "sortable S t l u" and p: "p \<in> S" and c: "c \<le> u" "le p (geti t c)"
  shows "l \<le> i \<Longrightarrow> i \<le> c \<Longrightarrow> \<exists>r. scan_up cmp t p u i = Inr (r, geti t r) \<and> i \<le> r \<and> r \<le> c \<and> le p (geti t r) \<and>
    (\<forall>x. i \<le> x \<longrightarrow> x < r \<longrightarrow> lt (geti t x) p)"
proof (induction "nat (c - i)" arbitrary: i)
  case 0
  then have "i = c" by simp
  then show ?case using 0 sortable_get [OF s, of c] c cmp_less p by (intro exI [of _ c]) (simp add: scan_up.simps [of cmp t p u c])
next
  case (Suc n)
  have g: "lua_rawgeti t i = Inr (geti t i)" "geti t i \<in> S" using sortable_get [OF s, of i] Suc.prems c(1) by simp_all
  show ?case
  proof (cases "lt (geti t i) p")
    case False
    then show ?thesis using g cmp_less p Suc.prems by (intro exI [of _ i]) (simp add: scan_up.simps [of cmp t p u i])
  next
    case True
    have "n = nat (c - (i + 1))" "l \<le> i + 1" "i + 1 \<le> c" using Suc.hyps(2) Suc.prems by auto
    from Suc.hyps(1) [OF this] obtain r where r: "scan_up cmp t p u (i + 1) = Inr (r, geti t r)" "i + 1 \<le> r" "r \<le> c" "le p (geti t r)"
      "\<forall>x. i + 1 \<le> x \<longrightarrow> x < r \<longrightarrow> lt (geti t x) p" by blast
    have "lt (geti t x) p" if "i \<le> x" "x < r" for x using r(5) True that by (cases "x = i") auto
    then show ?thesis using r g cmp_less p True Suc.prems c(1) by (intro exI [of _ r]) (simp add: scan_up.simps [of cmp t p u i])
  qed
qed

lemma scan_down_ok:
  assumes s: "sortable S t l u" and p: "p \<in> S" and c: "l \<le> c" "le (geti t c) p"
  shows "j \<le> u \<Longrightarrow> c \<le> j \<Longrightarrow> \<exists>r. scan_down cmp t p l j = Inr (r, geti t r) \<and> c \<le> r \<and> r \<le> j \<and> le (geti t r) p \<and>
    (\<forall>x. r < x \<longrightarrow> x \<le> j \<longrightarrow> lt p (geti t x))"
proof (induction "nat (j - c)" arbitrary: j)
  case 0
  then have "j = c" by simp
  then show ?case using 0 sortable_get [OF s, of c] c cmp_less p by (intro exI [of _ c]) (simp add: scan_down.simps [of cmp t p l c])
next
  case (Suc n)
  have g: "lua_rawgeti t j = Inr (geti t j)" "geti t j \<in> S" using sortable_get [OF s, of j] Suc.prems c(1) by simp_all
  show ?case
  proof (cases "lt p (geti t j)")
    case False
    then show ?thesis using g cmp_less p Suc.prems by (intro exI [of _ j]) (simp add: scan_down.simps [of cmp t p l j])
  next
    case True
    have "n = nat (j - 1 - c)" "j - 1 \<le> u" "c \<le> j - 1" using Suc.hyps(2) Suc.prems by auto
    from Suc.hyps(1) [OF this] obtain r where r: "scan_down cmp t p l (j - 1) = Inr (r, geti t r)" "c \<le> r" "r \<le> j - 1" "le (geti t r) p"
      "\<forall>x. r < x \<longrightarrow> x \<le> j - 1 \<longrightarrow> lt p (geti t x)" by blast
    have "lt p (geti t x)" if "r < x" "x \<le> j" for x using r(5) True that by (cases "x = j") auto
    then show ?thesis using r g cmp_less p True Suc.prems c(1) by (intro exI [of _ r]) (simp add: scan_down.simps [of cmp t p l j])
  qed
qed

text \<open>Around the pivot, which is kept before the last place, smaller elements go to the left and greater ones to the right.\<close>

lemma exchange_ok:
  assumes p: "p \<in> S" and b: "u < 2 ^ 30"
  shows "sortable S t l u \<Longrightarrow> l \<le> i \<Longrightarrow> i \<le> j \<Longrightarrow> j \<le> u - 1 \<Longrightarrow> i = j \<longrightarrow> l < i \<and> i < u - 1 \<Longrightarrow> geti t (u - 1) = p \<Longrightarrow>
    \<forall>k. l \<le> k \<longrightarrow> k \<le> i \<longrightarrow> le (geti t k) p \<Longrightarrow> \<forall>k. j \<le> k \<longrightarrow> k \<le> u \<longrightarrow> le p (geti t k) \<Longrightarrow> nat (j - i) < f \<Longrightarrow>
    \<exists>r t1. exchange f cmp p l u t i j = Inr (r, t1) \<and> rearranged l u t t1 \<and> l < r \<and> r \<le> u - 1 \<and> geti t1 (u - 1) = p \<and>
      (\<forall>k. l \<le> k \<longrightarrow> k < r \<longrightarrow> le (geti t1 k) p) \<and> (\<forall>k. r \<le> k \<longrightarrow> k \<le> u \<longrightarrow> le p (geti t1 k))"
proof (induction f arbitrary: t i j)
  case (Suc f)
  note s = Suc.prems(1)
  note lo = Suc.prems(7) and hi = Suc.prems(8)
  define c where "c = (if i < j then j else j + 1)"
  have c: "c \<le> u - 1" "i + 1 \<le> c" "le p (geti t c)" using Suc.prems(3,4,5) hi by (auto simp: c_def)
  have cu: "c \<le> u" "l \<le> i + 1" using c(1) Suc.prems(2) by simp_all
  from scan_up_ok [OF s p cu(1) c(3) cu(2) c(2)] obtain i1 where i1: "scan_up cmp t p u (i + 1) = Inr (i1, geti t i1)" "i + 1 \<le> i1" "i1 \<le> c"
    "le p (geti t i1)" and up: "\<And>x. i + 1 \<le> x \<Longrightarrow> x < i1 \<Longrightarrow> lt (geti t x) p" by blast
  define d where "d = (if i < j then i else i - 1)"
  have d: "l \<le> d" "d \<le> j - 1" "le (geti t d) p" using Suc.prems(2,3,5) lo by (auto simp: d_def)
  have ju: "j - 1 \<le> u" using Suc.prems(4) by simp
  from scan_down_ok [OF s p d(1,3) ju d(2)] obtain j1 where j1: "scan_down cmp t p l (j - 1) = Inr (j1, geti t j1)" "d \<le> j1" "j1 \<le> j - 1"
    "le (geti t j1) p" and dn: "\<And>x. j1 < x \<Longrightarrow> x \<le> j - 1 \<Longrightarrow> lt p (geti t x)" by blast
  have inS: "geti t k \<in> S" if "l \<le> k" "k \<le> u" for k using sortable_get [OF s, of k] that by simp
  have left: "le (geti t k) p" if k: "l \<le> k" "k < i1" for k
  proof (cases "k \<le> i")
    case False
    then have "lt (geti t k) p" using up k by simp
    moreover have "geti t k \<in> S" using inS k i1(3) c(1) by simp
    ultimately show ?thesis using less_le p by blast
  qed (use lo k in blast)
  have right: "le p (geti t k)" if k: "j1 < k" "k \<le> u" for k
  proof (cases "j \<le> k")
    case False
    then have "lt p (geti t k)" using dn k by simp
    moreover have "geti t k \<in> S" using inS k j1(2) d(1) by simp
    ultimately show ?thesis using less_le p by blast
  qed (use hi k in blast)
  show ?case
  proof (cases "j1 < i1")
    case True
    have "le p (geti t k)" if "i1 \<le> k" "k \<le> u" for k using right [of k] that True by simp
    then have "rearranged l u t t \<and> l < i1 \<and> i1 \<le> u - 1 \<and> (\<forall>k. l \<le> k \<longrightarrow> k < i1 \<longrightarrow> le (geti t k) p) \<and> (\<forall>k. i1 \<le> k \<longrightarrow> k \<le> u \<longrightarrow> le p (geti t k))"
      using left rearranged_refl s i1(2,3) c(1) Suc.prems(2) by (auto simp: sortable_def)
    then show ?thesis using i1(1) j1(1) True Suc.prems(6) by (intro exI [of _ i1] exI [of _ t]) simp
  next
    case False
    have r: "i1 \<in> {l..u}" "j1 \<in> {l..u}" "i1 \<le> j1" "j1 < j" "i < i1" using False i1(2) j1(3) Suc.prems(2,4) by auto
    have lj: "i < j" using r by simp
    obtain t1 where t1: "set2 t i1 j1 (geti t j1) (geti t i1) = Inr t1" "rearranged l u t t1"
      "\<And>k. index_ok k \<Longrightarrow> geti t1 k = (if k = i1 then geti t j1 else if k = j1 then geti t i1 else geti t k)" using swap_ok [OF s r(1,2)] by blast
    have ix: "index_ok k" if "l \<le> k" "k \<le> u" for k using sortable_index [OF s] that by simp
    have s1: "sortable S t1 l u" using sortable_rearranged [OF s t1(2)] .
    have a: "le (geti t1 k) p" if k: "l \<le> k" "k \<le> i1" for k
    proof -
      have "geti t1 k = (if k = i1 then geti t j1 else geti t k)" using t1(3) [OF ix, of k] k r by (auto split: if_splits)
      then show ?thesis using left k j1(4) by (cases "k = i1") auto
    qed
    have e: "le p (geti t1 k)" if k: "j1 \<le> k" "k \<le> u" for k
    proof -
      have "geti t1 k = (if k = j1 then geti t i1 else geti t k)" using t1(3) [OF ix, of k] k r by (auto split: if_splits)
      then show ?thesis using right k i1(4) by (cases "k = j1") auto
    qed
    have q: "geti t1 (u - 1) = p" using t1(3) [OF ix, of "u - 1"] Suc.prems(2-4,6) r by (auto split: if_splits)
    have n: "j1 \<le> u - 1" "i1 = j1 \<longrightarrow> l < i1 \<and> i1 < u - 1" "l \<le> i1" "nat (j1 - i1) < f" using r Suc.prems(2,4,9) by auto
    obtain r1 t2 where t2: "exchange f cmp p l u t1 i1 j1 = Inr (r1, t2)" "rearranged l u t1 t2" "l < r1 \<and> r1 \<le> u - 1 \<and> geti t2 (u - 1) = p \<and>
      (\<forall>k. l \<le> k \<longrightarrow> k < r1 \<longrightarrow> le (geti t2 k) p) \<and> (\<forall>k. r1 \<le> k \<longrightarrow> k \<le> u \<longrightarrow> le p (geti t2 k))"
      using Suc.IH [OF s1 n(3) r(3) n(1,2) q _ _ n(4)] a e by blast
    have "rearranged l u t t2" using rearranged_trans [OF t1(2) t2(2) sortable_index [OF s]] .
    then show ?thesis using i1(1) j1(1) False t1(1) t2 by (intro exI [of _ r1] exI [of _ t2]) simp
  qed
qed simp

text \<open>The element at \<open>i\<close> separates smaller elements from greater ones.\<close>

definition split_at :: "Table \<Rightarrow> int \<Rightarrow> int \<Rightarrow> int \<Rightarrow> bool" where
  "split_at t l i u \<longleftrightarrow> (\<forall>k. l \<le> k \<longrightarrow> k < i \<longrightarrow> le (geti t k) (geti t i)) \<and> (\<forall>k. i < k \<longrightarrow> k \<le> u \<longrightarrow> le (geti t i) (geti t k))"

lemma pivot_around_ok:
  assumes s: "sortable S t l u" and m: "l < m" "m < u - 1" and e: "le (geti t l) (geti t m)" "le (geti t m) (geti t u)"
  shows "\<exists>i t1. pivot_around cmp t l m u = Inr (i, t1) \<and> rearranged l u t t1 \<and> l < i \<and> i < u \<and> split_at t1 l i u"
proof -
  have ix: "index_ok k" if "l \<le> k" "k \<le> u" for k using sortable_index [OF s] that by simp
  have k: "m \<in> {l..u}" "u - 1 \<in> {l..u}" using m by simp_all
  define p where "p = geti t m"
  have p: "p \<in> S" "lua_rawgeti t m = Inr p" "lua_rawgeti t (u - 1) = Inr (geti t (u - 1))"
    using sortable_get [OF s k(1)] sortable_get [OF s k(2)] by (simp_all add: p_def)
  obtain t1 where t1: "set2 t m (u - 1) (geti t (u - 1)) p = Inr t1" "rearranged l u t t1"
    "\<And>k. index_ok k \<Longrightarrow> geti t1 k = (if k = m then geti t (u - 1) else if k = u - 1 then p else geti t k)"
    using swap_ok [OF s k] unfolding p_def by blast
  have s1: "sortable S t1 l u" using sortable_rearranged [OF s t1(2)] .
  have g1: "geti t1 l = geti t l" "geti t1 (u - 1) = p" "geti t1 u = geti t u"
    using t1(3) [OF ix, of l] t1(3) [OF ix, of "u - 1"] t1(3) [OF ix, of u] m by auto
  have lo: "\<forall>k. l \<le> k \<longrightarrow> k \<le> l \<longrightarrow> le (geti t1 k) p" using g1(1) e(1) by (auto simp: p_def)
  have hi: "le p (geti t1 k)" if k: "u - 1 \<le> k" "k \<le> u" for k
  proof -
    have "k = u - 1 \<or> k = u" using k by linarith
    then show ?thesis using g1 e(2) le_refl [OF p(1)] by (auto simp: p_def)
  qed
  have n: "l \<le> u - 1" "l = u - 1 \<longrightarrow> l < l \<and> l < u - 1" "nat (u - 1 - l) < nat (u - l)" using m by auto
  have ub: "u < 2 ^ 30" using s by (simp add: sortable_def)
  obtain i t2 where t2: "exchange (nat (u - l)) cmp p l u t1 l (u - 1) = Inr (i, t2)" "rearranged l u t1 t2" "l < i" "i \<le> u - 1" "geti t2 (u - 1) = p"
    and a: "\<And>k. l \<le> k \<Longrightarrow> k < i \<Longrightarrow> le (geti t2 k) p" and b: "\<And>k. i \<le> k \<Longrightarrow> k \<le> u \<Longrightarrow> le p (geti t2 k)"
    using exchange_ok [OF p(1) ub s1 order_refl n(1) order_refl n(2) g1(2) lo _ n(3)] hi by blast
  have s2: "sortable S t2 l u" using sortable_rearranged [OF s1 t2(2)] .
  have k2: "i \<in> {l..u}" using t2(3,4) by simp
  obtain t3 where t3: "set2 t2 (u - 1) i (geti t2 i) p = Inr t3" "rearranged l u t2 t3"
    "\<And>k. index_ok k \<Longrightarrow> geti t3 k = (if k = u - 1 then geti t2 i else if k = i then p else geti t2 k)"
    using swap_ok [OF s2 k(2) k2] t2(5) by auto
  have gi: "geti t3 i = p" using t3(3) [OF ix, of i] t2(3,4,5) by (auto split: if_splits)
  have "le (geti t3 k) p" if "l \<le> k" "k < i" for k using t3(3) [OF ix, of k] a [of k] that t2(4) by simp
  moreover have "le p (geti t3 k)" if "i < k" "k \<le> u" for k
    using t3(3) [OF ix, of k] b [of k] b [of i] that t2(3,4) by (simp split: if_splits)
  ultimately have sp: "split_at t3 l i u" by (simp add: split_at_def gi)
  have "pivot_around cmp t l m u = Inr (i, t3)"
    using p(2,3) t1(1) t2(1) t3(1) sortable_get [OF s2 k(2)] sortable_get [OF s2 k2] t2(5) by (simp add: pivot_around_def)
  moreover have "rearranged l u t t3"
    using rearranged_trans [OF rearranged_trans [OF t1(2) t2(2) sortable_index [OF s]] t3(2) sortable_index [OF s]] .
  ultimately show ?thesis using t2(3,4) sp by (intro exI [of _ i] exI [of _ t3]) simp
qed

lemma split_left: "split_at t l i u \<Longrightarrow> rearranged l (i - 1) t t1 \<Longrightarrow> sortable S t l u \<Longrightarrow> l < i \<Longrightarrow> i \<le> u \<Longrightarrow> split_at t1 l i u"
proof -
  assume sp: "split_at t l i u" and r: "rearranged l (i - 1) t t1" and s: "sortable S t l u" and i: "l < i" "i \<le> u"
  have ix: "index_ok k" if "l \<le> k" "k \<le> u" for k using sortable_index [OF s] that by simp
  have o: "geti t1 k = geti t k" if "i \<le> k" "k \<le> u" for k using rearranged_out [OF r ix] i that by simp
  have "\<forall>k \<in> {l..i - 1}. le (geti t1 k) (geti t i)"
    by (rule rearranged_all [OF r]) (use sp ix i in \<open>auto simp: split_at_def\<close>)
  then show ?thesis using sp o i by (simp add: split_at_def)
qed

lemma split_right: "split_at t l i u \<Longrightarrow> rearranged (i + 1) u t t1 \<Longrightarrow> sortable S t l u \<Longrightarrow> l \<le> i \<Longrightarrow> i < u \<Longrightarrow> split_at t1 l i u"
proof -
  assume sp: "split_at t l i u" and r: "rearranged (i + 1) u t t1" and s: "sortable S t l u" and i: "l \<le> i" "i < u"
  have ix: "index_ok k" if "l \<le> k" "k \<le> u" for k using sortable_index [OF s] that by simp
  have o: "geti t1 k = geti t k" if "l \<le> k" "k \<le> i" for k using rearranged_out [OF r ix] i that by simp
  have "\<forall>k \<in> {i + 1..u}. le (geti t i) (geti t1 k)"
    by (rule rearranged_all [OF r]) (use sp ix i in \<open>auto simp: split_at_def\<close>)
  then show ?thesis using sp o i by (simp add: split_at_def)
qed

lemma sorted_join:
  assumes s: "sortable S t l u" and sp: "split_at t l i u" "l < i" "i < u" and a: "sorted_range lt t l (i - 1)" and b: "sorted_range lt t (i + 1) u"
  shows "sorted_range lt t l u"
  unfolding sorted_range_def
proof (intro allI impI)
  fix x y assume xy: "l \<le> x" "x \<le> y" "y \<le> u"
  have S: "geti t x \<in> S" "geti t i \<in> S" "geti t y \<in> S" using sortable_get [OF s] xy sp(2,3) by simp_all
  consider "y < i" | "i < x" | "x \<le> i" "i \<le> y" by linarith
  then show "le (geti t x) (geti t y)"
  proof cases
    case 3
    have "le (geti t x) (geti t i)" using 3 xy sp(1) le_refl [OF S(2)] by (cases "x = i") (auto simp: split_at_def)
    moreover have "le (geti t i) (geti t y)" using 3 xy sp(1) le_refl [OF S(2)] by (cases "y = i") (auto simp: split_at_def)
    ultimately show ?thesis by (rule le_trans [OF S])
  qed (use a b xy in \<open>auto simp: sorted_range_def\<close>)
qed

lemma sorted_range_same: "sorted_range lt t l u \<Longrightarrow> (\<And>k. l \<le> k \<Longrightarrow> k \<le> u \<Longrightarrow> geti t1 k = geti t k) \<Longrightarrow> sorted_range lt t1 l u"
  by (simp add: sorted_range_def)

text \<open>The two halves may be sorted in any order.\<close>

lemma halves_ok:
  assumes s: "sortable S t l u" and sp: "split_at t l i u" "l < i" "i < u"
    and rec: "\<And>t l' u'. sortable S t l' u' \<Longrightarrow> l \<le> l' \<Longrightarrow> u' \<le> u \<Longrightarrow> l < l' \<or> u' < u \<Longrightarrow> l' \<le> u' + 1 \<Longrightarrow>
      \<exists>t1. sorter t l' u' = Inr t1 \<and> rearranged l' u' t t1 \<and> sorted_range lt t1 l' u'"
  shows "\<exists>t1. ebind (sorter t l (i - 1)) (\<lambda>t4. sorter t4 (i + 1) u) = Inr t1 \<and> rearranged l u t t1 \<and> sorted_range lt t1 l u"
    and "\<exists>t1. ebind (sorter t (i + 1) u) (\<lambda>t4. sorter t4 l (i - 1)) = Inr t1 \<and> rearranged l u t t1 \<and> sorted_range lt t1 l u"
proof -
  have ix: "index_ok k" if "l \<le> k" "k \<le> u" for k using sortable_index [OF s] that by simp
  have b: "l \<le> i - 1 + 1" "i - 1 \<le> u" "l \<le> i + 1" "i + 1 \<le> u + 1" "i - 1 < u" "l < i + 1" using sp(2,3) by simp_all
  have L: "\<exists>t1. sorter x l (i - 1) = Inr t1 \<and> rearranged l u x t1 \<and> sortable S t1 l u \<and> split_at t1 l i u \<and> sorted_range lt t1 l (i - 1) \<and>
      (\<forall>k. i \<le> k \<longrightarrow> k \<le> u \<longrightarrow> geti t1 k = geti x k)" if x: "sortable S x l u" "split_at x l i u" for x
  proof -
    obtain t1 where t1: "sorter x l (i - 1) = Inr t1" "rearranged l (i - 1) x t1" "sorted_range lt t1 l (i - 1)"
      using rec [OF sortable_part [OF x(1) order_refl b(2)] order_refl b(2) _ b(1)] b(5) by blast
    have r: "rearranged l u x t1" using rearranged_mono [OF t1(2) order_refl b(2)] .
    have "geti t1 k = geti x k" if "i \<le> k" "k \<le> u" for k using rearranged_out [OF t1(2) ix] that sp(2) by simp
    then show ?thesis using t1 r sortable_rearranged [OF x(1) r] split_left [OF x(2) t1(2) x(1) sp(2)] sp(3) by auto
  qed
  have R: "\<exists>t1. sorter x (i + 1) u = Inr t1 \<and> rearranged l u x t1 \<and> sortable S t1 l u \<and> split_at t1 l i u \<and> sorted_range lt t1 (i + 1) u \<and>
      (\<forall>k. l \<le> k \<longrightarrow> k \<le> i \<longrightarrow> geti t1 k = geti x k)" if x: "sortable S x l u" "split_at x l i u" for x
  proof -
    obtain t1 where t1: "sorter x (i + 1) u = Inr t1" "rearranged (i + 1) u x t1" "sorted_range lt t1 (i + 1) u"
      using rec [OF sortable_part [OF x(1) b(3) order_refl] b(3) order_refl _ b(4)] b(6) by blast
    have r: "rearranged l u x t1" using rearranged_mono [OF t1(2) b(3) order_refl] .
    have "geti t1 k = geti x k" if "l \<le> k" "k \<le> i" for k using rearranged_out [OF t1(2) ix] that sp(3) by simp
    then show ?thesis using t1 r sortable_rearranged [OF x(1) r] split_right [OF x(2) t1(2) x(1) _ sp(3)] sp(2) by auto
  qed
  show "\<exists>t1. ebind (sorter t l (i - 1)) (\<lambda>t4. sorter t4 (i + 1) u) = Inr t1 \<and> rearranged l u t t1 \<and> sorted_range lt t1 l u"
  proof -
    obtain t1 where t1: "sorter t l (i - 1) = Inr t1" "rearranged l u t t1" "sortable S t1 l u" "split_at t1 l i u" "sorted_range lt t1 l (i - 1)"
      using L [OF s sp(1)] by blast
    obtain t2 where t2: "sorter t1 (i + 1) u = Inr t2" "rearranged l u t1 t2" "sortable S t2 l u" "split_at t2 l i u" "sorted_range lt t2 (i + 1) u"
      "\<And>k. l \<le> k \<Longrightarrow> k \<le> i \<Longrightarrow> geti t2 k = geti t1 k" using R [OF t1(3,4)] by blast
    have "sorted_range lt t2 l (i - 1)" using sorted_range_same [OF t1(5)] t2(6) by simp
    then show ?thesis using t1(1) t2 sorted_join [OF t2(3,4) sp(2,3)] rearranged_trans [OF t1(2) t2(2) sortable_index [OF s]] by auto
  qed
  show "\<exists>t1. ebind (sorter t (i + 1) u) (\<lambda>t4. sorter t4 l (i - 1)) = Inr t1 \<and> rearranged l u t t1 \<and> sorted_range lt t1 l u"
  proof -
    obtain t1 where t1: "sorter t (i + 1) u = Inr t1" "rearranged l u t t1" "sortable S t1 l u" "split_at t1 l i u" "sorted_range lt t1 (i + 1) u"
      using R [OF s sp(1)] by blast
    obtain t2 where t2: "sorter t1 l (i - 1) = Inr t2" "rearranged l u t1 t2" "sortable S t2 l u" "split_at t2 l i u" "sorted_range lt t2 l (i - 1)"
      "\<And>k. i \<le> k \<Longrightarrow> k \<le> u \<Longrightarrow> geti t2 k = geti t1 k" using L [OF t1(3,4)] by blast
    have "sorted_range lt t2 (i + 1) u" using sorted_range_same [OF t1(5)] t2(6) by simp
    then show ?thesis using t1(1) t2 sorted_join [OF t2(3,4) sp(2,3)] rearranged_trans [OF t1(2) t2(2) sortable_index [OF s]] by auto
  qed
qed

lemma auxsort_ok:
  "sortable S t l u \<Longrightarrow> l \<le> u + 1 \<Longrightarrow> nat (u - l + 2) \<le> f \<Longrightarrow>
   \<exists>t1. auxsort f cmp t l u = Inr t1 \<and> rearranged l u t t1 \<and> sorted_range lt t1 l u"
proof (induction f arbitrary: t l u)
  case 0
  then show ?case by simp
next
  case (Suc f)
  note s = Suc.prems(1)
  have w: "wf_table t" using s by (simp add: sortable_def)
  show ?case
  proof (cases "l < u")
    case False
    have "sorted_range lt t l u"
      unfolding sorted_range_def using le_refl sortable_get [OF s] False by (auto dest!: order_antisym)
    then show ?thesis using False rearranged_refl [OF w] by simp
  next
    case lu: True
    have ov: "l + u \<le> INT_MAX" using s lu by (simp add: sortable_def)
    obtain t1 where t1: "sort_ends cmp t l u = Inr t1" "rearranged l u t t1" "le (geti t1 l) (geti t1 u)" using sort_ends_ok [OF s lu] by blast
    have s1: "sortable S t1 l u" using sortable_rearranged [OF s t1(2)] .
    have refl1: "le (geti t1 k) (geti t1 k)" if "l \<le> k" "k \<le> u" for k using le_refl sortable_get [OF s1, of k] that by simp
    show ?thesis
    proof (cases "u - l = 1")
      case True
      have "sorted_range lt t1 l u"
        unfolding sorted_range_def
      proof (intro allI impI)
        fix i j assume "l \<le> i" "i \<le> j" "j \<le> u"
        then consider "i = j" | "i = l" "j = u" using True by linarith
        then show "le (geti t1 i) (geti t1 j)" using t1(3) refl1 \<open>l \<le> i\<close> \<open>j \<le> u\<close> by cases auto
      qed
      then show ?thesis using t1 True lu by simp
    next
      case n1: False
      let ?m = "(l + u) div 2"
      have m: "l < ?m" "?m < u" using lu n1 by linarith+
      obtain t2 where t2: "sort_middle cmp t1 l ?m u = Inr t2" "rearranged l u t1 t2" "le (geti t2 l) (geti t2 ?m)" "le (geti t2 ?m) (geti t2 u)"
        using sort_middle_ok [OF s1 m t1(3)] by blast
      have s2: "sortable S t2 l u" using sortable_rearranged [OF s1 t2(2)] .
      have r2: "rearranged l u t t2" using rearranged_trans [OF t1(2) t2(2) sortable_index [OF s]] .
      show ?thesis
      proof (cases "u - l = 2")
        case True
        have S: "geti t2 l \<in> S" "geti t2 ?m \<in> S" "geti t2 u \<in> S" using sortable_get [OF s2] m by simp_all
        have "sorted_range lt t2 l u"
          unfolding sorted_range_def
        proof (intro allI impI)
          fix i j assume ij: "l \<le> i" "i \<le> j" "j \<le> u"
          then consider "i = j" | "i = l" "j = ?m" | "i = ?m" "j = u" | "i = l" "j = u" using True by linarith
          then show "le (geti t2 i) (geti t2 j)"
            using t2(3,4) le_trans [OF S] le_refl sortable_get [OF s2, of i] ij by cases auto
        qed
        then show ?thesis using t1(1) t2(1) r2 True lu n1 ov by (simp add: Let_def)
      next
        case n2: False
        have m2: "?m < u - 1" using lu n1 n2 by linarith
        obtain i t3 where t3: "pivot_around cmp t2 l ?m u = Inr (i, t3)" "rearranged l u t2 t3" "l < i" "i < u" "split_at t3 l i u"
          using pivot_around_ok [OF s2 m(1) m2 t2(3,4)] by blast
        have s3: "sortable S t3 l u" using sortable_rearranged [OF s2 t3(2)] .
        have rec: "\<exists>t1. auxsort f cmp x l' u' = Inr t1 \<and> rearranged l' u' x t1 \<and> sorted_range lt t1 l' u'"
          if "sortable S x l' u'" "l \<le> l'" "u' \<le> u" "l < l' \<or> u' < u" "l' \<le> u' + 1" for x l' u'
          by (rule Suc.IH [OF that(1,5)]) (use that(2-5) Suc.prems(3) in linarith)
        note h = halves_ok [OF s3 t3(5,3,4) rec]
        have e: "auxsort (Suc f) cmp t l u = (if i - l < u - i then ebind (auxsort f cmp t3 l (i - 1)) (\<lambda>t4. auxsort f cmp t4 (i + 1) u)
            else ebind (auxsort f cmp t3 (i + 1) u) (\<lambda>t4. auxsort f cmp t4 l (i - 1)))"
          using t1(1) t2(1) t3(1) lu n1 n2 ov by (simp add: Let_def)
        obtain t4 where t4: "auxsort (Suc f) cmp t l u = Inr t4" "rearranged l u t3 t4" "sorted_range lt t4 l u"
          using h unfolding e by (cases "i - l < u - i") auto
        have "rearranged l u t t4"
          using rearranged_trans [OF rearranged_trans [OF r2 t3(2) sortable_index [OF s]] t4(2) sortable_index [OF s]] .
        then show ?thesis using t4 by blast
      qed
    qed
  qed
qed

lemma sort_ok:
  assumes "sortable S t 1 n" "0 \<le> n" "aux_getn t = Inr n" "nat n + 1 \<le> f"
  shows "\<exists>t1. sort_table f cmp t = Inr t1 \<and> rearranged 1 n t t1 \<and> sorted_range lt t1 1 n"
  using auxsort_ok [OF assms(1), of f] assms(2,3,4) by (simp add: sort_table_def nat_add_distrib)

end

section \<open>The order of the virtual machine\<close>

definition numbers :: "tobj set" where "numbers = {TNumber n |n. \<not> num_nan n}"

definition num_less :: "tobj \<Rightarrow> tobj \<Rightarrow> bool" where
  "num_less x y = (case (x, y) of (TNumber m, TNumber n) \<Rightarrow> luai_numlt m n | _ \<Rightarrow> False)"

definition str_less :: "tobj \<Rightarrow> tobj \<Rightarrow> bool" where
  "str_less x y = (case (x, y) of (TStr a, TStr b) \<Rightarrow> bytes_less a b | _ \<Rightarrow> False)"

lemma orders_numbers: "orders (luaV_lessthan strcoll tm) num_less numbers"
  by (auto simp: orders_def numbers_def num_less_def luaV_lessthan_def luai_numlt_def tobj_type_def)

lemma orders_strings: "c_locale strcoll \<Longrightarrow> orders (luaV_lessthan strcoll tm) str_less (range TStr)"
proof -
  assume c: "c_locale strcoll"
  have l: "luaV_lessthan strcoll tm (TStr a) (TStr b) = Inr (bytes_less a b)" for a b
    using l_strcmp_ok [OF c, of a b] by (auto simp: luaV_lessthan_def tobj_type_def)
  have n: "\<not> bytes_less b a" if "bytes_less a b" for a b using that bytes_less_trans bytes_less_irrefl by blast
  have neg: "\<not> bytes_less d a" if "\<not> bytes_less b a" "\<not> bytes_less d b" for a b d
  proof
    assume da: "bytes_less d a"
    have "a = b \<or> bytes_less a b" using that(1) bytes_less_total by blast
    then have "bytes_less d b" using da bytes_less_trans by blast
    then show False using that(2) by simp
  qed
  have sl: "str_less (TStr a) (TStr b) = bytes_less a b" for a b by (simp add: str_less_def)
  show ?thesis unfolding orders_def
  proof (intro conjI ballI impI)
    show "TNil \<notin> range TStr" by auto
    fix x y assume "x \<in> range TStr" "y \<in> range TStr"
    then obtain a b where xy: "x = TStr a" "y = TStr b" by auto
    show "luaV_lessthan strcoll tm x y = Inr (str_less x y)" unfolding xy l sl ..
    show "\<not> str_less y x" if "str_less x y" using that n unfolding xy sl by blast
    fix z assume z: "z \<in> range TStr" "\<not> str_less y x" "\<not> str_less z y"
    then obtain d where d: "z = TStr d" by auto
    show "\<not> str_less z x" using neg [of b a d] z(2,3) unfolding xy d sl by blast
  qed
qed

interpretation num_sort: ordering "luaV_lessthan strcoll tm" num_less numbers for strcoll tm
  by (rule ordering.intro) (rule orders_numbers)

interpretation str_sort: ordering "luaV_lessthan strcmp tm" str_less "range TStr" for tm
  by (rule ordering.intro) (rule orders_strings [OF strcmp_c_locale])

section \<open>Properties\<close>

lemma elements_mset: "mset (elements t n) = image_mset (geti t) (mset_set {1..n})"
proof -
  have "mset [1..n] = mset_set {1..n}" using mset_set_set [of "[1..n]"] by simp
  then show ?thesis unfolding elements_def mset_map by (rule arg_cong)
qed

lemma elements_sorted: "sorted_range lt t 1 n \<Longrightarrow> sorted_wrt (\<lambda>x y. \<not> lt y x) (elements t n)"
  by (auto simp: sorted_wrt_iff_nth_less elements_nth elements_length sorted_range_def)

text \<open>C36. \<open>table.sort\<close> with an order function that decides a strict weak order on the elements sorts them: it returns, with the same elements in
  order; other keys keep their values. As many units of fuel as there are elements, and one more, are enough.\<close>

theorem sort_sorts:
  assumes o: "orders cmp lt S" and w: "wf_table t" and n: "luaH_getn t = Inr n" "int n < 2 ^ 30" and s: "set (elements t (int n)) \<subseteq> S"
  shows "\<exists>t1. sort_table (n + 1) cmp t = Inr t1 \<and> wf_table t1 \<and> mset (elements t1 (int n)) = mset (elements t (int n)) \<and>
    sorted_wrt (\<lambda>x y. \<not> lt y x) (elements t1 (int n)) \<and>
    (\<forall>j. good_key j \<longrightarrow> (\<forall>k \<in> {1..int n}. \<not> luaO_rawequalObj j (TNumber (cast_num k))) \<longrightarrow> lua_rawget t1 j = lua_rawget t j)"
proof -
  have so: "sortable S t 1 (int n)" using w n(2) s by (auto simp: sortable_def elements_def)
  have a: "aux_getn t = Inr (int n)" using n(1) by (simp add: aux_getn_def)
  obtain t1 where t1: "sort_table (n + 1) cmp t = Inr t1" "rearranged 1 (int n) t t1" "sorted_range lt t1 1 (int n)"
    using ordering.sort_ok [OF ordering.intro [OF o] so _ a, of "n + 1"] by auto
  have w1: "wf_table t1" using rearranged_wf [OF t1(2)] .
  have "lua_rawget t1 j = lua_rawget t j" if j: "good_key j" "\<forall>k \<in> {1..int n}. \<not> keq j (TNumber (cast_num k))" for j
    using t1(2) j rawget_tget [OF w j(1)] rawget_tget [OF w1 j(1)] by (simp add: rearranged_def)
  then show ?thesis using t1(1) w1 rearranged_mset [OF t1(2) sortable_index [OF so]] elements_sorted [OF t1(3)] by (auto simp: elements_mset)
qed

text \<open>A list of strings.\<close>

definition names :: Table where
  "names = \<lparr>t_flags = 0, t_lsizenode = 0, t_array = [TStr ''b'', TStr ''a''], t_node = [dummynode], t_dummy = True, t_lastfree = 0\<rparr>"

theorem sort_sorts_witness:
  "\<exists>t1. sort_table 3 (luaV_lessthan strcmp (\<lambda>_ _ _. Inr None)) names = Inr t1 \<and> mset (elements t1 2) = {#TStr ''a'', TStr ''b''#} \<and>
     sorted_wrt (\<lambda>x y. \<not> str_less y x) (elements t1 2)"
proof -
  have w: "wf_table names" using empty_wf [of names] by (simp add: names_def sizenode_def MAXBITS_def MAXASIZE_def)
  have n: "luaH_getn names = Inr 2" by (simp add: luaH_getn_def names_def)
  have "geti names 1 = TStr ''b''" "geti names 2 = TStr ''a''" using idx_array [OF w, of 1] idx_array [OF w, of 2] by (simp_all add: geti_def names_def)
  then have e: "elements names 2 = [TStr ''b'', TStr ''a'']" by (simp add: elements_def upto_rec1)
  show ?thesis using sort_sorts [OF orders_strings [OF strcmp_c_locale] w n, of "\<lambda>_ _ _. Inr None"] e by (auto simp: add_mset_commute)
qed

end
