(* ===== verification/Lstring.thy ===== *)
theory Lstring
  imports Ltable
begin

unbundle bit_operations_syntax

text \<open>
  The table of all strings, \<open>liblua/src/lstring.c\<close>: every string is kept once, so that strings are equal if and only if their
  addresses are. Other theories rely on this when they have strings as values.

  The address of a string is its index in a list of objects, which only grows; a chain of strings, linked by their field \<open>next\<close>, is
  the list of their addresses. Allocation succeeds. A string that the collector found to be dead is marked as such.
\<close>

section \<open>Definitions\<close>

record tstring =
  ts_hash :: "32 word"
  ts_chars :: string
  ts_dead :: bool

record stringtable =
  st_hash :: "nat list list"
  st_nuse :: "32 word"
  st_objs :: "tstring list"
  st_sweeping :: bool

definition lmod :: "32 word \<Rightarrow> nat \<Rightarrow> nat" where
  "lmod s n = unat (s AND (of_nat n - 1))"

text \<open>The strings of a chain are put at the heads of their new chains, one after the other.\<close>

primrec move_chain :: "tstring list \<Rightarrow> nat list \<Rightarrow> nat list list \<Rightarrow> nat list list" where
  "move_chain objs [] newhash = newhash"
| "move_chain objs (p # ps) newhash =
     (let h1 = lmod (ts_hash (objs ! p)) (length newhash) in move_chain objs ps (newhash[h1 := p # newhash ! h1]))"

definition luaS_resize :: "stringtable \<Rightarrow> nat \<Rightarrow> stringtable" where
  "luaS_resize tb newsize =
     (if st_sweeping tb then tb
      else tb\<lparr>st_hash := fold (move_chain (st_objs tb)) (st_hash tb) (replicate newsize [])\<rparr>)"

definition sizeof_TString :: nat where "sizeof_TString = 24"

definition newlstr :: "stringtable \<Rightarrow> string \<Rightarrow> 32 word \<Rightarrow> (nat \<times> stringtable) lres" where
  "newlstr tb str h =
     (if int (length str + 1) > 2 ^ 64 - 3 - int sizeof_TString then Inl (Runtime ''memory allocation error: block too big'')
      else
        let ts = length (st_objs tb);
          i = lmod h (length (st_hash tb));
          tb1 = tb\<lparr>st_objs := st_objs tb @ [\<lparr>ts_hash = h, ts_chars = str, ts_dead = False\<rparr>],
                  st_hash := (st_hash tb)[i := ts # st_hash tb ! i],
                  st_nuse := st_nuse tb + 1\<rparr>;
          sz = length (st_hash tb1) in
        Inr (ts, if st_nuse tb1 > of_nat sz \<and> int sz \<le> MAX_INT div 2 then luaS_resize tb1 (sz * 2) else tb1))"

text \<open>The first string of a chain with the given contents.\<close>

definition find_string :: "tstring list \<Rightarrow> string \<Rightarrow> nat list \<Rightarrow> nat option" where
  "find_string objs str chain = List.find (\<lambda>p. ts_chars (objs ! p) = str) chain"

definition luaS_newlstr :: "stringtable \<Rightarrow> string \<Rightarrow> (nat \<times> stringtable) lres" where
  "luaS_newlstr tb str =
     (let h = str_hash str in
      case find_string (st_objs tb) str (st_hash tb ! lmod h (length (st_hash tb))) of
        Some o1 \<Rightarrow> Inr (o1, if ts_dead (st_objs tb ! o1) then tb\<lparr>st_objs := (st_objs tb)[o1 := (st_objs tb ! o1)\<lparr>ts_dead := False\<rparr>]\<rparr> else tb)
      | None \<Rightarrow> newlstr tb str h)"

section \<open>The invariant\<close>

definition kept :: "stringtable \<Rightarrow> nat set" where
  "kept tb = (\<Union>c \<in> set (st_hash tb). set c)"

text \<open>Chains of valid strings with a position that their hash values prescribe.\<close>

definition placed_at :: "tstring list \<Rightarrow> nat list list \<Rightarrow> bool" where
  "placed_at objs hs \<longleftrightarrow> (\<forall>i < length hs. \<forall>p \<in> set (hs ! i). p < length objs \<and> lmod (ts_hash (objs ! p)) (length hs) = i)"

definition wf_strt :: "stringtable \<Rightarrow> bool" where
  "wf_strt tb \<longleftrightarrow> (\<exists>k \<le> 30. length (st_hash tb) = 2 ^ k) \<and> placed_at (st_objs tb) (st_hash tb) \<and>
     (\<forall>p \<in> kept tb. ts_hash (st_objs tb ! p) = str_hash (ts_chars (st_objs tb ! p))) \<and>
     (\<forall>p \<in> kept tb. \<forall>q \<in> kept tb. ts_chars (st_objs tb ! p) = ts_chars (st_objs tb ! q) \<longrightarrow> p = q) \<and>
     st_nuse tb = of_nat (sum_list (map length (st_hash tb)))"

lemma lmod_less: "k < 32 \<Longrightarrow> lmod h (2 ^ k) < 2 ^ k"
proof -
  assume k: "k < 32"
  have m: "of_nat (2 ^ k) - 1 = (mask k :: 32 word)" by (simp add: mask_eq_decr_exp)
  have "unat (h AND mask k) = unat (take_bit k h)" by (simp add: take_bit_eq_mask)
  also have "\<dots> < 2 ^ k" by (simp add: unsigned_take_bit_eq take_bit_nat_less_exp)
  finally show ?thesis unfolding lmod_def m .
qed

lemma chains_index: "x \<in> (\<Union>c \<in> set hs. set c) \<longleftrightarrow> (\<exists>i < length hs. x \<in> set (hs ! i))"
proof
  assume "x \<in> (\<Union>c \<in> set hs. set c)"
  then obtain c where c: "c \<in> set hs" "x \<in> set c" by blast
  then obtain i where "i < length hs" "c = hs ! i" using in_set_conv_nth [of c hs] by blast
  then show "\<exists>i < length hs. x \<in> set (hs ! i)" using c(2) by blast
qed (use nth_mem in blast)

lemma kept_index: "p \<in> kept tb \<longleftrightarrow> (\<exists>i < length (st_hash tb). p \<in> set (st_hash tb ! i))"
  unfolding kept_def by (rule chains_index)

section \<open>Resizing\<close>

lemma move_chain_ok:
  assumes k: "length hs = 2 ^ k" "k < 32"
  shows "placed_at objs hs \<Longrightarrow> \<forall>p \<in> set ps. p < length objs \<Longrightarrow> length hs = 2 ^ k \<Longrightarrow>
    placed_at objs (move_chain objs ps hs) \<and> length (move_chain objs ps hs) = length hs \<and>
    (\<Union>c \<in> set (move_chain objs ps hs). set c) = (\<Union>c \<in> set hs. set c) \<union> set ps \<and>
    sum_list (map length (move_chain objs ps hs)) = sum_list (map length hs) + length ps"
proof (induction ps arbitrary: hs)
  case (Cons p ps)
  let ?i = "lmod (ts_hash (objs ! p)) (length hs)"
  let ?h = "hs[?i := p # hs ! ?i]"
  have i: "?i < length hs" using lmod_less [OF k(2)] Cons.prems(3) by simp
  have p: "placed_at objs ?h" using Cons.prems(1,2) i by (auto simp: placed_at_def nth_list_update split: if_splits)
  have u: "(\<Union>c \<in> set ?h. set c) = insert p (\<Union>c \<in> set hs. set c)"
  proof (rule set_eqI)
    fix x
    have "(\<exists>j < length ?h. x \<in> set (?h ! j)) \<longleftrightarrow> x = p \<or> (\<exists>j < length hs. x \<in> set (hs ! j))"
      using i by (auto simp: nth_list_update split: if_splits)
    then show "x \<in> (\<Union>c \<in> set ?h. set c) \<longleftrightarrow> x \<in> insert p (\<Union>c \<in> set hs. set c)" using chains_index by (metis insert_iff)
  qed
  have s: "sum_list (map length ?h) = sum_list (map length hs) + 1"
  proof -
    have "map length ?h = (map length hs)[?i := length (hs ! ?i) + 1]" by (simp add: map_update)
    moreover have "sum_list ((map length hs)[?i := length (hs ! ?i) + 1]) = sum_list (map length hs) + (length (hs ! ?i) + 1) - length (hs ! ?i)"
      using i by (subst sum_list_update) simp_all
    ultimately show ?thesis by simp
  qed
  have l: "length ?h = 2 ^ k" using Cons.prems(3) by simp
  have "\<forall>p \<in> set ps. p < length objs" using Cons.prems(2) by simp
  from Cons.IH [OF p this l] show ?case by (simp add: Let_def u s)
qed simp

lemma fold_chains_ok:
  assumes k: "k < 32"
  shows "placed_at objs hs \<Longrightarrow> length hs = 2 ^ k \<Longrightarrow> \<forall>c \<in> set cs. \<forall>p \<in> set c. p < length objs \<Longrightarrow>
    placed_at objs (fold (move_chain objs) cs hs) \<and> length (fold (move_chain objs) cs hs) = 2 ^ k \<and>
    (\<Union>c \<in> set (fold (move_chain objs) cs hs). set c) = (\<Union>c \<in> set hs. set c) \<union> (\<Union>c \<in> set cs. set c) \<and>
    sum_list (map length (fold (move_chain objs) cs hs)) = sum_list (map length hs) + sum_list (map length cs)"
proof (induction cs arbitrary: hs)
  case (Cons c cs)
  have "\<forall>p \<in> set c. p < length objs" using Cons.prems(3) by simp
  note m = move_chain_ok [OF Cons.prems(2) k Cons.prems(1) this Cons.prems(2)]
  have "placed_at objs (move_chain objs c hs)" "length (move_chain objs c hs) = 2 ^ k" "\<forall>c \<in> set cs. \<forall>p \<in> set c. p < length objs"
    using m Cons.prems(2,3) by simp_all
  from Cons.IH [OF this] m show ?case by auto
qed simp

lemma placed_valid: "placed_at objs hs \<Longrightarrow> \<forall>c \<in> set hs. \<forall>p \<in> set c. p < length objs"
  by (auto simp: placed_at_def in_set_conv_nth [of _ hs])

lemma resize_wf:
  assumes w: "wf_strt tb" and k: "k \<le> 30"
  shows "wf_strt (luaS_resize tb (2 ^ k)) \<and> kept (luaS_resize tb (2 ^ k)) = kept tb \<and> st_objs (luaS_resize tb (2 ^ k)) = st_objs tb"
proof (cases "st_sweeping tb")
  case True
  then show ?thesis using w by (simp add: luaS_resize_def)
next
  case False
  have "k < 32" using k by simp
  moreover have "placed_at (st_objs tb) (replicate (2 ^ k) [])" by (simp add: placed_at_def)
  moreover have "\<forall>c \<in> set (st_hash tb). \<forall>p \<in> set c. p < length (st_objs tb)"
    using placed_valid [of "st_objs tb" "st_hash tb"] w by (simp add: wf_strt_def)
  ultimately have f: "placed_at (st_objs tb) (st_hash (luaS_resize tb (2 ^ k)))" "length (st_hash (luaS_resize tb (2 ^ k))) = 2 ^ k"
    "kept (luaS_resize tb (2 ^ k)) = kept tb" "sum_list (map length (st_hash (luaS_resize tb (2 ^ k)))) = sum_list (map length (st_hash tb))"
    using fold_chains_ok [of k "st_objs tb" "replicate (2 ^ k) []" "st_hash tb"] False
    by (simp_all add: luaS_resize_def kept_def sum_list_replicate)
  have o: "st_objs (luaS_resize tb (2 ^ k)) = st_objs tb" "st_nuse (luaS_resize tb (2 ^ k)) = st_nuse tb" by (simp_all add: luaS_resize_def)
  show ?thesis using w f k unfolding wf_strt_def o f(3) by auto
qed

section \<open>Interning\<close>

text \<open>What a string is at an address, if there is one.\<close>

definition contents :: "stringtable \<Rightarrow> nat \<Rightarrow> string option" where
  "contents tb p = (if p \<in> kept tb then Some (ts_chars (st_objs tb ! p)) else None)"

lemma find_string_ok:
  assumes w: "wf_strt tb"
  shows "case find_string (st_objs tb) str (st_hash tb ! lmod (str_hash str) (length (st_hash tb))) of
    Some p \<Rightarrow> contents tb p = Some str | None \<Rightarrow> \<forall>p. contents tb p \<noteq> Some str"
proof -
  let ?i = "lmod (str_hash str) (length (st_hash tb))"
  obtain k where k: "k \<le> 30" "length (st_hash tb) = 2 ^ k" using w by (auto simp: wf_strt_def)
  have i: "?i < length (st_hash tb)" using k lmod_less [of k] by simp
  show ?thesis
  proof (cases "find_string (st_objs tb) str (st_hash tb ! ?i)")
    case None
    have "ts_chars (st_objs tb ! p) \<noteq> str" if p: "p \<in> kept tb" for p
    proof
      assume e: "ts_chars (st_objs tb ! p) = str"
      obtain j where j: "j < length (st_hash tb)" "p \<in> set (st_hash tb ! j)" using p kept_index by blast
      then have "j = lmod (ts_hash (st_objs tb ! p)) (length (st_hash tb))" using w by (auto simp: wf_strt_def placed_at_def)
      then have "j = ?i" using w p e by (simp add: wf_strt_def)
      then show False using None j(2) e by (auto simp: find_string_def find_None_iff)
    qed
    then show ?thesis using None by (simp add: contents_def)
  next
    case (Some p)
    then have "ts_chars (st_objs tb ! p) = str" "p \<in> set (st_hash tb ! ?i)" by (auto simp: find_string_def find_Some_iff)
    then show ?thesis using Some i kept_index by (auto simp: contents_def)
  qed
qed

lemma add_string_ok:
  assumes w: "wf_strt tb" and n: "\<forall>p. contents tb p \<noteq> Some str"
  defines "i \<equiv> lmod (str_hash str) (length (st_hash tb))"
  defines "tb1 \<equiv> tb\<lparr>st_objs := st_objs tb @ [\<lparr>ts_hash = str_hash str, ts_chars = str, ts_dead = False\<rparr>],
     st_hash := (st_hash tb)[i := length (st_objs tb) # st_hash tb ! i], st_nuse := st_nuse tb + 1\<rparr>"
  shows "wf_strt tb1 \<and> kept tb1 = insert (length (st_objs tb)) (kept tb) \<and> contents tb1 (length (st_objs tb)) = Some str \<and>
    (\<forall>p \<in> kept tb. contents tb1 p = contents tb p)"
proof -
  let ?a = "length (st_objs tb)"
  obtain k where k: "k \<le> 30" "length (st_hash tb) = 2 ^ k" using w by (auto simp: wf_strt_def)
  have i: "i < length (st_hash tb)" using k lmod_less [of k] by (simp add: i_def)
  have valid: "p < ?a" if "p \<in> kept tb" for p using that w placed_valid by (auto simp: wf_strt_def kept_def)
  have old: "st_objs tb1 ! p = st_objs tb ! p" if "p < ?a" for p using that by (simp add: tb1_def nth_append)
  have new: "st_objs tb1 ! ?a = \<lparr>ts_hash = str_hash str, ts_chars = str, ts_dead = False\<rparr>" by (simp add: tb1_def)
  have pl: "placed_at (st_objs tb) (st_hash tb)" using w by (simp add: wf_strt_def)
  have len: "length (st_objs tb1) = Suc ?a" by (simp add: tb1_def)
  have pl1: "placed_at (st_objs tb1) (st_hash tb)" using pl old by (auto simp: placed_at_def len intro: less_SucI)
  have "\<forall>p \<in> set [?a]. p < length (st_objs tb1)" by (simp add: tb1_def)
  moreover have "move_chain (st_objs tb1) [?a] (st_hash tb) = st_hash tb1" using new by (simp add: tb1_def i_def Let_def)
  ultimately have m: "placed_at (st_objs tb1) (st_hash tb1)" "length (st_hash tb1) = length (st_hash tb)"
    "kept tb1 = insert ?a (kept tb)" "sum_list (map length (st_hash tb1)) = sum_list (map length (st_hash tb)) + 1"
    using move_chain_ok [OF k(2) _ pl1 _ k(2), of "[?a]"] k(1) by (auto simp: kept_def)
  have c: "contents tb1 p = contents tb p" if "p \<in> kept tb" for p using that old [OF valid [OF that]] m(3) by (simp add: contents_def)
  have "ts_chars (st_objs tb ! p) \<noteq> str" if "p \<in> kept tb" for p using n [rule_format, of p] that by (simp add: contents_def)
  then have "wf_strt tb1" using w k m old new valid unfolding wf_strt_def by (auto simp: tb1_def)
  then show ?thesis using m(3) c new by (simp add: contents_def)
qed

text \<open>Interning returns an address with the string, and all strings stay where they are.\<close>

lemma newlstr_interns:
  assumes w: "wf_strt tb" and l: "int (length str) \<le> 2 ^ 64 - 4 - int sizeof_TString"
  shows "\<exists>p tb1. luaS_newlstr tb str = Inr (p, tb1) \<and> wf_strt tb1 \<and> contents tb1 p = Some str \<and> \<not> ts_dead (st_objs tb1 ! p) \<and>
    (\<forall>q \<in> kept tb. contents tb1 q = contents tb q)"
proof -
  let ?c = "st_hash tb ! lmod (str_hash str) (length (st_hash tb))"
  note f = find_string_ok [OF w, of str]
  show ?thesis
  proof (cases "find_string (st_objs tb) str ?c")
    case (Some p)
    then have p: "contents tb p = Some str" using f by simp
    define tb1 where "tb1 = (if ts_dead (st_objs tb ! p) then tb\<lparr>st_objs := (st_objs tb)[p := (st_objs tb ! p)\<lparr>ts_dead := False\<rparr>]\<rparr> else tb)"
    have e: "luaS_newlstr tb str = Inr (p, tb1)" using Some by (simp add: luaS_newlstr_def Let_def tb1_def)
    have k: "p \<in> kept tb" "ts_chars (st_objs tb ! p) = str" using p by (auto simp: contents_def split: if_splits)
    have v: "p < length (st_objs tb)" using k(1) w placed_valid [of "st_objs tb" "st_hash tb"] by (auto simp: wf_strt_def kept_def)
    have h: "st_hash tb1 = st_hash tb" "st_nuse tb1 = st_nuse tb" "kept tb1 = kept tb" "length (st_objs tb1) = length (st_objs tb)"
      by (simp_all add: tb1_def kept_def)
    have nth: "st_objs tb1 ! q = (if q = p \<and> ts_dead (st_objs tb ! p) then (st_objs tb ! p)\<lparr>ts_dead := False\<rparr> else st_objs tb ! q)" for q
    proof (cases "q = p")
      case True
      then show ?thesis using v by (simp add: tb1_def)
    next
      case False
      then show ?thesis by (simp add: tb1_def)
    qed
    have same: "ts_chars (st_objs tb1 ! q) = ts_chars (st_objs tb ! q)" "ts_hash (st_objs tb1 ! q) = ts_hash (st_objs tb ! q)" for q
      by (simp_all add: nth)
    have "wf_strt tb1" using w unfolding wf_strt_def placed_at_def h same .
    moreover have "contents tb1 q = contents tb q" for q by (simp add: contents_def h same)
    moreover have "\<not> ts_dead (st_objs tb1 ! p)" using v by (auto simp: tb1_def)
    ultimately show ?thesis using e p by auto
  next
    case None
    then have n: "\<forall>p. contents tb p \<noteq> Some str" using f by simp
    define tb1 where "tb1 = tb\<lparr>st_objs := st_objs tb @ [\<lparr>ts_hash = str_hash str, ts_chars = str, ts_dead = False\<rparr>],
      st_hash := (st_hash tb)[lmod (str_hash str) (length (st_hash tb)) := length (st_objs tb) # ?c], st_nuse := st_nuse tb + 1\<rparr>"
    have a: "wf_strt tb1" "contents tb1 (length (st_objs tb)) = Some str" "\<And>p. p \<in> kept tb \<Longrightarrow> contents tb1 p = contents tb p"
      using add_string_ok [OF w n] by (simp_all add: tb1_def)
    define big where "big \<longleftrightarrow> st_nuse tb1 > of_nat (length (st_hash tb1)) \<and> int (length (st_hash tb1)) \<le> MAX_INT div 2"
    define tb2 where "tb2 = (if big then luaS_resize tb1 (length (st_hash tb1) * 2) else tb1)"
    have e: "luaS_newlstr tb str = Inr (length (st_objs tb), tb2)"
      using None l by (simp add: luaS_newlstr_def newlstr_def Let_def tb2_def tb1_def big_def)
    obtain k where k: "length (st_hash tb1) = 2 ^ k" "k \<le> 30" using a(1) by (auto simp: wf_strt_def)
    have "wf_strt tb2 \<and> kept tb2 = kept tb1 \<and> st_objs tb2 = st_objs tb1"
    proof (cases big)
      case True
      have "k \<noteq> 30"
      proof
        assume "k = 30"
        then show False using True k(1) by (simp add: big_def MAX_INT_def)
      qed
      then have "length (st_hash tb1) * 2 = 2 ^ Suc k" "Suc k \<le> 30" using k by simp_all
      then show ?thesis using resize_wf [OF a(1), of "Suc k"] True by (simp add: tb2_def mult.commute)
    next
      case False
      then show ?thesis using a(1) by (simp add: tb2_def)
    qed
    moreover from this have "contents tb2 p = contents tb1 p" for p by (simp add: contents_def)
    moreover have "\<not> ts_dead (st_objs tb1 ! length (st_objs tb))" by (simp add: tb1_def)
    ultimately show ?thesis using e a by auto
  qed
qed

lemma contents_unique: "wf_strt tb \<Longrightarrow> contents tb p = Some s \<Longrightarrow> contents tb q = Some s \<Longrightarrow> p = q"
  by (auto simp: wf_strt_def contents_def split: if_splits)

section \<open>The interface\<close>

text \<open>Interning a sequence of strings.\<close>

primrec interns :: "('t \<Rightarrow> 's \<Rightarrow> ('p \<times> 't) lres) \<Rightarrow> 's list \<Rightarrow> 't \<Rightarrow> ('p list \<times> 't) lres" where
  "interns put [] tb = Inr ([], tb)"
| "interns put (s # ss) tb = ebind (put tb s) (\<lambda>(p, tb1). ebind (interns put ss tb1) (\<lambda>(ps, tb2). Inr (p # ps, tb2)))"

locale interner =
  fixes inv :: "'t \<Rightarrow> bool" and good :: "'s \<Rightarrow> bool" and at :: "'t \<Rightarrow> 'p \<Rightarrow> 's option" and put :: "'t \<Rightarrow> 's \<Rightarrow> ('p \<times> 't) lres"
  assumes put_ok: "inv tb \<Longrightarrow> good s \<Longrightarrow> \<exists>p tb1. put tb s = Inr (p, tb1) \<and> inv tb1 \<and> at tb1 p = Some s \<and>
      (\<forall>q x. at tb q = Some x \<longrightarrow> at tb1 q = Some x)"
    and unique: "inv tb \<Longrightarrow> at tb p = Some s \<Longrightarrow> at tb q = Some s \<Longrightarrow> p = q"
begin

lemma interns_ok:
  "inv tb \<Longrightarrow> \<forall>s \<in> set ss. good s \<Longrightarrow> \<exists>ps tb1. interns put ss tb = Inr (ps, tb1) \<and> inv tb1 \<and> map (at tb1) ps = map Some ss \<and>
    (\<forall>q x. at tb q = Some x \<longrightarrow> at tb1 q = Some x)"
proof (induction ss arbitrary: tb)
  case (Cons s ss)
  obtain p tb1 where p: "put tb s = Inr (p, tb1)" "inv tb1" "at tb1 p = Some s" "\<And>q x. at tb q = Some x \<Longrightarrow> at tb1 q = Some x"
    using put_ok [OF Cons.prems(1), of s] Cons.prems(2) by auto
  have "\<forall>s \<in> set ss. good s" using Cons.prems(2) by simp
  from Cons.IH [OF p(2) this] obtain ps tb2 where r: "interns put ss tb1 = Inr (ps, tb2)" "inv tb2" "map (at tb2) ps = map Some ss"
    "\<And>q x. at tb1 q = Some x \<Longrightarrow> at tb2 q = Some x" by blast
  then show ?case using p by simp
qed simp

lemma interns_equal:
  assumes "inv tb" "\<forall>s \<in> set ss. good s"
  shows "\<exists>ps tb1. interns put ss tb = Inr (ps, tb1) \<and> inv tb1 \<and> length ps = length ss \<and>
    (\<forall>i < length ss. \<forall>j < length ss. ps ! i = ps ! j \<longleftrightarrow> ss ! i = ss ! j)"
proof -
  obtain ps tb1 where r: "interns put ss tb = Inr (ps, tb1)" "inv tb1" "map (at tb1) ps = map Some ss" using interns_ok [OF assms] by blast
  have l: "length ps = length ss" using r(3) by (rule map_eq_imp_length_eq)
  have a: "at tb1 (ps ! i) = Some (ss ! i)" if "i < length ss" for i using arg_cong [OF r(3), of "\<lambda>xs. xs ! i"] that l by simp
  have "ps ! i = ps ! j \<longleftrightarrow> ss ! i = ss ! j" if ij: "i < length ss" "j < length ss" for i j
    using a [OF ij(1)] a [OF ij(2)] unique [OF r(2)] by (metis option.inject)
  then show ?thesis using r(1,2) l by blast
qed

end

text \<open>A string whose size can be computed.\<close>

definition fits_string :: "string \<Rightarrow> bool" where
  "fits_string s \<longleftrightarrow> int (length s) \<le> 2 ^ 64 - 4 - int sizeof_TString"

interpretation strt: interner wf_strt fits_string contents luaS_newlstr
proof unfold_locales
  fix tb s assume w: "wf_strt tb" and "fits_string s"
  then obtain p tb1 where r: "luaS_newlstr tb s = Inr (p, tb1)" "wf_strt tb1" "contents tb1 p = Some s" "\<And>q. q \<in> kept tb \<Longrightarrow> contents tb1 q = contents tb q"
    using newlstr_interns [OF w, of s] by (auto simp: fits_string_def)
  have "contents tb1 q = Some x" if "contents tb q = Some x" for q x using r(4) [of q] that by (auto simp: contents_def split: if_splits)
  then show "\<exists>p tb1. luaS_newlstr tb s = Inr (p, tb1) \<and> wf_strt tb1 \<and> contents tb1 p = Some s \<and>
      (\<forall>q x. contents tb q = Some x \<longrightarrow> contents tb1 q = Some x)" using r(1-3) by blast
qed (rule contents_unique)

section \<open>Properties\<close>

text \<open>C39. Strings are interned: of any strings that \<open>luaS_newlstr\<close> makes one after the other, two have the same address if and only if they have the same contents,
  whether the table was enlarged in between or not.\<close>

theorem strings_interned:
  assumes "wf_strt tb" "\<forall>s \<in> set ss. fits_string s"
  shows "\<exists>ps tb1. interns luaS_newlstr ss tb = Inr (ps, tb1) \<and> wf_strt tb1 \<and> length ps = length ss \<and>
    (\<forall>i < length ss. \<forall>j < length ss. ps ! i = ps ! j \<longleftrightarrow> ss ! i = ss ! j)"
  by (rule strt.interns_equal [OF assms])

theorem strings_interned_witness:
  "\<exists>ps tb1. interns luaS_newlstr [''a'', ''b'', ''a''] \<lparr>st_hash = [[], []], st_nuse = 0, st_objs = [], st_sweeping = False\<rparr> = Inr (ps, tb1) \<and>
     length ps = 3 \<and> ps ! 0 = ps ! 2 \<and> ps ! 0 \<noteq> ps ! 1"
proof -
  let ?tb = "\<lparr>st_hash = [[], []], st_nuse = 0, st_objs = [], st_sweeping = False\<rparr>"
  have "wf_strt ?tb" by (auto simp: wf_strt_def placed_at_def kept_def less_Suc_eq numeral_2_eq_2 intro: exI [of _ 1])
  moreover have "\<forall>s \<in> set [''a'', ''b'', ''a'']. fits_string s" by (simp add: fits_string_def sizeof_TString_def)
  ultimately show ?thesis using strings_interned [of ?tb "[''a'', ''b'', ''a'']"] by fastforce
qed

end
