(* ===== verification/Spec2Isabelle.thy ===== *)
theory Spec2Isabelle
  imports Prelude Buf Linked_List Log Cf Interpreter Value Att Pathcomp Iterate Mkdir Build Standalone
    Lopcodes Lobject Ldebug Lzio Lundump Lpattern Lmatch Lstrlib Llex Lformat
    Lnumber Ltable Lhash Linsert Lrehash Lresize Lsizes Lmap Lborder Lnext Lcompare Ltablib Lsort Lstring
begin

text \<open>
  A verification development for Libpathcomp, a C library that composes pathnames from attributes, and for
  parts of the Lua interpreter that it carries in \<open>liblua\<close>.

  \<^bold>\<open>The program.\<close> A configuration text (\<open>src/cf.c\<close>) has sections of \<open>key = value\<close> lines. A composer
  (\<open>src/pathcomp.c\<close>) is made from the section of its name and the sections that it copies from. It has
  attributes (\<open>src/att.c\<close>), each with a list of alternative values (\<open>src/value.c\<close>): strings, integers, or Lua code, which
  is run on demand in a shared interpreter (\<open>src/interpreter.c\<close>) and may read other attributes of the composer. The
  pathname is the value of \<open>root\<close>, a slash, and the value of \<open>compose\<close>; a composer can be iterated over
  all combinations of alternatives, searched for an existing file, and asked to create directories. The program
  \<open>src/standalone.c\<close> does so from the command line. All of it rests on growable buffers (\<open>src/buf.c\<close>), linked lists
  (\<open>src/list.c\<close>) and a log (\<open>src/log.c\<close>).

  \<^bold>\<open>How C is modelled.\<close> Every function is a HOL function on the state that it reads and changes; it returns a
  value of type \<open>'a res\<close>, which is \<open>Inl\<close> when the C code fails an assertion or does something undefined (an access
  outside a block, a null pointer, a string used after it was freed), so that \<open>\<exists>x. f s = Inr x\<close> states safety.
  Sizes are words of 64 bits, \<open>int\<close> is a word of 32 bits where it may wrap. Loops are recursive functions with a termination
  proof; those that need not end (\<open>pathcomp_find\<close>, \<open>main_loop\<close>, the walks through linked lists) are partial functions into
  \<open>option\<close>, and that they return is a theorem. The recursion of copy-from takes the depth as fuel: where copying is not
  circular, a depth above the longest chain of copies is enough, and where it is, no depth is. The functions of the Lua sources return \<open>'a lres\<close>,
  which distinguishes errors that Lua raises from faults of the C code; \<open>nofault r P\<close> says that there is no fault and a value satisfies \<open>P\<close>.

  \<^bold>\<open>Theories of the library.\<close>
  \<^item> \<open>Prelude\<close>: outcomes, characters, blocks of memory, shared lemmas.
  \<^item> \<open>Buf\<close>: \<open>buf.c\<close> on blocks with indeterminate bytes. An invariant that every operation keeps, the text a buffer
    holds after each of them, growth although its formula wraps; the contract \<open>text_buffer\<close>, interpreted on \<open>buf_addstr\<close> and
    \<open>buf_addf\<close>.
  \<^item> \<open>Linked_List\<close>: \<open>list.c\<close> on a heap of nodes, with the contract \<open>list_contract\<close>. The other theories use
    HOL lists for the lists of the library.
  \<^item> \<open>Log\<close>: \<open>log.c\<close>.
  \<^item> \<open>Cf\<close>: \<open>cf.c\<close>, refined to a grammar on strings; printing and parsing.
  \<^item> \<open>Interpreter\<close>: the process state that the library shares (interpreter, its stack, log, stamps of allocated strings). The
    interpreter is a parameter: what a chunk does is an interaction that may read fields of its argument
    any number of times before it ends.
  \<^item> \<open>Value\<close> and \<open>Att\<close>: \<open>value.c\<close> and \<open>att.c\<close>. Results of Lua code are strings with a stamp, so that a
    use after free is visible. The contract \<open>value_slot\<close> states what evaluation needs of the place a value is
    kept in, and \<open>cursor\<close> what iteration needs of an attribute; the theorem that an odometer of cursors goes through all
    combinations is proved in it.
  \<^item> \<open>Pathcomp\<close>: the functions of \<open>pathcomp.c\<close>. Its theorems are in \<open>Iterate\<close> (iteration, evaluation, search, pathnames),
    \<open>Mkdir\<close> (which directories are made, and in which order) and \<open>Build\<close> (which attributes a composer gets
    from a configuration; setting, adding, cloning; the invariant of all composers that the interface can reach).
  \<^item> \<open>Standalone\<close>: the command line and the main loop of the program.

  \<^bold>\<open>Theories of the Lua sources\<close> (version 5.1, on a machine with 64 bits and little-endian numbers).
  \<^item> \<open>Lopcodes\<close>, \<open>Lobject\<close>: instructions as words of 32 bits, prototypes, the functions on sizes and chunk names.
  \<^item> \<open>Ldebug\<close>: the checker of loaded code. Code that it accepts keeps control inside the code, if the
    operand C of \<open>LOADBOOL\<close> is at most one; a counterexample shows that the checker lets other operands pass.
  \<^item> \<open>Lzio\<close>, \<open>Lundump\<close>: streams, dumping and loading of binary chunks: a round trip for every split of the input
    into blocks, and safety on any bytes. The contract \<open>char_stream\<close> is what a reader of characters relies on.
  \<^item> \<open>Lpattern\<close>, \<open>Lmatch\<close>, \<open>Lstrlib\<close>, \<open>Lformat\<close>: the string library. The backtracking matcher reads inside its strings,
    ends, and decides the relation \<open>mt\<close>, which says what a pattern can match; \<open>find\<close> returns the leftmost match,
    \<open>gmatch\<close> ends, \<open>gsub\<close> with the replacement \<open>%0\<close> returns its subject; \<open>format\<close> stays inside its buffers.
  \<^item> \<open>Llex\<close>: the lexical analyser, on the characters that a stream delivers. It is safe on any text, every token consumes something,
    names and reserved words are told apart, and strings that \<open>format\<close> quotes are read back.
  \<^item> \<open>Lnumber\<close>, \<open>Ltable\<close>: doubles as words of 64 bits, as far as keys need them, and \<open>ltable.c\<close>: array part, hash part with chains and
    Brent's variation, rehashing, traversal. Nodes are known by their index, the address of a value is a \<open>slot\<close>. The recursion between \<open>newkey\<close> and \<open>rehash\<close> has fuel,
    of which two units are enough, since a rehash leaves room for what is inserted; the walks along chains have the number of nodes as fuel.
    \<open>Lhash\<close> has the invariant and searching, \<open>Linsert\<close> the three ways to place a new key, \<open>Lrehash\<close> and \<open>Lresize\<close> that all entries survive when
    they are inserted again, \<open>Lsizes\<close> the counts and the optimal size of the array part. In \<open>Lmap\<close> the contract \<open>key_map\<close> states what clients rely on,
    and gives that a lookup returns the value last assigned; \<open>Lborder\<close> has the length operator, \<open>Lnext\<close> traversal.
  \<^item> \<open>Lcompare\<close>, \<open>Ltablib\<close>, \<open>Lsort\<close>: the comparison of numbers and strings in \<open>lvm.c\<close>, and of \<open>ltablib.c\<close> the functions that insert, remove and sort. The contract
    \<open>ordering\<close> is what sorting relies on in an order function; the order of the virtual machine fulfils it on numbers and on strings. Sorting has fuel, since it
    may go on for ever with a function that is no order; for an order, one unit more than there are elements is enough.
  \<^item> \<open>Lstring\<close>: the string table of \<open>lstring.c\<close>, with an invariant that interning and resizing keep. The contract \<open>interner\<close> gives that strings
    have the same address exactly if they have the same contents, by which the other theories have strings as values.

  \<^bold>\<open>Parameters.\<close> Of the libraries underneath: the results of system calls (\<open>read\<close>, \<open>stat\<close>, \<open>mkdir\<close>), the numeric
  conversions of \<open>sprintf\<close> and \<open>strtod\<close>, whether a block of a given size can be allocated (in \<open>Lundump\<close>; elsewhere allocation
  succeeds, as the code assumes, too). Of the interpreter, where a component is modelled and what it calls is not: the meaning
  of chunks, the conversion of values to strings and numbers, the room on the stack.

  \<^bold>\<open>Not modelled.\<close> The compiler, the virtual machine except for comparison, the garbage collector, the C interface and the other libraries
  of Lua: they work on one heap of mutable objects, on which the composer library depends only through the few
  calls that \<open>Interpreter\<close> has as parameters. In the modelled parts: metatables, and keys that the collector has marked as dead (\<open>findindex\<close> recognises them, but the invariant of tables
  excludes them); the functions that only free memory of configurations
  and options, replacing the log routines, and the text that Lua's errors add to their messages. The tests and the build files
  have no logic of the program.
\<close>

end
